(* ===== verification/Prelude.thy ===== *)
theory Prelude
  imports Complex_Main "HOL-Library.Word" "HOL-Library.Multiset" "HOL-Library.AList"
    "HOL-Library.Char_ord" "HOL-Library.List_Lexorder" "HOL-Library.Signed_Division"
begin

text \<open>
  Shared vocabulary of the development: Go's 64-bit integers, its clock values, its slices
  sorted by a comparison function, and its maps.

  \<^item> An \<open>int64\<close> (and a \<open>time.Duration\<close>, which is one, in nanoseconds) is an \<open>int\<close> that every
    arithmetic operation wraps with \<open>wrap64\<close>; \<open>wrap64_sint\<close> ties it to the library's 64-bit word.
  \<^item> A \<open>time.Time\<close> is an \<open>int\<close>: nanoseconds since Go's zero time, so \<open>IsZero\<close> is equality with 0.
    \<open>Sub\<close> saturates at the bounds of a duration, as the standard library documents.
  \<^item> A Go map that is iterated or measured is an association list with distinct keys
    (\<open>HOL-Library.AList\<close>); one that is only looked up in is a partial function.
  \<^item> \<open>go_sort\<close> is the insertion sort that Go's \<open>sort.Slice\<close> runs on up to twelve elements and
    \<open>sort.SliceStable\<close> on up to twenty.  On longer slices the algorithm differs, but
    \<open>go_sort_unique\<close> shows that any sort gives the same list when the comparison is a strict
    total order on the elements.
\<close>

named_theorems model_defs "definitions the component proofs unfold"

section \<open>64-bit integers\<close>

definition wrap64 :: "int \<Rightarrow> int" where
  "wrap64 x = (x + 2 ^ 63) mod 2 ^ 64 - 2 ^ 63"

definition in_i64 :: "int \<Rightarrow> bool" where
  "in_i64 x \<longleftrightarrow> - (2 ^ 63) \<le> x \<and> x < 2 ^ 63"

definition i64_add :: "int \<Rightarrow> int \<Rightarrow> int" where
  "i64_add a b = wrap64 (a + b)"

definition i64_sub :: "int \<Rightarrow> int \<Rightarrow> int" where
  "i64_sub a b = wrap64 (a - b)"

definition i64_mul :: "int \<Rightarrow> int \<Rightarrow> int" where
  "i64_mul a b = wrap64 (a * b)"

text \<open>Go's integer division truncates towards zero; every divisor of the model is not 0.\<close>

definition i64_div :: "int \<Rightarrow> int \<Rightarrow> int" where
  "i64_div a b = wrap64 (a sdiv b)"

lemma wrap64_id [simp]: "in_i64 x \<Longrightarrow> wrap64 x = x"
  by (simp add: wrap64_def in_i64_def)

lemma wrap64_range [simp]: "in_i64 (wrap64 x)"
proof -
  have "0 \<le> (x + 2 ^ 63) mod 2 ^ 64" and "(x + 2 ^ 63) mod 2 ^ 64 < 2 ^ 64"
    by simp_all
  then show ?thesis by (simp add: wrap64_def in_i64_def)
qed

lemma wrap64_sint: "wrap64 x = sint (word_of_int x :: 64 word)"
  by (simp add: wrap64_def signed_take_bit_eq_take_bit_shift sint_sbintrunc' take_bit_eq_mod)

lemma in_i64_mono: "in_i64 b \<Longrightarrow> 0 \<le> a \<Longrightarrow> a \<le> b \<Longrightarrow> in_i64 a"
  by (simp add: in_i64_def)

lemma sdiv_nonneg: "0 \<le> (a::int) \<Longrightarrow> 0 \<le> b \<Longrightarrow> a sdiv b = a div b"
  by (cases "a = 0"; cases "b = 0") (simp_all add: signed_divide_int_def sgn_if)

section \<open>Clock values and durations\<close>

type_synonym duration = int
type_synonym gotime = int

definition zero_time :: gotime where
  "zero_time = 0"

definition time_sub :: "gotime \<Rightarrow> gotime \<Rightarrow> duration" where
  "time_sub a b = max (- (2 ^ 63)) (min (2 ^ 63 - 1) (a - b))"

definition time_add :: "gotime \<Rightarrow> duration \<Rightarrow> gotime" where
  "time_add t d = t + d"

definition nanosecond :: duration where
  "nanosecond = 1"

definition millisecond :: duration where
  "millisecond = 1000000"

definition second :: duration where
  "second = 1000000000"

definition minute :: duration where
  "minute = 60 * second"

definition hour :: duration where
  "hour = 60 * minute"

lemmas duration_defs =
  nanosecond_def millisecond_def second_def minute_def hour_def

lemma time_sub_range: "in_i64 (time_sub a b)"
  by (simp add: time_sub_def in_i64_def)

lemma time_sub_exact: "in_i64 (a - b) \<Longrightarrow> time_sub a b = a - b"
  by (auto simp: time_sub_def in_i64_def max_def min_def)

lemma time_sub_less_iff:
  "in_i64 d \<Longrightarrow> 0 < d \<Longrightarrow> time_sub a b < d \<longleftrightarrow> a < b + d"
  by (auto simp: time_sub_def in_i64_def max_def min_def)

lemma time_sub_mono: "a \<le> a' \<Longrightarrow> time_sub a b \<le> time_sub a' b"
  by (auto simp: time_sub_def max_def min_def)

section \<open>The doubling loop of the back-off code\<close>

text \<open>
  Three places of the reconcile packages share one loop, written
  \<^verbatim>\<open>for i := 0; i < n && d < limit; i++ { d *= 2 }\<close>.
\<close>

fun double_upto :: "nat \<Rightarrow> duration \<Rightarrow> duration \<Rightarrow> duration" where
  "double_upto 0 d limit = d"
| "double_upto (Suc n) d limit = (if d < limit then double_upto n (i64_mul d 2) limit else d)"

lemma i64_double:
  "0 < d \<Longrightarrow> d \<le> 2 ^ 62 - 1 \<Longrightarrow> i64_mul d 2 = 2 * d"
  by (simp add: i64_mul_def in_i64_def mult.commute)

text \<open>Below a limit of \<open>2 ^ 62\<close> no doubling wraps, and the loop followed by the cap is the
  capped power.\<close>

lemma double_upto_capped:
  assumes "0 < d" and "limit \<le> 2 ^ 62"
  shows "min limit (double_upto n d limit) = min limit (d * 2 ^ n)"
  using assms(1)
proof (induction n arbitrary: d)
  case 0
  then show ?case by simp
next
  case (Suc n)
  show ?case
  proof (cases "d < limit")
    case True
    with assms(2) Suc.prems have "i64_mul d 2 = 2 * d" by (intro i64_double) auto
    with True Suc.IH [of "2 * d"] Suc.prems show ?thesis by (simp add: mult_ac)
  next
    case False
    have "(1::int) \<le> 2 ^ Suc n" by (rule one_le_power) simp
    then have "d * 1 \<le> d * 2 ^ Suc n"
      using Suc.prems by (intro mult_left_mono) simp_all
    with False show ?thesis by simp
  qed
qed

lemma double_upto_pos:
  assumes "0 < d" and "limit \<le> 2 ^ 62"
  shows "0 < double_upto n d limit"
  using assms(1)
proof (induction n arbitrary: d)
  case 0
  then show ?case by simp
next
  case (Suc n)
  then show ?case using assms(2) i64_double [of d] by auto
qed

section \<open>Sorting by a comparison function\<close>

fun insert_back :: "('a \<Rightarrow> 'a \<Rightarrow> bool) \<Rightarrow> 'a \<Rightarrow> 'a list \<Rightarrow> 'a list" where
  "insert_back lt x [] = [x]"
| "insert_back lt x (y # ys) =
     (if lt x y then y # insert_back lt x ys else x # y # ys)"

text \<open>The prefix that is already sorted is kept reversed, since each new element is compared
  with the prefix from its end.\<close>

definition go_sort :: "('a \<Rightarrow> 'a \<Rightarrow> bool) \<Rightarrow> 'a list \<Rightarrow> 'a list" where
  "go_sort lt xs = rev (fold (insert_back lt) xs [])"

lemma mset_insert_back [simp]: "mset (insert_back lt x ys) = add_mset x (mset ys)"
  by (induction ys) auto

lemma mset_fold_insert_back: "mset (fold (insert_back lt) xs ys) = mset xs + mset ys"
  by (induction xs arbitrary: ys) auto

lemma mset_go_sort [simp]: "mset (go_sort lt xs) = mset xs"
  by (simp add: go_sort_def mset_fold_insert_back)

lemma set_go_sort [simp]: "set (go_sort lt xs) = set xs"
  by (metis mset_go_sort set_mset_mset)

lemma length_go_sort [simp]: "length (go_sort lt xs) = length xs"
  by (metis mset_go_sort size_mset)

lemma distinct_go_sort [simp]: "distinct (go_sort lt xs) = distinct xs"
  by (metis mset_go_sort mset_eq_imp_distinct_iff)

lemma go_sort_Nil [simp]: "go_sort lt [] = []"
  by (simp add: go_sort_def)

lemma go_sort_eq_Nil [simp]: "go_sort lt xs = [] \<longleftrightarrow> xs = []"
  by (metis length_go_sort length_0_conv)

lemma map_insert_back:
  "(\<And>x y. lt' (f x) (f y) = lt x y) \<Longrightarrow>
    map f (insert_back lt x ys) = insert_back lt' (f x) (map f ys)"
  by (induction ys) auto

text \<open>A comparison that a sort may be given: a strict weak order on the elements in play.\<close>

locale strict_weak =
  fixes lt :: "'a \<Rightarrow> 'a \<Rightarrow> bool" and carrier :: "'a set"
  assumes asym: "x \<in> carrier \<Longrightarrow> y \<in> carrier \<Longrightarrow> lt x y \<Longrightarrow> \<not> lt y x"
    and neg_trans: "x \<in> carrier \<Longrightarrow> y \<in> carrier \<Longrightarrow> z \<in> carrier \<Longrightarrow>
      \<not> lt x y \<Longrightarrow> \<not> lt y z \<Longrightarrow> \<not> lt x z"
begin

lemma sorted_insert_back:
  "insert x (set ys) \<subseteq> carrier \<Longrightarrow> sorted_wrt (\<lambda>a b. \<not> lt a b) ys \<Longrightarrow>
    sorted_wrt (\<lambda>a b. \<not> lt a b) (insert_back lt x ys)"
proof (induction ys)
  case Nil
  then show ?case by simp
next
  case (Cons y ys)
  have set_ins: "set (insert_back lt x ys) = insert x (set ys)"
    by (metis mset_insert_back set_mset_add_mset_insert set_mset_mset)
  show ?case
  proof (cases "lt x y")
    case True
    then have "\<not> lt y x" using Cons.prems asym by auto
    with True Cons set_ins show ?thesis by auto
  next
    case False
    have "\<not> lt x z" if "z \<in> set ys" for z
      using neg_trans [of x y z] that False Cons.prems by auto
    with False Cons show ?thesis by auto
  qed
qed

lemma sorted_fold_insert_back:
  "set xs \<union> set ys \<subseteq> carrier \<Longrightarrow> sorted_wrt (\<lambda>a b. \<not> lt a b) ys \<Longrightarrow>
    sorted_wrt (\<lambda>a b. \<not> lt a b) (fold (insert_back lt) xs ys)"
proof (induction xs arbitrary: ys)
  case Nil
  then show ?case by simp
next
  case (Cons x xs)
  have "set (insert_back lt x ys) = insert x (set ys)"
    by (metis mset_insert_back set_mset_add_mset_insert set_mset_mset)
  with Cons sorted_insert_back [of x ys] show ?case by auto
qed

lemma sorted_go_sort:
  "set xs \<subseteq> carrier \<Longrightarrow> sorted_wrt (\<lambda>a b. \<not> lt b a) (go_sort lt xs)"
  using sorted_fold_insert_back [of xs "[]"] by (simp add: go_sort_def sorted_wrt_rev)

text \<open>The first element of the sorted slice has nothing before it.\<close>

lemma go_sort_hd_least:
  assumes "set xs \<subseteq> carrier" and "y \<in> set xs"
  shows "\<not> lt y (hd (go_sort lt xs))"
proof -
  have ne: "go_sort lt xs \<noteq> []" using assms(2) by auto
  then obtain z zs where eq: "go_sort lt xs = z # zs" by (cases "go_sort lt xs") auto
  have "set (z # zs) = set xs" using eq set_go_sort [of lt xs] by simp
  then have y: "y = z \<or> y \<in> set zs" and z: "z \<in> carrier" using assms by auto
  from sorted_go_sort [OF assms(1)] eq have "\<forall>b\<in>set zs. \<not> lt b z" by simp
  with y z asym [of z z] eq show ?thesis by auto
qed

end

text \<open>If moreover two different elements always compare, every sorted rearrangement of a slice
  is the same list, whatever order and whatever algorithm produced it.\<close>

locale strict_total = strict_weak +
  assumes total: "x \<in> carrier \<Longrightarrow> y \<in> carrier \<Longrightarrow> x \<noteq> y \<Longrightarrow> lt x y \<or> lt y x"
begin

lemma sorted_unique:
  "set xs \<subseteq> carrier \<Longrightarrow> mset xs = mset ys \<Longrightarrow>
    sorted_wrt (\<lambda>a b. \<not> lt b a) xs \<Longrightarrow> sorted_wrt (\<lambda>a b. \<not> lt b a) ys \<Longrightarrow> xs = ys"
proof (induction xs arbitrary: ys)
  case Nil
  then show ?case by simp
next
  case (Cons x xs)
  then obtain y ys' where ys: "ys = y # ys'" by (cases ys) auto
  have sets: "set (x # xs) = set (y # ys')"
    using Cons.prems(2) ys by (metis set_mset_mset)
  have "x = y"
  proof (rule ccontr)
    assume "x \<noteq> y"
    with sets have "y \<in> set xs" and "x \<in> set ys'" by auto
    with Cons.prems ys have "\<not> lt y x" and "\<not> lt x y" by auto
    moreover have "y \<in> carrier" using Cons.prems(1) sets by auto
    ultimately show False using total [of x y] Cons.prems(1) \<open>x \<noteq> y\<close> by auto
  qed
  with Cons ys show ?case by auto
qed

lemma go_sort_unique:
  "set xs \<subseteq> carrier \<Longrightarrow> mset xs = mset ys \<Longrightarrow>
    sorted_wrt (\<lambda>a b. \<not> lt b a) ys \<Longrightarrow> go_sort lt xs = ys"
  by (rule sorted_unique) (simp_all add: sorted_go_sort)

lemma go_sort_perm:
  "set xs \<subseteq> carrier \<Longrightarrow> mset xs = mset ys \<Longrightarrow> go_sort lt xs = go_sort lt ys"
proof -
  assume "set xs \<subseteq> carrier" and "mset xs = mset ys"
  moreover from this have "set ys \<subseteq> carrier" by (metis set_mset_mset)
  ultimately show ?thesis by (intro go_sort_unique) (simp_all add: sorted_go_sort)
qed

end

section \<open>First match in a list\<close>

lemma find_first:
  "\<forall>y\<in>set pre. \<not> P y \<Longrightarrow> P x \<Longrightarrow> find P (pre @ x # post) = Some x"
  by (induction pre) auto

section \<open>Separated strings\<close>

lemma separator_eq_iff:
  "x \<notin> set a \<Longrightarrow> x \<notin> set b \<Longrightarrow> a @ x # s = b @ x # t \<longleftrightarrow> a = b \<and> s = t"
proof (induction a arbitrary: b)
  case Nil
  then show ?case by (cases b) auto
next
  case (Cons y a)
  then show ?case by (cases b) auto
qed

section \<open>Go maps as association lists\<close>

type_synonym ('k, 'v) gomap = "('k \<times> 'v) list"

abbreviation gm_keys :: "('k, 'v) gomap \<Rightarrow> 'k set" where
  "gm_keys m \<equiv> fst ` set m"

definition gm_ok :: "('k, 'v) gomap \<Rightarrow> bool" where
  "gm_ok m \<longleftrightarrow> distinct (map fst m)"

definition gm_retain :: "('k \<Rightarrow> bool) \<Rightarrow> ('k, 'v) gomap \<Rightarrow> ('k, 'v) gomap" where
  "gm_retain keep m = filter (\<lambda>(k, _). keep k) m"

lemma gm_ok_Nil [simp]: "gm_ok []"
  by (simp add: gm_ok_def)

lemma gm_ok_update [simp, intro]: "gm_ok m \<Longrightarrow> gm_ok (AList.update k v m)"
  by (simp add: gm_ok_def distinct_update)

lemma gm_ok_delete [simp, intro]: "gm_ok m \<Longrightarrow> gm_ok (AList.delete k m)"
  by (simp add: gm_ok_def distinct_delete)

lemma gm_ok_retain [simp, intro]: "gm_ok m \<Longrightarrow> gm_ok (gm_retain keep m)"
  by (induction m) (auto simp: gm_ok_def gm_retain_def)

lemma gm_lookup_update [simp]: "map_of (AList.update k v m) = (map_of m)(k \<mapsto> v)"
  by (rule update_conv')

lemma gm_lookup_delete [simp]: "map_of (AList.delete k m) = (map_of m)(k := None)"
  by (rule delete_conv')

lemma AList_update_twice: "AList.update k v (AList.update k v m) = AList.update k v m"
  by (induction m) auto

lemma gm_keys_update [simp]: "gm_keys (AList.update k v m) = insert k (gm_keys m)"
  by (simp flip: dom_map_of_conv_image_fst)

lemma gm_keys_delete [simp]: "gm_keys (AList.delete k m) = gm_keys m - {k}"
  by (simp flip: dom_map_of_conv_image_fst)

lemma gm_lookup_retain [simp]:
  "map_of (gm_retain keep m) = (\<lambda>k. if keep k then map_of m k else None)"
  by (induction m) (auto simp: gm_retain_def fun_eq_iff)

lemma gm_keys_retain [simp]: "gm_keys (gm_retain keep m) = {k \<in> gm_keys m. keep k}"
  by (induction m) (auto simp: gm_retain_def)

lemma gm_keys_lookup: "k \<in> gm_keys m \<longleftrightarrow> map_of m k \<noteq> None"
  by (metis map_of_eq_None_iff)

end
