(* ===== verification/Keyqueue.thy ===== *)
theory Keyqueue
  imports Prelude
begin

text \<open>
  The keyed work queue of the reconcile engine, \<open>internal/reconcile/workqueue.go\<close>: a bounded
  pool of workers that runs named controllers, at most one run per name at a time.

  The first part is the code's data and operations, one definition per method, each the body
  that runs under the queue's mutex.  A controller is its \<open>Name()\<close> and the rest of it, and the
  context of a run is what the code does to it: whether it has been cancelled.  The second part
  is the pool: every worker goroutine is in one of the states of \<open>worker\<close>, and the step relation
  interleaves the critical sections of the workers and of the callers, with \<open>sync.Cond\<close>'s
  \<open>Signal\<close>, \<open>Broadcast\<close> and \<open>Wait\<close> written out.  The third part is the invariant of the
  reachable states and the abstract specification the queue refines.
\<close>

section \<open>Data and operations\<close>

datatype 'c controller = Controller (ctl_name: string) (ctl_rest: 'c)

record 'c queued =
  qd_c :: "'c controller"
  qd_since :: gotime

text \<open>An in-flight entry holds the cancel function of its run; the model keeps whether the run's
  context is cancelled.  A context made from the queue's own (\<open>base\<close>) is cancelled with it.\<close>

record 'c key_queue =
  kq_pending :: "(string, 'c queued) gomap"
  kq_order :: "string list"
  kq_inflight :: "(string, bool) gomap"
  kq_live :: "string set option"
  kq_closed :: bool
  kq_alive :: nat
  kq_base_done :: bool

definition new_key_queue :: "nat \<Rightarrow> 'c key_queue" where
  "new_key_queue workers =
     \<lparr>kq_pending = [], kq_order = [], kq_inflight = [], kq_live = None,
      kq_closed = False, kq_alive = workers, kq_base_done = False\<rparr>"

definition kq_add :: "'c controller \<Rightarrow> gotime \<Rightarrow> 'c key_queue \<Rightarrow> 'c key_queue" where
  "kq_add c now q =
     (let name = ctl_name c in
      if kq_closed q then q
      else (case map_of (kq_pending q) name of
          Some p \<Rightarrow> q\<lparr>kq_pending := AList.update name \<lparr>qd_c = c, qd_since = qd_since p\<rparr> (kq_pending q)\<rparr>
        | None \<Rightarrow> q\<lparr>kq_pending := AList.update name \<lparr>qd_c = c, qd_since = now\<rparr> (kq_pending q),
                    kq_order := kq_order q @ [name]\<rparr>))"

text \<open>\<open>add\<close> signals a waiting worker exactly when it appends a name.\<close>

definition kq_add_signals :: "'c controller \<Rightarrow> 'c key_queue \<Rightarrow> bool" where
  "kq_add_signals c q \<longleftrightarrow> \<not> kq_closed q \<and> map_of (kq_pending q) (ctl_name c) = None"

definition kq_gone :: "'c controller \<Rightarrow> 'c key_queue \<Rightarrow> bool" where
  "kq_gone c q = (case kq_live q of None \<Rightarrow> False | Some live \<Rightarrow> ctl_name c \<notin> live)"

definition kq_requeue :: "'c controller \<Rightarrow> gotime \<Rightarrow> 'c key_queue \<Rightarrow> 'c key_queue" where
  "kq_requeue c now q = (if kq_gone c q then q else kq_add c now q)"

definition kq_retain :: "string set \<Rightarrow> 'c key_queue \<Rightarrow> 'c key_queue" where
  "kq_retain live q =
     q\<lparr>kq_live := Some live,
       kq_order := filter (\<lambda>name. name \<in> live) (kq_order q),
       kq_pending := gm_retain (\<lambda>name. name \<notin> set (kq_order q) \<or> name \<in> live) (kq_pending q),
       kq_inflight := map (\<lambda>(name, cancelled). (name, cancelled \<or> name \<notin> live)) (kq_inflight q)\<rparr>"

text \<open>One pass of the loop of \<open>next\<close>: stop, go to sleep, or start a run.  The controller is an
  option because Go reads the zero value where a map has no entry (\<open>kq_next_present\<close> shows that
  never happens).\<close>

datatype 'c next_result =
    Next_closed
  | Next_wait
  | Next_run string "'c controller option" "'c key_queue"

definition kq_busy :: "'c key_queue \<Rightarrow> string \<Rightarrow> bool" where
  "kq_busy q name \<longleftrightarrow> map_of (kq_inflight q) name \<noteq> None"

definition kq_next :: "'c key_queue \<Rightarrow> 'c next_result" where
  "kq_next q =
     (if kq_closed q then Next_closed
      else (case find (\<lambda>name. \<not> kq_busy q name) (kq_order q) of
          None \<Rightarrow> Next_wait
        | Some name \<Rightarrow>
            Next_run name (map_option qd_c (map_of (kq_pending q) name))
              (q\<lparr>kq_pending := AList.delete name (kq_pending q),
                 kq_order := remove1 name (kq_order q),
                 kq_inflight := AList.update name (kq_base_done q) (kq_inflight q)\<rparr>)))"

text \<open>What \<open>worker\<close> does after a run, and when \<open>next\<close> tells it to stop.\<close>

definition kq_done :: "string \<Rightarrow> 'c key_queue \<Rightarrow> 'c key_queue" where
  "kq_done name q = q\<lparr>kq_inflight := AList.delete name (kq_inflight q)\<rparr>"

definition kq_worker_exit :: "'c key_queue \<Rightarrow> 'c key_queue" where
  "kq_worker_exit q = q\<lparr>kq_alive := kq_alive q - 1\<rparr>"

text \<open>\<open>close\<close> first empties the queue under the lock, and cancels the base context at once, when
  the drain timer fires, or after the last worker has gone.\<close>

definition kq_begin_close :: "'c key_queue \<Rightarrow> 'c key_queue" where
  "kq_begin_close q = q\<lparr>kq_closed := True, kq_pending := [], kq_order := []\<rparr>"

definition kq_cancel_base :: "'c key_queue \<Rightarrow> 'c key_queue" where
  "kq_cancel_base q =
     q\<lparr>kq_base_done := True, kq_inflight := map (\<lambda>(name, _). (name, True)) (kq_inflight q)\<rparr>"

record queue_stats =
  qs_workers :: nat
  qs_depth :: nat
  qs_in_flight :: nat
  qs_oldest_wait :: duration

definition kq_stats :: "gotime \<Rightarrow> 'c key_queue \<Rightarrow> queue_stats" where
  "kq_stats now q =
     \<lparr>qs_workers = kq_alive q, qs_depth = length (kq_order q),
      qs_in_flight = length (kq_inflight q),
      qs_oldest_wait =
        fold (\<lambda>(_, p) oldest. let w = time_sub now (qd_since p) in if w > oldest then w else oldest)
          (kq_pending q) 0\<rparr>"

lemmas kq_defs = kq_add_def kq_retain_def kq_done_def kq_worker_exit_def
  kq_begin_close_def kq_cancel_base_def

section \<open>The pool\<close>

text \<open>A worker is about to run the loop of \<open>next\<close>, asleep in \<open>cond.Wait\<close>, running a controller,
  between deleting its in-flight entry and its \<open>Broadcast\<close>, or gone.\<close>

datatype worker = Awake | Waiting | Running string | Broadcasting | Exited

fun wake :: "worker \<Rightarrow> worker" where
  "wake Waiting = Awake"
| "wake w = w"

fun running_name :: "worker \<Rightarrow> string option" where
  "running_name (Running n) = Some n"
| "running_name _ = None"

definition running :: "worker list \<Rightarrow> string list" where
  "running ws = List.map_filter running_name ws"

text \<open>The names of \<open>pool_checked\<close> belong to callers of \<open>requeue\<close> that have passed its check and
  have not yet called \<open>add\<close>: the code releases the lock in between.\<close>

record 'c pool =
  pool_queue :: "'c key_queue"
  pool_workers :: "worker list"
  pool_checked :: "'c controller list"

definition new_pool :: "nat \<Rightarrow> 'c pool" where
  "new_pool workers =
     \<lparr>pool_queue = new_key_queue workers, pool_workers = replicate workers Awake,
      pool_checked = []\<rparr>"

text \<open>\<open>Signal\<close> wakes one of the waiting workers, if there is one.\<close>

inductive signalled :: "worker list \<Rightarrow> worker list \<Rightarrow> bool" where
  nobody: "Waiting \<notin> set ws \<Longrightarrow> signalled ws ws"
| one: "i < length ws \<Longrightarrow> ws ! i = Waiting \<Longrightarrow> signalled ws (ws[i := Awake])"

inductive added :: "'c controller \<Rightarrow> gotime \<Rightarrow> 'c pool \<Rightarrow> 'c pool \<Rightarrow> bool" where
  quiet: "\<not> kq_add_signals c (pool_queue s) \<Longrightarrow>
     added c now s (s\<lparr>pool_queue := kq_add c now (pool_queue s)\<rparr>)"
| signal: "kq_add_signals c (pool_queue s) \<Longrightarrow> signalled (pool_workers s) ws \<Longrightarrow>
     added c now s (s\<lparr>pool_queue := kq_add c now (pool_queue s), pool_workers := ws\<rparr>)"

text \<open>The steps of the workers.\<close>

inductive worker_step :: "'c pool \<Rightarrow> 'c pool \<Rightarrow> bool" where
  take: "i < length (pool_workers s) \<Longrightarrow> pool_workers s ! i = Awake \<Longrightarrow>
     kq_next (pool_queue s) = Next_run n c q \<Longrightarrow>
     worker_step s (s\<lparr>pool_queue := q, pool_workers := (pool_workers s)[i := Running n]\<rparr>)"
| wait: "i < length (pool_workers s) \<Longrightarrow> pool_workers s ! i = Awake \<Longrightarrow>
     kq_next (pool_queue s) = Next_wait \<Longrightarrow>
     worker_step s (s\<lparr>pool_workers := (pool_workers s)[i := Waiting]\<rparr>)"
| exit: "i < length (pool_workers s) \<Longrightarrow> pool_workers s ! i = Awake \<Longrightarrow>
     kq_next (pool_queue s) = Next_closed \<Longrightarrow>
     worker_step s (s\<lparr>pool_queue := kq_worker_exit (pool_queue s),
       pool_workers := (pool_workers s)[i := Exited]\<rparr>)"
| finish: "i < length (pool_workers s) \<Longrightarrow> pool_workers s ! i = Running n \<Longrightarrow>
     worker_step s (s\<lparr>pool_queue := kq_done n (pool_queue s),
       pool_workers := (pool_workers s)[i := Broadcasting]\<rparr>)"
| broadcast: "i < length (pool_workers s) \<Longrightarrow> pool_workers s ! i = Broadcasting \<Longrightarrow>
     worker_step s (s\<lparr>pool_workers := map wake ((pool_workers s)[i := Awake])\<rparr>)"

text \<open>The steps of everyone else.\<close>

inductive client_step :: "'c pool \<Rightarrow> 'c pool \<Rightarrow> bool" where
  add: "added c now s t \<Longrightarrow> client_step s t"
| requeue_check: "\<not> kq_gone c (pool_queue s) \<Longrightarrow>
     client_step s (s\<lparr>pool_checked := c # pool_checked s\<rparr>)"
| requeue_add: "c \<in> set (pool_checked s) \<Longrightarrow> added c now s t \<Longrightarrow>
     client_step s (t\<lparr>pool_checked := remove1 c (pool_checked t)\<rparr>)"
| retain: "client_step s (s\<lparr>pool_queue := kq_retain live (pool_queue s)\<rparr>)"
| close: "client_step s (s\<lparr>pool_queue := kq_begin_close (pool_queue s),
     pool_workers := map wake (pool_workers s)\<rparr>)"
| cancel: "kq_closed (pool_queue s) \<Longrightarrow>
     client_step s (s\<lparr>pool_queue := kq_cancel_base (pool_queue s)\<rparr>)"

definition pool_step :: "'c pool \<Rightarrow> 'c pool \<Rightarrow> bool" where
  "pool_step s t \<longleftrightarrow> worker_step s t \<or> client_step s t"

inductive pool_reachable :: "nat \<Rightarrow> 'c pool \<Rightarrow> bool" for workers :: nat where
  start: "pool_reachable workers (new_pool workers)"
| step: "pool_reachable workers s \<Longrightarrow> pool_step s t \<Longrightarrow> pool_reachable workers t"

section \<open>The invariant of the pool\<close>

definition runnable :: "'c key_queue \<Rightarrow> string list" where
  "runnable q = filter (\<lambda>name. \<not> kq_busy q name) (kq_order q)"

definition queue_ok :: "'c key_queue \<Rightarrow> bool" where
  "queue_ok q \<longleftrightarrow>
     gm_ok (kq_pending q) \<and> gm_ok (kq_inflight q) \<and> distinct (kq_order q) \<and>
     set (kq_order q) = gm_keys (kq_pending q) \<and> (kq_closed q \<longrightarrow> kq_order q = [])"

text \<open>The in-flight names are those of the running workers, each of a different worker.\<close>

definition workers_ok :: "'c key_queue \<Rightarrow> worker list \<Rightarrow> bool" where
  "workers_ok q ws \<longleftrightarrow>
     distinct (running ws) \<and> set (running ws) = gm_keys (kq_inflight q) \<and>
     kq_alive q = length (filter (\<lambda>w. w \<noteq> Exited) ws) \<and>
     (kq_closed q \<longrightarrow> Waiting \<notin> set ws)"

text \<open>No wake-up is lost: while somebody sleeps and nobody is about to broadcast, every runnable
  name has an awake worker of its own.\<close>

definition wakeups_ok :: "'c key_queue \<Rightarrow> worker list \<Rightarrow> bool" where
  "wakeups_ok q ws \<longleftrightarrow>
     kq_closed q \<or> Waiting \<notin> set ws \<or> Broadcasting \<in> set ws \<or>
     length (runnable q) \<le> count_list ws Awake"

definition pool_ok :: "'c pool \<Rightarrow> bool" where
  "pool_ok s \<longleftrightarrow>
     queue_ok (pool_queue s) \<and> workers_ok (pool_queue s) (pool_workers s) \<and>
     wakeups_ok (pool_queue s) (pool_workers s)"

subsection \<open>The queue's operations keep the queue well formed\<close>

lemma queue_ok_new: "queue_ok (new_key_queue n)"
  by (simp add: queue_ok_def new_key_queue_def gm_ok_def)

lemma queue_ok_add: "queue_ok q \<Longrightarrow> queue_ok (kq_add c now q)"
  by (auto simp: queue_ok_def kq_add_def Let_def gm_keys_lookup split: option.splits)

lemma queue_ok_retain: "queue_ok q \<Longrightarrow> queue_ok (kq_retain live q)"
proof -
  have "map fst (map (\<lambda>(name, cancelled). (name, cancelled \<or> name \<notin> live)) m) = map fst m"
    for m :: "(string, bool) gomap" by auto
  then show "queue_ok q \<Longrightarrow> queue_ok (kq_retain live q)"
    by (auto simp: queue_ok_def kq_retain_def gm_ok_def simp del: map_map
        intro: gm_ok_retain [unfolded gm_ok_def])
qed

lemma queue_ok_done: "queue_ok q \<Longrightarrow> queue_ok (kq_done name q)"
  by (auto simp: queue_ok_def kq_done_def)

lemma queue_ok_exit: "queue_ok q \<Longrightarrow> queue_ok (kq_worker_exit q)"
  by (auto simp: queue_ok_def kq_worker_exit_def)

lemma queue_ok_begin_close: "queue_ok q \<Longrightarrow> queue_ok (kq_begin_close q)"
  by (auto simp: queue_ok_def kq_begin_close_def gm_ok_def)

lemma queue_ok_cancel_base: "queue_ok q \<Longrightarrow> queue_ok (kq_cancel_base q)"
proof -
  have "map fst (map (\<lambda>(name, _). (name, True)) m) = map fst m" for m :: "(string, bool) gomap"
    by auto
  then show "queue_ok q \<Longrightarrow> queue_ok (kq_cancel_base q)"
    by (auto simp: queue_ok_def kq_cancel_base_def gm_ok_def simp del: map_map)
qed

lemma kq_next_runE:
  assumes "kq_next q = Next_run n c q'"
  obtains pre post where "\<not> kq_closed q" and "kq_order q = pre @ n # post"
    and "\<forall>m\<in>set pre. kq_busy q m" and "\<not> kq_busy q n"
    and "c = map_option qd_c (map_of (kq_pending q) n)"
    and "q' = q\<lparr>kq_pending := AList.delete n (kq_pending q), kq_order := pre @ post,
               kq_inflight := AList.update n (kq_base_done q) (kq_inflight q)\<rparr>"
proof -
  from assms have open_q: "\<not> kq_closed q"
    and found: "find (\<lambda>name. \<not> kq_busy q name) (kq_order q) = Some n"
    and rest: "c = map_option qd_c (map_of (kq_pending q) n)"
      "q' = q\<lparr>kq_pending := AList.delete n (kq_pending q), kq_order := remove1 n (kq_order q),
               kq_inflight := AList.update n (kq_base_done q) (kq_inflight q)\<rparr>"
    by (auto simp: kq_next_def split: if_splits option.splits)
  from found obtain i where i: "i < length (kq_order q)" "\<not> kq_busy q (kq_order q ! i)"
      "n = kq_order q ! i" "\<forall>j<i. kq_busy q (kq_order q ! j)"
    by (auto simp: find_Some_iff)
  let ?pre = "take i (kq_order q)"
  have order: "kq_order q = ?pre @ n # drop (Suc i) (kq_order q)"
    using i(1,3) by (simp add: id_take_nth_drop)
  have pre: "\<forall>m\<in>set ?pre. kq_busy q m" using i(4) by (auto simp: in_set_conv_nth)
  then have "n \<notin> set ?pre" using i(2,3) by auto
  then have "remove1 n (kq_order q) = ?pre @ drop (Suc i) (kq_order q)"
    by (subst order) (simp add: remove1_append)
  with open_q order pre i(2,3) rest show thesis by (intro that) auto
qed

lemma queue_ok_next: "queue_ok q \<Longrightarrow> kq_next q = Next_run n c q' \<Longrightarrow> queue_ok q'"
  by (erule kq_next_runE) (auto simp: queue_ok_def)

lemma kq_next_present: "queue_ok q \<Longrightarrow> kq_next q = Next_run n c q' \<Longrightarrow> c \<noteq> None"
  by (erule kq_next_runE) (auto simp: queue_ok_def gm_keys_lookup [symmetric] simp del: not_None_eq)

lemma kq_next_wait: "kq_next q = Next_wait \<Longrightarrow> \<not> kq_closed q \<and> runnable q = []"
  by (auto simp: kq_next_def runnable_def find_None_iff filter_empty_conv
      split: if_splits option.splits)

lemma kq_next_closed: "kq_next q = Next_closed \<longleftrightarrow> kq_closed q"
  by (auto simp: kq_next_def split: option.splits)

subsection \<open>One worker among the others\<close>

lemma split_worker:
  assumes "i < length ws"
  obtains us vs where "ws = us @ ws ! i # vs" and "\<And>w. ws[i := w] = us @ w # vs"
proof
  show "ws = take i ws @ ws ! i # drop (Suc i) ws"
    using assms by (simp add: id_take_nth_drop)
  show "ws[i := w] = take i ws @ w # drop (Suc i) ws" for w
    using assms by (simp add: upd_conv_take_nth_drop)
qed

lemma running_simps [simp]:
  "running [] = []"
  "running (w # ws) = (case running_name w of None \<Rightarrow> running ws | Some n \<Rightarrow> n # running ws)"
  by (auto simp: running_def List.map_filter_def split: option.splits)

lemma running_append [simp]: "running (us @ vs) = running us @ running vs"
  by (induction us) (auto split: option.splits)

lemma running_wake [simp]: "running (map wake ws) = running ws"
proof (induction ws)
  case (Cons w ws)
  then show ?case by (cases w) auto
qed simp

lemma running_replicate [simp]: "running (replicate n Awake) = []"
  by (induction n) auto

lemma wake_eq [simp]: "wake w \<noteq> Waiting" "wake w = Exited \<longleftrightarrow> w = Exited"
  by (cases w; simp)+

lemma wake_not_waiting [simp]: "Waiting \<notin> wake ` set ws"
  using wake_eq(1) by (metis imageE)

lemma not_exited_wake [simp]: "(\<lambda>w. w \<noteq> Exited) \<circ> wake = (\<lambda>w. w \<noteq> Exited)"
  by (simp add: comp_def)

lemma alive_wake: "length (filter (\<lambda>w. w \<noteq> Exited) (map wake ws)) =
    length (filter (\<lambda>w. w \<noteq> Exited) ws)"
  by simp

lemma busy_keys: "kq_busy q n \<longleftrightarrow> n \<in> gm_keys (kq_inflight q)"
  by (simp add: kq_busy_def gm_keys_lookup)

lemma runnable_busy_cong:
  "kq_inflight q' = kq_inflight q \<Longrightarrow> runnable q' = filter (\<lambda>n. \<not> kq_busy q n) (kq_order q')"
  by (simp add: runnable_def kq_busy_def)

subsection \<open>Every step keeps the invariant\<close>

lemma pool_ok_start: "pool_ok (new_pool n)"
  using queue_ok_new [of n]
  by (simp add: pool_ok_def new_pool_def workers_ok_def wakeups_ok_def) (simp add: new_key_queue_def)

lemma signalled_props:
  assumes "signalled ws ws'"
  shows "running ws' = running ws"
    and "length (filter (\<lambda>w. w \<noteq> Exited) ws') = length (filter (\<lambda>w. w \<noteq> Exited) ws)"
    and "Waiting \<in> set ws' \<Longrightarrow> Waiting \<in> set ws \<and> count_list ws' Awake = Suc (count_list ws Awake)"
    and "Broadcasting \<in> set ws' \<longleftrightarrow> Broadcasting \<in> set ws"
  using assms
proof (induction rule: signalled.induct)
  case (one i ws)
  then obtain us vs where "ws = us @ Waiting # vs" and "ws[i := Awake] = us @ Awake # vs"
    by (metis split_worker)
  { case 1 then show ?case using \<open>ws = _\<close> \<open>ws[i := Awake] = _\<close> by simp
  next case 2 then show ?case using \<open>ws = _\<close> \<open>ws[i := Awake] = _\<close> by simp
  next case 3 then show ?case using \<open>ws = _\<close> \<open>ws[i := Awake] = _\<close> by auto
  next case 4 then show ?case using \<open>ws = _\<close> \<open>ws[i := Awake] = _\<close> by auto }
qed auto

lemma pool_ok_added:
  assumes "added c now s t" and "pool_ok s"
  shows "pool_ok t"
  using assms(1)
proof cases
  case quiet
  let ?q = "pool_queue s"
  from quiet(2) have "kq_inflight (kq_add c now ?q) = kq_inflight ?q"
    and "kq_order (kq_add c now ?q) = kq_order ?q"
    and "kq_closed (kq_add c now ?q) = kq_closed ?q"
    and "kq_alive (kq_add c now ?q) = kq_alive ?q"
    by (auto simp: kq_add_def kq_add_signals_def Let_def split: option.splits)
  with quiet(1) assms(2) queue_ok_add [of ?q c now] show ?thesis
    by (simp add: pool_ok_def workers_ok_def wakeups_ok_def runnable_def kq_busy_def)
next
  case (signal ws)
  let ?q = "pool_queue s" and ?ws = "pool_workers s"
  from signal(2) have open_q: "\<not> kq_closed ?q"
    and eqs: "kq_inflight (kq_add c now ?q) = kq_inflight ?q"
      "kq_order (kq_add c now ?q) = kq_order ?q @ [ctl_name c]"
      "kq_closed (kq_add c now ?q) = kq_closed ?q"
      "kq_alive (kq_add c now ?q) = kq_alive ?q"
    by (auto simp: kq_add_def kq_add_signals_def Let_def split: option.splits)
  have "length (runnable (kq_add c now ?q)) \<le> Suc (length (runnable ?q))"
    by (simp add: runnable_def kq_busy_def eqs)
  with signal(1) eqs open_q assms(2) signalled_props [OF signal(3)] queue_ok_add [of ?q c now]
  show ?thesis by (auto simp: pool_ok_def workers_ok_def wakeups_ok_def)
qed

lemma pool_ok_client:
  assumes "client_step s t" and "pool_ok s"
  shows "pool_ok t"
  using assms(1)
proof cases
  case (add c now)
  then show ?thesis using assms(2) by (blast intro: pool_ok_added)
next
  case (requeue_check c)
  then show ?thesis using assms(2) by (simp add: pool_ok_def)
next
  case (requeue_add c now t')
  then have "pool_ok t'" using assms(2) by (blast intro: pool_ok_added)
  then show ?thesis using requeue_add(1) by (simp add: pool_ok_def)
next
  case (retain live)
  let ?q = "pool_queue s" and ?q' = "kq_retain live (pool_queue s)"
  have keys: "gm_keys (kq_inflight ?q') = gm_keys (kq_inflight ?q)"
    by (force simp: kq_retain_def)
  then have busy: "kq_busy ?q' = kq_busy ?q" by (simp add: busy_keys fun_eq_iff)
  have "runnable ?q' = filter (\<lambda>n. n \<in> live) (runnable ?q)"
    unfolding runnable_def busy by (simp add: kq_retain_def conj_commute)
  then have "length (runnable ?q') \<le> length (runnable ?q)" by simp
  moreover have "kq_closed ?q' = kq_closed ?q" and "kq_alive ?q' = kq_alive ?q"
    by (simp_all add: kq_retain_def)
  ultimately show ?thesis
    using assms(2) retain keys queue_ok_retain [of ?q live]
    by (auto simp: pool_ok_def workers_ok_def wakeups_ok_def)
next
  case close
  then show ?thesis using assms(2) queue_ok_begin_close [of "pool_queue s"]
    by (simp add: pool_ok_def workers_ok_def wakeups_ok_def kq_begin_close_def)
next
  case cancel
  let ?q = "pool_queue s"
  have "gm_keys (kq_inflight (kq_cancel_base ?q)) = gm_keys (kq_inflight ?q)"
    by (force simp: kq_cancel_base_def)
  then show ?thesis using assms(2) cancel queue_ok_cancel_base [of ?q]
    by (simp add: pool_ok_def workers_ok_def wakeups_ok_def kq_cancel_base_def)
qed

lemma pool_ok_worker:
  assumes "worker_step s t" and "pool_ok s"
  shows "pool_ok t"
  using assms(1)
proof cases
  case (take i n c q)
  let ?q = "pool_queue s"
  obtain us vs where ws: "pool_workers s = us @ Awake # vs"
    and ws': "(pool_workers s)[i := Running n] = us @ Running n # vs"
    using take(2,3) by (metis split_worker)
  from take(4) obtain pre post where open_q: "\<not> kq_closed ?q"
    and order: "kq_order ?q = pre @ n # post" and pre: "\<forall>m\<in>set pre. kq_busy ?q m"
    and n: "\<not> kq_busy ?q n"
    and q: "q = ?q\<lparr>kq_pending := AList.delete n (kq_pending ?q), kq_order := pre @ post,
              kq_inflight := AList.update n (kq_base_done ?q) (kq_inflight ?q)\<rparr>"
    by (rule kq_next_runE)
  have busy: "kq_busy q m \<longleftrightarrow> m = n \<or> kq_busy ?q m" for m by (auto simp: q kq_busy_def)
  have "runnable ?q = n # filter (\<lambda>m. \<not> kq_busy ?q m) post"
    using n pre by (simp add: runnable_def order)
  moreover have "runnable q = filter (\<lambda>m. m \<noteq> n) (filter (\<lambda>m. \<not> kq_busy ?q m) post)"
  proof -
    have "kq_order q = pre @ post" by (simp add: q)
    then show ?thesis using pre by (simp add: runnable_def busy conj_commute)
  qed
  ultimately have "length (runnable q) < length (runnable ?q)"
    by (simp add: less_Suc_eq_le del: filter_filter)
  then have "wakeups_ok q (us @ Running n # vs)"
    using assms(2) open_q ws by (auto simp: pool_ok_def wakeups_ok_def)
  moreover have "workers_ok q (us @ Running n # vs)"
    using assms(2) ws n by (auto simp: pool_ok_def workers_ok_def q busy_keys)
  ultimately show ?thesis
    using assms(2) take(1) ws' queue_ok_next [OF _ take(4)] by (simp add: pool_ok_def)
next
  case (wait i)
  obtain us vs where ws: "pool_workers s = us @ Awake # vs"
    and ws': "(pool_workers s)[i := Waiting] = us @ Waiting # vs"
    using wait(2,3) by (metis split_worker)
  with assms(2) wait(1) kq_next_wait [OF wait(4)] show ?thesis
    by (simp add: pool_ok_def workers_ok_def wakeups_ok_def)
next
  case (exit i)
  obtain us vs where ws: "pool_workers s = us @ Awake # vs"
    and ws': "(pool_workers s)[i := Exited] = us @ Exited # vs"
    using exit(2,3) by (metis split_worker)
  have "kq_closed (pool_queue s)" using exit(4) kq_next_closed by blast
  with assms(2) exit(1) ws ws' queue_ok_exit [of "pool_queue s"] show ?thesis
    by (simp add: pool_ok_def workers_ok_def wakeups_ok_def kq_worker_exit_def)
next
  case (finish i n)
  let ?q = "pool_queue s"
  obtain us vs where ws: "pool_workers s = us @ Running n # vs"
    and ws': "(pool_workers s)[i := Broadcasting] = us @ Broadcasting # vs"
    using finish(2,3) by (metis split_worker)
  have "workers_ok (kq_done n ?q) (us @ Broadcasting # vs)"
    using assms(2) ws by (auto simp: pool_ok_def workers_ok_def kq_done_def)
  with assms(2) finish(1) ws' queue_ok_done [of ?q n] show ?thesis
    by (simp add: pool_ok_def wakeups_ok_def)
next
  case (broadcast i)
  obtain us vs where ws: "pool_workers s = us @ Broadcasting # vs"
    and ws': "(pool_workers s)[i := Awake] = us @ Awake # vs"
    using broadcast(2,3) by (metis split_worker)
  have "running (map wake (us @ Awake # vs)) = running (us @ Broadcasting # vs)"
    unfolding running_wake by simp
  moreover have "length (filter (\<lambda>w. w \<noteq> Exited) (map wake (us @ Awake # vs))) =
      length (filter (\<lambda>w. w \<noteq> Exited) (us @ Broadcasting # vs))"
    unfolding alive_wake by simp
  ultimately show ?thesis
    using assms(2) broadcast(1) ws ws' wake_not_waiting [of "us @ Awake # vs"]
    by (simp add: pool_ok_def workers_ok_def wakeups_ok_def del: map_append list.map)
qed

lemma pool_ok_step: "pool_step s t \<Longrightarrow> pool_ok s \<Longrightarrow> pool_ok t"
  unfolding pool_step_def by (blast intro: pool_ok_worker pool_ok_client)

lemma pool_reachable_ok: "pool_reachable n s \<Longrightarrow> pool_ok s"
  by (induction rule: pool_reachable.induct) (auto intro: pool_ok_start pool_ok_step)

section \<open>What the queue promises\<close>

lemma running_mem: "n \<in> set (running ws) \<longleftrightarrow> Running n \<in> set ws"
proof (induction ws)
  case (Cons w ws)
  then show ?case by (cases w) auto
qed simp

lemma distinct_running_nth:
  assumes "distinct (running ws)" and "i < j" and "j < length ws" and "ws ! i = Running n"
  shows "ws ! j \<noteq> Running n"
proof
  assume "ws ! j = Running n"
  then have "drop (Suc i) ws ! (j - Suc i) = Running n" and "j - Suc i < length (drop (Suc i) ws)"
    using assms(2,3) by simp_all
  then have "Running n \<in> set (drop (Suc i) ws)" by (metis nth_mem)
  moreover have "running ws = running (take i ws) @ n # running (drop (Suc i) ws)"
    using assms by (subst id_take_nth_drop [of i ws]) simp_all
  ultimately show False using assms(1) by (simp add: running_mem)
qed

lemma length_running: "length (running ws) \<le> length ws"
proof (induction ws)
  case (Cons w ws)
  then show ?case by (cases w) auto
qed simp

lemma added_workers: "added c now s t \<Longrightarrow> length (pool_workers t) = length (pool_workers s)"
  by (auto elim!: added.cases signalled.cases)

lemma pool_step_workers: "pool_step s t \<Longrightarrow> length (pool_workers t) = length (pool_workers s)"
  unfolding pool_step_def
  by (auto elim!: worker_step.cases client_step.cases simp: added_workers)

lemma pool_reachable_workers: "pool_reachable n s \<Longrightarrow> length (pool_workers s) = n"
  by (induction rule: pool_reachable.induct) (simp_all add: new_pool_def pool_step_workers)

lemma length_inflight:
  assumes "pool_ok s"
  shows "length (kq_inflight (pool_queue s)) = length (running (pool_workers s))"
proof -
  from assms have "distinct (map fst (kq_inflight (pool_queue s)))"
    and "distinct (running (pool_workers s))"
    and "set (running (pool_workers s)) = set (map fst (kq_inflight (pool_queue s)))"
    by (simp_all add: pool_ok_def queue_ok_def workers_ok_def gm_ok_def)
  then show ?thesis by (metis distinct_card length_map)
qed

text \<open>
  C1: At every moment of every interleaving of the pool, no two workers run the same name, and
  no more controllers are in flight than the pool has workers.
\<close>

theorem one_run_per_name:
  assumes "pool_reachable workers s"
    and "i < length (pool_workers s)" and "j < length (pool_workers s)"
    and "pool_workers s ! i = Running n" and "pool_workers s ! j = Running n"
  shows "i = j \<and> length (kq_inflight (pool_queue s)) \<le> workers"
proof
  from assms(1) have ok: "pool_ok s" by (rule pool_reachable_ok)
  then have "distinct (running (pool_workers s))" by (simp add: pool_ok_def workers_ok_def)
  with assms(2-5) show "i = j" by (metis distinct_running_nth linorder_neqE_nat)
  show "length (kq_inflight (pool_queue s)) \<le> workers"
    using length_inflight [OF ok] length_running [of "pool_workers s"]
      pool_reachable_workers [OF assms(1)] by simp
qed

text \<open>
  C27: No wake-up is ever lost: in every reachable state of an open queue, if some queued name
  could run and some worker is asleep, then another worker is awake or about to broadcast.
\<close>

theorem no_lost_wakeup:
  assumes "pool_reachable workers s" and "\<not> kq_closed (pool_queue s)"
    and "name \<in> set (kq_order (pool_queue s))" and "\<not> kq_busy (pool_queue s) name"
    and "Waiting \<in> set (pool_workers s)"
  shows "Awake \<in> set (pool_workers s) \<or> Broadcasting \<in> set (pool_workers s)"
proof -
  have "name \<in> set (runnable (pool_queue s))" using assms(3,4) by (simp add: runnable_def)
  then have "0 < length (runnable (pool_queue s))" by (auto simp: length_pos_if_in_set)
  moreover from pool_reachable_ok [OF assms(1)] assms(2,5)
  have "Broadcasting \<in> set (pool_workers s) \<or>
      length (runnable (pool_queue s)) \<le> count_list (pool_workers s) Awake"
    by (simp add: pool_ok_def wakeups_ok_def)
  ultimately show ?thesis by (metis count_notin leD)
qed

subsection \<open>The specification: one serial activity per name\<close>

text \<open>What a caller may rely on, without workers, order or locks: a set of names that are wanted,
  a set of names that are being reconciled, and whether the queue is shut.\<close>

record serial =
  sr_wanted :: "string set"
  sr_active :: "string set"
  sr_shut :: bool

inductive serial_step :: "serial \<Rightarrow> serial \<Rightarrow> bool" where
  stutter: "serial_step S S"
| want: "\<not> sr_shut S \<Longrightarrow> serial_step S (S\<lparr>sr_wanted := insert n (sr_wanted S)\<rparr>)"
| begin_run: "\<not> sr_shut S \<Longrightarrow> n \<in> sr_wanted S \<Longrightarrow> n \<notin> sr_active S \<Longrightarrow>
     serial_step S (S\<lparr>sr_wanted := sr_wanted S - {n}, sr_active := insert n (sr_active S)\<rparr>)"
| end_run: "n \<in> sr_active S \<Longrightarrow> serial_step S (S\<lparr>sr_active := sr_active S - {n}\<rparr>)"
| keep: "serial_step S (S\<lparr>sr_wanted := sr_wanted S \<inter> live\<rparr>)"
| shut: "serial_step S (S\<lparr>sr_wanted := {}, sr_shut := True\<rparr>)"

inductive serial_reachable :: "serial \<Rightarrow> bool" where
  start: "serial_reachable \<lparr>sr_wanted = {}, sr_active = {}, sr_shut = False\<rparr>"
| step: "serial_reachable S \<Longrightarrow> serial_step S T \<Longrightarrow> serial_reachable T"

definition serial_of :: "'c pool \<Rightarrow> serial" where
  "serial_of s =
     \<lparr>sr_wanted = set (kq_order (pool_queue s)), sr_active = gm_keys (kq_inflight (pool_queue s)),
      sr_shut = kq_closed (pool_queue s)\<rparr>"

lemma serial_added:
  assumes "pool_ok s" and "added c now s t"
  shows "serial_step (serial_of s) (serial_of t)"
proof (cases "kq_add_signals c (pool_queue s)")
  case True
  with assms(2) have "serial_of t =
      (serial_of s)\<lparr>sr_wanted := insert (ctl_name c) (sr_wanted (serial_of s))\<rparr>"
    and "\<not> sr_shut (serial_of s)"
    by (auto elim!: added.cases simp: serial_of_def kq_add_def kq_add_signals_def Let_def)
  then show ?thesis by (metis serial_step.want)
next
  case False
  with assms(2) have "serial_of t = serial_of s"
    by (auto elim!: added.cases
        simp: serial_of_def kq_add_def kq_add_signals_def Let_def split: option.splits if_splits)
  then show ?thesis by (simp add: serial_step.stutter)
qed

lemma serial_client:
  assumes "pool_ok s" and "client_step s t"
  shows "serial_step (serial_of s) (serial_of t)"
  using assms(2)
proof cases
  case (add c now)
  then show ?thesis using assms(1) by (blast intro: serial_added)
next
  case (requeue_check c)
  then show ?thesis by (simp add: serial_of_def serial_step.stutter)
next
  case (requeue_add c now t')
  then have "serial_of t = serial_of t'" by (simp add: serial_of_def)
  with requeue_add(3) assms(1) show ?thesis by (metis serial_added)
next
  case (retain live)
  have "gm_keys (kq_inflight (kq_retain live (pool_queue s))) = gm_keys (kq_inflight (pool_queue s))"
    by (force simp: kq_retain_def)
  then have "serial_of t = (serial_of s)\<lparr>sr_wanted := sr_wanted (serial_of s) \<inter> live\<rparr>"
    using retain by (auto simp: serial_of_def kq_retain_def)
  then show ?thesis by (metis serial_step.keep)
next
  case close
  then have "serial_of t = (serial_of s)\<lparr>sr_wanted := {}, sr_shut := True\<rparr>"
    by (simp add: serial_of_def kq_begin_close_def)
  then show ?thesis by (metis serial_step.shut)
next
  case cancel
  have "gm_keys (kq_inflight (kq_cancel_base (pool_queue s))) = gm_keys (kq_inflight (pool_queue s))"
    by (force simp: kq_cancel_base_def)
  with cancel(1) have "serial_of t = serial_of s" by (simp add: serial_of_def kq_cancel_base_def)
  then show ?thesis by (simp add: serial_step.stutter)
qed

lemma serial_worker:
  assumes "pool_ok s" and "worker_step s t"
  shows "serial_step (serial_of s) (serial_of t)"
  using assms(2)
proof cases
  case (take i n c q)
  from take(4) obtain pre post where
    "\<not> kq_closed (pool_queue s)" "kq_order (pool_queue s) = pre @ n # post"
    "\<not> kq_busy (pool_queue s) n"
    "q = (pool_queue s)\<lparr>kq_pending := AList.delete n (kq_pending (pool_queue s)),
       kq_order := pre @ post,
       kq_inflight := AList.update n (kq_base_done (pool_queue s)) (kq_inflight (pool_queue s))\<rparr>"
    by (rule kq_next_runE)
  moreover have "distinct (kq_order (pool_queue s))"
    using assms(1) by (simp add: pool_ok_def queue_ok_def)
  ultimately have "serial_of t = (serial_of s)\<lparr>sr_wanted := sr_wanted (serial_of s) - {n},
      sr_active := insert n (sr_active (serial_of s))\<rparr>"
    and "\<not> sr_shut (serial_of s)" "n \<in> sr_wanted (serial_of s)" "n \<notin> sr_active (serial_of s)"
    using take(1) by (auto simp: serial_of_def busy_keys)
  then show ?thesis by (metis serial_step.begin_run)
next
  case (wait i)
  then show ?thesis by (simp add: serial_of_def serial_step.stutter)
next
  case (exit i)
  then show ?thesis by (simp add: serial_of_def kq_worker_exit_def serial_step.stutter)
next
  case (finish i n)
  have "n \<in> set (running (pool_workers s))" using finish(2,3) by (metis nth_mem running_mem)
  then have "n \<in> sr_active (serial_of s)"
    using assms(1) by (simp add: serial_of_def pool_ok_def workers_ok_def)
  moreover have "serial_of t = (serial_of s)\<lparr>sr_active := sr_active (serial_of s) - {n}\<rparr>"
    using finish(1) by (simp add: serial_of_def kq_done_def)
  ultimately show ?thesis by (metis serial_step.end_run)
next
  case (broadcast i)
  then show ?thesis by (simp add: serial_of_def serial_step.stutter)
qed


subsection \<open>Closing\<close>

fun drain_weight :: "worker \<Rightarrow> nat" where
  "drain_weight (Running _) = 3"
| "drain_weight Broadcasting = 2"
| "drain_weight Awake = 1"
| "drain_weight Waiting = 0"
| "drain_weight Exited = 0"

definition drain_left :: "'c pool \<Rightarrow> nat" where
  "drain_left s = sum_list (map drain_weight (pool_workers s))"

lemma drain_weight_wake: "Waiting \<notin> set ws \<Longrightarrow> map wake ws = ws"
proof (induction ws)
  case (Cons w ws)
  then show ?case by (cases w) auto
qed simp

lemma drain_bound: "drain_left s \<le> 3 * length (pool_workers s)"
proof -
  have "sum_list (map drain_weight ws) \<le> 3 * length ws" for ws
  proof (induction ws)
    case (Cons w ws)
    then show ?case by (cases w) auto
  qed simp
  then show ?thesis by (simp add: drain_left_def)
qed

text \<open>Once the queue is closed, every worker step brings the pool closer to the end.\<close>

lemma closed_worker_step:
  assumes "pool_ok s" and "kq_closed (pool_queue s)" and "worker_step s t"
  shows "kq_closed (pool_queue t) \<and> drain_left t < drain_left s"
  using assms(3)
proof cases
  case (take i n c q)
  with assms(2) kq_next_closed [of "pool_queue s"] show ?thesis by simp
next
  case (wait i)
  with assms(2) kq_next_closed [of "pool_queue s"] show ?thesis by simp
next
  case (exit i)
  then obtain us vs where "pool_workers s = us @ Awake # vs"
    and "(pool_workers s)[i := Exited] = us @ Exited # vs" by (metis split_worker)
  with exit(1) assms(2) show ?thesis by (simp add: drain_left_def kq_worker_exit_def)
next
  case (finish i n)
  then obtain us vs where "pool_workers s = us @ Running n # vs"
    and "(pool_workers s)[i := Broadcasting] = us @ Broadcasting # vs" by (metis split_worker)
  with finish(1) assms(2) show ?thesis by (simp add: drain_left_def kq_done_def)
next
  case (broadcast i)
  then obtain us vs where ws: "pool_workers s = us @ Broadcasting # vs"
    and ws': "(pool_workers s)[i := Awake] = us @ Awake # vs" by (metis split_worker)
  have "Waiting \<notin> set (us @ Awake # vs)"
    using assms(1,2) ws by (simp add: pool_ok_def workers_ok_def)
  then have "map wake (us @ Awake # vs) = us @ Awake # vs" by (rule drain_weight_wake)
  then have "pool_workers t = us @ Awake # vs" using broadcast(1) ws' by simp
  with broadcast(1) assms(2) ws show ?thesis by (simp add: drain_left_def)
qed

lemma closed_worker_steps:
  "(worker_step ^^ k) s t \<Longrightarrow> pool_ok s \<Longrightarrow> kq_closed (pool_queue s) \<Longrightarrow>
    pool_ok t \<and> kq_closed (pool_queue t) \<and> drain_left t + k \<le> drain_left s"
proof (induction k arbitrary: t)
  case 0
  then show ?case by simp
next
  case (Suc k)
  then obtain u where u: "(worker_step ^^ k) s u" "worker_step u t" by auto
  with Suc have "pool_ok u \<and> kq_closed (pool_queue u) \<and> drain_left u + k \<le> drain_left s" by blast
  with closed_worker_step [of u t] pool_ok_worker [of u t] u(2) show ?case by auto
qed

lemma closed_worker_stuck:
  assumes "pool_ok s" and "kq_closed (pool_queue s)" and stuck: "\<nexists>t. worker_step s t"
    and w: "w \<in> set (pool_workers s)"
  shows "w = Exited"
proof -
  obtain i where i: "i < length (pool_workers s)" "pool_workers s ! i = w"
    using w by (auto simp: in_set_conv_nth)
  have "kq_next (pool_queue s) = Next_closed" using assms(2) kq_next_closed by blast
  then have "w \<noteq> Awake" and "\<And>n. w \<noteq> Running n" and "w \<noteq> Broadcasting"
    using stuck i by (metis worker_step.exit worker_step.finish worker_step.broadcast)+
  moreover have "w \<noteq> Waiting" using assms(1,2) w by (auto simp: pool_ok_def workers_ok_def)
  ultimately show ?thesis by (cases w) auto
qed

text \<open>
  Closing the queue ends the pool.  After \<open>close\<close> has emptied the queue, the workers can
  take at most three steps each, nothing is queued ever again, and when no worker can move all
  of them have exited, so \<open>close\<close>'s wait for the pool returns.
\<close>

theorem close_drains_pool:
  assumes "pool_reachable workers s" and "kq_closed (pool_queue s)" and "(worker_step ^^ k) s t"
  shows "k \<le> 3 * workers \<and> kq_order (pool_queue t) = [] \<and>
    ((\<nexists>u. worker_step t u) \<longrightarrow>
      set (pool_workers t) \<subseteq> {Exited} \<and> kq_alive (pool_queue t) = 0)"
proof -
  from closed_worker_steps [OF assms(3) pool_reachable_ok [OF assms(1)] assms(2)]
  have t: "pool_ok t" "kq_closed (pool_queue t)" and k: "drain_left t + k \<le> drain_left s" by auto
  have "k \<le> 3 * workers"
    using k drain_bound [of s] pool_reachable_workers [OF assms(1)] by simp
  moreover have "kq_order (pool_queue t) = []" using t by (simp add: pool_ok_def queue_ok_def)
  moreover {
    assume "\<nexists>u. worker_step t u"
    then have exited: "\<forall>w\<in>set (pool_workers t). w = Exited"
      using closed_worker_stuck [OF t] by blast
    then have "filter (\<lambda>w. w \<noteq> Exited) (pool_workers t) = []" by (simp add: filter_empty_conv)
    with exited t(1) have "set (pool_workers t) \<subseteq> {Exited} \<and> kq_alive (pool_queue t) = 0"
      by (auto simp: pool_ok_def workers_ok_def)
  }
  ultimately show ?thesis by blast
qed

subsection \<open>Order, coalescing and deletion\<close>

text \<open>
  \<open>next\<close> is first in, first out among the names that are not in flight: it starts the first
  such name of the queue with the controller last added under it, and takes only that name out.
\<close>

theorem next_takes_first_idle:
  assumes "queue_ok q" and "\<not> kq_closed q"
    and "kq_order q = pre @ name # post" and "\<forall>m\<in>set pre. kq_busy q m" and "\<not> kq_busy q name"
  shows "\<exists>p q'. map_of (kq_pending q) name = Some p \<and> kq_next q = Next_run name (Some (qd_c p)) q' \<and>
    kq_order q' = pre @ post \<and> kq_busy q' name \<and> map_of (kq_pending q') name = None"
proof -
  have "name \<notin> set pre" using assms(4,5) by blast
  then have rm: "remove1 name (kq_order q) = pre @ post" by (simp add: assms(3) remove1_append)
  have "name \<in> gm_keys (kq_pending q)" using assms(1,3) by (auto simp: queue_ok_def)
  then obtain p where p: "map_of (kq_pending q) name = Some p"
    unfolding gm_keys_lookup by auto
  have "find (\<lambda>n. \<not> kq_busy q n) (kq_order q) = Some name"
    using assms(3-5) by (simp add: find_first)
  with assms(2) p rm show ?thesis by (auto simp: kq_next_def kq_busy_def)
qed

text \<open>
  Adding a name twice is coalesced.  While the name is queued, a second \<open>add\<close> keeps its
  place and the time it has waited since, and the run will use the newer controller; a closed
  queue takes nothing.
\<close>

lemma add_coalesces:
  "map_of (kq_pending q) (ctl_name c) = Some p \<Longrightarrow>
     kq_order (kq_add c now q) = kq_order q \<and>
     (\<not> kq_closed q \<longrightarrow> map_of (kq_pending (kq_add c now q)) (ctl_name c) =
        Some \<lparr>qd_c = c, qd_since = qd_since p\<rparr>) \<and>
     (kq_closed q \<longrightarrow> kq_add c now q = q)"
  by (simp add: kq_add_def Let_def)

text \<open>
  \<open>retain\<close> forgets deleted names: none of them stays queued, every one in flight has its run
  cancelled, the others keep their order, and a later \<open>requeue\<close> of a deleted name by itself
  changes nothing.
\<close>

theorem retain_drops_deleted:
  assumes "queue_ok q" and "name \<notin> live" and "ctl_name c = name"
  shows "name \<notin> set (kq_order (kq_retain live q)) \<and>
    map_of (kq_pending (kq_retain live q)) name = None \<and>
    map_of (kq_inflight (kq_retain live q)) name = map_option (\<lambda>_. True) (map_of (kq_inflight q) name) \<and>
    kq_order (kq_retain live q) = filter (\<lambda>n. n \<in> live) (kq_order q) \<and>
    kq_requeue c now (kq_retain live q) = kq_retain live q"
proof -
  have "map_of (map (\<lambda>(n, b). (n, b \<or> n \<notin> live)) m) name = map_option (\<lambda>_. True) (map_of m name)"
    for m :: "(string, bool) gomap"
    using assms(2) by (induction m) auto
  moreover have "name \<notin> set (kq_order q) \<Longrightarrow> map_of (kq_pending q) name = None"
    using assms(1) gm_keys_lookup [of name "kq_pending q"] by (auto simp: queue_ok_def)
  ultimately show ?thesis
    using assms(2,3) by (auto simp: kq_retain_def kq_requeue_def kq_gone_def)
qed

subsection \<open>Witnesses\<close>

lemma reach_worker:
  "pool_reachable n s \<Longrightarrow> worker_step s t \<Longrightarrow> t = t' \<Longrightarrow> pool_reachable n t'"
  by (auto intro: pool_reachable.step simp: pool_step_def)

lemma reach_client:
  "pool_reachable n s \<Longrightarrow> client_step s t \<Longrightarrow> t = t' \<Longrightarrow> pool_reachable n t'"
  by (auto intro: pool_reachable.step simp: pool_step_def)

definition ex_ctl :: "string \<Rightarrow> unit controller" where
  "ex_ctl name = Controller name ()"

definition ex_queue :: "(string \<times> unit queued) list \<Rightarrow> string list \<Rightarrow> (string \<times> bool) list \<Rightarrow>
    unit key_queue" where
  "ex_queue pending order inflight =
     \<lparr>kq_pending = pending, kq_order = order, kq_inflight = inflight, kq_live = None,
      kq_closed = False, kq_alive = 3, kq_base_done = False\<rparr>"

definition ex_pool :: "(string \<times> unit queued) list \<Rightarrow> string list \<Rightarrow> (string \<times> bool) list \<Rightarrow>
    worker list \<Rightarrow> unit pool" where
  "ex_pool pending order inflight ws =
     \<lparr>pool_queue = ex_queue pending order inflight, pool_workers = ws, pool_checked = []\<rparr>"

lemmas ex_defs = ex_ctl_def ex_queue_def ex_pool_def new_pool_def new_key_queue_def
  kq_add_def kq_add_signals_def kq_next_def kq_busy_def Let_def

lemma ex_pool_added: "pool_reachable 3 (ex_pool [(''a'', \<lparr>qd_c = ex_ctl ''a'', qd_since = 5\<rparr>)]
    [''a''] [] [Awake, Awake, Awake])"
  by (rule reach_client [OF pool_reachable.start, OF client_step.add [OF added.signal
        [of "ex_ctl ''a''" _ _ 5, OF _ signalled.nobody]]])
    (simp_all add: ex_defs eval_nat_numeral)

lemma ex_pool_taken: "pool_reachable 3 (ex_pool [] [] [(''a'', False)] [Running ''a'', Awake, Awake])"
  by (rule reach_worker [OF ex_pool_added, OF worker_step.take [of 0]]) (simp_all add: ex_defs)

lemma ex_pool_waiting: "pool_reachable 3 (ex_pool [] [] [(''a'', False)] [Running ''a'', Awake, Waiting])"
  by (rule reach_worker [OF ex_pool_taken, OF worker_step.wait [of 2]]) (simp_all add: ex_defs)

lemma ex_pool_waiting2: "pool_reachable 3 (ex_pool [] [] [(''a'', False)] [Running ''a'', Waiting, Waiting])"
  by (rule reach_worker [OF ex_pool_waiting, OF worker_step.wait [of 1]]) (simp_all add: ex_defs)

lemma ex_pool_signalled: "pool_reachable 3 (ex_pool [(''b'', \<lparr>qd_c = ex_ctl ''b'', qd_since = 7\<rparr>)]
    [''b''] [(''a'', False)] [Running ''a'', Awake, Waiting])"
  by (rule reach_client [OF ex_pool_waiting2, OF client_step.add [OF added.signal
        [of "ex_ctl ''b''" _ _ 7, OF _ signalled.one [of 1]]]])
    (simp_all add: ex_defs)

theorem one_run_per_name_witness:
  "length (kq_inflight (pool_queue (ex_pool [] [] [(''a'', False)] [Running ''a'', Awake, Waiting]))) \<le> 3"
  using one_run_per_name [OF ex_pool_waiting, of 0 0 "''a''"] by (simp add: ex_pool_def)

theorem no_lost_wakeup_witness:
  "Awake \<in> set [Running ''a'', Awake, Waiting] \<or> Broadcasting \<in> set [Running ''a'', Awake, Waiting]"
  using no_lost_wakeup [OF ex_pool_signalled, of "''b''"]
  by (simp add: ex_pool_def ex_queue_def kq_busy_def)


theorem close_drains_pool_witness:
  "\<exists>s :: unit pool. kq_closed (pool_queue s) \<and> (0::nat) \<le> 3 * 3 \<and> kq_order (pool_queue s) = []"
proof -
  let ?s = "(ex_pool [] [] [(''a'', False)] [Running ''a'', Awake, Waiting])"
  let ?t = "?s\<lparr>pool_queue := kq_begin_close (pool_queue ?s), pool_workers := map wake (pool_workers ?s)\<rparr>"
  have reach: "pool_reachable 3 ?t"
    by (rule reach_client [OF ex_pool_waiting, OF client_step.close]) simp
  have closed: "kq_closed (pool_queue ?t)" by (simp add: kq_begin_close_def)
  have "(worker_step ^^ 0) ?t ?t" by simp
  from close_drains_pool [OF reach closed this] closed show ?thesis by blast
qed

theorem next_takes_first_idle_witness:
  "\<exists>p q'. kq_next (ex_queue [(''a'', p), (''b'', p)] [''a'', ''b''] [(''a'', False)]) =
      Next_run ''b'' (Some (ex_ctl ''b'')) q' \<and> kq_order q' = [''a'']"
proof -
  let ?p = "\<lparr>qd_c = ex_ctl ''b'', qd_since = 0\<rparr>"
  let ?q = "ex_queue [(''a'', ?p), (''b'', ?p)] [''a'', ''b''] [(''a'', False)]"
  have "queue_ok ?q" by (auto simp: queue_ok_def ex_queue_def gm_ok_def)
  then have "\<exists>p q'. map_of (kq_pending ?q) ''b'' = Some p \<and>
      kq_next ?q = Next_run ''b'' (Some (qd_c p)) q' \<and> kq_order q' = [''a''] @ [] \<and>
      kq_busy q' ''b'' \<and> map_of (kq_pending q') ''b'' = None"
    by (rule next_takes_first_idle [of ?q "[''a'']" "''b''" "[]"])
      (simp_all add: ex_queue_def kq_busy_def)
  then show ?thesis by (force simp: ex_queue_def)
qed

theorem retain_drops_deleted_witness:
  "''a'' \<notin> set (kq_order (kq_retain {''b''} (ex_queue [(''a'', \<lparr>qd_c = ex_ctl ''a'', qd_since = 2\<rparr>)] [''a''] [])))"
proof -
  let ?q = "ex_queue [(''a'', \<lparr>qd_c = ex_ctl ''a'', qd_since = 2\<rparr>)] [''a''] []"
  have "queue_ok ?q" by (simp add: queue_ok_def ex_queue_def gm_ok_def)
  from retain_drops_deleted [OF this, of "''a''" "{''b''}" "ex_ctl ''a''" 3] show ?thesis
    by (simp add: ex_ctl_def)
qed

end
