(* ===== verification/Ratelimit.thy ===== *)
theory Ratelimit
  imports Prelude
begin

text \<open>
  The contract of a token bucket.  Two components of the program keep one (the reconcile
  engine's storm guard and the abuse limiter); this theory states what such a limiter offers and
  proves, once, the bound that its clients rely on: over any stretch of time it admits no more
  than its burst plus what the rate refills.

  A bucket's tokens are \<open>float64\<close> in the code and exact rationals here; rounding is not modelled.
\<close>

definition seconds :: "duration \<Rightarrow> rat" where
  "seconds d = of_int d / 1000000000"

lemma seconds_mono: "a \<le> b \<Longrightarrow> seconds a \<le> seconds b"
  by (simp add: seconds_def divide_right_mono)

lemma seconds_diff: "seconds (a - b) + seconds (b - c) = seconds (a - c)"
  by (simp add: seconds_def diff_divide_distrib)

lemma seconds_nonneg: "0 \<le> d \<Longrightarrow> 0 \<le> seconds d"
  by (simp add: seconds_def)

section \<open>The contract\<close>

text \<open>\<open>take r now s\<close> serves the request \<open>r\<close> and says whether it was granted a token, \<open>level now s\<close>
  is what the bucket would hold at \<open>now\<close>, and \<open>valid now s\<close> says that the clock has not run
  backwards.\<close>

locale rate_limited =
  fixes take :: "'r \<Rightarrow> gotime \<Rightarrow> 's \<Rightarrow> bool \<times> 's"
    and level :: "gotime \<Rightarrow> 's \<Rightarrow> rat"
    and burst :: "'s \<Rightarrow> rat"
    and rate :: "'s \<Rightarrow> rat"
    and valid :: "gotime \<Rightarrow> 's \<Rightarrow> bool"
  assumes rate_nonneg: "valid t s \<Longrightarrow> 0 \<le> rate s"
    and level_burst: "valid t s \<Longrightarrow> level t s \<le> burst s"
    and valid_later: "valid t s \<Longrightarrow> t \<le> u \<Longrightarrow> valid u s"
    and level_later: "valid t s \<Longrightarrow> t \<le> u \<Longrightarrow>
      level u s \<le> level t s + rate s * seconds (u - t)"
    and take_valid: "valid t s \<Longrightarrow> take r t s = (ok, s') \<Longrightarrow> valid t s'"
    and take_rate: "valid t s \<Longrightarrow> take r t s = (ok, s') \<Longrightarrow> rate s' = rate s"
    and take_level: "valid t s \<Longrightarrow> take r t s = (ok, s') \<Longrightarrow>
      level t s' \<le> level t s - (if ok then 1 else 0)"
    and take_ok: "valid t s \<Longrightarrow> take r t s = (True, s') \<Longrightarrow> 0 \<le> level t s'"
begin

text \<open>The number of requests granted in a timed history.\<close>

fun admitted :: "('r \<times> gotime) list \<Rightarrow> 's \<Rightarrow> nat" where
  "admitted [] s = 0"
| "admitted ((r, t) # rs) s =
     (case take r t s of (ok, s') \<Rightarrow> (if ok then 1 else 0) + admitted rs s')"

lemma admitted_level:
  "valid t s \<Longrightarrow> sorted (t # map snd rs) \<Longrightarrow> 0 < admitted rs s \<Longrightarrow>
    of_nat (admitted rs s) \<le> level t s + rate s * seconds (last (t # map snd rs) - t)"
proof (induction rs arbitrary: t s)
  case Nil
  then show ?case by simp
next
  case (Cons ru rs)
  obtain r u where ru: "ru = (r, u)" by (cases ru) auto
  let ?us = "map snd rs"
  obtain ok s' where tk: "take r u s = (ok, s')" by (cases "take r u s") auto
  have tu: "t \<le> u" and sorted: "sorted (u # ?us)" using Cons.prems(2) ru by auto
  have vu: "valid u s" using Cons.prems(1) tu by (rule valid_later)
  note vs = take_valid [OF vu tk] and rs = take_rate [OF vu tk] and ls = take_level [OF vu tk]
  have lt: "level u s \<le> level t s + rate s * seconds (u - t)"
    using Cons.prems(1) tu by (rule level_later)
  have r0: "0 \<le> rate s" using Cons.prems(1) by (rule rate_nonneg)
  have last: "u \<le> last (u # ?us)" using sorted by (cases ?us rule: rev_cases) auto
  have split: "rate s * seconds (u - t) + rate s * seconds (last (u # ?us) - u) =
      rate s * seconds (last (u # ?us) - t)"
    using seconds_diff [of "last (u # ?us)" u t] by (simp add: algebra_simps flip: distrib_left)
  show ?case
  proof (cases "admitted rs s'")
    case 0
    with Cons.prems(3) tk ru have ok: "ok" by (simp split: if_splits)
    have "0 \<le> rate s * seconds (last (u # ?us) - u)"
      using r0 last by (simp add: seconds_nonneg)
    with ok 0 tk ru ls lt split take_ok [OF vu] show ?thesis by force
  next
    case (Suc n)
    then have "of_nat (admitted rs s') \<le> level u s' + rate s' * seconds (last (u # ?us) - u)"
      using Cons.IH [OF vs sorted] by simp
    with tk ru rs ls lt split show ?thesis by (auto split: if_splits)
  qed
qed

text \<open>The bound a client relies on.\<close>

lemma admitted_bound:
  assumes "valid t s" and "sorted (t # map snd rs)"
  shows "of_nat (admitted rs s) \<le> max 0 (burst s) + rate s * seconds (last (t # map snd rs) - t)"
proof (cases "admitted rs s")
  case 0
  have "t \<le> last (t # map snd rs)"
    using assms(2) by (cases "map snd rs" rule: rev_cases) auto
  then have "0 \<le> rate s * seconds (last (t # map snd rs) - t)"
    using rate_nonneg [OF assms(1)] by (simp add: seconds_nonneg)
  with 0 show ?thesis by simp
next
  case (Suc n)
  then have "of_nat (admitted rs s) \<le> level t s + rate s * seconds (last (t # map snd rs) - t)"
    using admitted_level [OF assms] by simp
  with level_burst [OF assms(1)] show ?thesis by simp
qed

end

end
