(* ===== verification/Guard.thy ===== *)
theory Guard
  imports Ratelimit
begin

text \<open>
  Storm protection of the reconcile engine, \<open>internal/reconcile/guard.go\<close>: a token bucket for
  whole passes, one for each controller, and a circuit breaker for each controller.

  Every method runs under the guard's mutex and reads the clock once, so it is a function of the
  time it reads.  Tokens and rates are \<open>float64\<close> in the code and exact rationals here.  The
  environment reaches \<open>guard_config_from_env\<close> as the already parsed values (\<open>None\<close> when
  \<open>strconv.ParseFloat\<close> or \<open>time.ParseDuration\<close> reports an error).
\<close>

section \<open>Configuration\<close>

record guard_config =
  gc_pass_burst :: int
  gc_passes_per_sec :: rat
  gc_resource_burst :: int
  gc_resource_per_sec :: rat
  gc_breaker_failures :: int
  gc_breaker_base :: duration
  gc_breaker_max :: duration

definition env_num :: "(string \<Rightarrow> rat option) \<Rightarrow> string \<Rightarrow> rat \<Rightarrow> rat" where
  "env_num getf key def = (case getf key of Some v \<Rightarrow> if v > 0 then v else def | None \<Rightarrow> def)"

definition env_dur :: "(string \<Rightarrow> duration option) \<Rightarrow> string \<Rightarrow> duration \<Rightarrow> duration" where
  "env_dur getd key def = (case getd key of Some v \<Rightarrow> if v > 0 then v else def | None \<Rightarrow> def)"

definition guard_config_from_env ::
    "(string \<Rightarrow> rat option) \<Rightarrow> (string \<Rightarrow> duration option) \<Rightarrow> guard_config" where
  "guard_config_from_env getf getd =
     \<lparr>gc_pass_burst = \<lfloor>env_num getf ''APP_RECONCILE_PASS_BURST'' 20\<rfloor>,
      gc_passes_per_sec = env_num getf ''APP_RECONCILE_PASSES_PER_SEC'' 4,
      gc_resource_burst = \<lfloor>env_num getf ''APP_RECONCILE_RESOURCE_BURST'' 40\<rfloor>,
      gc_resource_per_sec = env_num getf ''APP_RECONCILE_RESOURCE_PER_SEC'' 4,
      gc_breaker_failures = \<lfloor>env_num getf ''APP_RECONCILE_BREAKER_FAILURES'' 5\<rfloor>,
      gc_breaker_base = env_dur getd ''APP_RECONCILE_BREAKER_BASE'' (15 * second),
      gc_breaker_max = env_dur getd ''APP_RECONCILE_BREAKER_MAX'' (10 * minute)\<rparr>"

section \<open>State\<close>

record bucket =
  bk_tokens :: rat
  bk_last :: gotime

datatype breaker = Breaker_closed | Breaker_open | Breaker_half_open

record controller_guard =
  cg_bucket :: bucket
  cg_failures :: int
  cg_state :: breaker
  cg_open_until :: gotime
  cg_last_err :: string
  cg_last_err_at :: gotime
  cg_trips :: int
  cg_panics :: int
  cg_throttled :: int
  cg_skipped :: int

record guard =
  gd_cfg :: guard_config
  gd_global :: bucket
  gd_per :: "(string, controller_guard) gomap"
  gd_deferred :: int
  gd_recent :: "gotime list"

definition recent_window :: duration where
  "recent_window = 5 * minute"

definition recent_cap :: nat where
  "recent_cap = 1024"

definition zero_bucket :: bucket where
  "zero_bucket = \<lparr>bk_tokens = 0, bk_last = zero_time\<rparr>"

definition new_guard :: "guard_config \<Rightarrow> guard" where
  "new_guard cfg =
     (let def = guard_config_from_env (\<lambda>_. None) (\<lambda>_. None) in
      \<lparr>gd_cfg =
         \<lparr>gc_pass_burst = (if gc_pass_burst cfg \<le> 0 then gc_pass_burst def else gc_pass_burst cfg),
          gc_passes_per_sec =
            (if gc_passes_per_sec cfg \<le> 0 then gc_passes_per_sec def else gc_passes_per_sec cfg),
          gc_resource_burst =
            (if gc_resource_burst cfg \<le> 0 then gc_resource_burst def else gc_resource_burst cfg),
          gc_resource_per_sec =
            (if gc_resource_per_sec cfg \<le> 0 then gc_resource_per_sec def else gc_resource_per_sec cfg),
          gc_breaker_failures =
            (if gc_breaker_failures cfg \<le> 0 then gc_breaker_failures def else gc_breaker_failures cfg),
          gc_breaker_base =
            (if gc_breaker_base cfg \<le> 0 then gc_breaker_base def else gc_breaker_base cfg),
          gc_breaker_max =
            (if gc_breaker_max cfg \<le> 0 then gc_breaker_max def else gc_breaker_max cfg)\<rparr>,
       gd_global = zero_bucket, gd_per = [], gd_deferred = 0, gd_recent = []\<rparr>)"

section \<open>Operations\<close>

definition refill :: "gotime \<Rightarrow> int \<Rightarrow> rat \<Rightarrow> bucket \<Rightarrow> bucket" where
  "refill now burst rate b =
     (let el = seconds (time_sub now (bk_last b)) in
      \<lparr>bk_tokens =
         (if bk_last b = zero_time then of_int burst
          else if el > 0 then min (bk_tokens b + el * rate) (of_int burst)
          else bk_tokens b),
       bk_last = now\<rparr>)"

definition bucket_take :: "gotime \<Rightarrow> int \<Rightarrow> rat \<Rightarrow> bucket \<Rightarrow> bool \<times> bucket" where
  "bucket_take now burst rate b =
     (let b' = refill now burst rate b in
      if bk_tokens b' \<ge> 1 then (True, b'\<lparr>bk_tokens := bk_tokens b' - 1\<rparr>) else (False, b'))"

definition note_limited :: "gotime \<Rightarrow> guard \<Rightarrow> guard" where
  "note_limited now g =
     (let recent = gd_recent g @ [now] in
      g\<lparr>gd_recent := (if length recent > recent_cap then drop (length recent - recent_cap) recent
                      else recent)\<rparr>)"

definition allow_pass :: "gotime \<Rightarrow> guard \<Rightarrow> (bool \<times> duration) \<times> guard" where
  "allow_pass now g =
     (case bucket_take now (gc_pass_burst (gd_cfg g)) (gc_passes_per_sec (gd_cfg g)) (gd_global g) of
        (True, b) \<Rightarrow> ((True, 0), g\<lparr>gd_global := b\<rparr>)
      | (False, b) \<Rightarrow>
          (let need = (1 - bk_tokens b) / gc_passes_per_sec (gd_cfg g) in
           ((False, \<lfloor>need * of_int second\<rfloor> + millisecond),
            note_limited now (g\<lparr>gd_global := b, gd_deferred := gd_deferred g + 1\<rparr>))))"

definition fresh_entry :: controller_guard where
  "fresh_entry =
     \<lparr>cg_bucket = zero_bucket, cg_failures = 0, cg_state = Breaker_closed,
      cg_open_until = zero_time, cg_last_err = [], cg_last_err_at = zero_time, cg_trips = 0,
      cg_panics = 0, cg_throttled = 0, cg_skipped = 0\<rparr>"

definition entry :: "string \<Rightarrow> guard \<Rightarrow> controller_guard" where
  "entry name g = (case map_of (gd_per g) name of None \<Rightarrow> fresh_entry | Some c \<Rightarrow> c)"

definition put_entry :: "string \<Rightarrow> controller_guard \<Rightarrow> guard \<Rightarrow> guard" where
  "put_entry name c g = g\<lparr>gd_per := AList.update name c (gd_per g)\<rparr>"

definition guard_before :: "gotime \<Rightarrow> string \<Rightarrow> guard \<Rightarrow> bool \<times> guard" where
  "guard_before now name g =
     (let c = entry name g in
      if cg_state c = Breaker_open \<and> now < cg_open_until c
      then (False, put_entry name (c\<lparr>cg_skipped := cg_skipped c + 1\<rparr>) g)
      else
        (let c = (if cg_state c = Breaker_open then c\<lparr>cg_state := Breaker_half_open\<rparr> else c) in
         case bucket_take now (gc_resource_burst (gd_cfg g)) (gc_resource_per_sec (gd_cfg g)) (cg_bucket c) of
           (True, b) \<Rightarrow> (True, put_entry name (c\<lparr>cg_bucket := b\<rparr>) g)
         | (False, b) \<Rightarrow>
             (False, note_limited now
               (put_entry name (c\<lparr>cg_bucket := b, cg_throttled := cg_throttled c + 1\<rparr>) g))))"

text \<open>How long an opened breaker waits after the given number of consecutive failures.\<close>

definition breaker_wait :: "guard_config \<Rightarrow> int \<Rightarrow> duration" where
  "breaker_wait cfg failures =
     (let wait = double_upto (nat (failures - gc_breaker_failures cfg)) (gc_breaker_base cfg)
            (gc_breaker_max cfg)
      in if wait > gc_breaker_max cfg then gc_breaker_max cfg else wait)"

definition guard_after :: "gotime \<Rightarrow> string \<Rightarrow> string option \<Rightarrow> bool \<Rightarrow> guard \<Rightarrow> guard" where
  "guard_after now name err panicked g =
     (let c = entry name g in
      case err of
        None \<Rightarrow>
          put_entry name
            (c\<lparr>cg_failures := 0, cg_state := Breaker_closed, cg_open_until := zero_time\<rparr>) g
      | Some msg \<Rightarrow>
          (let c = (if panicked then c\<lparr>cg_panics := cg_panics c + 1\<rparr> else c);
               c = c\<lparr>cg_failures := cg_failures c + 1, cg_last_err := msg, cg_last_err_at := now\<rparr>
           in if cg_failures c < gc_breaker_failures (gd_cfg g) then put_entry name c g
              else
                (let c = (if cg_state c \<noteq> Breaker_open then c\<lparr>cg_trips := cg_trips c + 1\<rparr> else c)
                 in put_entry name
                      (c\<lparr>cg_state := Breaker_open,
                         cg_open_until := time_add now (breaker_wait (gd_cfg g) (cg_failures c))\<rparr>) g)))"

record breaker_status =
  bs_name :: string
  bs_state :: breaker
  bs_failures :: int
  bs_open_until :: gotime
  bs_last_error :: string
  bs_trips :: int
  bs_panics :: int
  bs_throttled :: int
  bs_skipped :: int

record guard_status =
  st_deferred :: int
  st_recent_limited :: nat
  st_open_breakers :: nat
  st_breakers :: "breaker_status list"

definition quiet_entry :: "controller_guard \<Rightarrow> bool" where
  "quiet_entry c \<longleftrightarrow>
     cg_state c = Breaker_closed \<and> cg_trips c = 0 \<and> cg_throttled c = 0 \<and> cg_panics c = 0"

definition entry_status :: "string \<times> controller_guard \<Rightarrow> breaker_status" where
  "entry_status nc = (case nc of (name, c) \<Rightarrow>
     \<lparr>bs_name = name, bs_state = cg_state c, bs_failures = cg_failures c,
      bs_open_until = cg_open_until c, bs_last_error = cg_last_err c, bs_trips = cg_trips c,
      bs_panics = cg_panics c, bs_throttled = cg_throttled c, bs_skipped = cg_skipped c\<rparr>)"

definition guard_status_of :: "gotime \<Rightarrow> guard \<Rightarrow> guard_status \<times> guard" where
  "guard_status_of now g =
     (let cut = time_add now (- recent_window);
          g = g\<lparr>gd_recent := filter (\<lambda>t. t > cut) (gd_recent g)\<rparr>;
          shown = filter (\<lambda>(_, c). \<not> quiet_entry c) (gd_per g)
      in (\<lparr>st_deferred = gd_deferred g, st_recent_limited = length (gd_recent g),
           st_open_breakers = length (filter (\<lambda>(_, c). cg_state c = Breaker_open) shown),
           st_breakers = go_sort (\<lambda>a b. bs_name a < bs_name b) (map entry_status shown)\<rparr>, g))"

definition reset_entry :: "guard_config \<Rightarrow> controller_guard \<Rightarrow> controller_guard" where
  "reset_entry cfg c =
     c\<lparr>cg_failures := 0, cg_state := Breaker_closed, cg_open_until := zero_time, cg_last_err := [],
       cg_bucket := (cg_bucket c)\<lparr>bk_tokens := of_int (gc_resource_burst cfg)\<rparr>\<rparr>"

definition guard_reset :: "string \<Rightarrow> guard \<Rightarrow> nat \<times> guard" where
  "guard_reset name g =
     (let hit = (\<lambda>n. name = [] \<or> n = name);
          closed = length (filter (\<lambda>(n, c). hit n \<and> cg_state c = Breaker_open) (gd_per g));
          g = g\<lparr>gd_per := map (\<lambda>(n, c). (n, if hit n then reset_entry (gd_cfg g) c else c)) (gd_per g)\<rparr>
      in (closed,
          if name = []
          then g\<lparr>gd_recent := [],
                 gd_global := (gd_global g)\<lparr>bk_tokens := of_int (gc_pass_burst (gd_cfg g))\<rparr>\<rparr>
          else g))"

section \<open>The buckets obey the contract\<close>

definition bucket_level :: "gotime \<Rightarrow> int \<Rightarrow> rat \<Rightarrow> bucket \<Rightarrow> rat" where
  "bucket_level t burst rate b = bk_tokens (refill t burst rate b)"

definition bucket_valid :: "gotime \<Rightarrow> int \<Rightarrow> rat \<Rightarrow> bucket \<Rightarrow> bool" where
  "bucket_valid t burst rate b \<longleftrightarrow>
     0 \<le> rate \<and> 0 < t \<and> 0 \<le> bk_last b \<and> bk_last b \<le> t \<and> bk_tokens b \<le> of_int burst"

lemma time_sub_later: "t \<le> u \<Longrightarrow> l \<le> t \<Longrightarrow> time_sub u l \<le> time_sub t l + (u - t)"
  by (auto simp: time_sub_def max_def min_def)

lemma time_sub_nonneg: "l \<le> t \<Longrightarrow> 0 \<le> time_sub t l"
  by (auto simp: time_sub_def max_def min_def)

lemma bucket_level_burst: "bucket_valid t burst rate b \<Longrightarrow> bucket_level t burst rate b \<le> of_int burst"
  by (auto simp: bucket_level_def bucket_valid_def refill_def Let_def)

lemma bucket_level_eq:
  assumes "bucket_valid t burst rate b" and "bk_last b \<noteq> 0"
  shows "bucket_level t burst rate b =
    min (bk_tokens b + seconds (time_sub t (bk_last b)) * rate) (of_int burst)"
proof -
  have "0 \<le> seconds (time_sub t (bk_last b))"
    using assms by (intro seconds_nonneg time_sub_nonneg) (simp add: bucket_valid_def)
  with assms show ?thesis
    by (auto simp: bucket_level_def bucket_valid_def refill_def Let_def zero_time_def min_def)
qed

lemma bucket_level_later:
  assumes "bucket_valid t burst rate b" and "t \<le> u"
  shows "bucket_level u burst rate b \<le> bucket_level t burst rate b + rate * seconds (u - t)"
proof -
  have vu: "bucket_valid u burst rate b" and r: "0 \<le> rate" and last: "bk_last b \<le> t"
    using assms by (auto simp: bucket_valid_def)
  have pos: "0 \<le> rate * seconds (u - t)" using r assms(2) by (simp add: seconds_nonneg)
  show ?thesis
  proof (cases "bk_last b = 0")
    case True
    with pos show ?thesis by (simp add: bucket_level_def refill_def Let_def zero_time_def)
  next
    case False
    have "seconds (time_sub u (bk_last b)) \<le> seconds (time_sub t (bk_last b)) + seconds (u - t)"
      using seconds_mono [OF time_sub_later [OF assms(2) last]]
      by (simp add: seconds_def add_divide_distrib)
    then have "seconds (time_sub u (bk_last b)) * rate \<le>
        seconds (time_sub t (bk_last b)) * rate + rate * seconds (u - t)"
      using r mult_right_mono [OF _ r] by (fastforce simp: algebra_simps)
    with pos show ?thesis
      by (simp add: bucket_level_eq [OF assms(1) False] bucket_level_eq [OF vu False] min_def)
  qed
qed

lemma bucket_take_props:
  assumes "bucket_valid t burst rate b" and "bucket_take t burst rate b = (ok, b')"
  shows "bucket_valid t burst rate b'"
    and "bucket_level t burst rate b' = bucket_level t burst rate b - (if ok then 1 else 0)"
    and "ok \<Longrightarrow> 0 \<le> bucket_level t burst rate b'"
    and "ok \<longleftrightarrow> 1 \<le> bucket_level t burst rate b"
proof -
  let ?l = "bucket_level t burst rate b"
  have last: "bk_last (refill t burst rate b) = t" by (simp add: refill_def Let_def)
  have b': "bk_tokens b' = ?l - (if ok then 1 else 0)" "bk_last b' = t" "ok \<longleftrightarrow> 1 \<le> ?l"
    using assms(2) last by (auto simp: bucket_take_def bucket_level_def Let_def split: if_splits)
  moreover from b' assms(1) have "bucket_level t burst rate b' = bk_tokens b'"
    by (simp add: bucket_level_def refill_def Let_def bucket_valid_def zero_time_def time_sub_def
        seconds_def)
  ultimately show "bucket_level t burst rate b' = ?l - (if ok then 1 else 0)"
    and "ok \<Longrightarrow> 0 \<le> bucket_level t burst rate b'" and "ok \<longleftrightarrow> 1 \<le> ?l" by auto
  show "bucket_valid t burst rate b'"
    using b' bucket_level_burst [OF assms(1)] assms(1) by (auto simp: bucket_valid_def)
qed

text \<open>A history of calls to the guard.  A step says whether the caller was let through.\<close>

datatype guard_op =
    Op_allow
  | Op_before string
  | Op_after string "string option" bool
  | Op_status

fun guard_step :: "guard_op \<Rightarrow> gotime \<Rightarrow> guard \<Rightarrow> bool \<times> guard" where
  "guard_step Op_allow now g = (case allow_pass now g of ((ok, _), g') \<Rightarrow> (ok, g'))"
| "guard_step (Op_before name) now g = guard_before now name g"
| "guard_step (Op_after name err panicked) now g = (False, guard_after now name err panicked g)"
| "guard_step Op_status now g = (False, snd (guard_status_of now g))"

text \<open>How often a history lets through the operations that satisfy a predicate.\<close>

fun grants :: "(guard_op \<Rightarrow> bool) \<Rightarrow> (guard_op \<times> gotime) list \<Rightarrow> guard \<Rightarrow> nat" where
  "grants P [] g = 0"
| "grants P ((r, t) # rs) g =
     (case guard_step r t g of (ok, g') \<Rightarrow> (if ok \<and> P r then 1 else 0) + grants P rs g')"

definition pass_take :: "guard_op \<Rightarrow> gotime \<Rightarrow> guard \<Rightarrow> bool \<times> guard" where
  "pass_take r t g = (case guard_step r t g of (ok, g') \<Rightarrow> (ok \<and> r = Op_allow, g'))"

definition run_take :: "guard_op \<Rightarrow> gotime \<Rightarrow> string \<times> guard \<Rightarrow> bool \<times> (string \<times> guard)" where
  "run_take r t s = (case s of (name, g) \<Rightarrow>
     (case guard_step r t g of (ok, g') \<Rightarrow> (ok \<and> r = Op_before name, (name, g'))))"

definition pass_valid :: "gotime \<Rightarrow> guard \<Rightarrow> bool" where
  "pass_valid t g =
     bucket_valid t (gc_pass_burst (gd_cfg g)) (gc_passes_per_sec (gd_cfg g)) (gd_global g)"

definition run_valid :: "gotime \<Rightarrow> string \<Rightarrow> guard \<Rightarrow> bool" where
  "run_valid t name g =
     bucket_valid t (gc_resource_burst (gd_cfg g)) (gc_resource_per_sec (gd_cfg g))
       (cg_bucket (entry name g))"

lemma put_entry_simps [simp]:
  "entry m (put_entry n c g) = (if m = n then c else entry m g)"
  "gd_cfg (put_entry n c g) = gd_cfg g"
  "gd_global (put_entry n c g) = gd_global g"
  by (simp_all add: entry_def put_entry_def)

lemma note_limited_simps [simp]:
  "entry m (note_limited t g) = entry m g"
  "gd_cfg (note_limited t g) = gd_cfg g"
  "gd_global (note_limited t g) = gd_global g"
  by (simp_all add: entry_def note_limited_def Let_def)

lemma guard_after_frame:
  "gd_cfg (guard_after t n e p g) = gd_cfg g"
  "gd_global (guard_after t n e p g) = gd_global g"
  "cg_bucket (entry m (guard_after t n e p g)) = cg_bucket (entry m g)"
  by (simp_all add: guard_after_def Let_def split: option.splits)

lemma guard_status_frame:
  "gd_cfg (snd (guard_status_of t g)) = gd_cfg g"
  "gd_global (snd (guard_status_of t g)) = gd_global g"
  "entry m (snd (guard_status_of t g)) = entry m g"
  by (simp_all add: guard_status_of_def Let_def entry_def)

lemma guard_before_frame:
  assumes "guard_before t n g = (ok, g')"
  shows "gd_cfg g' = gd_cfg g" and "gd_global g' = gd_global g"
    and "m \<noteq> n \<Longrightarrow> entry m g' = entry m g"
    and "ok \<and> bucket_take t (gc_resource_burst (gd_cfg g)) (gc_resource_per_sec (gd_cfg g))
             (cg_bucket (entry n g)) = (True, cg_bucket (entry n g')) \<or>
         \<not> ok \<and> (cg_bucket (entry n g') = cg_bucket (entry n g) \<or>
           bucket_take t (gc_resource_burst (gd_cfg g)) (gc_resource_per_sec (gd_cfg g))
             (cg_bucket (entry n g)) = (False, cg_bucket (entry n g')))"
  using assms by (auto simp: guard_before_def Let_def split: if_splits prod.splits bool.splits)

lemma allow_pass_frame:
  assumes "allow_pass t g = ((ok, d), g')"
  shows "gd_cfg g' = gd_cfg g" and "entry m g' = entry m g"
    and "bucket_take t (gc_pass_burst (gd_cfg g)) (gc_passes_per_sec (gd_cfg g)) (gd_global g) =
      (ok, gd_global g')"
  using assms by (auto simp: allow_pass_def entry_def Let_def note_limited_def
      split: prod.splits bool.splits)

lemma guard_step_frame:
  assumes "guard_step r t g = (ok, g')"
  shows "gd_cfg g' = gd_cfg g"
    and "r \<noteq> Op_allow \<Longrightarrow> gd_global g' = gd_global g"
    and "r \<noteq> Op_before n \<Longrightarrow> cg_bucket (entry n g') = cg_bucket (entry n g)"
proof -
  have "gd_cfg g' = gd_cfg g \<and> (r \<noteq> Op_allow \<longrightarrow> gd_global g' = gd_global g) \<and>
      (r \<noteq> Op_before n \<longrightarrow> cg_bucket (entry n g') = cg_bucket (entry n g))"
  proof (cases r)
    case Op_allow
    then obtain d where "allow_pass t g = ((ok, d), g')"
      using assms by (auto split: prod.splits)
    with Op_allow allow_pass_frame show ?thesis by simp
  next
    case (Op_before m)
    with assms have "guard_before t m g = (ok, g')" by simp
    with Op_before guard_before_frame show ?thesis by (cases "n = m") auto
  next
    case (Op_after m e p)
    with assms guard_after_frame show ?thesis by auto
  next
    case Op_status
    with assms guard_status_frame show ?thesis by auto
  qed
  then show "gd_cfg g' = gd_cfg g" and "r \<noteq> Op_allow \<Longrightarrow> gd_global g' = gd_global g"
    and "r \<noteq> Op_before n \<Longrightarrow> cg_bucket (entry n g') = cg_bucket (entry n g)" by auto
qed

lemma pass_take_cases:
  assumes "pass_take r t g = (ok, g')"
  shows "gd_cfg g' = gd_cfg g \<and>
    (bucket_take t (gc_pass_burst (gd_cfg g)) (gc_passes_per_sec (gd_cfg g)) (gd_global g) =
       (ok, gd_global g') \<or> \<not> ok \<and> gd_global g' = gd_global g)"
proof (cases "r = Op_allow")
  case True
  then obtain d where "allow_pass t g = ((ok, d), g')"
    using assms by (auto simp: pass_take_def split: prod.splits)
  with allow_pass_frame show ?thesis by simp
next
  case False
  then obtain ok0 where "guard_step r t g = (ok0, g')" and "\<not> ok"
    using assms by (auto simp: pass_take_def split: prod.splits)
  with False guard_step_frame show ?thesis by blast
qed

lemma run_take_cases:
  assumes "run_take r t (name, g) = (ok, s')"
  shows "\<exists>g'. s' = (name, g') \<and> gd_cfg g' = gd_cfg g \<and>
    (bucket_take t (gc_resource_burst (gd_cfg g)) (gc_resource_per_sec (gd_cfg g))
       (cg_bucket (entry name g)) = (ok, cg_bucket (entry name g')) \<or>
     \<not> ok \<and> cg_bucket (entry name g') = cg_bucket (entry name g))"
proof -
  from assms obtain ok0 g' where st: "guard_step r t g = (ok0, g')" and s': "s' = (name, g')"
    and ok: "ok = (ok0 \<and> r = Op_before name)"
    by (auto simp: run_take_def split: prod.splits)
  show ?thesis
  proof (cases "r = Op_before name")
    case True
    then have "guard_before t name g = (ok, g')" using st ok by simp
    with guard_before_frame [OF this] s' show ?thesis by auto
  next
    case False
    with guard_step_frame [OF st] ok s' show ?thesis by auto
  qed
qed

definition pass_level :: "gotime \<Rightarrow> guard \<Rightarrow> rat" where
  "pass_level t g =
     bucket_level t (gc_pass_burst (gd_cfg g)) (gc_passes_per_sec (gd_cfg g)) (gd_global g)"

definition run_level :: "gotime \<Rightarrow> string \<Rightarrow> guard \<Rightarrow> rat" where
  "run_level t name g =
     bucket_level t (gc_resource_burst (gd_cfg g)) (gc_resource_per_sec (gd_cfg g))
       (cg_bucket (entry name g))"

lemma pass_take_props:
  assumes "pass_valid t g" and "pass_take r t g = (ok, g')"
  shows "gd_cfg g' = gd_cfg g" and "pass_valid t g'"
    and "pass_level t g' \<le> pass_level t g - (if ok then 1 else 0)"
    and "ok \<Longrightarrow> 0 \<le> pass_level t g'"
proof -
  from pass_take_cases [OF assms(2)] have cfg: "gd_cfg g' = gd_cfg g"
    and alt: "bucket_take t (gc_pass_burst (gd_cfg g)) (gc_passes_per_sec (gd_cfg g)) (gd_global g) =
       (ok, gd_global g') \<or> \<not> ok \<and> gd_global g' = gd_global g" by auto
  show "gd_cfg g' = gd_cfg g" by (rule cfg)
  from alt show "pass_valid t g'"
    using assms(1) bucket_take_props(1) unfolding pass_valid_def cfg by metis
  from alt show "pass_level t g' \<le> pass_level t g - (if ok then 1 else 0)"
  proof
    assume "bucket_take t (gc_pass_burst (gd_cfg g)) (gc_passes_per_sec (gd_cfg g)) (gd_global g) =
       (ok, gd_global g')"
    from bucket_take_props(2) [OF assms(1) [unfolded pass_valid_def] this] show ?thesis
      by (simp add: pass_level_def cfg)
  qed (simp add: pass_level_def cfg)
  from alt show "ok \<Longrightarrow> 0 \<le> pass_level t g'"
    using bucket_take_props(3) [OF assms(1) [unfolded pass_valid_def]]
    by (auto simp: pass_level_def cfg)
qed

lemma run_take_props:
  assumes "run_valid t name g" and "run_take r t (name, g) = (ok, s')"
  obtains g' where "s' = (name, g')" and "gd_cfg g' = gd_cfg g" and "run_valid t name g'"
    and "run_level t name g' \<le> run_level t name g - (if ok then 1 else 0)"
    and "ok \<Longrightarrow> 0 \<le> run_level t name g'"
proof -
  from run_take_cases [OF assms(2)] obtain g' where g': "s' = (name, g')" and cfg: "gd_cfg g' = gd_cfg g"
    and alt: "bucket_take t (gc_resource_burst (gd_cfg g)) (gc_resource_per_sec (gd_cfg g))
        (cg_bucket (entry name g)) = (ok, cg_bucket (entry name g')) \<or>
      \<not> ok \<and> cg_bucket (entry name g') = cg_bucket (entry name g)" by auto
  have "run_valid t name g'"
    using alt assms(1) bucket_take_props(1) unfolding run_valid_def cfg by metis
  moreover from alt have "run_level t name g' \<le> run_level t name g - (if ok then 1 else 0)"
  proof
    assume "bucket_take t (gc_resource_burst (gd_cfg g)) (gc_resource_per_sec (gd_cfg g))
        (cg_bucket (entry name g)) = (ok, cg_bucket (entry name g'))"
    from bucket_take_props(2) [OF assms(1) [unfolded run_valid_def] this] show ?thesis
      by (simp add: run_level_def cfg)
  qed (simp add: run_level_def cfg)
  moreover from alt have "ok \<Longrightarrow> 0 \<le> run_level t name g'"
    using bucket_take_props(3) [OF assms(1) [unfolded run_valid_def]]
    by (auto simp: run_level_def cfg)
  ultimately show thesis using g' cfg that by blast
qed

interpretation passes: rate_limited pass_take pass_level "\<lambda>g. of_int (gc_pass_burst (gd_cfg g))"
  "\<lambda>g. gc_passes_per_sec (gd_cfg g)" pass_valid
proof (standard, goal_cases)
  case (4 t s u)
  then show ?case by (simp add: pass_valid_def pass_level_def bucket_level_later)
next
  case (5 t s r ok s')
  then show ?case by (rule pass_take_props(2))
next
  case (6 t s r ok s')
  then show ?case using pass_take_props(1) by simp
next
  case (7 t s r ok s')
  then show ?case by (rule pass_take_props(3))
next
  case (8 t s r s')
  then show ?case using pass_take_props(4) by simp
qed (auto simp: pass_valid_def pass_level_def bucket_level_burst, auto simp: bucket_valid_def)

interpretation runs: rate_limited run_take "\<lambda>t (name, g). run_level t name g"
  "\<lambda>(name, g). of_int (gc_resource_burst (gd_cfg g))"
  "\<lambda>(name, g). gc_resource_per_sec (gd_cfg g)" "\<lambda>t (name, g). run_valid t name g"
proof (standard, goal_cases)
  case (4 t s u)
  then show ?case by (cases s) (simp add: run_valid_def run_level_def bucket_level_later)
next
  case (5 t s r ok s')
  then show ?case by (cases s) (auto elim: run_take_props)
next
  case (6 t s r ok s')
  then show ?case by (cases s) (auto elim: run_take_props)
next
  case (7 t s r ok s')
  then show ?case by (cases s) (auto elim: run_take_props)
next
  case (8 t s r s')
  then show ?case by (cases s) (auto elim: run_take_props)
qed (auto simp: run_valid_def run_level_def bucket_level_burst, auto simp: bucket_valid_def)

lemma grants_pass: "grants (\<lambda>r. r = Op_allow) rs g = passes.admitted rs g"
  by (induction rs arbitrary: g) (auto simp: pass_take_def split: prod.splits)

lemma grants_run: "grants (\<lambda>r. r = Op_before name) rs g = runs.admitted rs (name, g)"
  by (induction rs arbitrary: g) (auto simp: run_take_def split: prod.splits)

section \<open>What the guard promises\<close>

lemma new_guard_config:
  "0 < gc_pass_burst (gd_cfg (new_guard cfg))" "0 < gc_passes_per_sec (gd_cfg (new_guard cfg))"
  "0 < gc_resource_burst (gd_cfg (new_guard cfg))" "0 < gc_resource_per_sec (gd_cfg (new_guard cfg))"
  "0 < gc_breaker_failures (gd_cfg (new_guard cfg))" "0 < gc_breaker_base (gd_cfg (new_guard cfg))"
  "0 < gc_breaker_max (gd_cfg (new_guard cfg))"
  by (simp_all add: new_guard_def Let_def guard_config_from_env_def env_num_def env_dur_def duration_defs)

lemma new_guard_entry [simp]: "entry name (new_guard cfg) = fresh_entry"
  by (simp add: entry_def new_guard_def Let_def)

lemma new_guard_valid:
  assumes "0 < t"
  shows "pass_valid t (new_guard cfg)" and "run_valid t name (new_guard cfg)"
  using assms new_guard_config [of cfg]
  by (simp_all add: pass_valid_def run_valid_def bucket_valid_def fresh_entry_def zero_bucket_def
      zero_time_def) (simp add: new_guard_def Let_def zero_bucket_def zero_time_def)


lemma bucket_take_refused:
  "bucket_take t burst rate b = (False, b') \<longleftrightarrow> b' = refill t burst rate b \<and> bk_tokens b' < 1"
  by (auto simp: bucket_take_def Let_def split: if_splits)

lemma refill_last [simp]: "bk_last (refill t burst rate b) = t"
  by (simp add: refill_def Let_def)

text \<open>
  A deferred pass is not starved: when \<open>AllowPass\<close> refuses, the wait it returns is positive,
  and once that much time has passed a pass is let through (if nobody else took the token).
\<close>

theorem deferred_pass_admitted:
  assumes "pass_valid t g" and "1 \<le> gc_pass_burst (gd_cfg g)" and "0 < gc_passes_per_sec (gd_cfg g)"
    and "allow_pass t g = ((False, wait), g')" and "t + wait \<le> u" and "in_i64 (u - t)"
  shows "0 < wait \<and> fst (fst (allow_pass u g')) = True"
proof -
  let ?burst = "gc_pass_burst (gd_cfg g)" and ?rate = "gc_passes_per_sec (gd_cfg g)"
  let ?need = "(1 - bk_tokens (gd_global g')) / ?rate"
  from allow_pass_frame [OF assms(4)] have cfg: "gd_cfg g' = gd_cfg g"
    and tk: "bucket_take t ?burst ?rate (gd_global g) = (False, gd_global g')" by simp_all
  have last: "bk_last (gd_global g') = t" and low: "bk_tokens (gd_global g') < 1"
    using tk by (auto simp: bucket_take_refused)
  from assms(4) tk have wait: "wait = \<lfloor>?need * of_int second\<rfloor> + millisecond"
    by (auto simp: allow_pass_def Let_def note_limited_def)
  have need: "0 < ?need" using low assms(3) by simp
  then have "0 \<le> ?need * of_int second" by (intro mult_nonneg_nonneg) (simp_all add: second_def)
  then have "0 \<le> \<lfloor>?need * of_int second\<rfloor>" by (simp only: zero_le_floor)
  then have pos: "0 < wait" unfolding wait millisecond_def by linarith
  have "?need * of_int second \<le> of_int wait"
    using wait floor_correct [of "?need * of_int second"] by (simp add: millisecond_def)
  then have "?need \<le> seconds wait" by (simp add: seconds_def second_def field_simps)
  also have "\<dots> \<le> seconds (time_sub u t)"
    using assms(5,6) by (intro seconds_mono) (simp add: time_sub_exact)
  finally have enough: "1 - bk_tokens (gd_global g') \<le> seconds (time_sub u t) * ?rate"
    using assms(3) by (simp add: field_simps)
  have "0 < t" using assms(1) by (simp add: pass_valid_def bucket_valid_def)
  moreover have "0 < seconds (time_sub u t)"
    using need \<open>?need \<le> seconds wait\<close> \<open>seconds wait \<le> seconds (time_sub u t)\<close> by linarith
  ultimately have "1 \<le> bk_tokens (refill u ?burst ?rate (gd_global g'))"
    using enough last assms(2) by (simp add: refill_def Let_def zero_time_def)
  with pos show ?thesis by (simp add: allow_pass_def bucket_take_def Let_def cfg)
qed

lemma breaker_wait_eq:
  assumes "0 < gc_breaker_base cfg" and "gc_breaker_max cfg \<le> 2 ^ 62"
  shows "breaker_wait cfg n =
    min (gc_breaker_max cfg) (gc_breaker_base cfg * 2 ^ nat (n - gc_breaker_failures cfg))"
proof -
  have "breaker_wait cfg n = min (gc_breaker_max cfg)
      (double_upto (nat (n - gc_breaker_failures cfg)) (gc_breaker_base cfg) (gc_breaker_max cfg))"
    by (simp add: breaker_wait_def Let_def)
  then show ?thesis
    using double_upto_capped [OF assms, of "nat (n - gc_breaker_failures cfg)"]
    by (simp add: min.commute)
qed

text \<open>
  The breaker's back-off.  The failure that reaches the threshold, and every one after it,
  opens the controller's breaker until now plus the base wait doubled once for each failure
  beyond the threshold, capped at the maximum; no doubling overflows while the maximum is at most
  \<open>2 ^ 62\<close> nanoseconds.  Another controller's breaker does not move.
\<close>

theorem breaker_opens:
  assumes "0 < gc_breaker_base (gd_cfg g)" and "gc_breaker_max (gd_cfg g) \<le> 2 ^ 62"
    and "gc_breaker_failures (gd_cfg g) \<le> cg_failures (entry name g) + 1"
  shows "let c = entry name g; c' = entry name (guard_after now name (Some msg) panicked g);
      extra = nat (cg_failures c + 1 - gc_breaker_failures (gd_cfg g))
    in cg_state c' = Breaker_open \<and>
      cg_open_until c' = now + min (gc_breaker_max (gd_cfg g)) (gc_breaker_base (gd_cfg g) * 2 ^ extra) \<and>
      cg_failures c' = cg_failures c + 1 \<and>
      cg_trips c' = cg_trips c + (if cg_state c = Breaker_open then 0 else 1) \<and>
      (other \<noteq> name \<longrightarrow> entry other (guard_after now name (Some msg) panicked g) = entry other g)"
  using assms(3) breaker_wait_eq [OF assms(1,2)]
  by (auto simp: guard_after_def Let_def time_add_def)

text \<open>
  An open breaker refuses every run until its time has come, without spending a token; from
  that time on the controller is half open and only its token bucket decides.
\<close>

theorem open_breaker_refuses:
  assumes "cg_state (entry name g) = Breaker_open"
  shows "case guard_before now name g of (ok, g') \<Rightarrow>
    (now < cg_open_until (entry name g) \<longrightarrow>
       \<not> ok \<and> cg_state (entry name g') = Breaker_open \<and>
       cg_bucket (entry name g') = cg_bucket (entry name g)) \<and>
    (cg_open_until (entry name g) \<le> now \<longrightarrow>
       cg_state (entry name g') = Breaker_half_open \<and>
       ok = fst (bucket_take now (gc_resource_burst (gd_cfg g)) (gc_resource_per_sec (gd_cfg g))
          (cg_bucket (entry name g))))"
  using assms by (auto simp: guard_before_def Let_def split: prod.splits bool.splits)


section \<open>Reachable guards\<close>

inductive guard_reachable :: "guard_config \<Rightarrow> guard \<Rightarrow> bool" for cfg where
  start: "guard_reachable cfg (new_guard cfg)"
| call: "guard_reachable cfg g \<Longrightarrow> guard_reachable cfg (snd (guard_step r t g))"
| reset: "guard_reachable cfg g \<Longrightarrow> guard_reachable cfg (snd (guard_reset name g))"

definition entry_ok :: "guard_config \<Rightarrow> controller_guard \<Rightarrow> bool" where
  "entry_ok cfg c \<longleftrightarrow>
     (case cg_state c of
        Breaker_closed \<Rightarrow> cg_failures c < gc_breaker_failures cfg \<and> cg_open_until c = zero_time
      | _ \<Rightarrow> gc_breaker_failures cfg \<le> cg_failures c \<and> 0 < cg_trips c) \<and>
     0 \<le> cg_failures c \<and> 0 \<le> cg_trips c \<and> 0 \<le> cg_panics c \<and> 0 \<le> cg_throttled c \<and> 0 \<le> cg_skipped c"

definition guard_ok :: "guard_config \<Rightarrow> guard \<Rightarrow> bool" where
  "guard_ok cfg g \<longleftrightarrow> gd_cfg g = gd_cfg (new_guard cfg) \<and> gm_ok (gd_per g) \<and>
     length (gd_recent g) \<le> recent_cap \<and> (\<forall>n. entry_ok (gd_cfg (new_guard cfg)) (entry n g))"

lemma fresh_entry_ok: "entry_ok (gd_cfg (new_guard cfg)) fresh_entry"
  using new_guard_config [of cfg] by (simp add: entry_ok_def fresh_entry_def)

lemma guard_ok_new: "guard_ok cfg (new_guard cfg)"
  using fresh_entry_ok by (simp add: guard_ok_def) (simp add: new_guard_def Let_def)

lemma guard_ok_put:
  "guard_ok cfg g \<Longrightarrow> entry_ok (gd_cfg (new_guard cfg)) c \<Longrightarrow> guard_ok cfg (put_entry n c g)"
  by (auto simp: guard_ok_def) (simp_all add: put_entry_def)

lemma guard_ok_note: "guard_ok cfg g \<Longrightarrow> guard_ok cfg (note_limited t g)"
  by (auto simp: guard_ok_def) (simp_all add: note_limited_def Let_def recent_cap_def)

lemma guard_ok_entry: "guard_ok cfg g \<Longrightarrow> gd_cfg g = gd_cfg (new_guard cfg) \<and> entry_ok (gd_cfg (new_guard cfg)) (entry n g)"
  by (simp add: guard_ok_def)

lemma guard_ok_before: "guard_ok cfg g \<Longrightarrow> guard_ok cfg (snd (guard_before t n g))"
  using guard_ok_entry [of cfg g n]
  by (auto simp: guard_before_def Let_def entry_ok_def split: prod.splits bool.splits breaker.splits
      intro!: guard_ok_put guard_ok_note)

lemma guard_ok_after: "guard_ok cfg g \<Longrightarrow> guard_ok cfg (guard_after t n e p g)"
  using guard_ok_entry [of cfg g n] new_guard_config(5) [of cfg]
  by (auto simp: guard_after_def Let_def entry_ok_def split: option.splits breaker.splits
      intro!: guard_ok_put)

lemma guard_ok_allow: "guard_ok cfg g \<Longrightarrow> guard_ok cfg (snd (allow_pass t g))"
proof -
  assume ok: "guard_ok cfg g"
  then have "guard_ok cfg (g\<lparr>gd_global := b\<rparr>)" "guard_ok cfg (g\<lparr>gd_global := b, gd_deferred := d\<rparr>)" for b d
    by (simp_all add: guard_ok_def entry_def)
  then show ?thesis
    by (auto simp: allow_pass_def Let_def split: prod.splits bool.splits intro: guard_ok_note)
qed

lemma guard_ok_status: "guard_ok cfg g \<Longrightarrow> guard_ok cfg (snd (guard_status_of t g))"
  using le_trans [OF length_filter_le]
  by (auto simp: guard_ok_def guard_status_of_def Let_def entry_def)

lemma map_of_map_value:
  "map_of (map (\<lambda>(n, c). (n, f n c)) xs) m = map_option (f m) (map_of xs m)"
  by (induction xs) auto

lemma guard_reset_frame:
  "gd_cfg (snd (guard_reset name g)) = gd_cfg g"
  "gd_per (snd (guard_reset name g)) =
     map (\<lambda>(n, c). (n, if name = [] \<or> n = name then reset_entry (gd_cfg g) c else c)) (gd_per g)"
  by (simp_all add: guard_reset_def Let_def)

lemma guard_reset_entry:
  "entry n (snd (guard_reset name g)) =
     (case map_of (gd_per g) n of None \<Rightarrow> fresh_entry
      | Some c \<Rightarrow> if name = [] \<or> n = name then reset_entry (gd_cfg g) c else c)"
  by (simp add: entry_def guard_reset_frame map_of_map_value split: option.splits)

lemma reset_entry_ok: "entry_ok (gd_cfg (new_guard cfg)) c \<Longrightarrow> entry_ok (gd_cfg (new_guard cfg)) (reset_entry r c)"
  using new_guard_config(5) [of cfg] by (simp add: reset_entry_def entry_ok_def)

lemma guard_ok_reset: "guard_ok cfg g \<Longrightarrow> guard_ok cfg (snd (guard_reset name g))"
proof -
  assume ok: "guard_ok cfg g"
  have "entry_ok (gd_cfg (new_guard cfg)) (entry n (snd (guard_reset name g)))" for n
    using guard_ok_entry [OF ok, of n] fresh_entry_ok [of cfg]
    by (auto simp: guard_reset_entry entry_def [of n g] reset_entry_ok split: option.splits)
  moreover have "map fst (gd_per (snd (guard_reset name g))) = map fst (gd_per g)"
    by (simp add: guard_reset_frame comp_def split_def)
  then have "gm_ok (gd_per (snd (guard_reset name g)))"
    using ok by (simp only: gm_ok_def guard_ok_def)
  moreover have "length (gd_recent (snd (guard_reset name g))) \<le> recent_cap"
    using ok by (simp add: guard_reset_def Let_def guard_ok_def)
  ultimately show ?thesis using ok guard_reset_frame(1) [of name g] by (simp only: guard_ok_def) simp
qed

lemma guard_reachable_ok: "guard_reachable cfg g \<Longrightarrow> guard_ok cfg g"
proof (induction rule: guard_reachable.induct)
  case start
  show ?case by (rule guard_ok_new)
next
  case (call g r t)
  then show ?case
  proof (cases r)
    case Op_allow
    with call guard_ok_allow [of cfg g t] show ?thesis by (auto split: prod.splits)
  qed (auto simp: guard_ok_before guard_ok_after guard_ok_status)
next
  case (reset g name)
  from reset.IH show ?case by (rule guard_ok_reset)
qed

text \<open>The entries of a guard have distinct names, so the order of a status is total on them.\<close>

interpretation status_order: strict_total "\<lambda>a b. bs_name a < bs_name b"
  "range (\<lambda>n. entry_status (n, entry n g))" for g
  by standard (auto simp: entry_status_def not_less intro: less_le_trans antisym)

text \<open>
  In every guard the program can reach, by any calls in any order and at any times, a
  controller whose breaker is closed has failed fewer times in a row than the threshold and has
  no retry time; one whose breaker is open or half open has failed at least that often and has
  tripped; and the list of recently limited events never outgrows its cap.
\<close>

theorem breaker_invariant:
  assumes "guard_reachable cfg g"
  shows "length (gd_recent g) \<le> recent_cap \<and>
    (cg_state (entry name g) = Breaker_closed \<longleftrightarrow>
       cg_failures (entry name g) < gc_breaker_failures (gd_cfg g)) \<and>
    (cg_state (entry name g) = Breaker_closed \<longrightarrow> cg_open_until (entry name g) = zero_time) \<and>
    (cg_state (entry name g) \<noteq> Breaker_closed \<longrightarrow> 0 < cg_trips (entry name g))"
proof -
  have "length (gd_recent g) \<le> recent_cap" and "gd_cfg g = gd_cfg (new_guard cfg)"
    and "entry_ok (gd_cfg (new_guard cfg)) (entry name g)"
    using guard_reachable_ok [OF assms] by (auto simp: guard_ok_def)
  then show ?thesis by (cases "cg_state (entry name g)") (simp_all add: entry_ok_def)
qed

text \<open>
  The operator's reset works.  After resetting a controller (or all of them, with the empty
  name), the controller runs at its next request whatever its breaker and bucket held before; the
  breakers reported as closed are exactly those that were open; and a reset by name leaves the
  other controllers alone.
\<close>

theorem reset_lets_through:
  assumes "guard_reachable cfg g" and "name = [] \<or> n = name"
  shows "fst (guard_before now n (snd (guard_reset name g))) \<and>
    fst (guard_reset name g) =
      card {m. (name = [] \<or> m = name) \<and> cg_state (entry m g) = Breaker_open} \<and>
    (\<forall>m. name \<noteq> [] \<and> m \<noteq> name \<longrightarrow> entry m (snd (guard_reset name g)) = entry m g)"
proof (intro conjI)
  let ?g = "snd (guard_reset name g)"
  have ok: "guard_ok cfg g" by (rule guard_reachable_ok [OF assms(1)])
  then have cfg: "1 \<le> gc_resource_burst (gd_cfg ?g)"
    using new_guard_config(3) [of cfg] by (simp add: guard_reset_frame guard_ok_def)
  have rate: "0 \<le> gc_resource_per_sec (gd_cfg ?g)"
    using ok new_guard_config(4) [of cfg] by (simp add: guard_reset_frame guard_ok_def)
  have bucket: "bk_last (cg_bucket (entry n ?g)) = zero_time \<or>
      bk_tokens (cg_bucket (entry n ?g)) = of_int (gc_resource_burst (gd_cfg ?g))"
    using assms(2) by (auto simp: guard_reset_entry reset_entry_def fresh_entry_def zero_bucket_def
        guard_reset_frame split: option.splits)
  have closed: "cg_state (entry n ?g) = Breaker_closed"
    using assms(2) by (auto simp: guard_reset_entry reset_entry_def fresh_entry_def split: option.splits)
  from bucket cfg rate have
    "fst (bucket_take now (gc_resource_burst (gd_cfg ?g)) (gc_resource_per_sec (gd_cfg ?g))
       (cg_bucket (entry n ?g)))"
    by (auto simp: bucket_take_def refill_def Let_def add_increasing2)
  with closed show "fst (guard_before now n ?g)"
    by (auto simp: guard_before_def Let_def split: prod.splits bool.splits)
  let ?P = "\<lambda>(n, c). (name = [] \<or> n = name) \<and> cg_state c = Breaker_open"
  have dist: "distinct (map fst (gd_per g))" using ok by (simp add: guard_ok_def gm_ok_def)
  then have "length (filter ?P (gd_per g)) = card (fst ` set (filter ?P (gd_per g)))"
    using distinct_card [OF distinct_map_filter [OF dist, of ?P]] by simp
  also have "fst ` set (filter ?P (gd_per g)) =
      {m. (name = [] \<or> m = name) \<and> cg_state (entry m g) = Breaker_open}" (is "?l = ?r")
  proof
    show "?l \<subseteq> ?r" using dist by (auto simp: entry_def)
    show "?r \<subseteq> ?l"
      by (force simp: entry_def fresh_entry_def split: option.splits dest: map_of_SomeD)
  qed
  finally show "fst (guard_reset name g) =
      card {m. (name = [] \<or> m = name) \<and> cg_state (entry m g) = Breaker_open}"
    by (simp add: guard_reset_def Let_def)
  show "\<forall>m. name \<noteq> [] \<and> m \<noteq> name \<longrightarrow> entry m ?g = entry m g"
    by (auto simp: guard_reset_entry entry_def [of _ g] split: option.splits)
qed

text \<open>
  The health page shows every controller that is or has been in trouble, once, in the order
  of the names, and the same page whatever order Go's map iteration takes.
\<close>

theorem status_in_name_order:
  assumes "guard_reachable cfg g" and "mset per' = mset (gd_per g)"
  shows "let st = fst (guard_status_of now g) in
    sorted_wrt (<) (map bs_name (st_breakers st)) \<and>
    set (st_breakers st) =
      {entry_status (n, entry n g) | n. n \<in> gm_keys (gd_per g) \<and> \<not> quiet_entry (entry n g)} \<and>
    fst (guard_status_of now (g\<lparr>gd_per := per'\<rparr>)) = st"
proof -
  let ?lt = "\<lambda>a b. bs_name a < bs_name b"
  let ?shown = "filter (\<lambda>(_, c). \<not> quiet_entry c) (gd_per g)"
  have ok: "gm_ok (gd_per g)" using guard_reachable_ok [OF assms(1)] by (simp add: guard_ok_def)
  then have val: "entry n g = c" if "(n, c) \<in> set (gd_per g)" for n c
    using that by (simp add: entry_def gm_ok_def)
  have sub: "set (map entry_status ?shown) \<subseteq> range (\<lambda>n. entry_status (n, entry n g))"
    using val by force
  have dist: "distinct (map fst ?shown)" using ok by (simp add: gm_ok_def distinct_map_filter)
  have names: "map bs_name (map entry_status ?shown) = map fst ?shown"
    by (simp add: entry_status_def split_def)
  have "distinct (map bs_name (go_sort ?lt (map entry_status ?shown)))"
    using dist names by (metis distinct_go_sort mset_map mset_go_sort mset_eq_imp_distinct_iff)
  moreover have "sorted_wrt (\<lambda>a b. \<not> ?lt b a) (go_sort ?lt (map entry_status ?shown))"
    by (rule status_order.sorted_go_sort [OF sub])
  ultimately have "sorted_wrt (<) (map bs_name (go_sort ?lt (map entry_status ?shown)))"
    by (simp add: strict_sorted_iff sorted_map not_less)
  moreover have "set (map entry_status ?shown) =
      {entry_status (n, entry n g) | n. n \<in> gm_keys (gd_per g) \<and> \<not> quiet_entry (entry n g)}"
    using val by force
  moreover have "mset (filter (\<lambda>(_, c). \<not> quiet_entry c) per') = mset ?shown"
    using assms(2) by (metis mset_filter)
  moreover from this sub have
    "go_sort ?lt (map entry_status (filter (\<lambda>(_, c). \<not> quiet_entry c) per')) =
     go_sort ?lt (map entry_status ?shown)"
    by (intro status_order.go_sort_perm [symmetric]) simp_all
  moreover have "length (filter (\<lambda>(_, c). cg_state c = Breaker_open) (filter (\<lambda>(_, c). \<not> quiet_entry c) per')) =
      length (filter (\<lambda>(_, c). cg_state c = Breaker_open) ?shown)"
    using assms(2) by (metis mset_filter size_mset)
  ultimately show ?thesis
    by (simp add: guard_status_of_def Let_def)
qed

section \<open>Witnesses\<close>

definition ex_config :: guard_config where
  "ex_config = \<lparr>gc_pass_burst = 2, gc_passes_per_sec = 1, gc_resource_burst = 3,
     gc_resource_per_sec = 2, gc_breaker_failures = 2, gc_breaker_base = 15 * second,
     gc_breaker_max = minute\<rparr>"

lemma ex_config_new: "gd_cfg (new_guard ex_config) = ex_config"
  by (simp add: new_guard_def ex_config_def Let_def duration_defs)

definition ex_entry :: controller_guard where
  "ex_entry = fresh_entry\<lparr>cg_failures := 3, cg_state := Breaker_open, cg_open_until := 100, cg_trips := 1\<rparr>"

definition ex_guard :: guard where
  "ex_guard = \<lparr>gd_cfg = ex_config, gd_global = \<lparr>bk_tokens = 1 / 2, bk_last = 5\<rparr>,
     gd_per = [(''app/x'', ex_entry), (''app/y'', fresh_entry)], gd_deferred = 0, gd_recent = []\<rparr>"

definition ex_tripped :: guard where
  "ex_tripped = snd (guard_step (Op_after ''b'' (Some ''boom'') True) 9
     (snd (guard_step (Op_after ''b'' (Some ''boom'') False) 8 (new_guard ex_config))))"

lemma ex_tripped_reachable: "guard_reachable ex_config ex_tripped"
  unfolding ex_tripped_def by (intro guard_reachable.intros)

lemma ex_tripped_per: "gd_per ex_tripped =
    [(''b'', fresh_entry\<lparr>cg_failures := 2, cg_state := Breaker_open, cg_open_until := 9 + 15 * second,
       cg_last_err := ''boom'', cg_last_err_at := 9, cg_trips := 1, cg_panics := 1\<rparr>)]"
  by (simp add: ex_tripped_def guard_after_def Let_def breaker_wait_def new_guard_def ex_config_def
      entry_def put_entry_def fresh_entry_def time_add_def duration_defs)


theorem deferred_pass_admitted_witness:
  "fst (fst (allow_pass (600000000 + 5) (snd (allow_pass 5 ex_guard)))) = True"
  using deferred_pass_admitted [of 5 ex_guard "501000000" "snd (allow_pass 5 ex_guard)" "600000000 + 5"]
  by (simp add: ex_guard_def ex_config_def allow_pass_def bucket_take_def refill_def Let_def pass_valid_def
      bucket_valid_def zero_time_def duration_defs in_i64_def time_sub_def seconds_def)

theorem breaker_opens_witness:
  "cg_open_until (entry ''app/x'' (guard_after 200 ''app/x'' (Some ''boom'') False ex_guard)) = 200 + minute"
  using breaker_opens [of ex_guard "''app/x''" 200 "''boom''" False "''app/y''"]
  by (simp add: Let_def ex_guard_def ex_config_def entry_def ex_entry_def fresh_entry_def duration_defs)

theorem open_breaker_refuses_witness:
  "\<not> fst (guard_before 99 ''app/x'' ex_guard) \<and> cg_state (entry ''app/x'' (snd (guard_before 100 ''app/x'' ex_guard))) = Breaker_half_open"
  using open_breaker_refuses [of "''app/x''" ex_guard 99] open_breaker_refuses [of "''app/x''" ex_guard 100]
  by (auto simp: ex_guard_def entry_def ex_entry_def split: prod.splits)

theorem breaker_invariant_witness:
  "0 < cg_trips (entry ''b'' ex_tripped)"
  using breaker_invariant [OF ex_tripped_reachable, of "''b''"] by (simp add: entry_def ex_tripped_per)

theorem reset_lets_through_witness:
  "fst (guard_before 10 ''b'' (snd (guard_reset ''b'' ex_tripped))) \<and> \<not> fst (guard_before 10 ''b'' ex_tripped)"
  using reset_lets_through [OF ex_tripped_reachable, of "''b''" "''b''" 10]
  by (simp add: guard_before_def Let_def entry_def ex_tripped_per duration_defs)

theorem status_in_name_order_witness:
  "sorted_wrt (<) (map bs_name (st_breakers (fst (guard_status_of 10 ex_tripped))))"
  using status_in_name_order [OF ex_tripped_reachable refl, of 10] by (simp add: Let_def)

end
