(* ===== verification/Engine.thy ===== *)
theory Engine
  imports Guard Keyqueue
begin

text \<open>
  The reconcile engine: \<open>internal/reconcile/engine.go\<close>, \<open>condition.go\<close>, \<open>persist.go\<close>,
  \<open>requeue.go\<close> and \<open>stats.go\<close>.

  A controller's \<open>Reconcile\<close>, the dynamic source and the store act on a world of type \<open>'w\<close>, which
  is a parameter; so is the clock, whose readings may advance the world.  A run either returns a
  result and an optional error or panics.  A timer started by \<open>time.AfterFunc\<close> is an entry of the
  engine's list of pending timers.  Contexts, logging and the shutdown drain of a running pass are
  not modelled.
\<close>

section \<open>Results and conditions\<close>

datatype condition_status = Cond_true | Cond_false | Cond_unknown

fun status_string :: "condition_status \<Rightarrow> string" where
  "status_string Cond_true = ''True''"
| "status_string Cond_false = ''False''"
| "status_string Cond_unknown = ''Unknown''"

record condition =
  cd_type :: string
  cd_status :: condition_status
  cd_reason :: string
  cd_message :: string
  cd_last_transition :: gotime

record run_result =
  rr_conditions :: "condition list"
  rr_requeue_after :: duration
  rr_key_only :: bool

definition empty_result :: run_result where
  "empty_result = \<lparr>rr_conditions = [], rr_requeue_after = 0, rr_key_only = False\<rparr>"

datatype outcome = Returned run_result "string option" | Panicked string

section \<open>The ledger of persisted statuses\<close>

record persisted_entry =
  pe_sig :: string
  pe_at :: gotime

definition condition_bytes :: "condition \<Rightarrow> string" where
  "condition_bytes c =
     cd_type c @ CHR 0x00 # status_string (cd_status c) @ CHR 0x00 # cd_reason c @ CHR 0x00 #
     cd_message c @ [CHR 0x01]"

definition conditions_signature :: "condition list \<Rightarrow> string" where
  "conditions_signature conds = concat (map condition_bytes conds)"

type_synonym ledger = "(string, persisted_entry) gomap"

definition ledger_due ::
    "string \<Rightarrow> condition list \<Rightarrow> gotime \<Rightarrow> duration \<Rightarrow> ledger \<Rightarrow> string \<times> bool" where
  "ledger_due name conds now every l =
     (let sig = conditions_signature conds in
      case map_of l name of
        None \<Rightarrow> (sig, True)
      | Some prev \<Rightarrow>
          if pe_sig prev \<noteq> sig \<or> time_sub now (pe_at prev) \<ge> every then (sig, True) else (sig, False))"

definition ledger_record :: "string \<Rightarrow> string \<Rightarrow> gotime \<Rightarrow> ledger \<Rightarrow> ledger" where
  "ledger_record name sig now l = AList.update name \<lparr>pe_sig = sig, pe_at = now\<rparr> l"

definition ledger_forget :: "string set \<Rightarrow> ledger \<Rightarrow> ledger" where
  "ledger_forget live l = gm_retain (\<lambda>n. n \<in> live) l"

definition full_resync_from_env :: "duration option \<Rightarrow> duration" where
  "full_resync_from_env d = (case d of Some v \<Rightarrow> if v > 0 then v else 5 * minute | None \<Rightarrow> 5 * minute)"

section \<open>The engine's state\<close>

type_synonym 'w ctl = "('w \<Rightarrow> outcome \<times> 'w) controller"

type_synonym 'w clock = "'w \<Rightarrow> gotime \<times> 'w"

datatype 'w timer_action = Timer_nudge | Timer_requeue "'w ctl"

record 'w engine =
  en_controllers :: "'w ctl list"
  en_source :: "('w \<Rightarrow> (string + 'w ctl list) \<times> 'w) option"
  en_store :: "(string \<Rightarrow> condition list \<Rightarrow> 'w \<Rightarrow> string option \<times> 'w) option"
  en_last_result :: "(string, run_result) gomap"
  en_last_err :: "(string, string option) gomap"
  en_passes :: int
  en_last_end :: int
  en_last_dur :: duration
  en_last_ctrl :: nat
  en_ring :: "duration list"
  en_slowest :: duration
  en_slowest_name :: string
  en_pass_slowest :: duration
  en_pass_slowest_name :: string
  en_nudge :: bool
  en_boot_delays :: "duration list"
  en_first_event_delay :: duration
  en_started :: bool
  en_guard :: guard
  en_streak :: "(string, nat) gomap"
  en_requeue_env :: "duration option"
  en_persisted :: ledger
  en_full_resync :: duration
  en_workers :: nat
  en_key_timeout :: duration
  en_keyed :: "(string \<Rightarrow> bool) option"
  en_queue :: "('w \<Rightarrow> outcome \<times> 'w) key_queue option"
  en_timers :: "(duration \<times> 'w timer_action) list"

definition max_workers :: int where
  "max_workers = 64"

definition workers_from_env :: "int option \<Rightarrow> nat" where
  "workers_from_env n = (case n of None \<Rightarrow> 1 | Some v \<Rightarrow> if v < 1 then 1 else nat (min v max_workers))"

definition key_timeout_from_env :: "duration option \<Rightarrow> duration" where
  "key_timeout_from_env d = (case d of Some v \<Rightarrow> if v > 0 then v else 10 * minute | None \<Rightarrow> 10 * minute)"

text \<open>The environment as the parsed values of its variables.\<close>

record engine_env =
  ee_guard_num :: "string \<Rightarrow> rat option"
  ee_guard_dur :: "string \<Rightarrow> duration option"
  ee_full_resync :: "duration option"
  ee_workers :: "int option"
  ee_key_timeout :: "duration option"
  ee_requeue_max :: "duration option"

definition new_engine :: "engine_env \<Rightarrow> 'w ctl list \<Rightarrow> 'w engine" where
  "new_engine env cs =
     \<lparr>en_controllers = cs, en_source = None, en_store = None, en_last_result = [], en_last_err = [],
      en_passes = 0, en_last_end = 0, en_last_dur = 0, en_last_ctrl = 0, en_ring = [],
      en_slowest = 0, en_slowest_name = [], en_pass_slowest = 0, en_pass_slowest_name = [],
      en_nudge = False, en_boot_delays = [], en_first_event_delay = 0, en_started = False,
      en_guard = new_guard (guard_config_from_env (ee_guard_num env) (ee_guard_dur env)),
      en_streak = [], en_requeue_env = ee_requeue_max env, en_persisted = [],
      en_full_resync = full_resync_from_env (ee_full_resync env),
      en_workers = workers_from_env (ee_workers env),
      en_key_timeout = key_timeout_from_env (ee_key_timeout env),
      en_keyed = None, en_queue = None, en_timers = []\<rparr>"

definition set_keyed :: "(string \<Rightarrow> bool) \<Rightarrow> 'w engine \<Rightarrow> 'w engine" where
  "set_keyed keyed e = e\<lparr>en_keyed := Some keyed\<rparr>"

definition set_workers :: "int \<Rightarrow> duration \<Rightarrow> 'w engine \<Rightarrow> 'w engine" where
  "set_workers n key_timeout e =
     (let e = e\<lparr>en_workers := nat (max 1 (min n max_workers))\<rparr>
      in if key_timeout > 0 then e\<lparr>en_key_timeout := key_timeout\<rparr> else e)"

definition set_full_resync :: "duration \<Rightarrow> 'w engine \<Rightarrow> 'w engine" where
  "set_full_resync d e = (if d > 0 then e\<lparr>en_full_resync := d\<rparr> else e)"

definition concurrent :: "'w engine \<Rightarrow> string \<Rightarrow> bool" where
  "concurrent e name =
     (en_workers e > 1 \<and> (case en_keyed e of None \<Rightarrow> False | Some keyed \<Rightarrow> keyed name))"

definition key_queue_for :: "'w engine \<Rightarrow> ('w \<Rightarrow> outcome \<times> 'w) key_queue" where
  "key_queue_for e = (case en_queue e of None \<Rightarrow> new_key_queue (en_workers e) | Some q \<Rightarrow> q)"

definition nudge :: "'w engine \<Rightarrow> 'w engine" where
  "nudge e = e\<lparr>en_nudge := True\<rparr>"

definition nudge_controller :: "string \<Rightarrow> 'w engine \<Rightarrow> 'w engine" where
  "nudge_controller name e = nudge (e\<lparr>en_guard := snd (guard_reset name (en_guard e))\<rparr>)"

section \<open>Running one controller\<close>

definition requeue_limit :: "duration option \<Rightarrow> duration" where
  "requeue_limit d = (case d of Some v \<Rightarrow> if v > 0 then v else minute | None \<Rightarrow> minute)"

definition requeue_delay :: "duration option \<Rightarrow> nat \<Rightarrow> duration \<Rightarrow> duration" where
  "requeue_delay d n base =
     (let limit = requeue_limit d; delay = double_upto n base limit
      in if delay > limit then limit else delay)"

definition schedule_requeue :: "string \<Rightarrow> duration \<Rightarrow> 'w engine \<Rightarrow> 'w engine" where
  "schedule_requeue name base e =
     (if base \<le> 0 then e\<lparr>en_streak := AList.delete name (en_streak e)\<rparr>
      else
        (let n = (case map_of (en_streak e) name of None \<Rightarrow> 0 | Some n \<Rightarrow> n)
         in e\<lparr>en_streak := AList.update name (n + 1) (en_streak e),
              en_timers := en_timers e @ [(requeue_delay (en_requeue_env e) n base, Timer_nudge)]\<rparr>))"

definition record_controller :: "string \<Rightarrow> duration \<Rightarrow> 'w engine \<Rightarrow> 'w engine" where
  "record_controller name d e =
     (if d \<ge> en_pass_slowest e then e\<lparr>en_pass_slowest := d, en_pass_slowest_name := name\<rparr> else e)"

definition pass_window :: nat where
  "pass_window = 128"

text \<open>The Unix epoch, as nanoseconds since Go's zero time; \<open>lastEnd\<close> counts from it.\<close>

definition unix_epoch :: gotime where
  "unix_epoch = 62135596800 * second"

definition record_pass :: "gotime \<Rightarrow> gotime \<Rightarrow> nat \<Rightarrow> 'w engine \<Rightarrow> 'w engine" where
  "record_pass start now n e =
     (let d = time_sub now start; ring = en_ring e @ [d]
      in e\<lparr>en_passes := en_passes e + 1, en_last_end := now - unix_epoch, en_last_dur := d, en_last_ctrl := n,
           en_ring := (if length ring > pass_window then drop (length ring - pass_window) ring else ring),
           en_slowest := en_pass_slowest e, en_slowest_name := en_pass_slowest_name e,
           en_pass_slowest := 0, en_pass_slowest_name := []\<rparr>)"

text \<open>A panic becomes an error, with the zero result.\<close>

definition safe_reconcile ::
    "'w ctl \<Rightarrow> 'w \<Rightarrow> (run_result \<times> bool \<times> string option) \<times> 'w" where
  "safe_reconcile c w =
     (case ctl_rest c w of
        (Returned r err, w') \<Rightarrow> ((r, False, err), w')
      | (Panicked msg, w') \<Rightarrow>
          ((empty_result, True, Some (''controller '' @ ctl_name c @ '' panicked: '' @ msg)), w'))"

definition persist_result :: "'w clock \<Rightarrow> string \<Rightarrow> run_result \<Rightarrow> 'w engine \<Rightarrow> 'w \<Rightarrow> 'w engine \<times> 'w" where
  "persist_result clock name r e w =
     (case en_store e of
        None \<Rightarrow> (e, w)
      | Some upsert \<Rightarrow>
          if rr_conditions r = [] then (e, w)
          else
            (let (now, w) = clock w;
                 (sig, due) = ledger_due name (rr_conditions r) now (en_full_resync e) (en_persisted e)
             in if due
                then (case upsert name (rr_conditions r) w of
                        (Some _, w) \<Rightarrow> (e, w)
                      | (None, w) \<Rightarrow> (e\<lparr>en_persisted := ledger_record name sig now (en_persisted e)\<rparr>, w))
                else (e, w)))"

definition run_one ::
    "'w clock \<Rightarrow> 'w ctl \<Rightarrow> bool \<Rightarrow> 'w engine \<Rightarrow> 'w \<Rightarrow> run_result \<times> 'w engine \<times> 'w" where
  "run_one clock c keyed e w =
     (let name = ctl_name c;
          (t0, w) = clock w;
          (ok, g) = guard_before t0 name (en_guard e);
          e = e\<lparr>en_guard := g\<rparr>
      in if \<not> ok then (empty_result, e, w)
         else
           (let (start, w) = clock w;
                ((r, panicked, err), w) = safe_reconcile c w;
                (t1, w) = clock w;
                e = e\<lparr>en_guard := guard_after t1 name err panicked (en_guard e)\<rparr>;
                (t2, w) = clock w;
                e = record_controller name (time_sub t2 start) e;
                e = e\<lparr>en_last_result := AList.update name r (en_last_result e),
                      en_last_err := AList.update name err (en_last_err e)\<rparr>;
                e = (if keyed \<and> rr_key_only r then schedule_requeue name 0 e
                     else schedule_requeue name (rr_requeue_after r) e);
                (e, w) = persist_result clock name r e w
            in (r, e, w)))"

definition last_result :: "string \<Rightarrow> 'w engine \<Rightarrow> run_result \<times> string option" where
  "last_result name e =
     ((case map_of (en_last_result e) name of None \<Rightarrow> empty_result | Some r \<Rightarrow> r),
      (case map_of (en_last_err e) name of None \<Rightarrow> None | Some err \<Rightarrow> err))"

definition reconcile_keyed :: "'w clock \<Rightarrow> 'w ctl \<Rightarrow> 'w engine \<Rightarrow> 'w \<Rightarrow> 'w engine \<times> 'w" where
  "reconcile_keyed clock c e w =
     (let (r, e, w) = run_one clock c True e w
      in if rr_key_only r \<and> rr_requeue_after r > 0
         then (e\<lparr>en_timers := en_timers e @ [(rr_requeue_after r, Timer_requeue c)]\<rparr>, w)
         else (e, w))"

definition requeue_key :: "'w ctl \<Rightarrow> gotime \<Rightarrow> 'w engine \<Rightarrow> 'w engine" where
  "requeue_key c now e =
     (case en_queue e of None \<Rightarrow> e | Some q \<Rightarrow> e\<lparr>en_queue := Some (kq_requeue c now q)\<rparr>)"

definition stop_queue :: "'w engine \<Rightarrow> 'w engine" where
  "stop_queue e = e\<lparr>en_queue := None\<rparr>"

section \<open>One pass over all controllers\<close>

fun run_fixed :: "'w clock \<Rightarrow> 'w ctl list \<Rightarrow> 'w engine \<Rightarrow> 'w \<Rightarrow> 'w engine \<times> 'w" where
  "run_fixed clock [] e w = (e, w)"
| "run_fixed clock (c # cs) e w =
     (let (_, e, w) = run_one clock c False e w in run_fixed clock cs e w)"

fun run_dynamic :: "'w clock \<Rightarrow> 'w ctl list \<Rightarrow> 'w engine \<Rightarrow> 'w \<Rightarrow> 'w engine \<times> 'w" where
  "run_dynamic clock [] e w = (e, w)"
| "run_dynamic clock (c # cs) e w =
     (if concurrent e (ctl_name c)
      then (let (now, w) = clock w
            in run_dynamic clock cs (e\<lparr>en_queue := Some (kq_add c now (key_queue_for e))\<rparr>) w)
      else (let (_, e, w) = run_one clock c False e w in run_dynamic clock cs e w))"

definition retain_live :: "string set \<Rightarrow> 'w engine \<Rightarrow> 'w engine" where
  "retain_live live e =
     e\<lparr>en_queue := map_option (kq_retain live) (en_queue e),
       en_persisted := ledger_forget live (en_persisted e)\<rparr>"

definition reconcile_all :: "'w clock \<Rightarrow> 'w engine \<Rightarrow> 'w \<Rightarrow> 'w engine \<times> 'w" where
  "reconcile_all clock e w =
     (let (start, w) = clock w;
          n = length (en_controllers e);
          finish = (\<lambda>n e w. let (now, w) = clock w in (record_pass start now n e, w));
          fixed = set (map ctl_name (en_controllers e));
          (e, w) = run_fixed clock (en_controllers e) e w
      in case en_source e of
           None \<Rightarrow> finish n e w
         | Some source \<Rightarrow>
             (case source w of
                (Inl _, w) \<Rightarrow> finish n e w
              | (Inr dynamic, w) \<Rightarrow>
                  (let (e, w) = run_dynamic clock dynamic e w;
                       e = retain_live (fixed \<union> set (map ctl_name dynamic)) e
                   in finish (n + length dynamic) e w)))"

record engine_stats =
  es_passes :: int
  es_controllers :: nat
  es_last_pass_at :: "gotime option"
  es_last_pass :: duration
  es_p50 :: duration
  es_p95 :: duration
  es_slowest_name :: string
  es_slowest_elapsed :: duration
  es_pending :: bool
  es_queue :: "queue_stats option"

definition engine_stats_of :: "gotime \<Rightarrow> 'w engine \<Rightarrow> engine_stats" where
  "engine_stats_of now e =
     (let win = go_sort (<) (en_ring e); n = length win
      in \<lparr>es_passes = en_passes e, es_controllers = en_last_ctrl e,
          es_last_pass_at = (if en_last_end e > 0 then Some (unix_epoch + en_last_end e) else None),
          es_last_pass = en_last_dur e,
          es_p50 = (if n > 0 then win ! (n div 2) else 0),
          es_p95 = (if n > 0 then win ! min (n - 1) (n * 95 div 100) else 0),
          es_slowest_name = en_slowest_name e, es_slowest_elapsed = en_slowest e,
          es_pending = en_nudge e, es_queue = map_option (kq_stats now) (en_queue e)\<rparr>)"

section \<open>The run loop\<close>

record 'w loop =
  lp_engine :: "'w engine"
  lp_deferred :: "duration option"
  lp_first_seen :: bool
  lp_events_open :: bool
  lp_running :: bool

datatype loop_event = Ev_cancel | Ev_tick | Ev_deferred | Ev_nudge | Ev_docker | Ev_closed

text \<open>\<open>Run\<close> up to its loop: one pass outside the budget, then the boot timers.\<close>

definition run_start :: "'w clock \<Rightarrow> 'w engine \<Rightarrow> 'w \<Rightarrow> 'w loop \<times> 'w" where
  "run_start clock e w =
     (let (e, w) = reconcile_all clock (e\<lparr>en_started := True\<rparr>) w;
          boot = map (\<lambda>d. (d, Timer_nudge)) (filter (\<lambda>d. d > 0) (en_boot_delays e))
      in (\<lparr>lp_engine = e\<lparr>en_timers := en_timers e @ boot\<rparr>, lp_deferred = None, lp_first_seen = False,
           lp_events_open = True, lp_running = True\<rparr>, w))"

definition trigger :: "'w clock \<Rightarrow> 'w loop \<Rightarrow> 'w \<Rightarrow> 'w loop \<times> 'w" where
  "trigger clock l w =
     (let (now, w) = clock w;
          ((ok, wait), g) = allow_pass now (en_guard (lp_engine l));
          e = (lp_engine l)\<lparr>en_guard := g\<rparr>
      in if \<not> ok
         then (l\<lparr>lp_engine := e, lp_deferred := (case lp_deferred l of None \<Rightarrow> Some wait | Some d \<Rightarrow> Some d)\<rparr>, w)
         else
           (let (e, w) = reconcile_all clock e w
            in (l\<lparr>lp_engine := e, lp_deferred := None\<rparr>, w)))"

text \<open>Which arms of the \<open>select\<close> are ready, and what each does.\<close>

fun loop_ready :: "'w loop \<Rightarrow> loop_event \<Rightarrow> bool" where
  "loop_ready l Ev_cancel = lp_running l"
| "loop_ready l Ev_tick = lp_running l"
| "loop_ready l Ev_deferred = (lp_running l \<and> lp_deferred l \<noteq> None)"
| "loop_ready l Ev_nudge = (lp_running l \<and> en_nudge (lp_engine l))"
| "loop_ready l Ev_docker = (lp_running l \<and> lp_events_open l)"
| "loop_ready l Ev_closed = (lp_running l \<and> lp_events_open l)"

fun loop_step :: "'w clock \<Rightarrow> loop_event \<Rightarrow> 'w loop \<Rightarrow> 'w \<Rightarrow> 'w loop \<times> 'w" where
  "loop_step clock Ev_cancel l w = (l\<lparr>lp_engine := stop_queue (lp_engine l), lp_running := False\<rparr>, w)"
| "loop_step clock Ev_tick l w = trigger clock l w"
| "loop_step clock Ev_deferred l w = trigger clock (l\<lparr>lp_deferred := None\<rparr>) w"
| "loop_step clock Ev_nudge l w =
     trigger clock (l\<lparr>lp_engine := (lp_engine l)\<lparr>en_nudge := False\<rparr>\<rparr>) w"
| "loop_step clock Ev_docker l w =
     (let e = lp_engine l;
          e = (if \<not> lp_first_seen l \<and> en_first_event_delay e > 0
               then e\<lparr>en_timers := en_timers e @ [(en_first_event_delay e, Timer_nudge)]\<rparr> else e)
      in trigger clock (l\<lparr>lp_engine := e, lp_first_seen := True\<rparr>) w)"
| "loop_step clock Ev_closed l w = (l\<lparr>lp_events_open := False\<rparr>, w)"

text \<open>A pending timer fires.\<close>

definition fire_timer :: "nat \<Rightarrow> gotime \<Rightarrow> 'w engine \<Rightarrow> 'w engine" where
  "fire_timer i now e =
     (if i < length (en_timers e) then
        (let e' = e\<lparr>en_timers := take i (en_timers e) @ drop (Suc i) (en_timers e)\<rparr>
         in case snd (en_timers e ! i) of
              Timer_nudge \<Rightarrow> nudge e'
            | Timer_requeue c \<Rightarrow> requeue_key c now e')
      else e)"


section \<open>What one run leaves alone\<close>

text \<open>The parts of the engine that running controllers does not touch.\<close>

definition frame :: "'w engine \<Rightarrow> 'w engine \<Rightarrow> bool" where
  "frame e e' \<longleftrightarrow>
     en_controllers e' = en_controllers e \<and> en_source e' = en_source e \<and> en_store e' = en_store e \<and>
     en_passes e' = en_passes e \<and> en_ring e' = en_ring e \<and> en_nudge e' = en_nudge e \<and>
     en_workers e' = en_workers e \<and> en_keyed e' = en_keyed e \<and> en_full_resync e' = en_full_resync e \<and>
     en_requeue_env e' = en_requeue_env e \<and>
     gd_cfg (en_guard e') = gd_cfg (en_guard e) \<and> gd_global (en_guard e') = gd_global (en_guard e)"

lemma frame_refl [simp, intro]: "frame e e"
  by (simp add: frame_def)

lemma frame_trans [trans]: "frame a b \<Longrightarrow> frame b c \<Longrightarrow> frame a c"
  by (simp add: frame_def)

lemma frame_requeue: "frame e (schedule_requeue name base e)"
  by (simp add: schedule_requeue_def Let_def frame_def)

lemma frame_record: "frame e (record_controller name d e)"
  by (simp add: record_controller_def frame_def)

lemma frame_persist: "persist_result clock name r e w = (e', w') \<Longrightarrow> frame e e' \<and> en_queue e' = en_queue e"
  by (auto simp: persist_result_def Let_def frame_def split: option.splits prod.splits if_splits)

lemma frame_guard:
  "gd_cfg g = gd_cfg (en_guard e) \<Longrightarrow> gd_global g = gd_global (en_guard e) \<Longrightarrow> frame e (e\<lparr>en_guard := g\<rparr>)"
  by (simp add: frame_def)

text \<open>The steps of a run, named one by one.\<close>

lemma run_one_cases:
  assumes "run_one clock c keyed e w = (r, e', w')"
  obtains (refused) t0 w1 g where "clock w = (t0, w1)"
      "guard_before t0 (ctl_name c) (en_guard e) = (False, g)"
      "r = empty_result" "e' = e\<lparr>en_guard := g\<rparr>" "w' = w1"
  | (ran) t0 w1 g start w2 panicked err w3 t1 w4 t2 w5 e1 where "clock w = (t0, w1)"
      "guard_before t0 (ctl_name c) (en_guard e) = (True, g)" "clock w1 = (start, w2)"
      "safe_reconcile c w2 = ((r, panicked, err), w3)" "clock w3 = (t1, w4)" "clock w4 = (t2, w5)"
      "e1 = (record_controller (ctl_name c) (time_sub t2 start)
         (e\<lparr>en_guard := guard_after t1 (ctl_name c) err panicked g\<rparr>))
           \<lparr>en_last_result := AList.update (ctl_name c) r (en_last_result e),
            en_last_err := AList.update (ctl_name c) err (en_last_err e)\<rparr>"
      "persist_result clock (ctl_name c) r
         (schedule_requeue (ctl_name c) (if keyed \<and> rr_key_only r then 0 else rr_requeue_after r) e1) w5 =
       (e', w')"
proof (cases "fst (guard_before (fst (clock w)) (ctl_name c) (en_guard e))")
  case False
  obtain t0 w1 where 1: "clock w = (t0, w1)" by fastforce
  with False obtain g where 2: "guard_before t0 (ctl_name c) (en_guard e) = (False, g)"
    by (metis fst_conv surj_pair)
  from assms 1 2 show thesis
    by (intro refused [OF 1 2]) (auto simp: run_one_def Let_def)
next
  case True
  obtain t0 w1 where 1: "clock w = (t0, w1)" by fastforce
  with True obtain g where 2: "guard_before t0 (ctl_name c) (en_guard e) = (True, g)"
    by (metis fst_conv surj_pair)
  obtain start w2 where 3: "clock w1 = (start, w2)" by fastforce
  obtain r0 panicked err w3 where 4: "safe_reconcile c w2 = ((r0, panicked, err), w3)"
    by (metis surj_pair)
  obtain t1 w4 where 5: "clock w3 = (t1, w4)" by fastforce
  obtain t2 w5 where 6: "clock w4 = (t2, w5)" by fastforce
  have rc: "en_last_result (record_controller n d x) = en_last_result x"
    "en_last_err (record_controller n d x) = en_last_err x" for n d and x :: "'a engine"
    by (simp_all add: record_controller_def)
  have "r = r0" using assms 1 2 3 4 5 6 by (auto simp: run_one_def Let_def split: prod.splits)
  with assms 1 2 3 4 5 6 show thesis
    by (intro ran [OF 1 2 3 _ 5 6 refl]) (auto simp: run_one_def Let_def rc split: prod.splits if_splits)
qed

lemma run_one_frame:
  assumes "run_one clock c keyed e w = (r, e', w')"
  shows "frame e e'" and "en_queue e' = en_queue e"
proof -
  have "frame e e' \<and> en_queue e' = en_queue e"
    using assms
  proof (cases rule: run_one_cases)
    case (refused t0 w1 g)
    with guard_before_frame(1,2) show ?thesis by (auto simp: frame_def)
  next
    case (ran t0 w1 g start w2 panicked err w3 t1 w4 t2 w5 e1)
    have "frame e e1 \<and> en_queue e1 = en_queue e"
      using guard_before_frame(1,2) [OF ran(2)] guard_after_frame(1,2) ran(7)
      by (simp add: frame_def record_controller_def)
    moreover have "en_queue (schedule_requeue n b e1) = en_queue e1" for n b
      by (simp add: schedule_requeue_def Let_def)
    ultimately show ?thesis
      using frame_persist [OF ran(8)] frame_requeue frame_trans by metis
  qed
  then show "frame e e'" and "en_queue e' = en_queue e" by auto
qed

lemma run_fixed_frame: "run_fixed clock cs e w = (e', w') \<Longrightarrow> frame e e' \<and> en_queue e' = en_queue e"
proof (induction cs arbitrary: e w)
  case Nil
  then show ?case by simp
next
  case (Cons c cs)
  obtain r e1 w1 where 1: "run_one clock c False e w = (r, e1, w1)" by (metis surj_pair)
  with Cons.prems have "run_fixed clock cs e1 w1 = (e', w')" by simp
  from Cons.IH [OF this] run_one_frame [OF 1] show ?case using frame_trans by metis
qed

lemma run_dynamic_frame: "run_dynamic clock cs e w = (e', w') \<Longrightarrow> frame e e'"
proof (induction cs arbitrary: e w)
  case Nil
  then show ?case by simp
next
  case (Cons c cs)
  show ?case
  proof (cases "concurrent e (ctl_name c)")
    case True
    obtain now w1 where "clock w = (now, w1)" by fastforce
    with True Cons.prems have
      "run_dynamic clock cs (e\<lparr>en_queue := Some (kq_add c now (key_queue_for e))\<rparr>) w1 = (e', w')" by simp
    from Cons.IH [OF this] show ?thesis by (simp add: frame_def)
  next
    case False
    obtain r e1 w1 where 1: "run_one clock c False e w = (r, e1, w1)" by (metis surj_pair)
    with False Cons.prems have "run_dynamic clock cs e1 w1 = (e', w')" by simp
    from Cons.IH [OF this] run_one_frame [OF 1] show ?thesis using frame_trans by metis
  qed
qed

lemma reconcile_all_passes:
  assumes "reconcile_all clock e w = (e', w')"
  shows "en_passes e' = en_passes e + 1 \<and> gd_global (en_guard e') = gd_global (en_guard e) \<and>
    gd_cfg (en_guard e') = gd_cfg (en_guard e)"
proof -
  obtain start w1 where 1: "clock w = (start, w1)" by fastforce
  obtain e2 w2 where 2: "run_fixed clock (en_controllers e) e w1 = (e2, w2)" by fastforce
  from run_fixed_frame [OF 2] have f2: "frame e e2" by simp
  have rp: "en_passes (record_pass a b n x) = en_passes x + 1 \<and> en_guard (record_pass a b n x) = en_guard x"
    for a b n and x :: "'a engine"
    by (simp add: record_pass_def Let_def)
  have rl: "frame x (retain_live live x)" for live and x :: "'a engine"
    by (simp add: retain_live_def frame_def)
  show ?thesis
  proof (cases "en_source e2")
    case None
    with assms 1 2 f2 rp show ?thesis
      by (auto simp: reconcile_all_def Let_def frame_def split: prod.splits)
  next
    case (Some source)
    obtain res w3 where 3: "source w2 = (res, w3)" by fastforce
    show ?thesis
    proof (cases res)
      case (Inl err)
      with assms 1 2 3 Some f2 rp show ?thesis
        by (auto simp: reconcile_all_def Let_def frame_def split: prod.splits)
    next
      case (Inr dynamic)
      obtain e4 w4 where 4: "run_dynamic clock dynamic e2 w3 = (e4, w4)" by fastforce
      from f2 run_dynamic_frame [OF 4] rl have
        "frame e (retain_live (set (map ctl_name (en_controllers e)) \<union> set (map ctl_name dynamic)) e4)"
        using frame_trans by metis
      with assms 1 2 3 4 Some Inr rp show ?thesis
        by (auto simp: reconcile_all_def Let_def frame_def split: prod.splits)
    qed
  qed
qed

section \<open>What the engine promises\<close>

lemma trigger_cases:
  assumes "trigger clock l w = (l', w')"
  obtains (refused) now w1 wait g where "clock w = (now, w1)"
      "allow_pass now (en_guard (lp_engine l)) = ((False, wait), g)"
      "l' = l\<lparr>lp_engine := (lp_engine l)\<lparr>en_guard := g\<rparr>,
              lp_deferred := (case lp_deferred l of None \<Rightarrow> Some wait | Some d \<Rightarrow> Some d)\<rparr>" "w' = w1"
  | (passed) now w1 wait g e' where "clock w = (now, w1)"
      "allow_pass now (en_guard (lp_engine l)) = ((True, wait), g)"
      "reconcile_all clock ((lp_engine l)\<lparr>en_guard := g\<rparr>) w1 = (e', w')"
      "l' = l\<lparr>lp_engine := e', lp_deferred := None\<rparr>"
proof -
  obtain now w1 where 1: "clock w = (now, w1)" by fastforce
  obtain ok wait g where 2: "allow_pass now (en_guard (lp_engine l)) = ((ok, wait), g)"
    by (metis surj_pair)
  show thesis
  proof (cases ok)
    case True
    obtain e' w2 where 3: "reconcile_all clock ((lp_engine l)\<lparr>en_guard := g\<rparr>) w1 = (e', w2)" by fastforce
    with assms 1 2 True show thesis by (intro passed [of now w1 wait g e']) (simp_all add: trigger_def)
  next
    case False
    with assms 1 2 show thesis by (intro refused [of now w1 wait g]) (simp_all add: trigger_def)
  qed
qed

definition wakes_up :: "loop_event \<Rightarrow> bool" where
  "wakes_up ev \<longleftrightarrow> ev \<in> {Ev_tick, Ev_deferred, Ev_nudge, Ev_docker}"

lemma trigger_kept:
  assumes "trigger clock l w = (l', w')"
  shows "en_passes (lp_engine l') = en_passes (lp_engine l) + 1 \<and> lp_deferred l' = None \<or>
    en_passes (lp_engine l') = en_passes (lp_engine l) \<and>
    (case lp_deferred l of Some d \<Rightarrow> lp_deferred l' = Some d
     | None \<Rightarrow> (\<exists>wait. lp_deferred l' = Some wait))"
  using assms
proof (cases rule: trigger_cases)
  case (refused now w1 wait g)
  then show ?thesis by (simp split: option.splits)
next
  case (passed now w1 wait g e')
  with reconcile_all_passes [OF passed(3)] show ?thesis by simp
qed

text \<open>
  C6: A wake-up is never lost.  A resync tick, a nudge, a docker event or the deferred timer either
  runs exactly one pass, with no timer left over, or leaves a deferred timer armed; and a timer
  that is already armed is not restarted by later events, so a storm cannot push the pass back.
\<close>

theorem wake_up_not_lost:
  assumes "wakes_up ev" and "loop_step clock ev l w = (l', w')"
  shows "en_passes (lp_engine l') = en_passes (lp_engine l) + 1 \<and> lp_deferred l' = None \<or>
    en_passes (lp_engine l') = en_passes (lp_engine l) \<and> lp_deferred l' \<noteq> None \<and>
    (ev \<noteq> Ev_deferred \<and> lp_deferred l \<noteq> None \<longrightarrow> lp_deferred l' = lp_deferred l)"
proof (cases ev)
  case Ev_tick
  with assms(2) trigger_kept [of clock l w l' w'] show ?thesis by (auto split: option.splits)
next
  case Ev_deferred
  with assms(2) trigger_kept [of clock "l\<lparr>lp_deferred := None\<rparr>" w l' w'] show ?thesis by auto
next
  case Ev_nudge
  with assms(2) trigger_kept [of clock "l\<lparr>lp_engine := (lp_engine l)\<lparr>en_nudge := False\<rparr>\<rparr>" w l' w']
  show ?thesis by (auto split: option.splits)
next
  case Ev_docker
  define e where "e = (if \<not> lp_first_seen l \<and> en_first_event_delay (lp_engine l) > 0
    then (lp_engine l)\<lparr>en_timers := en_timers (lp_engine l) @ [(en_first_event_delay (lp_engine l), Timer_nudge)]\<rparr>
    else lp_engine l)"
  have "trigger clock (l\<lparr>lp_engine := e, lp_first_seen := True\<rparr>) w = (l', w')"
    using Ev_docker assms(2) by (simp add: Let_def e_def)
  moreover have "en_passes e = en_passes (lp_engine l)" by (simp add: e_def)
  ultimately show ?thesis
    using Ev_docker trigger_kept [of clock "l\<lparr>lp_engine := e, lp_first_seen := True\<rparr>" w l' w']
    by (auto split: option.splits)
qed (use assms(1) in \<open>simp_all add: wakes_up_def\<close>)

text \<open>
  The back-off of repeated requeue requests.  The request made after \<open>n\<close> consecutive ones sets a
  timer that nudges the engine after the requested delay doubled \<open>n\<close> times, capped at the limit,
  without overflow; a request of zero sets no timer and starts the count anew, and neither touches
  the count of another controller.
\<close>

theorem requeue_backs_off:
  assumes "0 < base" and "requeue_limit (en_requeue_env e) \<le> 2 ^ 62"
  shows "let n = (case map_of (en_streak e) name of None \<Rightarrow> 0 | Some n \<Rightarrow> n);
             e' = schedule_requeue name base e; e0 = schedule_requeue name 0 e
         in en_timers e' = en_timers e @ [(min (requeue_limit (en_requeue_env e)) (base * 2 ^ n), Timer_nudge)] \<and>
            map_of (en_streak e') name = Some (n + 1) \<and>
            en_timers e0 = en_timers e \<and> map_of (en_streak e0) name = None \<and>
            (\<forall>m. m \<noteq> name \<longrightarrow> map_of (en_streak e') m = map_of (en_streak e) m \<and>
                           map_of (en_streak e0) m = map_of (en_streak e) m)"
proof -
  have "requeue_delay (en_requeue_env e) n base = min (requeue_limit (en_requeue_env e)) (base * 2 ^ n)" for n
  proof -
    have "requeue_delay (en_requeue_env e) n base =
        min (requeue_limit (en_requeue_env e)) (double_upto n base (requeue_limit (en_requeue_env e)))"
      by (simp add: requeue_delay_def Let_def)
    with double_upto_capped [OF assms] show ?thesis by simp
  qed
  with assms(1) show ?thesis by (simp add: schedule_requeue_def Let_def)
qed

subsection \<open>Statuses and their signatures\<close>

definition clean_text :: "string \<Rightarrow> bool" where
  "clean_text s \<longleftrightarrow> CHR 0x00 \<notin> set s \<and> CHR 0x01 \<notin> set s"

definition clean_condition :: "condition \<Rightarrow> bool" where
  "clean_condition c \<longleftrightarrow> clean_text (cd_type c) \<and> clean_text (cd_reason c) \<and> clean_text (cd_message c)"

text \<open>What a signature is about: everything but the time of the last transition.\<close>

definition condition_key :: "condition \<Rightarrow> string \<times> condition_status \<times> string \<times> string" where
  "condition_key c = (cd_type c, cd_status c, cd_reason c, cd_message c)"

lemma status_string_inj: "status_string a = status_string b \<longleftrightarrow> a = b"
  by (cases a; cases b) simp_all

lemma status_string_clean [simp]: "clean_text (status_string a)"
  by (cases a) (simp_all add: clean_text_def)

lemma condition_bytes_split:
  assumes "clean_condition c" and "clean_condition d"
  shows "condition_bytes c @ xs = condition_bytes d @ ys \<longleftrightarrow> condition_key c = condition_key d \<and> xs = ys"
proof -
  have "clean_text (status_string a)" for a by simp
  with assms show ?thesis
    by (auto simp: condition_bytes_def condition_key_def clean_condition_def clean_text_def
        separator_eq_iff status_string_inj)
qed

lemma signature_of_clean:
  "\<forall>c\<in>set xs. clean_condition c \<Longrightarrow> \<forall>c\<in>set ys. clean_condition c \<Longrightarrow>
    conditions_signature xs = conditions_signature ys \<longleftrightarrow> map condition_key xs = map condition_key ys"
proof (induction xs arbitrary: ys)
  case Nil
  then show ?case by (cases ys) (auto simp: conditions_signature_def condition_bytes_def)
next
  case (Cons x xs)
  show ?case
  proof (cases ys)
    case Nil
    then show ?thesis by (auto simp: conditions_signature_def condition_bytes_def)
  next
    case (Cons y ys')
    with Cons.prems Cons.IH [of ys'] condition_bytes_split [of x y] show ?thesis
      by (simp add: conditions_signature_def)
  qed
qed

text \<open>
  Skipping an unchanged status is sound.  As long as no text holds the two separator bytes, a
  status is skipped only if every condition's type, status, reason and message is the one last
  written for that controller, and that write is younger than the full resync interval; a status
  never written, or forgotten with its controller, is always due.
\<close>

theorem skipped_status_unchanged:
  assumes "\<forall>c\<in>set old. clean_condition c" and "\<forall>c\<in>set new. clean_condition c"
  shows "(snd (ledger_due name new now every (ledger_record name (conditions_signature old) written l)) \<longleftrightarrow>
      map condition_key new \<noteq> map condition_key old \<or> every \<le> time_sub now written) \<and>
    (name \<notin> live \<longrightarrow> snd (ledger_due name new now every (ledger_forget live l)))"
  using signature_of_clean [OF assms]
  by (auto simp: ledger_due_def ledger_record_def ledger_forget_def Let_def)

text \<open>Without that restriction two different statuses can have the same signature: a message may
  hold a separator and what follows it.\<close>

lemma signature_collides:
  "\<exists>xs ys. map condition_key xs \<noteq> map condition_key ys \<and> conditions_signature xs = conditions_signature ys"
proof -
  let ?c = "\<lambda>t m. \<lparr>cd_type = t, cd_status = Cond_true, cd_reason = [], cd_message = m, cd_last_transition = 0\<rparr>"
  have "map condition_key [?c ''A'' [], ?c ''B'' []] \<noteq>
      map condition_key [?c ''A'' (CHR 0x01 # ''B'' @ CHR 0x00 # ''True'' @ [CHR 0x00, CHR 0x00])]"
    by simp
  moreover have "conditions_signature [?c ''A'' [], ?c ''B'' []] =
      conditions_signature [?c ''A'' (CHR 0x01 # ''B'' @ CHR 0x00 # ''True'' @ [CHR 0x00, CHR 0x00])]"
    by (simp add: conditions_signature_def condition_bytes_def)
  ultimately show ?thesis by blast
qed

text \<open>
  Persistence is best effort and honest.  A store failure changes nothing the engine remembers,
  so the same status is due again at the next run; a successful write is remembered under the
  signature of what was written, so the same status at the same time is not due.
\<close>

theorem failed_write_retried:
  assumes "en_store e = Some upsert" and "rr_conditions r \<noteq> []" and "clock w = (now, w1)"
    and "snd (ledger_due name (rr_conditions r) now (en_full_resync e) (en_persisted e))"
    and "0 < en_full_resync e"
  shows "case upsert name (rr_conditions r) w1 of
      (Some err, w2) \<Rightarrow> persist_result clock name r e w = (e, w2)
    | (None, w2) \<Rightarrow>
        (case persist_result clock name r e w of (e', w') \<Rightarrow> w' = w2 \<and> frame e e' \<and>
           \<not> snd (ledger_due name (rr_conditions r) now (en_full_resync e') (en_persisted e')))"
  using assms
  by (auto simp: persist_result_def Let_def ledger_due_def ledger_record_def frame_def time_sub_def
      split: prod.splits option.splits if_splits)

subsection \<open>One controller's failure is its own\<close>

lemma persist_last: "persist_result clock n r e w = (e', w') \<Longrightarrow> last_result m e' = last_result m e \<and> en_guard e' = en_guard e"
  by (auto simp: persist_result_def last_result_def Let_def split: option.splits prod.splits if_splits)

lemma requeue_last: "last_result m (schedule_requeue n b e) = last_result m e"
  "en_guard (schedule_requeue n b e) = en_guard e"
  by (simp_all add: schedule_requeue_def last_result_def Let_def)

lemma run_one_other:
  assumes "run_one clock c keyed e w = (r, e', w')" and "m \<noteq> ctl_name c"
  shows "last_result m e' = last_result m e \<and> entry m (en_guard e') = entry m (en_guard e)"
  using assms(1)
proof (cases rule: run_one_cases)
  case (refused t0 w1 g)
  with guard_before_frame(3) [OF refused(2) assms(2)] show ?thesis by (simp add: last_result_def)
next
  case (ran t0 w1 g start w2 panicked err w3 t1 w4 t2 w5 e1)
  have "entry m (guard_after t1 (ctl_name c) err panicked g) = entry m g"
    using assms(2) by (simp add: guard_after_def Let_def split: option.splits)
  moreover have "last_result m e1 = last_result m e"
    using assms(2) ran(7) by (simp add: last_result_def record_controller_def)
  moreover have "en_guard e1 = guard_after t1 (ctl_name c) err panicked g"
    using ran(7) by (simp add: record_controller_def)
  ultimately show ?thesis
    using guard_before_frame(3) [OF ran(2) assms(2)] persist_last [OF ran(8)] requeue_last by metis
qed

lemma run_fixed_other:
  "run_fixed clock cs e w = (e', w') \<Longrightarrow> m \<notin> ctl_name ` set cs \<Longrightarrow>
    last_result m e' = last_result m e \<and> entry m (en_guard e') = entry m (en_guard e)"
proof (induction cs arbitrary: e w)
  case (Cons c cs)
  obtain r e1 w1 where 1: "run_one clock c False e w = (r, e1, w1)" by (metis surj_pair)
  with Cons.prems have "run_fixed clock cs e1 w1 = (e', w')" by simp
  with Cons.IH [OF this] Cons.prems run_one_other [OF 1, of m] show ?case by simp
qed simp

lemma run_fixed_append:
  "run_fixed clock (xs @ ys) e w = (let (e, w) = run_fixed clock xs e w in run_fixed clock ys e w)"
  by (induction xs arbitrary: e w) (auto split: prod.splits)

definition outcome_report :: "string \<Rightarrow> outcome \<Rightarrow> run_result \<times> string option" where
  "outcome_report name out =
     (case out of Returned r err \<Rightarrow> (r, err)
      | Panicked msg \<Rightarrow> (empty_result, Some (''controller '' @ name @ '' panicked: '' @ msg)))"

lemma run_one_reports:
  assumes "clock w = (t0, w1)" and "fst (guard_before t0 (ctl_name c) (en_guard e))"
    and "clock w1 = (start, w2)" and "ctl_rest c w2 = (out, w3)"
    and "run_one clock c keyed e w = (r, e', w')"
  shows "last_result (ctl_name c) e' = outcome_report (ctl_name c) out"
  using assms(5)
proof (cases rule: run_one_cases)
  case (refused u0 v1 g)
  with assms(1,2) show ?thesis by simp
next
  case (ran u0 v1 g u1 v2 panicked err v3 t1 w4 t2 w5 e1)
  with assms(1,3) have v2: "v2 = w2" by simp
  have sr: "(r, err) = outcome_report (ctl_name c) out"
    using ran(4) assms(4) v2 by (auto simp: safe_reconcile_def outcome_report_def split: outcome.splits)
  have "last_result (ctl_name c) e1 = (r, err)"
    using ran(7) by (simp add: last_result_def)
  with sr persist_last [OF ran(8)] requeue_last show ?thesis by metis
qed

text \<open>
  One broken resource never blocks the others.  Whatever the controllers before and after it
  in a pass do (return errors, panic), a controller that storm protection lets through is run, and
  after the pass its last result is what its own run reported, a panic turned into an error.
\<close>

theorem failure_stays_local:
  assumes "distinct (map ctl_name (before @ c # later))"
    and "run_fixed clock before e w = (e1, w1)"
    and "clock w1 = (t0, w2)" and "fst (guard_before t0 (ctl_name c) (en_guard e1))"
    and "clock w2 = (start, w3)" and "ctl_rest c w3 = (out, w4)"
  shows "last_result (ctl_name c) (fst (run_fixed clock (before @ c # later) e w)) =
      outcome_report (ctl_name c) out \<and>
    entry (ctl_name c) (en_guard e1) = entry (ctl_name c) (en_guard e)"
proof -
  obtain r e2 w5 where 1: "run_one clock c False e1 w1 = (r, e2, w5)" by (metis surj_pair)
  obtain e3 w6 where 2: "run_fixed clock later e2 w5 = (e3, w6)" by fastforce
  have "run_fixed clock (before @ c # later) e w = (e3, w6)"
    using assms(2) 1 2 by (simp add: run_fixed_append)
  moreover have "last_result (ctl_name c) e3 = last_result (ctl_name c) e2"
    using run_fixed_other [OF 2, of "ctl_name c"] assms(1) by simp
  moreover have "entry (ctl_name c) (en_guard e1) = entry (ctl_name c) (en_guard e)"
    using run_fixed_other [OF assms(2), of "ctl_name c"] assms(1) by auto
  ultimately show ?thesis
    using run_one_reports [OF assms(3,4,5,6) 1] by simp
qed

subsection \<open>Passes against the budget\<close>

text \<open>What can happen to a running engine: an arm of the loop, a timer, a nudge or a poke from
  another goroutine, a run on the keyed pool.\<close>

datatype 'w happening =
    H_loop loop_event
  | H_fire nat
  | H_nudge
  | H_poke string
  | H_keyed "'w ctl"

fun hap_step :: "'w clock \<Rightarrow> 'w happening \<Rightarrow> 'w loop \<Rightarrow> 'w \<Rightarrow> 'w loop \<times> 'w" where
  "hap_step clock (H_loop ev) l w = (if loop_ready l ev then loop_step clock ev l w else (l, w))"
| "hap_step clock (H_fire i) l w =
     (let (now, w) = clock w in (l\<lparr>lp_engine := fire_timer i now (lp_engine l)\<rparr>, w))"
| "hap_step clock H_nudge l w = (l\<lparr>lp_engine := nudge (lp_engine l)\<rparr>, w)"
| "hap_step clock (H_poke name) l w = (l\<lparr>lp_engine := nudge_controller name (lp_engine l)\<rparr>, w)"
| "hap_step clock (H_keyed c) l w =
     (let (e, w) = reconcile_keyed clock c (lp_engine l) w in (l\<lparr>lp_engine := e\<rparr>, w))"

fun hap_run :: "'w clock \<Rightarrow> 'w happening list \<Rightarrow> 'w loop \<Rightarrow> 'w \<Rightarrow> 'w loop \<times> 'w" where
  "hap_run clock [] l w = (l, w)"
| "hap_run clock (h # hs) l w = (let (l, w) = hap_step clock h l w in hap_run clock hs l w)"

text \<open>The clock readings at which the loop asks for a pass.\<close>

fun hap_time :: "'w clock \<Rightarrow> 'w happening \<Rightarrow> 'w loop \<Rightarrow> 'w \<Rightarrow> gotime list" where
  "hap_time clock (H_loop ev) l w = (if loop_ready l ev \<and> wakes_up ev then [fst (clock w)] else [])"
| "hap_time clock _ l w = []"

fun hap_times :: "'w clock \<Rightarrow> 'w happening list \<Rightarrow> 'w loop \<Rightarrow> 'w \<Rightarrow> gotime list" where
  "hap_times clock [] l w = []"
| "hap_times clock (h # hs) l w =
     hap_time clock h l w @ (let (l, w) = hap_step clock h l w in hap_times clock hs l w)"

definition budget :: "'w engine \<Rightarrow> guard_config \<times> bucket" where
  "budget e = (gd_cfg (en_guard e), gd_global (en_guard e))"

lemma frame_budget: "frame e e' \<Longrightarrow> budget e' = budget e \<and> en_passes e' = en_passes e"
  by (simp add: frame_def budget_def)

lemma trigger_budget:
  assumes "trigger clock l w = (l', w')"
  shows "\<exists>ok b. bucket_take (fst (clock w)) (gc_pass_burst (fst (budget (lp_engine l))))
        (gc_passes_per_sec (fst (budget (lp_engine l)))) (snd (budget (lp_engine l))) = (ok, b) \<and>
      budget (lp_engine l') = (fst (budget (lp_engine l)), b) \<and>
      en_passes (lp_engine l') = en_passes (lp_engine l) + (if ok then 1 else 0)"
  using assms
proof (cases rule: trigger_cases)
  case (refused now w1 wait g)
  with allow_pass_frame(1,3) [OF refused(2)] show ?thesis
    by (intro exI [of _ False] exI [of _ "gd_global g"]) (simp add: budget_def)
next
  case (passed now w1 wait g e')
  with allow_pass_frame(1,3) [OF passed(2)] reconcile_all_passes [OF passed(3)] show ?thesis
    by (intro exI [of _ True] exI [of _ "gd_global g"]) (simp add: budget_def)
qed

text \<open>A happening that asks for no pass leaves the budget and the count of passes alone.\<close>

lemma hap_quiet:
  assumes "hap_time clock h l w = []" and "h \<noteq> H_poke []" and "hap_step clock h l w = (l', w')"
  shows "budget (lp_engine l') = budget (lp_engine l) \<and> en_passes (lp_engine l') = en_passes (lp_engine l)"
proof (cases h)
  case (H_loop ev)
  with assms show ?thesis
    by (cases ev) (auto simp: wakes_up_def stop_queue_def budget_def split: if_splits)
next
  case (H_fire i)
  have "budget (fire_timer i now e) = budget e \<and> en_passes (fire_timer i now e) = en_passes e"
    for now and e :: "'a engine"
    by (auto simp: fire_timer_def Let_def nudge_def requeue_key_def budget_def
        split: timer_action.splits option.splits)
  with H_fire assms(3) show ?thesis by (auto split: prod.splits)
next
  case H_nudge
  with assms(3) show ?thesis by (auto simp: nudge_def budget_def)
next
  case (H_poke name)
  with assms(2,3) show ?thesis
    by (auto simp: nudge_controller_def nudge_def budget_def guard_reset_def Let_def)
next
  case (H_keyed c)
  obtain r e1 w1 where 1: "run_one clock c True (lp_engine l) w = (r, e1, w1)" by (metis surj_pair)
  from H_keyed assms(3) 1 have "budget (lp_engine l') = budget e1 \<and> en_passes (lp_engine l') = en_passes e1"
    by (auto simp: reconcile_keyed_def budget_def split: if_splits)
  with frame_budget [OF run_one_frame(1) [OF 1]] show ?thesis by simp
qed

lemma hap_asks:
  assumes "hap_time clock h l w = [t]" and "hap_step clock h l w = (l', w')"
  shows "\<exists>ok b. bucket_take t (gc_pass_burst (fst (budget (lp_engine l))))
        (gc_passes_per_sec (fst (budget (lp_engine l)))) (snd (budget (lp_engine l))) = (ok, b) \<and>
      budget (lp_engine l') = (fst (budget (lp_engine l)), b) \<and>
      en_passes (lp_engine l') = en_passes (lp_engine l) + (if ok then 1 else 0)"
proof (cases h)
  case (H_loop ev)
  with assms have ready: "loop_ready l ev" "wakes_up ev" and t: "t = fst (clock w)"
    and step: "loop_step clock ev l w = (l', w')" by (auto split: if_splits)
  have "\<exists>l0. trigger clock l0 w = (l', w') \<and> budget (lp_engine l0) = budget (lp_engine l) \<and>
      en_passes (lp_engine l0) = en_passes (lp_engine l)"
  proof (cases ev)
    case Ev_tick
    with step show ?thesis by auto
  next
    case Ev_deferred
    with step show ?thesis by (intro exI [of _ "l\<lparr>lp_deferred := None\<rparr>"]) simp
  next
    case Ev_nudge
    with step show ?thesis
      by (intro exI [of _ "l\<lparr>lp_engine := (lp_engine l)\<lparr>en_nudge := False\<rparr>\<rparr>"]) (simp add: budget_def)
  next
    case Ev_docker
    with step show ?thesis
      by (simp add: Let_def) (rule exI, erule conjI, simp add: budget_def)
  qed (use ready in \<open>simp_all add: wakes_up_def\<close>)
  then show ?thesis using trigger_budget t by metis
qed (use assms in simp_all)

text \<open>The granted requests depend on the budget only.\<close>

fun budget_grants :: "gotime list \<Rightarrow> guard_config \<Rightarrow> bucket \<Rightarrow> nat" where
  "budget_grants [] cfg b = 0"
| "budget_grants (t # ts) cfg b =
     (case bucket_take t (gc_pass_burst cfg) (gc_passes_per_sec cfg) b of
        (ok, b') \<Rightarrow> (if ok then 1 else 0) + budget_grants ts cfg b')"

lemma hap_run_passes:
  "H_poke [] \<notin> set hs \<Longrightarrow> hap_run clock hs l w = (l', w') \<Longrightarrow>
    en_passes (lp_engine l') = en_passes (lp_engine l) +
      int (budget_grants (hap_times clock hs l w) (fst (budget (lp_engine l))) (snd (budget (lp_engine l))))"
proof (induction hs arbitrary: l w)
  case Nil
  then show ?case by simp
next
  case (Cons h hs)
  obtain l1 w1 where 1: "hap_step clock h l w = (l1, w1)" by fastforce
  with Cons.prems have rest: "hap_run clock hs l1 w1 = (l', w')" by simp
  note IH = Cons.IH [OF _ rest]
  show ?case
  proof (cases "hap_time clock h l w")
    case Nil
    with hap_quiet [OF Nil _ 1] IH Cons.prems(1) 1 show ?thesis by auto
  next
    case (Cons t ts)
    then have t: "hap_time clock h l w = [t]" by (cases h) (auto split: if_splits)
    from hap_asks [OF t 1] IH Cons.prems(1) 1 t show ?thesis by auto
  qed
qed

lemma budget_grants_pass:
  "budget_grants ts (gd_cfg g) (gd_global g) = passes.admitted (map (\<lambda>t. (Op_allow, t)) ts) g"
proof (induction ts arbitrary: g)
  case Nil
  then show ?case by simp
next
  case (Cons t ts)
  obtain ok d g' where ap: "allow_pass t g = ((ok, d), g')" by (metis surj_pair)
  then have "pass_take Op_allow t g = (ok, g')" by (simp add: pass_take_def)
  with allow_pass_frame(1,3) [OF ap] Cons.IH [of g'] show ?case by simp
qed

text \<open>
  The engine stays within its budget.  Whatever happens to a running engine, in any order (ticks,
  docker events, nudges, timers, deferred passes, runs on the keyed pool), the passes its loop
  starts after the first one are at most the configured burst plus the rate times the time between
  the start and the last request, if the loop's clock readings do not run backwards and nobody
  resets all of storm protection.
\<close>

theorem engine_within_budget:
  assumes "budget (lp_engine l) = (gd_cfg (new_guard cfg), zero_bucket)" and "0 < t"
    and "H_poke [] \<notin> set hs" and "sorted (t # hap_times clock hs l w)"
  shows "of_int (en_passes (lp_engine (fst (hap_run clock hs l w))) - en_passes (lp_engine l)) \<le>
    (of_int (gc_pass_burst (gd_cfg (new_guard cfg))) :: rat) +
    gc_passes_per_sec (gd_cfg (new_guard cfg)) * seconds (last (t # hap_times clock hs l w) - t)"
proof -
  let ?ts = "hap_times clock hs l w" and ?g = "new_guard cfg"
  have g: "gd_global ?g = zero_bucket" by (simp add: new_guard_def Let_def)
  have "en_passes (lp_engine (fst (hap_run clock hs l w))) = en_passes (lp_engine l) +
      int (budget_grants ?ts (gd_cfg ?g) (gd_global ?g))"
    using hap_run_passes [OF assms(3) prod.collapse [symmetric]] assms(1) g by simp
  moreover have "map snd (map (\<lambda>t. (Op_allow, t)) ?ts) = ?ts" by (simp add: comp_def)
  moreover note passes.admitted_bound [OF new_guard_valid(1) [OF assms(2), of cfg],
      of "map (\<lambda>t. (Op_allow, t)) ?ts"] assms(4) new_guard_config [of cfg]
  ultimately show ?thesis by (simp add: budget_grants_pass comp_def max_def del: last.simps)
qed

subsection \<open>Deleted resources and failed listings\<close>

lemma run_fixed_persisted_frame:
  "run_fixed clock cs e w = (e', w') \<Longrightarrow> en_source e' = en_source e \<and> en_queue e' = en_queue e"
  using run_fixed_frame [of clock cs e w e' w'] by (simp add: frame_def)

text \<open>
  A failed listing forgets nothing and a successful one forgets exactly the deleted names.  When
  the source reports an error the pass has run the fixed controllers only: the queue is left alone
  and no ledger entry is dropped.  When it lists the dynamic controllers, afterwards the
  queue holds only names of this pass and the ledger remembers no other name.
\<close>

theorem listing_decides_who_lives:
  assumes "en_source e = Some source" and "clock w = (start, w1)"
    and "run_fixed clock (en_controllers e) e w1 = (e2, w2)"
  shows "case source w2 of
      (Inl err, w3) \<Rightarrow>
        en_queue (fst (reconcile_all clock e w)) = en_queue e \<and>
        en_persisted (fst (reconcile_all clock e w)) = en_persisted e2
    | (Inr dynamic, w3) \<Rightarrow>
        (let live = set (map ctl_name (en_controllers e @ dynamic)) in
          gm_keys (en_persisted (fst (reconcile_all clock e w))) \<subseteq> live \<and>
          (\<forall>q. en_queue (fst (reconcile_all clock e w)) = Some q \<longrightarrow>
             set (kq_order q) \<subseteq> live \<and> kq_live q = Some live))"
proof -
  have keep: "en_queue (record_pass a b n x) = en_queue x \<and> en_persisted (record_pass a b n x) = en_persisted x"
    for a b n and x :: "'a engine"
    by (simp add: record_pass_def Let_def)
  from run_fixed_frame [OF assms(3)] have "en_source e2 = Some source" "en_queue e2 = en_queue e"
    using assms(1) by (auto simp: frame_def)
  with assms keep show ?thesis
    by (auto simp: reconcile_all_def Let_def retain_live_def ledger_forget_def kq_retain_def
        split: prod.splits sum.splits)
qed

subsection \<open>The health page\<close>

interpretation durations: strict_total "(<) :: duration \<Rightarrow> duration \<Rightarrow> bool" UNIV
  by standard auto

lemma sorted_count_upto:
  "sorted xs \<Longrightarrow> i < length xs \<Longrightarrow> i < length (filter (\<lambda>x. x \<le> xs ! i) xs)"
proof -
  assume s: "sorted xs" and i: "i < length xs"
  have "\<forall>x\<in>set (take (Suc i) xs). x \<le> xs ! i"
    using s i by (auto simp: in_set_conv_nth less_Suc_eq_le sorted_nth_mono)
  then have "filter (\<lambda>x. x \<le> xs ! i) (take (Suc i) xs) = take (Suc i) xs"
    by (simp add: filter_id_conv)
  moreover have "length (filter P xs) = length (filter P (take (Suc i) xs)) + length (filter P (drop (Suc i) xs))" for P
    by (metis append_take_drop_id filter_append length_append)
  ultimately show ?thesis using i by simp
qed

text \<open>
  The percentiles on the health page are percentiles.  Over the window of recent passes both are
  durations of real passes, at least half of the passes took no longer than the median and at least
  95 percent no longer than the other, and the median is the smaller of the two.
\<close>

theorem percentiles_are_percentiles:
  assumes "en_ring e \<noteq> []"
  shows "let st = engine_stats_of now e; n = length (en_ring e) in
    {es_p50 st, es_p95 st} \<subseteq> set (en_ring e) \<and> es_p50 st \<le> es_p95 st \<and>
    n < 2 * length (filter (\<lambda>d. d \<le> es_p50 st) (en_ring e)) \<and>
    95 * n < 100 * length (filter (\<lambda>d. d \<le> es_p95 st) (en_ring e))"
proof -
  let ?win = "go_sort (<) (en_ring e)" and ?n = "length (en_ring e)"
  let ?i = "?n div 2" and ?j = "min (?n - 1) (?n * 95 div 100)"
  have n: "0 < ?n" using assms by simp
  have sorted: "sorted ?win"
    using durations.sorted_go_sort [of "en_ring e"] by (simp add: not_less)
  have ij: "?i < ?n" "?j < ?n" "?i \<le> ?j" using n by (auto simp: min_def)
  have filt: "length (filter P ?win) = length (filter P (en_ring e))" for P
    by (metis mset_filter mset_go_sort size_mset)
  have jj: "?j = ?n * 95 div 100" using n by (auto simp: min_def)
  have mem: "?win ! i \<in> set (en_ring e)" if "i < ?n" for i
    using that nth_mem [of i ?win] by simp
  have "?win ! ?i \<le> ?win ! ?j" using sorted ij by (simp add: sorted_nth_mono)
  moreover have "?i < length (filter (\<lambda>x. x \<le> ?win ! ?i) (en_ring e))"
    using sorted_count_upto [OF sorted, of ?i] ij(1) by (simp add: filt)
  then have "?n < 2 * length (filter (\<lambda>x. x \<le> ?win ! ?i) (en_ring e))" by linarith
  moreover have "?j < length (filter (\<lambda>x. x \<le> ?win ! ?j) (en_ring e))"
    using sorted_count_upto [OF sorted, of ?j] ij(2) by (simp add: filt)
  then have "95 * ?n < 100 * length (filter (\<lambda>x. x \<le> ?win ! ?j) (en_ring e))" using jj by linarith
  ultimately show ?thesis
    using n mem [OF ij(1)] mem [OF ij(2)] by (simp add: engine_stats_of_def Let_def)
qed

section \<open>Witnesses\<close>

text \<open>A world that is its own clock.\<close>

definition ex_clock :: "gotime clock" where
  "ex_clock w = (w, w + 1)"

definition ex_result :: run_result where
  "ex_result = \<lparr>rr_conditions = [\<lparr>cd_type = ''Ready'', cd_status = Cond_true, cd_reason = ''Ok'',
     cd_message = [], cd_last_transition = 0\<rparr>], rr_requeue_after = 0, rr_key_only = False\<rparr>"

definition ex_good :: "gotime ctl" where
  "ex_good = Controller ''app/good'' (\<lambda>w. (Returned ex_result None, w + 5))"

definition ex_bad :: "gotime ctl" where
  "ex_bad = Controller ''app/bad'' (\<lambda>w. (Panicked ''nil map'', w + 5))"

definition ex_env :: engine_env where
  "ex_env = \<lparr>ee_guard_num = (\<lambda>_. None), ee_guard_dur = (\<lambda>_. None), ee_full_resync = None,
     ee_workers = None, ee_key_timeout = None, ee_requeue_max = None\<rparr>"

definition ex_engine :: "gotime engine" where
  "ex_engine = (new_engine ex_env [ex_bad, ex_good])\<lparr>en_source := Some (\<lambda>w. (Inl ''locked'', w)),
     en_store := Some (\<lambda>_ _ w. (None, w))\<rparr>"

definition ex_loop :: "gotime loop" where
  "ex_loop = \<lparr>lp_engine = ex_engine, lp_deferred = None, lp_first_seen = False, lp_events_open = True,
     lp_running = True\<rparr>"

theorem wake_up_not_lost_witness:
  "en_passes (lp_engine (fst (loop_step ex_clock Ev_tick ex_loop 1000))) \<in> {0, 1}"
  using wake_up_not_lost [of Ev_tick ex_clock ex_loop 1000, OF _ prod.collapse [symmetric]]
  by (auto simp: wakes_up_def ex_loop_def ex_engine_def new_engine_def)

theorem requeue_backs_off_witness:
  "map fst (en_timers (schedule_requeue ''a'' second (schedule_requeue ''a'' second ex_engine))) =
    [second, 2 * second]"
  using requeue_backs_off [of second ex_engine "''a''"]
    requeue_backs_off [of second "schedule_requeue ''a'' second ex_engine" "''a''"]
  by (simp add: Let_def ex_engine_def new_engine_def ex_env_def requeue_limit_def duration_defs
      schedule_requeue_def)

theorem skipped_status_unchanged_witness:
  "\<not> snd (ledger_due ''a'' (rr_conditions ex_result) 60 (5 * minute)
      (ledger_record ''a'' (conditions_signature (rr_conditions ex_result)) 50 []))"
  using skipped_status_unchanged [of "rr_conditions ex_result" "rr_conditions ex_result" "''a''" 60 "5 * minute" 50 "[]"]
  by (simp add: ex_result_def clean_condition_def clean_text_def time_sub_def duration_defs)

theorem failed_write_retried_witness:
  "en_persisted (fst (persist_result ex_clock ''a'' ex_result ex_engine 50)) \<noteq> []"
proof -
  have store: "en_store ex_engine = Some (\<lambda>_ _ w. (None, w))" and conds: "rr_conditions ex_result \<noteq> []"
    and clock: "ex_clock 50 = (50, 51)"
    and due: "snd (ledger_due ''a'' (rr_conditions ex_result) 50 (en_full_resync ex_engine) (en_persisted ex_engine))"
    and pos: "0 < en_full_resync ex_engine"
    by (simp_all add: ex_engine_def new_engine_def ex_result_def ex_clock_def ledger_due_def ex_env_def
        full_resync_from_env_def duration_defs)
  from failed_write_retried [of ex_engine "\<lambda>_ _ w. (None, w)" ex_result ex_clock 50 50 51, OF store conds clock due pos] show ?thesis
    by (auto simp: ledger_due_def Let_def split: prod.splits)
qed

theorem failure_stays_local_witness:
  "snd (last_result ''app/bad'' (fst (run_fixed ex_clock [ex_bad, ex_good] ex_engine 1000))) =
    Some ''controller app/bad panicked: nil map''"
  using failure_stays_local [of "[]" ex_bad "[ex_good]" ex_clock ex_engine 1000 ex_engine 1000 1000 1001 1001 1002
      "Panicked ''nil map''" 1007]
  by (simp add: ex_bad_def ex_good_def ex_clock_def outcome_report_def guard_before_def Let_def ex_engine_def
      new_engine_def fresh_entry_def ex_env_def new_guard_def guard_config_from_env_def env_num_def
      bucket_take_def refill_def zero_bucket_def entry_def)

theorem engine_within_budget_witness:
  "of_int (en_passes (lp_engine (fst (hap_run ex_clock [] ex_loop 1000)))) \<le> (20 :: rat)"
  using engine_within_budget [of ex_loop "guard_config_from_env (\<lambda>_. None) (\<lambda>_. None)" 1000 "[]" ex_clock 1000]
  by (simp add: budget_def ex_loop_def ex_engine_def new_engine_def ex_env_def new_guard_def Let_def
      guard_config_from_env_def env_num_def seconds_def)

theorem listing_decides_who_lives_witness:
  "en_queue (fst (reconcile_all ex_clock (ex_engine\<lparr>en_controllers := []\<rparr>) 1000)) = None"
  using listing_decides_who_lives [of "ex_engine\<lparr>en_controllers := []\<rparr>" "\<lambda>w. (Inl ''locked'', w)" ex_clock
      1000 1000 1001 "ex_engine\<lparr>en_controllers := []\<rparr>" 1001]
  by (simp add: ex_engine_def ex_clock_def new_engine_def)

theorem percentiles_are_percentiles_witness:
  "es_p50 (engine_stats_of 5 (ex_engine\<lparr>en_ring := [7, 3, 9]\<rparr>)) \<in> {3, 7, 9}"
  using percentiles_are_percentiles [of "ex_engine\<lparr>en_ring := [7, 3, 9]\<rparr>" 5] by (auto simp: Let_def)

end
