(* ===== verification/Labels.thy ===== *)
theory Labels
  imports Prelude
begin

text \<open>
  Labels, selectors, taints and affinity rules of the placement engine:
  \<open>internal/placement/taints.go\<close>, \<open>affinity.go\<close> and the label part of \<open>placement.go\<close>.

  A label set is a Go map, an association list here; reading a missing key gives the empty
  string.  Strings are byte strings; \<open>strings.TrimSpace\<close> is modelled for ASCII input.  Operators and
  effects are strings in the code too, so unknown ones occur.  The errors of the validators are
  values that carry what their messages print.
\<close>

section \<open>Strings\<close>

fun go_join :: "string \<Rightarrow> string list \<Rightarrow> string" where
  "go_join sep [] = []"
| "go_join sep [x] = x"
| "go_join sep (x # y # ys) = x @ sep @ go_join sep (y # ys)"

text \<open>\<open>strings.Cut\<close> at a one-byte separator.\<close>

fun go_cut :: "char \<Rightarrow> string \<Rightarrow> (string \<times> string) option" where
  "go_cut sep [] = None"
| "go_cut sep (c # cs) =
     (if c = sep then Some ([], cs) else map_option (\<lambda>(a, b). (c # a, b)) (go_cut sep cs))"

text \<open>\<open>strconv.Itoa\<close> of a natural number.\<close>

fun decimal :: "nat \<Rightarrow> string" where
  "decimal n = (if n < 10 then [char_of (48 + n)] else decimal (n div 10) @ [char_of (48 + n mod 10)])"

declare decimal.simps [simp del]

definition is_space :: "char \<Rightarrow> bool" where
  "is_space c \<longleftrightarrow> c \<in> {CHR 0x09, CHR 0x0A, CHR 0x0B, CHR 0x0C, CHR 0x0D, CHR '' ''}"

definition trim_space :: "string \<Rightarrow> string" where
  "trim_space s = rev (dropWhile is_space (rev (dropWhile is_space s)))"

text \<open>\<open>strings.FieldsFunc\<close>: the runs between separators, empty ones left out.\<close>

fun fields_func :: "(char \<Rightarrow> bool) \<Rightarrow> string \<Rightarrow> string \<Rightarrow> string list" where
  "fields_func sep cur [] = (if cur = [] then [] else [cur])"
| "fields_func sep cur (c # cs) =
     (if sep c then (if cur = [] then [] else [cur]) @ fields_func sep [] cs
      else fields_func sep (cur @ [c]) cs)"

text \<open>\<open>strings.Split\<close> at a one-byte separator, and \<open>strings.ToLower\<close> for ASCII.\<close>

fun go_split :: "char \<Rightarrow> string \<Rightarrow> string list" where
  "go_split sep [] = [[]]"
| "go_split sep (c # cs) =
     (if c = sep then [] # go_split sep cs
      else (case go_split sep cs of p # ps \<Rightarrow> (c # p) # ps | [] \<Rightarrow> [[c]]))"

definition lower_char :: "char \<Rightarrow> char" where
  "lower_char c = (if CHR ''A'' \<le> c \<and> c \<le> CHR ''Z'' then char_of (of_char c + 32 :: nat) else c)"

definition to_lower :: "string \<Rightarrow> string" where
  "to_lower s = map lower_char s"

lemma go_cut_join: "sep \<notin> set a \<Longrightarrow> go_cut sep (a @ sep # b) = Some (a, b)"
  by (induction a) auto

lemma trim_space_id:
  "s \<noteq> [] \<Longrightarrow> \<not> is_space (hd s) \<Longrightarrow> \<not> is_space (last s) \<Longrightarrow> trim_space s = s"
proof -
  assume "s \<noteq> []" "\<not> is_space (hd s)" "\<not> is_space (last s)"
  then have "dropWhile is_space s = s" "dropWhile is_space (rev s) = rev s"
    by (simp_all add: dropWhile_eq_self_iff hd_rev)
  then show ?thesis by (simp add: trim_space_def)
qed

interpretation strings: strict_total "(<) :: string \<Rightarrow> string \<Rightarrow> bool" UNIV
  by standard (auto simp: not_less)

section \<open>Labels\<close>

type_synonym labels = "(string, string) gomap"

definition label_of :: "labels \<Rightarrow> string \<Rightarrow> string" where
  "label_of ls k = (case map_of ls k of None \<Rightarrow> [] | Some v \<Rightarrow> v)"

definition lower_alnum :: "char \<Rightarrow> bool" where
  "lower_alnum c \<longleftrightarrow> (CHR ''a'' \<le> c \<and> c \<le> CHR ''z'') \<or> (CHR ''0'' \<le> c \<and> c \<le> CHR ''9'')"

definition alnum :: "char \<Rightarrow> bool" where
  "alnum c \<longleftrightarrow> lower_alnum c \<or> (CHR ''A'' \<le> c \<and> c \<le> CHR ''Z'')"

text \<open>A regular expression \<open>^E(I{0,61}E)?$\<close>: ends in the class \<open>E\<close>, inner characters in \<open>I\<close>.\<close>

definition bounded_ident :: "(char \<Rightarrow> bool) \<Rightarrow> (char \<Rightarrow> bool) \<Rightarrow> string \<Rightarrow> bool" where
  "bounded_ident ends inner s =
     (case s of [] \<Rightarrow> False
      | c # rest \<Rightarrow> ends c \<and>
          (rest = [] \<or> length rest \<le> 62 \<and> ends (last rest) \<and> list_all inner (butlast rest)))"

definition label_key_ok :: "string \<Rightarrow> bool" where
  "label_key_ok = bounded_ident lower_alnum (\<lambda>c. lower_alnum c \<or> c \<in> set ''._/-'')"

definition label_value_ok :: "string \<Rightarrow> bool" where
  "label_value_ok = bounded_ident alnum (\<lambda>c. alnum c \<or> c \<in> set ''._-'')"

definition max_labels :: nat where
  "max_labels = 32"

datatype label_error =
    Too_many_labels nat
  | Bad_label_key string
  | Bad_label_value string string
  | Not_key_value string

text \<open>Go visits a map in any order; the list's order stands for one such order.\<close>

fun check_labels :: "labels \<Rightarrow> label_error option" where
  "check_labels [] = None"
| "check_labels ((k, v) # ls) =
     (if \<not> label_key_ok k then Some (Bad_label_key k)
      else if \<not> label_value_ok v then Some (Bad_label_value k v)
      else check_labels ls)"

definition validate_labels :: "labels \<Rightarrow> label_error option" where
  "validate_labels ls = (if length ls > max_labels then Some (Too_many_labels (length ls)) else check_labels ls)"

fun collect_labels :: "string list \<Rightarrow> labels \<Rightarrow> label_error + labels" where
  "collect_labels [] out = Inr out"
| "collect_labels (p # ps) out =
     (case go_cut (CHR ''='') p of
        None \<Rightarrow> Inl (Not_key_value p)
      | Some (k, v) \<Rightarrow> collect_labels ps (AList.update (trim_space k) (trim_space v) out))"

definition parse_labels :: "string list \<Rightarrow> label_error + labels" where
  "parse_labels pairs =
     (case collect_labels pairs [] of
        Inl e \<Rightarrow> Inl e
      | Inr out \<Rightarrow> (case validate_labels out of Some e \<Rightarrow> Inl e | None \<Rightarrow> Inr out))"

definition selector_matches :: "labels \<Rightarrow> labels \<Rightarrow> bool" where
  "selector_matches sel ls = list_all (\<lambda>(k, v). map_of ls k = Some v) sel"

definition label_pair :: "string \<times> string \<Rightarrow> string" where
  "label_pair kv = fst kv @ ''='' @ snd kv"

definition selector_string :: "labels \<Rightarrow> string" where
  "selector_string sel = go_join '','' (go_sort (<) (map label_pair sel))"

section \<open>Taints\<close>

type_synonym effect = string

record taint =
  tn_key :: string
  tn_value :: string
  tn_effect :: effect

record toleration =
  tl_key :: string
  tl_operator :: string
  tl_value :: string
  tl_effect :: effect

definition taint_string :: "taint \<Rightarrow> string" where
  "taint_string t =
     (if tn_value t = [] then tn_key t @ '':'' @ tn_effect t
      else tn_key t @ ''='' @ tn_value t @ '':'' @ tn_effect t)"

definition tolerates :: "toleration \<Rightarrow> taint \<Rightarrow> bool" where
  "tolerates tol t =
     (if tl_effect tol \<noteq> [] \<and> tl_effect tol \<noteq> tn_effect t then False
      else if tl_operator tol = ''Exists'' then tl_key tol = [] \<or> tl_key tol = tn_key t
      else if tl_operator tol = [] \<or> tl_operator tol = ''Equal''
        then tl_key tol = tn_key t \<and> tl_value tol = tn_value t
      else False)"

fun untolerated_from :: "taint list \<Rightarrow> toleration list \<Rightarrow> taint list \<Rightarrow> nat \<Rightarrow> taint list \<times> nat" where
  "untolerated_from [] tols hard soft = (hard, soft)"
| "untolerated_from (t # ts) tols hard soft =
     (if list_ex (\<lambda>tol. tolerates tol t) tols then untolerated_from ts tols hard soft
      else if tn_effect t = ''PreferNoSchedule'' then untolerated_from ts tols hard (soft + 1)
      else untolerated_from ts tols (hard @ [t]) soft)"

definition untolerated :: "taint list \<Rightarrow> toleration list \<Rightarrow> taint list \<times> nat" where
  "untolerated taints tols = untolerated_from taints tols [] 0"

datatype taint_error =
    Too_many_taints nat
  | Bad_taint_key string
  | Bad_taint_value string string
  | Bad_taint_effect string effect
  | Duplicate_taint string effect

definition effects :: "effect list" where
  "effects = [''NoSchedule'', ''PreferNoSchedule'', ''NoExecute'']"

fun check_taints :: "taint list \<Rightarrow> string list \<Rightarrow> taint_error option" where
  "check_taints [] seen = None"
| "check_taints (t # ts) seen =
     (if \<not> label_key_ok (tn_key t) then Some (Bad_taint_key (tn_key t))
      else if tn_value t \<noteq> [] \<and> \<not> label_value_ok (tn_value t) then Some (Bad_taint_value (tn_key t) (tn_value t))
      else if tn_effect t \<notin> set effects then Some (Bad_taint_effect (tn_key t) (tn_effect t))
      else
        (let tid = tn_key t @ '':'' @ tn_effect t
         in if tid \<in> set seen then Some (Duplicate_taint (tn_key t) (tn_effect t))
            else check_taints ts (tid # seen)))"

definition validate_taints :: "taint list \<Rightarrow> taint_error option" where
  "validate_taints ts = (if length ts > max_labels then Some (Too_many_taints (length ts)) else check_taints ts [])"

datatype toleration_error =
    Too_many_tolerations nat
  | Equal_needs_key
  | Exists_takes_no_value string
  | Bad_toleration_operator string
  | Bad_toleration_effect effect

definition check_toleration :: "toleration \<Rightarrow> toleration_error option" where
  "check_toleration tol =
     (let by_effect = (if tl_effect tol = [] \<or> tl_effect tol \<in> set effects then None
                       else Some (Bad_toleration_effect (tl_effect tol)))
      in if tl_operator tol = [] \<or> tl_operator tol = ''Equal''
           then (if tl_key tol = [] then Some Equal_needs_key else by_effect)
         else if tl_operator tol = ''Exists''
           then (if tl_value tol \<noteq> [] then Some (Exists_takes_no_value (tl_key tol)) else by_effect)
         else Some (Bad_toleration_operator (tl_operator tol)))"

fun check_tolerations :: "toleration list \<Rightarrow> toleration_error option" where
  "check_tolerations [] = None"
| "check_tolerations (tol # ts) = (case check_toleration tol of Some e \<Rightarrow> Some e | None \<Rightarrow> check_tolerations ts)"

definition validate_tolerations :: "toleration list \<Rightarrow> toleration_error option" where
  "validate_tolerations ts =
     (if length ts > max_labels then Some (Too_many_tolerations (length ts)) else check_tolerations ts)"

section \<open>Affinity rules\<close>

type_synonym match_op = string

record label_term =
  lt_key :: string
  lt_op :: match_op
  lt_values :: "string list"

definition term_matches :: "label_term \<Rightarrow> labels \<Rightarrow> bool" where
  "term_matches t ls =
     (let got = label_of ls (lt_key t); ok = map_of ls (lt_key t) \<noteq> None
      in if lt_op t = ''Exists'' then ok
         else if lt_op t = ''DoesNotExist'' then \<not> ok
         else if lt_op t = ''In'' then ok \<and> got \<in> set (lt_values t)
         else if lt_op t = ''NotIn'' then \<not> ok \<or> got \<notin> set (lt_values t)
         else False)"

record weighted_term =
  wt_weight :: int
  wt_term :: label_term

record workload_term =
  wk_match :: "label_term list"
  wk_topology :: string
  wk_weight :: int

record affinity =
  af_node_required :: "label_term list"
  af_node_preferred :: "weighted_term list"
  af_together :: "workload_term list"
  af_apart :: "workload_term list"

definition no_affinity :: affinity where
  "no_affinity = \<lparr>af_node_required = [], af_node_preferred = [], af_together = [], af_apart = []\<rparr>"

definition affinity_empty :: "affinity \<Rightarrow> bool" where
  "affinity_empty a \<longleftrightarrow>
     length (af_node_required a) = 0 \<and> length (af_node_preferred a) = 0 \<and>
     length (af_together a) = 0 \<and> length (af_apart a) = 0"

definition matches_all :: "label_term list \<Rightarrow> labels \<Rightarrow> bool" where
  "matches_all ts ls = list_all (\<lambda>t. term_matches t ls) ts"

datatype affinity_error =
    Too_many_terms int nat
  | Bad_affinity_key string
  | Term_needs_values string
  | Bad_term_value string string
  | Term_takes_no_values string match_op
  | Bad_match_op match_op
  | Bad_preferred_weight string int
  | Workload_needs_match
  | Bad_workload_weight int
  | Bad_topology string

definition check_term :: "label_term \<Rightarrow> affinity_error option" where
  "check_term t =
     (if \<not> label_key_ok (lt_key t) then Some (Bad_affinity_key (lt_key t))
      else if lt_op t = ''In'' \<or> lt_op t = ''NotIn'' then
        (if lt_values t = [] then Some (Term_needs_values (lt_key t))
         else map_option (Bad_term_value (lt_key t)) (find (\<lambda>v. \<not> label_value_ok v) (lt_values t)))
      else if lt_op t = ''Exists'' \<or> lt_op t = ''DoesNotExist'' then
        (if lt_values t \<noteq> [] then Some (Term_takes_no_values (lt_key t) (lt_op t)) else None)
      else Some (Bad_match_op (lt_op t)))"

fun first_error :: "('a \<Rightarrow> 'e option) \<Rightarrow> 'a list \<Rightarrow> 'e option" where
  "first_error f [] = None"
| "first_error f (x # xs) = (case f x of Some e \<Rightarrow> Some e | None \<Rightarrow> first_error f xs)"

definition check_preferred :: "weighted_term \<Rightarrow> affinity_error option" where
  "check_preferred p =
     (if wt_weight p < 1 \<or> wt_weight p > 100
      then Some (Bad_preferred_weight (lt_key (wt_term p)) (wt_weight p)) else check_term (wt_term p))"

definition check_workload_term :: "workload_term \<Rightarrow> affinity_error option" where
  "check_workload_term t =
     (if wk_match t = [] then Some Workload_needs_match
      else if wk_weight t < 0 \<or> wk_weight t > 100 then Some (Bad_workload_weight (wk_weight t))
      else if wk_topology t \<noteq> [] \<and> wk_topology t \<noteq> ''node'' \<and> \<not> label_key_ok (wk_topology t)
        then Some (Bad_topology (wk_topology t))
      else first_error check_term (wk_match t))"

definition validate_affinity :: "affinity \<Rightarrow> int \<Rightarrow> affinity_error option" where
  "validate_affinity a max_terms =
     (let total = length (af_node_required a) + length (af_node_preferred a) +
                  length (af_together a) + length (af_apart a)
      in if max_terms > 0 \<and> int total > max_terms then Some (Too_many_terms max_terms total)
         else (case first_error check_term (af_node_required a) of Some e \<Rightarrow> Some e
          | None \<Rightarrow> (case first_error check_preferred (af_node_preferred a) of Some e \<Rightarrow> Some e
          | None \<Rightarrow> (case first_error check_workload_term (af_together a) of Some e \<Rightarrow> Some e
          | None \<Rightarrow> first_error check_workload_term (af_apart a)))))"

definition max_affinity_terms :: "int option \<Rightarrow> int" where
  "max_affinity_terms n = (case n of Some v \<Rightarrow> if v > 0 then v else 8 | None \<Rightarrow> 8)"

definition validate_rules ::
    "int option \<Rightarrow> toleration list \<Rightarrow> affinity option \<Rightarrow> (toleration_error + affinity_error) option" where
  "validate_rules n tols a =
     (case validate_tolerations tols of
        Some e \<Rightarrow> Some (Inl e)
      | None \<Rightarrow> (case a of None \<Rightarrow> None
                 | Some a \<Rightarrow> map_option Inr (validate_affinity a (max_affinity_terms n))))"

section \<open>What the rules mean\<close>

lemma untolerated_from_eq:
  "untolerated_from ts tols hard soft =
     (hard @ filter (\<lambda>t. \<not> list_ex (\<lambda>tol. tolerates tol t) tols \<and> tn_effect t \<noteq> ''PreferNoSchedule'') ts,
      soft + length (filter (\<lambda>t. \<not> list_ex (\<lambda>tol. tolerates tol t) tols \<and> tn_effect t = ''PreferNoSchedule'') ts))"
  by (induction ts arbitrary: hard soft) auto

lemma untolerated_hard:
  "set (fst (untolerated ts tols)) =
     {t \<in> set ts. tn_effect t \<noteq> ''PreferNoSchedule'' \<and> (\<forall>tol\<in>set tols. \<not> tolerates tol t)}"
  by (auto simp: untolerated_def untolerated_from_eq list_ex_iff)

lemma bounded_ident_mem:
  assumes "bounded_ident ends inner s" and "c \<in> set s"
  shows "ends c \<or> inner c"
proof (cases s)
  case (Cons d rest)
  with assms show ?thesis
    by (cases rest rule: rev_cases) (auto simp: bounded_ident_def list_all_iff)
qed (use assms in simp)

lemma bounded_ident_ends:
  "bounded_ident ends inner s \<Longrightarrow> s \<noteq> [] \<and> ends (hd s) \<and> ends (last s)"
  by (auto simp: bounded_ident_def split: list.splits)

text \<open>A valid key or value survives the parser.\<close>

lemma alnum_not_space: "alnum c \<Longrightarrow> \<not> is_space c"
  by (auto simp: alnum_def lower_alnum_def is_space_def less_eq_char_def)

lemma label_key_props:
  assumes "label_key_ok k"
  shows "trim_space k = k" and "CHR ''='' \<notin> set k" and "CHR '','' \<notin> set k"
proof -
  from assms have "k \<noteq> []" "lower_alnum (hd k)" "lower_alnum (last k)"
    using bounded_ident_ends unfolding label_key_ok_def by auto
  then show "trim_space k = k"
    by (intro trim_space_id) (auto simp: alnum_not_space alnum_def)
  have mem: "c \<in> set k \<Longrightarrow> lower_alnum c \<or> c \<in> set ''._/-''" for c
    using bounded_ident_mem [OF assms [unfolded label_key_ok_def], of c] by blast
  show "CHR ''='' \<notin> set k" and "CHR '','' \<notin> set k"
    using mem [of "CHR ''=''"] mem [of "CHR '',''"] by (auto simp: lower_alnum_def less_eq_char_def)
qed

lemma label_value_trim:
  assumes "label_value_ok v"
  shows "trim_space v = v"
proof -
  from assms have "v \<noteq> []" "alnum (hd v)" "alnum (last v)"
    using bounded_ident_ends unfolding label_value_ok_def by auto
  then show ?thesis by (intro trim_space_id) (auto simp: alnum_not_space)
qed

lemma check_labels_None:
  "check_labels ls = None \<longleftrightarrow> (\<forall>(k, v)\<in>set ls. label_key_ok k \<and> label_value_ok v)"
  by (induction ls) (auto split: if_splits)

lemma update_fresh: "k \<notin> gm_keys m \<Longrightarrow> AList.update k v m = m @ [(k, v)]"
  by (induction m) auto

lemma collect_valid:
  "check_labels ls = None \<Longrightarrow> distinct (map fst (out @ ls)) \<Longrightarrow>
    collect_labels (map label_pair ls) out = Inr (out @ ls)"
proof (induction ls arbitrary: out)
  case Nil
  then show ?case by simp
next
  case (Cons kv ls)
  obtain k v where kv: "kv = (k, v)" by (cases kv) auto
  with Cons.prems(1) have ok: "label_key_ok k" "label_value_ok v" and rest: "check_labels ls = None"
    by (auto split: if_splits)
  have "k \<notin> gm_keys out" using Cons.prems(2) kv by auto
  then have "AList.update k v out = out @ [kv]" by (simp add: update_fresh kv)
  moreover have "go_cut (CHR ''='') (label_pair kv) = Some (k, v)"
    using go_cut_join [OF label_key_props(2) [OF ok(1)]] by (simp add: label_pair_def kv)
  moreover have "collect_labels (map label_pair ls) (out @ [kv]) = Inr ((out @ [kv]) @ ls)"
    using Cons.prems(2) by (intro Cons.IH rest) simp
  ultimately show ?case
    by (simp add: label_key_props(1) [OF ok(1)] label_value_trim [OF ok(2)])
qed

text \<open>
  Labels round trip.  A valid label set printed as \<open>key=value\<close> pairs, in whatever order the map
  was visited, parses back to the same set; and the canonical text of a selector does not
  depend on that order.
\<close>

theorem labels_roundtrip:
  assumes "gm_ok ls" and "validate_labels ls = None" and "mset ls' = mset ls"
  shows "parse_labels (map label_pair ls') = Inr ls' \<and> map_of ls' = map_of ls \<and>
    selector_string ls' = selector_string ls"
proof -
  have d: "distinct (map fst ls')" using assms(1,3) by (metis gm_ok_def mset_eq_imp_distinct_iff mset_map)
  have check: "check_labels ls' = None" and "length ls' \<le> max_labels"
    using assms(2) mset_eq_setD [OF assms(3)] mset_eq_length [OF assms(3)]
    by (auto simp: validate_labels_def check_labels_None split: if_splits)
  then have "validate_labels ls' = None" by (simp add: validate_labels_def)
  moreover have "collect_labels (map label_pair ls') [] = Inr ls'"
    using collect_valid [of ls' "[]"] check d by simp
  moreover have "map_of ls' = map_of ls"
    using d assms(1) mset_eq_setD [OF assms(3)] by (intro map_of_inject_set [THEN iffD2]) (auto simp: gm_ok_def)
  moreover have "go_sort (<) (map label_pair ls') = go_sort (<) (map label_pair ls)"
    using assms(3) by (intro strings.go_sort_perm) simp_all
  ultimately show ?thesis by (simp add: parse_labels_def selector_string_def)
qed

theorem labels_roundtrip_witness:
  "parse_labels [''zone=b'', ''region=eu''] = Inr [(''zone'', ''b''), (''region'', ''eu'')]"
proof -
  have "gm_ok [(''region'', ''eu''), (''zone'', ''b'')]" by (simp add: gm_ok_def)
  moreover have "validate_labels [(''region'', ''eu''), (''zone'', ''b'')] = None" by code_simp
  ultimately show ?thesis
    using labels_roundtrip [of "[(''region'', ''eu''), (''zone'', ''b'')]" "[(''zone'', ''b''), (''region'', ''eu'')]"]
    by (simp add: label_pair_def)
qed

end
