(* ===== verification/Placement.thy ===== *)
theory Placement
  imports Labels "HOL-Library.Product_Lexorder"
begin

text \<open>
  The multi-node scheduler: \<open>internal/placement/resources.go\<close>, \<open>evaluate.go\<close>, \<open>placement.go\<close>, the
  ranking part of \<open>zones.go\<close> and the affinity check of \<open>affinity.go\<close>.

  Quantities are \<open>int64\<close> and every arithmetic step wraps as in Go; loads, weights and counts are
  small \<open>int\<close>s and kept unbounded.  A map that is only read by key, with zero for a missing one, is
  a function.  Reasons and explanations are values that carry what the text prints; rendering
  them (\<open>Describe\<close>, \<open>FormatCPU\<close>, \<open>FormatBytes\<close>) is not modelled.  \<open>sort.Slice\<close> is Go's insertion
  sort, which it runs on up to twelve elements; for an order that is total on the slice every
  sorting algorithm gives the same list.
\<close>

section \<open>Resources\<close>

record amount =
  am_value :: int
  am_known :: bool

definition measured :: "int \<Rightarrow> amount" where
  "measured v = \<lparr>am_value = v, am_known = True\<rparr>"

record resources =
  rs_cpu :: int
  rs_memory :: int
  rs_disk :: int

definition no_resources :: resources where
  "no_resources = \<lparr>rs_cpu = 0, rs_memory = 0, rs_disk = 0\<rparr>"

definition res_add :: "resources \<Rightarrow> resources \<Rightarrow> resources" where
  "res_add r o' = \<lparr>rs_cpu = i64_add (rs_cpu r) (rs_cpu o'), rs_memory = i64_add (rs_memory r) (rs_memory o'),
     rs_disk = i64_add (rs_disk r) (rs_disk o')\<rparr>"

definition res_times :: "resources \<Rightarrow> int \<Rightarrow> resources" where
  "res_times r n = \<lparr>rs_cpu = i64_mul (rs_cpu r) n, rs_memory = i64_mul (rs_memory r) n,
     rs_disk = i64_mul (rs_disk r) n\<rparr>"

record capacity =
  cp_cpu :: amount
  cp_memory :: amount
  cp_disk_total :: amount
  cp_disk_free :: amount

record policy =
  pl_cpu_percent :: int
  pl_memory_percent :: int
  pl_min_free_disk :: int
  pl_reject_unknown :: bool
  pl_score_mode :: string

definition default_policy :: policy where
  "default_policy = \<lparr>pl_cpu_percent = 100, pl_memory_percent = 100, pl_min_free_disk = 10,
     pl_reject_unknown = False, pl_score_mode = []\<rparr>"

datatype policy_error =
    Bad_cpu_percent int
  | Bad_memory_percent int
  | Bad_free_disk int
  | Bad_score_mode string

definition validate_policy :: "policy \<Rightarrow> policy_error option" where
  "validate_policy p =
     (if pl_cpu_percent p < 1 \<or> pl_cpu_percent p > 1000 then Some (Bad_cpu_percent (pl_cpu_percent p))
      else if pl_memory_percent p < 1 \<or> pl_memory_percent p > 1000
        then Some (Bad_memory_percent (pl_memory_percent p))
      else if pl_min_free_disk p < 0 \<or> pl_min_free_disk p > 90 then Some (Bad_free_disk (pl_min_free_disk p))
      else if pl_score_mode p \<in> {[], ''spread'', ''binpack''} then None
      else Some (Bad_score_mode (pl_score_mode p)))"

definition with_defaults :: "policy \<Rightarrow> policy" where
  "with_defaults p =
     (let p = (if pl_score_mode p = [] then p\<lparr>pl_score_mode := ''spread''\<rparr> else p);
          p = (if pl_cpu_percent p = 0 then p\<lparr>pl_cpu_percent := 100\<rparr> else p)
      in if pl_memory_percent p = 0 then p\<lparr>pl_memory_percent := 100\<rparr> else p)"

datatype dim_name = Dim_cpu | Dim_memory | Dim_disk

record dimension =
  dm_name :: dim_name
  dm_allocatable :: "int option"
  dm_requested :: int
  dm_need :: int
  dm_free :: "int option"
  dm_shortfall :: int

definition mk_dimension :: "dim_name \<Rightarrow> amount \<Rightarrow> int \<Rightarrow> int \<Rightarrow> int \<Rightarrow> dimension" where
  "mk_dimension name cap pct requested need =
     (let d = \<lparr>dm_name = name, dm_allocatable = None, dm_requested = requested, dm_need = need,
               dm_free = None, dm_shortfall = 0\<rparr>
      in if \<not> am_known cap then d
         else
           (let alloc = i64_div (i64_mul (am_value cap) pct) 100;
                free = i64_sub alloc requested;
                d = d\<lparr>dm_allocatable := Some alloc, dm_free := Some free\<rparr>
            in if need > free then d\<lparr>dm_shortfall := i64_sub need free\<rparr> else d))"

definition disk_dimension :: "capacity \<Rightarrow> int \<Rightarrow> int \<Rightarrow> dimension" where
  "disk_dimension c floor_pct need =
     (let d = \<lparr>dm_name = Dim_disk, dm_allocatable = None, dm_requested = 0, dm_need = need,
               dm_free = None, dm_shortfall = 0\<rparr>
      in if \<not> am_known (cp_disk_total c) \<or> \<not> am_known (cp_disk_free c) then d
         else
           (let total = am_value (cp_disk_total c);
                flr = i64_div (i64_mul total floor_pct) 100;
                used = max (i64_sub total (am_value (cp_disk_free c))) 0;
                alloc = max (i64_sub total flr) 0;
                free = i64_sub alloc used;
                d = d\<lparr>dm_allocatable := Some alloc, dm_requested := used, dm_free := Some free\<rparr>
            in if need > free then d\<lparr>dm_shortfall := i64_sub need free\<rparr> else d))"

section \<open>Candidates and requests\<close>

record candidate =
  ca_id :: string
  ca_name :: string
  ca_labels :: labels
  ca_schedulable :: bool
  ca_online :: bool
  ca_load :: int
  ca_capacity :: capacity
  ca_requested :: resources
  ca_taints :: "taint list"
  ca_workloads :: "labels list"

text \<open>The topology domains that run a matching workload, one set for each workload term.\<close>

record affinity_state =
  as_together :: "string set list"
  as_apart :: "string set list"

record request =
  rq_selector :: labels
  rq_exclude :: string
  rq_needs :: resources
  rq_policy :: policy
  rq_prefer :: string
  rq_peers :: "string list"
  rq_tolerations :: "toleration list"
  rq_affinity :: affinity
  rq_aff :: "affinity_state option"

datatype reason =
    Excluded
  | Cordoned
  | Offline
  | Labels_mismatch labels
  | Tainted "taint list"
  | Node_affinity_not_met label_term
  | Affinity_not_met workload_term
  | Anti_affinity workload_term
  | Insufficient_capacity "dimension list"
  | Capacity_unknown "dim_name list"

definition filter_reason :: "candidate \<Rightarrow> request \<Rightarrow> reason option" where
  "filter_reason c req =
     (if ca_id c = rq_exclude req then Some Excluded
      else if \<not> ca_schedulable c then Some Cordoned
      else if \<not> ca_online c then Some Offline
      else if \<not> selector_matches (rq_selector req) (ca_labels c) then Some (Labels_mismatch (rq_selector req))
      else
        (let hard = fst (untolerated (ca_taints c) (rq_tolerations req)) in
         if hard \<noteq> [] then Some (Tainted hard)
         else map_option Node_affinity_not_met
           (find (\<lambda>t. \<not> term_matches t (ca_labels c)) (af_node_required (rq_affinity req)))))"

section \<open>Affinity between workloads\<close>

definition topology_value :: "candidate \<Rightarrow> string \<Rightarrow> string option" where
  "topology_value c topology =
     (if topology = [] \<or> topology = ''node'' then Some (ca_id c)
      else (case map_of (ca_labels c) topology of
              Some v \<Rightarrow> if v \<noteq> [] then Some v else None
            | None \<Rightarrow> None))"

definition domains_for_term :: "candidate list \<Rightarrow> workload_term \<Rightarrow> string set" where
  "domains_for_term cands t =
     set (List.map_filter
       (\<lambda>c. if list_ex (matches_all (wk_match t)) (ca_workloads c) then topology_value c (wk_topology t) else None)
       cands)"

definition build_affinity_state :: "candidate list \<Rightarrow> affinity \<Rightarrow> affinity_state option" where
  "build_affinity_state cands a =
     (if af_together a = [] \<and> af_apart a = [] then None
      else Some \<lparr>as_together = map (domains_for_term cands) (af_together a),
                 as_apart = map (domains_for_term cands) (af_apart a)\<rparr>)"

definition in_domain :: "candidate \<Rightarrow> workload_term \<Rightarrow> string set \<Rightarrow> bool" where
  "in_domain c t doms = (case topology_value c (wk_topology t) of None \<Rightarrow> False | Some d \<Rightarrow> d \<in> doms)"

fun check_together :: "candidate \<Rightarrow> (workload_term \<times> string set) list \<Rightarrow> int \<Rightarrow> reason + int" where
  "check_together c [] score = Inr score"
| "check_together c ((t, doms) # ts) score =
     (if wk_weight t = 0 \<and> \<not> in_domain c t doms then Inl (Affinity_not_met t)
      else if wk_weight t > 0 \<and> in_domain c t doms then check_together c ts (score + wk_weight t)
      else check_together c ts score)"

fun check_apart :: "candidate \<Rightarrow> (workload_term \<times> string set) list \<Rightarrow> int \<Rightarrow> reason + int" where
  "check_apart c [] score = Inr score"
| "check_apart c ((t, doms) # ts) score =
     (if wk_weight t = 0 \<and> in_domain c t doms then Inl (Anti_affinity t)
      else if wk_weight t > 0 \<and> \<not> in_domain c t doms then check_apart c ts (score + wk_weight t)
      else check_apart c ts score)"

definition check_affinity :: "candidate \<Rightarrow> affinity \<Rightarrow> affinity_state option \<Rightarrow> reason + int" where
  "check_affinity c a st =
     (let score = sum_list (map wt_weight
            (filter (\<lambda>p. term_matches (wt_term p) (ca_labels c)) (af_node_preferred a)))
      in case st of None \<Rightarrow> Inr score
         | Some st \<Rightarrow>
             (case check_together c (zip (af_together a) (as_together st)) score of
                Inl r \<Rightarrow> Inl r
              | Inr score \<Rightarrow> check_apart c (zip (af_apart a) (as_apart st)) score))"

section \<open>Evaluating one candidate\<close>

record evaluation =
  ev_node :: string
  ev_name :: string
  ev_zone :: string
  ev_region :: string
  ev_provider :: string
  ev_eligible :: bool
  ev_reason :: "reason option"
  ev_capacity :: bool
  ev_unverified :: bool
  ev_headroom :: "int option"
  ev_load :: int
  ev_dimensions :: "dimension list"
  ev_soft :: nat
  ev_affinity :: int
  ev_binpack :: bool

fun headroom_from :: "dimension list \<Rightarrow> int option \<Rightarrow> int option" where
  "headroom_from [] best = best"
| "headroom_from (d # ds) best =
     (case (dm_allocatable d, dm_free d) of
        (Some alloc, Some free) \<Rightarrow>
          if alloc \<le> 0 then headroom_from ds best
          else
            (let p = i64_div (i64_mul (i64_sub free (dm_need d)) 1000) alloc
             in case best of
                  None \<Rightarrow> headroom_from ds (Some p)
                | Some b \<Rightarrow> headroom_from ds (if p < b then Some p else Some b))
      | _ \<Rightarrow> headroom_from ds best)"

definition headroom :: "dimension list \<Rightarrow> int option" where
  "headroom ds = headroom_from ds None"

definition dimensions_of :: "candidate \<Rightarrow> policy \<Rightarrow> resources \<Rightarrow> dimension list" where
  "dimensions_of c pol needs =
     [mk_dimension Dim_cpu (cp_cpu (ca_capacity c)) (pl_cpu_percent pol) (rs_cpu (ca_requested c)) (rs_cpu needs),
      mk_dimension Dim_memory (cp_memory (ca_capacity c)) (pl_memory_percent pol)
        (rs_memory (ca_requested c)) (rs_memory needs),
      disk_dimension (ca_capacity c) (pl_min_free_disk pol) (rs_disk needs)]"

definition dim_unknown :: "dimension \<Rightarrow> bool" where
  "dim_unknown d \<longleftrightarrow> dm_allocatable d = None \<and> (dm_need d > 0 \<or> dm_name d = Dim_disk)"

definition dim_short :: "dimension \<Rightarrow> bool" where
  "dim_short d \<longleftrightarrow> \<not> dim_unknown d \<and> dm_shortfall d > 0"

definition evaluate :: "candidate \<Rightarrow> request \<Rightarrow> evaluation" where
  "evaluate c req =
     (let pol = with_defaults (rq_policy req);
          dims = dimensions_of c pol (rq_needs req);
          e = \<lparr>ev_node = ca_id c, ev_name = ca_name c, ev_zone = [], ev_region = [], ev_provider = [],
               ev_eligible = False, ev_reason = None, ev_capacity = False, ev_unverified = False,
               ev_headroom = None, ev_load = ca_load c, ev_dimensions = dims,
               ev_soft = snd (untolerated (ca_taints c) (rq_tolerations req)), ev_affinity = 0,
               ev_binpack = (pl_score_mode pol = ''binpack'')\<rparr>
      in case filter_reason c req of
           Some r \<Rightarrow> e\<lparr>ev_reason := Some r\<rparr>
         | None \<Rightarrow>
             (case check_affinity c (rq_affinity req) (rq_aff req) of
                Inl r \<Rightarrow> e\<lparr>ev_reason := Some r\<rparr>
              | Inr score \<Rightarrow>
                  (let e = e\<lparr>ev_affinity := score\<rparr>;
                       short = filter dim_short dims;
                       unknown = map dm_name (filter dim_unknown dims)
                   in if short \<noteq> [] then e\<lparr>ev_reason := Some (Insufficient_capacity short), ev_capacity := True\<rparr>
                      else if unknown \<noteq> [] \<and> pl_reject_unknown pol
                        then e\<lparr>ev_reason := Some (Capacity_unknown unknown)\<rparr>
                      else e\<lparr>ev_eligible := True, ev_unverified := (unknown \<noteq> []),
                             ev_headroom := headroom dims\<rparr>)))"

definition better_than :: "evaluation \<Rightarrow> evaluation \<Rightarrow> bool" where
  "better_than a b =
     (if ev_unverified a \<noteq> ev_unverified b then \<not> ev_unverified a
      else if ev_soft a \<noteq> ev_soft b then ev_soft a < ev_soft b
      else if ev_affinity a \<noteq> ev_affinity b then ev_affinity a > ev_affinity b
      else
        (let by_load = (if ev_load a \<noteq> ev_load b then ev_load a < ev_load b else ev_node a < ev_node b)
         in case (ev_headroom a, ev_headroom b) of
              (Some h, Some k) \<Rightarrow>
                if h \<noteq> k then (if ev_binpack a then h < k else h > k) else by_load
            | (None, None) \<Rightarrow> by_load
            | _ \<Rightarrow>
                if (ev_load a = 0) \<noteq> (ev_load b = 0) then ev_load a = 0 else ev_headroom a \<noteq> None))"

definition rank :: "evaluation list \<Rightarrow> evaluation list" where
  "rank evals = go_sort better_than (filter ev_eligible evals)"

text \<open>\<open>Eligible\<close> and \<open>EligibleSplit\<close>: the nodes a per-node workload runs on, and those that only lack room.\<close>

definition eligible_split :: "candidate list \<Rightarrow> request \<Rightarrow> evaluation list \<times> evaluation list" where
  "eligible_split cands req =
     (let req = req\<lparr>rq_aff := build_affinity_state cands (rq_affinity req)\<rparr>;
          evals = map (\<lambda>c. evaluate c req) cands;
          by_id = (\<lambda>a b. ev_node a < ev_node b)
      in (go_sort by_id (filter ev_eligible evals),
          go_sort by_id (filter (\<lambda>e. \<not> ev_eligible e \<and> ev_capacity e) evals)))"

definition eligible :: "candidate list \<Rightarrow> request \<Rightarrow> evaluation list" where
  "eligible cands req = fst (eligible_split cands req)"

section \<open>Failure domains\<close>

text \<open>\<open>env\<close> is \<open>None\<close> when the variable is unset and \<open>Some None\<close> when it is no number.\<close>

definition spread_weight :: "int option option \<Rightarrow> int \<Rightarrow> int" where
  "spread_weight env def =
     (case env of None \<Rightarrow> def | Some None \<Rightarrow> def | Some (Some n) \<Rightarrow> if n < 0 then def else n)"

definition zone_of :: "labels \<Rightarrow> string" where
  "zone_of ls = label_of ls ''zone''"

record zone_spread =
  zs_active :: bool
  zs_siblings :: "string \<Rightarrow> int"
  zs_load :: "string \<Rightarrow> int"
  zs_regions :: "string \<Rightarrow> int"
  zs_weight :: int
  zs_provs :: "string \<Rightarrow> int"
  zs_prov_weight :: int

text \<open>A map from node ids, filled in a loop over the candidates.\<close>

definition by_id :: "(candidate \<Rightarrow> string) \<Rightarrow> candidate list \<Rightarrow> string \<Rightarrow> string" where
  "by_id f cands = fold (\<lambda>c m. m(ca_id c := f c)) cands (\<lambda>_. [])"

definition tally :: "(string \<times> int) list \<Rightarrow> string \<Rightarrow> int" where
  "tally xs = fold (\<lambda>(k, n) m. m(k := m k + n)) xs (\<lambda>_. 0)"

definition new_zone_spread ::
    "int \<Rightarrow> int \<Rightarrow> candidate list \<Rightarrow> evaluation list \<Rightarrow> string list \<Rightarrow> zone_spread" where
  "new_zone_spread weight prov_w cands evals peers =
     (let zones = by_id (\<lambda>c. zone_of (ca_labels c)) cands;
          regions = by_id (\<lambda>c. label_of (ca_labels c) ''region'') cands;
          provs = by_id (\<lambda>c. label_of (ca_labels c) ''provider'') cands
      in \<lparr>zs_active = list_ex (\<lambda>e. ev_eligible e \<and>
             (zones (ev_node e) \<noteq> [] \<or> (weight > 0 \<and> regions (ev_node e) \<noteq> []) \<or>
              (prov_w > 0 \<and> provs (ev_node e) \<noteq> []))) evals,
          zs_siblings = tally (map (\<lambda>n. (zones n, 1)) peers),
          zs_load = tally (map (\<lambda>c. (zone_of (ca_labels c), ca_load c)) cands),
          zs_regions = tally (map (\<lambda>n. (regions n, 1)) peers), zs_weight = weight,
          zs_provs = tally (map (\<lambda>n. (provs n, 1)) peers), zs_prov_weight = prov_w\<rparr>)"

definition apply_zones :: "candidate list \<Rightarrow> evaluation list \<Rightarrow> evaluation list" where
  "apply_zones cands evals =
     map (\<lambda>e. e\<lparr>ev_zone := by_id (\<lambda>c. zone_of (ca_labels c)) cands (ev_node e),
                ev_region := by_id (\<lambda>c. label_of (ca_labels c) ''region'') cands (ev_node e),
                ev_provider := by_id (\<lambda>c. label_of (ca_labels c) ''provider'') cands (ev_node e)\<rparr>) evals"

definition region_score :: "zone_spread \<Rightarrow> string \<Rightarrow> int" where
  "region_score z region = (if region = [] \<or> zs_weight z = 0 then 0 else zs_regions z region * zs_weight z)"

definition provider_score :: "zone_spread \<Rightarrow> string \<Rightarrow> int" where
  "provider_score z p = (if p = [] \<or> zs_prov_weight z = 0 then 0 else zs_provs z p * zs_prov_weight z)"

definition zone_before :: "zone_spread \<Rightarrow> evaluation \<Rightarrow> evaluation \<Rightarrow> bool" where
  "zone_before z a b =
     (if zs_siblings z (ev_zone a) \<noteq> zs_siblings z (ev_zone b)
        then zs_siblings z (ev_zone a) < zs_siblings z (ev_zone b)
      else if region_score z (ev_region a) \<noteq> region_score z (ev_region b)
        then region_score z (ev_region a) < region_score z (ev_region b)
      else if provider_score z (ev_provider a) \<noteq> provider_score z (ev_provider b)
        then provider_score z (ev_provider a) < provider_score z (ev_provider b)
      else if zs_load z (ev_zone a) \<noteq> zs_load z (ev_zone b)
        then zs_load z (ev_zone a) < zs_load z (ev_zone b)
      else better_than a b)"

definition rank_zones :: "evaluation list \<Rightarrow> zone_spread \<Rightarrow> evaluation list" where
  "rank_zones evals z =
     (let out = rank evals in if \<not> zs_active z then out else go_sort (zone_before z) out)"

section \<open>The decision\<close>

datatype why =
    Preferred
  | Only_node_that_fits
  | Zone_with_fewest string
  | None_verified
  | Bin_packed int
  | Most_headroom int
  | Least_loaded
  | Pinned_by_operator
  | No_choice

datatype warning = Chosen_unverified | Pinned_does_not_fit "reason option"

record decision =
  de_node :: string
  de_why :: why
  de_needs :: resources
  de_policy :: policy
  de_considered :: "evaluation list"
  de_rejected :: "(string \<times> reason option) list"
  de_warnings :: "warning list"

text \<open>\<open>ErrNoEligibleNode\<close> with its summary.\<close>

datatype refusal =
    No_nodes_registered
  | No_other_node
  | All_refused "(string \<times> reason option) list"

definition summarize :: "(string \<times> reason option) list \<Rightarrow> refusal" where
  "summarize rej =
     (if rej = [] then No_nodes_registered
      else (let parts = filter (\<lambda>(_, r). r \<noteq> Some Excluded) rej
            in if parts = [] then No_other_node else All_refused parts))"

definition explain_winner :: "evaluation list \<Rightarrow> bool \<Rightarrow> bool \<Rightarrow> why" where
  "explain_winner ranked prefer zoned =
     (case ranked of
        [] \<Rightarrow> No_choice
      | w # rest \<Rightarrow>
          if prefer then Preferred
          else if rest = [] then Only_node_that_fits
          else if zoned \<and> ev_zone w \<noteq> [] then Zone_with_fewest (ev_zone w)
          else if ev_unverified w then None_verified
          else (case ev_headroom w of
                  Some h \<Rightarrow> if ev_binpack w then Bin_packed (h sdiv 10) else Most_headroom (h sdiv 10)
                | None \<Rightarrow> Least_loaded))"

definition new_decision :: "candidate list \<Rightarrow> request \<Rightarrow> decision" where
  "new_decision cands req =
     (let req = req\<lparr>rq_aff := build_affinity_state cands (rq_affinity req)\<rparr>;
          evals = map (\<lambda>c. evaluate c req) cands
      in \<lparr>de_node = [], de_why = No_choice, de_needs = rq_needs req,
          de_policy = with_defaults (rq_policy req), de_considered = evals,
          de_rejected = map (\<lambda>e. (ev_node e, ev_reason e)) (filter (\<lambda>e. \<not> ev_eligible e) evals),
          de_warnings = []\<rparr>)"

definition capacity_blocked :: "decision \<Rightarrow> bool" where
  "capacity_blocked d = list_ex ev_capacity (de_considered d)"

text \<open>The first ranked node with the preferred id changes places with the winner.\<close>

fun prefer_index :: "string \<Rightarrow> evaluation list \<Rightarrow> nat \<Rightarrow> nat option" where
  "prefer_index p [] i = None"
| "prefer_index p (e # es) i = (if p \<noteq> [] \<and> ev_node e = p then Some i else prefer_index p es (i + 1))"

text \<open>The two weights come from the environment.\<close>

definition spread_choice ::
    "int \<Rightarrow> int \<Rightarrow> candidate list \<Rightarrow> request \<Rightarrow> decision \<times> refusal option" where
  "spread_choice weight prov_w cands req =
     (let d = new_decision cands req;
          d = d\<lparr>de_considered := apply_zones cands (de_considered d)\<rparr>;
          zs = new_zone_spread weight prov_w cands (de_considered d) (rq_peers req);
          ranked = rank_zones (de_considered d) zs
      in if ranked = [] then (d, Some (summarize (de_rejected d)))
         else
           (let i = prefer_index (rq_prefer req) ranked 0;
                ranked = (case i of None \<Rightarrow> ranked
                          | Some i \<Rightarrow> (ranked[0 := ranked ! i])[i := ranked ! 0]);
                d = d\<lparr>de_node := ev_node (ranked ! 0), de_why := explain_winner ranked (i \<noteq> None) (zs_active zs)\<rparr>
            in (if ev_unverified (ranked ! 0) then d\<lparr>de_warnings := [Chosen_unverified]\<rparr> else d, None)))"

definition pinned :: "candidate list \<Rightarrow> request \<Rightarrow> string \<Rightarrow> decision" where
  "pinned cands req node =
     (let d = new_decision cands req
      in d\<lparr>de_node := node, de_why := Pinned_by_operator,
           de_warnings := map (\<lambda>e. Pinned_does_not_fit (ev_reason e))
             (filter (\<lambda>e. ev_node e = node \<and> \<not> ev_eligible e) (de_considered d))\<rparr>)"

definition display_name :: "candidate \<Rightarrow> string" where
  "display_name c = (if ca_name c \<noteq> [] then ca_name c else ca_id c)"

definition check_target :: "candidate \<Rightarrow> request \<Rightarrow> (string \<times> reason) option" where
  "check_target c req = map_option (\<lambda>r. (display_name c, r)) (filter_reason c req)"

definition ordinal_peers :: "(int, string) gomap \<Rightarrow> int \<Rightarrow> string list" where
  "ordinal_peers placed self =
     (let ords = go_sort (<) (map fst (filter (\<lambda>(o', n). o' \<noteq> self \<and> n \<noteq> []) placed))
      in map (\<lambda>o'. case map_of placed o' of None \<Rightarrow> [] | Some n \<Rightarrow> n) ords)"

section \<open>What an eligible evaluation means\<close>

definition dim_fits :: "dimension \<Rightarrow> bool" where
  "dim_fits d \<longleftrightarrow> (case dm_free d of None \<Rightarrow> True | Some free \<Rightarrow> dm_need d \<le> free)"

text \<open>The specification of a node that may take a request, without the ranking.\<close>

definition may_run :: "candidate list \<Rightarrow> candidate \<Rightarrow> request \<Rightarrow> bool" where
  "may_run cands c req \<longleftrightarrow>
     ca_id c \<noteq> rq_exclude req \<and> ca_schedulable c \<and> ca_online c \<and>
     (\<forall>(k, v)\<in>set (rq_selector req). map_of (ca_labels c) k = Some v) \<and>
     (\<forall>t\<in>set (ca_taints c). tn_effect t \<noteq> ''PreferNoSchedule'' \<longrightarrow>
        (\<exists>tol\<in>set (rq_tolerations req). tolerates tol t)) \<and>
     (\<forall>t\<in>set (af_node_required (rq_affinity req)). term_matches t (ca_labels c)) \<and>
     (\<forall>t\<in>set (af_together (rq_affinity req)). wk_weight t = 0 \<longrightarrow> in_domain c t (domains_for_term cands t)) \<and>
     (\<forall>t\<in>set (af_apart (rq_affinity req)). wk_weight t = 0 \<longrightarrow> \<not> in_domain c t (domains_for_term cands t)) \<and>
     (\<forall>d\<in>set (dimensions_of c (with_defaults (rq_policy req)) (rq_needs req)).
        \<not> dim_short d \<and> (dim_unknown d \<longrightarrow> \<not> pl_reject_unknown (with_defaults (rq_policy req))))"

lemma filter_reason_None:
  "filter_reason c req = None \<longleftrightarrow>
     ca_id c \<noteq> rq_exclude req \<and> ca_schedulable c \<and> ca_online c \<and>
     (\<forall>(k, v)\<in>set (rq_selector req). map_of (ca_labels c) k = Some v) \<and>
     (\<forall>t\<in>set (ca_taints c). tn_effect t \<noteq> ''PreferNoSchedule'' \<longrightarrow>
        (\<exists>tol\<in>set (rq_tolerations req). tolerates tol t)) \<and>
     (\<forall>t\<in>set (af_node_required (rq_affinity req)). term_matches t (ca_labels c))"
proof -
  have "fst (untolerated (ca_taints c) (rq_tolerations req)) = [] \<longleftrightarrow>
      (\<forall>t\<in>set (ca_taints c). tn_effect t \<noteq> ''PreferNoSchedule'' \<longrightarrow>
        (\<exists>tol\<in>set (rq_tolerations req). tolerates tol t))"
    using untolerated_hard [of "ca_taints c" "rq_tolerations req"] by (simp flip: set_empty) blast
  then show ?thesis
    by (auto simp: filter_reason_def Let_def selector_matches_def list_all_iff find_None_iff)
qed

lemma check_together_Inr:
  "(\<exists>n. check_together c ts score = Inr n) \<longleftrightarrow> (\<forall>(t, doms)\<in>set ts. wk_weight t = 0 \<longrightarrow> in_domain c t doms)"
  by (induction c ts score rule: check_together.induct) auto

lemma check_apart_Inr:
  "(\<exists>n. check_apart c ts score = Inr n) \<longleftrightarrow> (\<forall>(t, doms)\<in>set ts. wk_weight t = 0 \<longrightarrow> \<not> in_domain c t doms)"
  by (induction c ts score rule: check_apart.induct) auto

lemma check_affinity_Inr:
  "(\<exists>n. check_affinity c a (build_affinity_state cands a) = Inr n) \<longleftrightarrow>
     (\<forall>t\<in>set (af_together a). wk_weight t = 0 \<longrightarrow> in_domain c t (domains_for_term cands t)) \<and>
     (\<forall>t\<in>set (af_apart a). wk_weight t = 0 \<longrightarrow> \<not> in_domain c t (domains_for_term cands t))"
proof -
  let ?together = "check_together c (zip (af_together a) (map (domains_for_term cands) (af_together a)))"
  let ?apart = "check_apart c (zip (af_apart a) (map (domains_for_term cands) (af_apart a)))"
  have zip_mem: "(\<forall>(t, doms)\<in>set (zip ts (map f ts)). P t doms) \<longleftrightarrow> (\<forall>t\<in>set ts. P t (f t))"
    for ts :: "workload_term list" and f and P :: "workload_term \<Rightarrow> string set \<Rightarrow> bool"
    by (auto simp: zip_map2 zip_same_conv_map)
  have apart: "(\<exists>n. ?apart score = Inr n) \<longleftrightarrow>
      (\<forall>t\<in>set (af_apart a). wk_weight t = 0 \<longrightarrow> \<not> in_domain c t (domains_for_term cands t))" for score
    unfolding check_apart_Inr by (rule zip_mem)
  have together: "(\<exists>n. ?together score = Inr n) \<longleftrightarrow>
      (\<forall>t\<in>set (af_together a). wk_weight t = 0 \<longrightarrow> in_domain c t (domains_for_term cands t))" for score
    unfolding check_together_Inr by (rule zip_mem)
  show ?thesis
  proof (cases "af_together a = [] \<and> af_apart a = []")
    case True
    then show ?thesis by (simp add: check_affinity_def build_affinity_state_def Let_def)
  next
    case False
    then have "(\<exists>n. check_affinity c a (build_affinity_state cands a) = Inr n) \<longleftrightarrow>
        (\<exists>score n. ?together (sum_list (map wt_weight
            (filter (\<lambda>p. term_matches (wt_term p) (ca_labels c)) (af_node_preferred a)))) = Inr score \<and>
          ?apart score = Inr n)"
      by (auto simp: check_affinity_def build_affinity_state_def Let_def split: sum.splits)
    with together apart show ?thesis by blast
  qed
qed

definition full_request :: "candidate list \<Rightarrow> request \<Rightarrow> request" where
  "full_request cands req = req\<lparr>rq_aff := build_affinity_state cands (rq_affinity req)\<rparr>"

lemma full_request_simps [simp]:
  "rq_selector (full_request cands req) = rq_selector req"
  "rq_exclude (full_request cands req) = rq_exclude req"
  "rq_needs (full_request cands req) = rq_needs req"
  "rq_policy (full_request cands req) = rq_policy req"
  "rq_tolerations (full_request cands req) = rq_tolerations req"
  "rq_affinity (full_request cands req) = rq_affinity req"
  "rq_aff (full_request cands req) = build_affinity_state cands (rq_affinity req)"
  by (simp_all add: full_request_def)

lemma filter_reason_full [simp]: "filter_reason c (full_request cands req) = filter_reason c req"
  by (simp add: filter_reason_def Let_def)

lemma evaluate_node [simp]: "ev_node (evaluate c req) = ca_id c"
  by (simp add: evaluate_def Let_def split: option.splits sum.splits)

lemma evaluate_binpack [simp]:
  "ev_binpack (evaluate c req) = (pl_score_mode (with_defaults (rq_policy req)) = ''binpack'')"
  by (simp add: evaluate_def Let_def split: option.splits sum.splits)

lemma eligible_iff: "ev_eligible (evaluate c (full_request cands req)) \<longleftrightarrow> may_run cands c req"
proof -
  let ?dims = "dimensions_of c (with_defaults (rq_policy req)) (rq_needs req)"
  have "ev_eligible (evaluate c (full_request cands req)) \<longleftrightarrow>
      filter_reason c req = None \<and>
      (\<exists>n. check_affinity c (rq_affinity req) (build_affinity_state cands (rq_affinity req)) = Inr n) \<and>
      filter dim_short ?dims = [] \<and>
      (filter dim_unknown ?dims = [] \<or> \<not> pl_reject_unknown (with_defaults (rq_policy req)))"
    by (auto simp: evaluate_def Let_def split: option.splits sum.splits)
  also have "\<dots> \<longleftrightarrow> may_run cands c req"
    unfolding filter_reason_None check_affinity_Inr may_run_def by (auto simp: filter_empty_conv)
  finally show ?thesis .
qed

section \<open>The ranking is an order when capacities are known\<close>

definition headroom_rank :: "bool \<Rightarrow> int option \<Rightarrow> int" where
  "headroom_rank binpack h = (case h of None \<Rightarrow> 0 | Some v \<Rightarrow> if binpack then v else - v)"

definition rank_key :: "bool \<Rightarrow> evaluation \<Rightarrow> bool \<times> nat \<times> int \<times> int \<times> int \<times> string" where
  "rank_key b e = (ev_unverified e, ev_soft e, - ev_affinity e, headroom_rank b (ev_headroom e), ev_load e, ev_node e)"

definition zone_key ::
    "zone_spread \<Rightarrow> bool \<Rightarrow> evaluation \<Rightarrow> int \<times> int \<times> int \<times> int \<times> bool \<times> nat \<times> int \<times> int \<times> int \<times> string" where
  "zone_key z b e =
     (zs_siblings z (ev_zone e), region_score z (ev_region e), provider_score z (ev_provider e),
      zs_load z (ev_zone e), rank_key b e)"

text \<open>A set of evaluations of one request, at most one for each node, each with a known headroom.\<close>

definition comparable :: "(string \<Rightarrow> evaluation) \<Rightarrow> bool \<Rightarrow> evaluation set" where
  "comparable f b = {e. e = f (ev_node e) \<and> ev_headroom e \<noteq> None \<and> ev_binpack e = b}"

lemma lex_less: "(a, x) < (b, y) \<longleftrightarrow> (if a \<noteq> b then a < b else x < y)"
  for a b :: "'a::linorder" and x y :: "'b::linorder"
  by auto

lemma better_than_key:
  assumes "ev_headroom x \<noteq> None" "ev_headroom y \<noteq> None" "ev_binpack x = b" "ev_binpack y = b"
  shows "better_than x y \<longleftrightarrow> rank_key b x < rank_key b y"
proof -
  obtain h k where hk: "ev_headroom x = Some h" "ev_headroom y = Some k" using assms by auto
  show ?thesis
    unfolding rank_key_def lex_less better_than_def Let_def hk
    using assms by (simp add: headroom_rank_def)
qed

lemma zone_before_key:
  assumes "ev_headroom x \<noteq> None" "ev_headroom y \<noteq> None" "ev_binpack x = b" "ev_binpack y = b"
  shows "zone_before z x y \<longleftrightarrow> zone_key z b x < zone_key z b y"
  unfolding zone_key_def lex_less zone_before_def better_than_key [OF assms] by (rule refl)

lemma rank_key_node: "rank_key b x = rank_key b y \<Longrightarrow> ev_node x = ev_node y"
  by (simp add: rank_key_def)

lemma zone_key_node: "zone_key z b x = zone_key z b y \<Longrightarrow> ev_node x = ev_node y"
  by (simp add: zone_key_def rank_key_def)

interpretation headroom_order: strict_total better_than "comparable f b" for f b
proof (standard, goal_cases)
  case (3 x y)
  then have "rank_key b x \<noteq> rank_key b y" using rank_key_node [of b x y] by (auto simp: comparable_def)
  then have "rank_key b x < rank_key b y \<or> rank_key b y < rank_key b x" by (simp only: neq_iff)
  with 3 show ?case by (auto simp: comparable_def better_than_key)
qed (auto simp: comparable_def better_than_key not_less)

interpretation zone_order: strict_total "zone_before z" "comparable f b" for z f b
proof (standard, goal_cases)
  case (3 x y)
  then have "zone_key z b x \<noteq> zone_key z b y" using zone_key_node [of z b x y] by (auto simp: comparable_def)
  then have "zone_key z b x < zone_key z b y \<or> zone_key z b y < zone_key z b x" by (simp only: neq_iff)
  with 3 show ?case by (auto simp: comparable_def zone_before_key)
qed (auto simp: comparable_def zone_before_key not_less)

lemma comparable_of_list:
  assumes "distinct (map ev_node es)" and "\<forall>e\<in>set es. ev_headroom e \<noteq> None \<and> ev_binpack e = b"
  shows "set es \<subseteq> comparable (\<lambda>n. the (find (\<lambda>e. ev_node e = n) es)) b"
proof
  fix e assume e: "e \<in> set es"
  then obtain e' where e': "find (\<lambda>x. ev_node x = ev_node e) es = Some e'"
    by (metis (mono_tags, lifting) find_None_iff not_Some_eq)
  then have "e' \<in> set es" "ev_node e' = ev_node e" by (auto simp: find_Some_iff)
  with assms(1) e have "e' = e" by (meson distinct_map inj_onD)
  with e e' assms(2) show "e \<in> comparable (\<lambda>n. the (find (\<lambda>x. ev_node x = n) es)) b"
    by (simp add: comparable_def)
qed

text \<open>Ranking is then the same for every order of the candidates, and its head beats every other.\<close>

lemma rank_zones_stable:
  assumes "distinct (map ev_node es)" and "\<forall>e\<in>set es. ev_eligible e \<longrightarrow> ev_headroom e \<noteq> None \<and> ev_binpack e = b"
    and "mset es' = mset es"
  shows "rank_zones es' z = rank_zones es z"
proof -
  let ?f = "\<lambda>n. the (find (\<lambda>e. ev_node e = n) (filter ev_eligible es))"
  have sub: "set (filter ev_eligible es) \<subseteq> comparable ?f b"
    using assms(1,2) by (intro comparable_of_list) (auto simp: distinct_map_filter)
  have "mset (filter ev_eligible es) = mset (filter ev_eligible es')" using assms(3) by simp
  from headroom_order.go_sort_perm [OF sub this] show ?thesis by (simp add: rank_zones_def rank_def)
qed

lemma tally_eq: "tally xs k = sum_list (map snd (filter (\<lambda>p. fst p = k) xs))"
proof -
  have "fold (\<lambda>(k, n) m. m(k := m k + n)) xs m k = m k + sum_list (map snd (filter (\<lambda>p. fst p = k) xs))" for m
    by (induction xs arbitrary: m) auto
  then show ?thesis by (simp add: tally_def)
qed

lemma tally_perm: "mset xs = mset ys \<Longrightarrow> tally xs = tally ys"
  by (rule ext) (simp add: tally_eq flip: sum_mset_sum_list)

lemma by_id_mem:
  assumes "distinct (map ca_id cands)"
  shows "c \<in> set cands \<Longrightarrow> by_id f cands (ca_id c) = f c"
    and "n \<notin> ca_id ` set cands \<Longrightarrow> by_id f cands n = []"
proof -
  have frame: "n \<notin> ca_id ` set cs \<Longrightarrow> fold (\<lambda>c m. m(ca_id c := f c)) cs m n = m n" for cs n m
    by (induction cs arbitrary: m) auto
  show "n \<notin> ca_id ` set cands \<Longrightarrow> by_id f cands n = []" by (simp add: by_id_def frame)
  have "c \<in> set cs \<Longrightarrow> distinct (map ca_id cs) \<Longrightarrow> fold (\<lambda>c m. m(ca_id c := f c)) cs m (ca_id c) = f c" for cs m
    by (induction cs arbitrary: m) (auto simp: frame)
  with assms show "c \<in> set cands \<Longrightarrow> by_id f cands (ca_id c) = f c" by (simp add: by_id_def)
qed

lemma by_id_perm:
  assumes "distinct (map ca_id cands)" and "mset cands' = mset cands"
  shows "by_id f cands' = by_id f cands"
proof
  fix n
  have d: "distinct (map ca_id cands')" using assms by (metis mset_eq_imp_distinct_iff mset_map)
  have sets: "set cands' = set cands" by (rule mset_eq_setD [OF assms(2)])
  show "by_id f cands' n = by_id f cands n"
  proof (cases "n \<in> ca_id ` set cands")
    case True
    then obtain c where "c \<in> set cands" "n = ca_id c" by auto
    with by_id_mem(1) [OF assms(1)] by_id_mem(1) [OF d] sets show ?thesis by simp
  next
    case False
    with by_id_mem(2) [OF assms(1)] by_id_mem(2) [OF d] sets show ?thesis by simp
  qed
qed

lemma full_request_perm: "set cands' = set cands \<Longrightarrow> full_request cands' req = full_request cands req"
proof -
  assume "set cands' = set cands"
  then have "domains_for_term cands' = domains_for_term cands"
    by (intro ext) (auto simp: domains_for_term_def List.map_filter_def)
  then show ?thesis by (simp add: full_request_def build_affinity_state_def)
qed

section \<open>What a decision promises\<close>

definition considered :: "candidate list \<Rightarrow> request \<Rightarrow> evaluation list" where
  "considered cands req = apply_zones cands (map (\<lambda>c. evaluate c (full_request cands req)) cands)"

definition spread_ranked :: "int \<Rightarrow> int \<Rightarrow> candidate list \<Rightarrow> request \<Rightarrow> evaluation list" where
  "spread_ranked w pw cands req =
     rank_zones (considered cands req) (new_zone_spread w pw cands (considered cands req) (rq_peers req))"

lemma set_rank_zones: "set (rank_zones es z) = {e \<in> set es. ev_eligible e}"
  by (auto simp: rank_zones_def rank_def Let_def)

lemma considered_nodes: "map ev_node (considered cands req) = map ca_id cands"
  by (simp add: considered_def apply_zones_def comp_def)

lemma considered_mem:
  assumes "e \<in> set (considered cands req)"
  shows "\<exists>c\<in>set cands. ca_id c = ev_node e \<and> (ev_eligible e \<longleftrightarrow> may_run cands c req) \<and>
    ev_headroom e = ev_headroom (evaluate c (full_request cands req)) \<and>
    ev_binpack e = (pl_score_mode (with_defaults (rq_policy req)) = ''binpack'')"
  using assms by (force simp: considered_def apply_zones_def eligible_iff)

lemma considered_ex:
  assumes "c \<in> set cands" and "may_run cands c req"
  shows "\<exists>e\<in>set (considered cands req). ev_node e = ca_id c \<and> ev_eligible e"
  using assms by (force simp: considered_def apply_zones_def eligible_iff)

lemma prefer_index_Some:
  "prefer_index p es k = Some i \<Longrightarrow> k \<le> i \<and> i - k < length es \<and> ev_node (es ! (i - k)) = p \<and> p \<noteq> []"
proof (induction p es k rule: prefer_index.induct)
  case (2 p e es k)
  show ?case
  proof (cases "p \<noteq> [] \<and> ev_node e = p")
    case True
    with 2 show ?thesis by auto
  next
    case False
    with 2 have "Suc k \<le> i \<and> i - Suc k < length es \<and> ev_node (es ! (i - Suc k)) = p \<and> p \<noteq> []" by simp
    moreover from this have "i - k = Suc (i - Suc k)" by linarith
    ultimately show ?thesis by auto
  qed
qed simp

lemma prefer_index_None: "prefer_index p es k = None \<Longrightarrow> p \<noteq> [] \<Longrightarrow> e \<in> set es \<Longrightarrow> ev_node e \<noteq> p"
  by (induction p es k rule: prefer_index.induct) (auto split: if_splits)

text \<open>The outcome of \<open>Spread\<close> in terms of the ranking.\<close>

lemma spread_choice_cases:
  "spread_ranked w pw cands req = [] \<Longrightarrow>
     snd (spread_choice w pw cands req) \<noteq> None"
  "spread_ranked w pw cands req \<noteq> [] \<Longrightarrow>
     snd (spread_choice w pw cands req) = None \<and>
     de_node (fst (spread_choice w pw cands req)) =
       (case prefer_index (rq_prefer req) (spread_ranked w pw cands req) 0 of
          None \<Rightarrow> ev_node (hd (spread_ranked w pw cands req)) | Some _ \<Rightarrow> rq_prefer req)"
proof -
  let ?r = "spread_ranked w pw cands req"
  have r: "rank_zones (apply_zones cands (de_considered (new_decision cands req)))
      (new_zone_spread w pw cands (apply_zones cands (de_considered (new_decision cands req))) (rq_peers req)) = ?r"
    by (simp add: spread_ranked_def considered_def new_decision_def Let_def full_request_def)
  show "?r = [] \<Longrightarrow> snd (spread_choice w pw cands req) \<noteq> None"
    by (simp add: spread_choice_def Let_def r)
  have swap: "ev_node ((?r[0 := ?r ! i])[i := ?r ! 0] ! 0) = rq_prefer req"
    if "prefer_index (rq_prefer req) ?r 0 = Some i" for i
  proof -
    from prefer_index_Some [OF that] have "i < length ?r" "ev_node (?r ! i) = rq_prefer req" by auto
    moreover from this have "0 < length ?r" by linarith
    ultimately show ?thesis by (cases "i = 0") (simp_all del: length_greater_0_conv)
  qed
  show "?r \<noteq> [] \<Longrightarrow> snd (spread_choice w pw cands req) = None \<and>
     de_node (fst (spread_choice w pw cands req)) =
       (case prefer_index (rq_prefer req) ?r 0 of None \<Rightarrow> ev_node (hd ?r) | Some _ \<Rightarrow> rq_prefer req)"
    using swap by (auto simp: spread_choice_def Let_def r hd_conv_nth split: option.splits)
qed

lemma spread_sound_complete:
  "snd (spread_choice w pw cands req) = None \<Longrightarrow>
     \<exists>c\<in>set cands. ca_id c = de_node (fst (spread_choice w pw cands req)) \<and> may_run cands c req"
  "snd (spread_choice w pw cands req) \<noteq> None \<Longrightarrow> c \<in> set cands \<Longrightarrow> \<not> may_run cands c req"
proof -
  have "case spread_choice w pw cands req of
     (d, None) \<Rightarrow> \<exists>c\<in>set cands. ca_id c = de_node d \<and> may_run cands c req
   | (d, Some r) \<Rightarrow> \<forall>c\<in>set cands. \<not> may_run cands c req"
  proof (cases "spread_ranked w pw cands req = []")
    case True
    then have "{e \<in> set (considered cands req). ev_eligible e} = {}"
      unfolding spread_ranked_def by (metis set_rank_zones list.set(1))
    with considered_ex spread_choice_cases(1) [OF True] show ?thesis by (auto split: prod.splits option.splits)
  next
    case False
    let ?r = "spread_ranked w pw cands req"
    have mem: "e \<in> set ?r \<Longrightarrow> e \<in> set (considered cands req) \<and> ev_eligible e" for e
      by (auto simp: spread_ranked_def set_rank_zones)
    from spread_choice_cases(2) [OF False] obtain d where
      d: "spread_choice w pw cands req = (d, None)" and
      node: "de_node d = (case prefer_index (rq_prefer req) ?r 0 of None \<Rightarrow> ev_node (hd ?r) | Some _ \<Rightarrow> rq_prefer req)"
      by (metis fst_conv prod.collapse)
    have "\<exists>e\<in>set ?r. ev_node e = de_node d"
    proof (cases "prefer_index (rq_prefer req) ?r 0")
      case None
      with node False show ?thesis by (intro bexI [of _ "hd ?r"]) auto
    next
      case (Some i)
      with node prefer_index_Some [OF Some] show ?thesis by (intro bexI [of _ "?r ! i"]) auto
    qed
    with mem considered_mem d show ?thesis by (simp, metis)
  qed
  then show "snd (spread_choice w pw cands req) = None \<Longrightarrow>
     \<exists>c\<in>set cands. ca_id c = de_node (fst (spread_choice w pw cands req)) \<and> may_run cands c req"
    and "snd (spread_choice w pw cands req) \<noteq> None \<Longrightarrow> c \<in> set cands \<Longrightarrow> \<not> may_run cands c req"
    by (auto split: prod.splits option.splits)
qed

text \<open>
  C9: The scheduler is sound and complete.  The node it chooses is a candidate that may run the
  workload: not excluded, schedulable, online, carrying the selector's labels, with every hard
  taint tolerated, every required affinity rule met and no resource short; and it refuses only
  when no candidate may.
\<close>

theorem spread_sound_and_complete:
  "case spread_choice w pw cands req of
     (d, None) \<Rightarrow> \<exists>c\<in>set cands. ca_id c = de_node d \<and> may_run cands c req
   | (d, Some r) \<Rightarrow> \<forall>c\<in>set cands. \<not> may_run cands c req"
  using spread_sound_complete [of w pw cands req] by (auto split: prod.split option.split)

text \<open>
  The preference is honoured exactly when it can be: if the preferred node may run the
  workload it is chosen.
\<close>

theorem preferred_node_wins:
  assumes "c \<in> set cands" and "may_run cands c req" and "ca_id c = rq_prefer req" and "rq_prefer req \<noteq> []"
  shows "snd (spread_choice w pw cands req) = None \<and>
    de_node (fst (spread_choice w pw cands req)) = rq_prefer req"
proof -
  from considered_ex [OF assms(1,2)] obtain e where
    e: "e \<in> set (considered cands req)" "ev_eligible e" "ev_node e = ca_id c" by auto
  then have "e \<in> set (spread_ranked w pw cands req)" by (simp add: spread_ranked_def set_rank_zones)
  then have "spread_ranked w pw cands req \<noteq> []"
    and "prefer_index (rq_prefer req) (spread_ranked w pw cands req) 0 \<noteq> None"
    using prefer_index_None [of "rq_prefer req" "spread_ranked w pw cands req" 0 e] e(3) assms(3,4) by auto
  with spread_choice_cases(2) show ?thesis by auto
qed

text \<open>
  The choice is stable.  When the capacity of every node that may run the workload is known, the
  chosen node does not depend on the order in which the candidates are listed.
\<close>

theorem spread_choice_stable:
  assumes "distinct (map ca_id cands)" and "mset cands' = mset cands"
    and "\<forall>c\<in>set cands. may_run cands c req \<longrightarrow> ev_headroom (evaluate c (full_request cands req)) \<noteq> None"
  shows "(snd (spread_choice w pw cands' req) = None \<longleftrightarrow> snd (spread_choice w pw cands req) = None) \<and>
    (snd (spread_choice w pw cands req) = None \<longrightarrow>
     de_node (fst (spread_choice w pw cands' req)) = de_node (fst (spread_choice w pw cands req)))"
proof -
  let ?es = "considered cands req" and ?es' = "considered cands' req"
  have sets: "set cands' = set cands" by (rule mset_eq_setD [OF assms(2)])
  have perm: "mset ?es' = mset ?es"
    using assms(2) by (simp add: considered_def apply_zones_def full_request_perm [OF sets] by_id_perm [OF assms(1,2)])
  have tal: "tally (map f cands') = tally (map f cands)" for f
    using assms(2) by (intro tally_perm) simp
  have "list_ex P ?es' = list_ex P ?es" for P
    using mset_eq_setD [OF perm] by (simp add: list_ex_iff)
  then have z: "new_zone_spread w pw cands' ?es' peers = new_zone_spread w pw cands ?es peers" for peers
    by (simp add: new_zone_spread_def Let_def by_id_perm [OF assms(1,2)] tal)
  have "distinct (map ev_node ?es)" using assms(1) by (simp add: considered_nodes)
  moreover have "\<forall>e\<in>set ?es. ev_eligible e \<longrightarrow> ev_headroom e \<noteq> None \<and>
      ev_binpack e = (pl_score_mode (with_defaults (rq_policy req)) = ''binpack'')"
  proof (intro ballI impI)
    fix e assume e: "e \<in> set ?es" "ev_eligible e"
    from considered_mem [OF e(1)] e(2) assms(3) show
      "ev_headroom e \<noteq> None \<and> ev_binpack e = (pl_score_mode (with_defaults (rq_policy req)) = ''binpack'')"
      by auto
  qed
  ultimately have "rank_zones ?es' (new_zone_spread w pw cands ?es (rq_peers req)) =
      rank_zones ?es (new_zone_spread w pw cands ?es (rq_peers req))"
    using perm by (rule rank_zones_stable)
  then have r: "spread_ranked w pw cands' req = spread_ranked w pw cands req"
    unfolding spread_ranked_def z .
  show ?thesis
    using spread_choice_cases [of w pw cands req] spread_choice_cases [of w pw cands' req]
    unfolding r by (cases "spread_ranked w pw cands req = []") auto
qed

text \<open>What "no resource short" means in plain arithmetic.\<close>

lemma mk_dimension_fits:
  assumes "\<not> dim_short (mk_dimension name cap pct requested need)" and "am_known cap"
    and "0 \<le> am_value cap" "0 \<le> pct" "in_i64 (am_value cap * pct)"
    and "0 \<le> requested" "0 \<le> need" "in_i64 (requested + need)"
  shows "requested + need \<le> am_value cap * pct div 100"
proof -
  let ?alloc = "am_value cap * pct div 100"
  have "in_i64 ?alloc" and nn: "0 \<le> ?alloc"
    using assms(3,4,5) by (auto simp: in_i64_def pos_imp_zdiv_nonneg_iff intro: order_trans [of _ "am_value cap * pct"])
  then have alloc: "i64_div (i64_mul (am_value cap) pct) 100 = ?alloc"
    using assms(3,4,5) by (simp add: i64_div_def i64_mul_def sdiv_nonneg)
  have "in_i64 (?alloc - requested)" using assms(6-8) \<open>in_i64 ?alloc\<close> nn by (auto simp: in_i64_def)
  then have free: "i64_sub ?alloc requested = ?alloc - requested" by (simp add: i64_sub_def)
  show ?thesis
  proof (rule ccontr)
    assume less: "\<not> requested + need \<le> ?alloc"
    then have more: "need > ?alloc - requested" by linarith
    moreover have "in_i64 (need - (?alloc - requested))"
      using more assms(6-8) nn by (auto simp: in_i64_def)
    then have "i64_sub need (?alloc - requested) = need - (?alloc - requested)" by (simp add: i64_sub_def)
    ultimately show False
      using assms(1,2) alloc free by (auto simp: mk_dimension_def Let_def dim_short_def dim_unknown_def)
  qed
qed


section \<open>Witnesses and a counterexample\<close>

definition ex_capacity :: "int \<Rightarrow> amount \<Rightarrow> capacity" where
  "ex_capacity cpu disk = \<lparr>cp_cpu = measured cpu, cp_memory = measured 1000, cp_disk_total = disk, cp_disk_free = disk\<rparr>"

definition no_amount :: amount where
  "no_amount = \<lparr>am_value = 0, am_known = False\<rparr>"

definition ex_node :: "string \<Rightarrow> int \<Rightarrow> capacity \<Rightarrow> candidate" where
  "ex_node i load cap = \<lparr>ca_id = i, ca_name = [], ca_labels = [(''zone'', ''z'' @ i)], ca_schedulable = True,
     ca_online = True, ca_load = load, ca_capacity = cap, ca_requested = no_resources, ca_taints = [], ca_workloads = []\<rparr>"

definition ex_request :: request where
  "ex_request = \<lparr>rq_selector = [], rq_exclude = [], rq_needs = \<lparr>rs_cpu = 10, rs_memory = 100, rs_disk = 0\<rparr>,
     rq_policy = default_policy, rq_prefer = [], rq_peers = [], rq_tolerations = [], rq_affinity = no_affinity,
     rq_aff = None\<rparr>"

definition ex_fleet :: "candidate list" where
  "ex_fleet = [ex_node ''a'' 3 (ex_capacity 400 (measured 100)), ex_node ''b'' 1 (ex_capacity 20 (measured 100))]"

lemmas ex_placement_defs = ex_fleet_def ex_node_def ex_capacity_def ex_request_def measured_def no_resources_def
  default_policy_def no_affinity_def

theorem spread_sound_and_complete_witness:
  "\<exists>c\<in>set ex_fleet. ca_id c = ''b'' \<and> may_run ex_fleet c ex_request"
proof -
  have "de_node (fst (spread_choice 1 1 ex_fleet ex_request)) = ''b''"
    "snd (spread_choice 1 1 ex_fleet ex_request) = None" by code_simp+
  then obtain d where "spread_choice 1 1 ex_fleet ex_request = (d, None)" "de_node d = ''b''"
    by (metis prod.collapse)
  with spread_sound_and_complete [where w = 1 and pw = 1 and cands = ex_fleet and req = ex_request]
  show ?thesis by simp
qed

theorem preferred_node_wins_witness:
  "de_node (fst (spread_choice 1 1 ex_fleet (ex_request\<lparr>rq_prefer := ''a''\<rparr>))) = ''a''"
proof -
  let ?c = "ex_node ''a'' 3 (ex_capacity 400 (measured 100))"
  have "?c \<in> set ex_fleet" by (simp add: ex_fleet_def)
  moreover have "may_run ex_fleet ?c (ex_request\<lparr>rq_prefer := ''a''\<rparr>)"
    unfolding eligible_iff [symmetric] by code_simp
  ultimately show ?thesis
    using preferred_node_wins [of ?c ex_fleet "ex_request\<lparr>rq_prefer := ''a''\<rparr>" 1 1]
    by (simp add: ex_node_def)
qed

theorem spread_choice_stable_witness:
  "de_node (fst (spread_choice 1 1 (rev ex_fleet) ex_request)) = de_node (fst (spread_choice 1 1 ex_fleet ex_request))"
proof -
  have "distinct (map ca_id ex_fleet)" by code_simp
  moreover have "mset (rev ex_fleet) = mset ex_fleet" by simp
  moreover have "\<forall>c\<in>set ex_fleet. may_run ex_fleet c ex_request \<longrightarrow>
      ev_headroom (evaluate c (full_request ex_fleet ex_request)) \<noteq> None"
    by code_simp
  moreover have "snd (spread_choice 1 1 ex_fleet ex_request) = None" by code_simp
  ultimately show ?thesis using spread_choice_stable [of ex_fleet "rev ex_fleet" ex_request 1 1] by blast
qed


definition ex_busy :: candidate where
  "ex_busy = (ex_node ''a'' 5 (ex_capacity 400 no_amount))\<lparr>ca_labels := []\<rparr>"

definition ex_silent :: candidate where
  "ex_silent = (ex_node ''b'' 0 \<lparr>cp_cpu = no_amount, cp_memory = no_amount, cp_disk_total = no_amount,
     cp_disk_free = no_amount\<rparr>)\<lparr>ca_labels := []\<rparr>"

definition ex_half_full :: candidate where
  "ex_half_full = (ex_node ''c'' 0 (ex_capacity 20 no_amount))
     \<lparr>ca_labels := [], ca_requested := \<lparr>rs_cpu = 10, rs_memory = 500, rs_disk = 0\<rparr>\<rparr>"

text \<open>
  With unreported capacities the ranking is not an order: an idle node with nothing reported
  beats a busy one, an idle one reported in part beats it, and the busy one with the most headroom
  beats that.  The same three candidates, listed in three orders, give three different choices.
\<close>

theorem spread_choice_unstable:
  "map (\<lambda>cands. de_node (fst (spread_choice 1 1 cands (ex_request\<lparr>rq_needs := no_resources\<rparr>))))
     [[ex_busy, ex_silent, ex_half_full], [ex_silent, ex_half_full, ex_busy], [ex_half_full, ex_busy, ex_silent]] =
   [''b'', ''c'', ''a'']"
  by code_simp

end
