(* ===== verification/Domains.thy ===== *)
theory Domains
  imports Placement
begin

text \<open>
  Failure domains and dry runs of the scheduler: \<open>Zones\<close> of \<open>internal/placement/zones.go\<close>,
  \<open>simulate.go\<close> and \<open>domains.go\<close>.

  A Go map of pointers to summaries that is filled in a loop is an association list updated in
  place; a set of providers is a list without repetitions until it is sorted.  The message of a
  risk is determined by its other fields and left out.
\<close>

section \<open>Zones\<close>

record zone_summary =
  zn_zone :: string
  zn_region :: string
  zn_providers :: "string list"
  zn_nodes :: "string list"
  zn_online :: nat
  zn_workloads :: int

definition fresh_zone :: "string \<Rightarrow> zone_summary" where
  "fresh_zone zone = \<lparr>zn_zone = zone, zn_region = [], zn_providers = [], zn_nodes = [], zn_online = 0,
     zn_workloads = 0\<rparr>"

definition zone_join :: "candidate \<Rightarrow> zone_summary \<Rightarrow> zone_summary" where
  "zone_join c s =
     (let s = (if zn_region s = [] then s\<lparr>zn_region := label_of (ca_labels c) ''region''\<rparr> else s);
          p = label_of (ca_labels c) ''provider'';
          s = (if p \<noteq> [] then s\<lparr>zn_providers := List.insert p (zn_providers s)\<rparr> else s);
          s = s\<lparr>zn_nodes := zn_nodes s @ [ca_id c], zn_workloads := zn_workloads s + ca_load c\<rparr>
      in if ca_online c then s\<lparr>zn_online := zn_online s + 1\<rparr> else s)"

definition zone_add :: "candidate \<Rightarrow> (string, zone_summary) gomap \<Rightarrow> (string, zone_summary) gomap" where
  "zone_add c idx =
     (let zone = zone_of (ca_labels c);
          s = (case map_of idx zone of None \<Rightarrow> fresh_zone zone | Some s \<Rightarrow> s)
      in AList.update zone (zone_join c s) idx)"

definition zone_index :: "candidate list \<Rightarrow> (string, zone_summary) gomap" where
  "zone_index cands = fold zone_add cands []"

definition zones :: "candidate list \<Rightarrow> zone_summary list" where
  "zones cands =
     (let idx = zone_index cands
      in map (\<lambda>zone. (let s = (case map_of idx zone of None \<Rightarrow> fresh_zone zone | Some s \<Rightarrow> s)
                      in s\<lparr>zn_providers := go_sort (<) (zn_providers s), zn_nodes := go_sort (<) (zn_nodes s)\<rparr>))
           (go_sort (<) (map fst idx)))"

section \<open>Simulation\<close>

record placed =
  pd_name :: string
  pd_from :: string
  pd_node :: string
  pd_node_name :: string
  pd_zone :: string
  pd_why :: why
  pd_unplaced :: "refusal option"

record simulation =
  sm_placed :: "placed list"
  sm_unplaced :: nat
  sm_zones :: "zone_summary list"

record workload =
  wl_name :: string
  wl_node :: string
  wl_needs :: resources
  wl_selector :: labels

definition assign_to :: "string \<Rightarrow> resources \<Rightarrow> candidate \<Rightarrow> candidate" where
  "assign_to node needs c =
     (if ca_id c = node then c\<lparr>ca_load := ca_load c + 1, ca_requested := res_add (ca_requested c) needs\<rparr> else c)"

definition assign :: "candidate list \<Rightarrow> placed \<Rightarrow> decision \<Rightarrow> resources \<Rightarrow> candidate list \<times> placed" where
  "assign work p d needs =
     (let p = p\<lparr>pd_node := de_node d, pd_why := de_why d\<rparr>
      in (map (assign_to (de_node d) needs) work,
          fold (\<lambda>c p. if ca_id c = de_node d
                      then p\<lparr>pd_node_name := ca_name c, pd_zone := zone_of (ca_labels c)\<rparr> else p) work p))"

text \<open>One placement of a dry run: the name, the node it leaves and the request.\<close>

definition place_job ::
    "int \<Rightarrow> int \<Rightarrow> string \<times> string \<times> request \<Rightarrow> candidate list \<Rightarrow> candidate list \<times> placed" where
  "place_job weight prov_w job work =
     (case job of (name, from, req) \<Rightarrow>
        (let p = \<lparr>pd_name = name, pd_from = from, pd_node = [], pd_node_name = [], pd_zone = [],
                  pd_why = No_choice, pd_unplaced = None\<rparr>
         in case spread_choice weight prov_w work req of
              (_, Some err) \<Rightarrow> (work, p\<lparr>pd_unplaced := Some err\<rparr>)
            | (d, None) \<Rightarrow> assign work p d (rq_needs req)))"

fun place_jobs ::
    "int \<Rightarrow> int \<Rightarrow> (string \<times> string \<times> request) list \<Rightarrow> candidate list \<Rightarrow> candidate list \<times> placed list" where
  "place_jobs weight prov_w [] work = (work, [])"
| "place_jobs weight prov_w (j # js) work =
     (let (work, p) = place_job weight prov_w j work;
          (work, ps) = place_jobs weight prov_w js work
      in (work, p # ps))"

definition simulation_of :: "candidate list \<times> placed list \<Rightarrow> simulation" where
  "simulation_of wp = (case wp of (work, ps) \<Rightarrow>
     \<lparr>sm_placed = ps, sm_unplaced = length (filter (\<lambda>p. pd_unplaced p \<noteq> None) ps), sm_zones = zones work\<rparr>)"

definition simulate_jobs :: "request \<Rightarrow> int \<Rightarrow> (string \<times> string \<times> request) list" where
  "simulate_jobs req n = map (\<lambda>i. (''app-'' @ decimal i, [], req)) [1..<Suc (nat n)]"

definition simulate :: "int \<Rightarrow> int \<Rightarrow> candidate list \<Rightarrow> request \<Rightarrow> int \<Rightarrow> simulation" where
  "simulate weight prov_w cands req n =
     simulation_of (place_jobs weight prov_w (simulate_jobs req n) cands)"

definition kill_node :: "(candidate \<Rightarrow> bool) \<Rightarrow> candidate \<Rightarrow> candidate" where
  "kill_node dead c =
     (if dead c then c\<lparr>ca_online := False, ca_load := 0, ca_requested := no_resources\<rparr> else c)"

definition moves_before :: "workload \<Rightarrow> workload \<Rightarrow> bool" where
  "moves_before a b =
     (if rs_memory (wl_needs a) \<noteq> rs_memory (wl_needs b) then rs_memory (wl_needs a) > rs_memory (wl_needs b)
      else wl_name a < wl_name b)"

definition displaced :: "(candidate \<Rightarrow> bool) \<Rightarrow> candidate list \<Rightarrow> workload list \<Rightarrow> workload list" where
  "displaced dead cands ws =
     (let lost = map ca_id (filter dead cands)
      in go_sort moves_before (filter (\<lambda>w. wl_node w \<in> set lost) ws))"

text \<open>A request that asks for nothing but what its fields say; the policy is Go's zero value.\<close>

definition zero_policy :: policy where
  "zero_policy = \<lparr>pl_cpu_percent = 0, pl_memory_percent = 0, pl_min_free_disk = 0, pl_reject_unknown = False,
     pl_score_mode = []\<rparr>"

definition move_request :: "workload \<Rightarrow> request" where
  "move_request w = \<lparr>rq_selector = wl_selector w, rq_exclude = wl_node w, rq_needs = wl_needs w,
     rq_policy = zero_policy, rq_prefer = [], rq_peers = [], rq_tolerations = [], rq_affinity = no_affinity,
     rq_aff = None\<rparr>"

definition move_jobs :: "workload list \<Rightarrow> (string \<times> string \<times> request) list" where
  "move_jobs ws = map (\<lambda>w. (wl_name w, wl_node w, move_request w)) ws"

definition fail_nodes ::
    "int \<Rightarrow> int \<Rightarrow> candidate list \<Rightarrow> workload list \<Rightarrow> (candidate \<Rightarrow> bool) \<Rightarrow> simulation" where
  "fail_nodes weight prov_w cands ws dead =
     simulation_of (place_jobs weight prov_w (move_jobs (displaced dead cands ws)) (map (kill_node dead) cands))"

section \<open>The overview of failure domains\<close>

record domain_group =
  dg_name :: string
  dg_region :: string
  dg_providers :: "string list"
  dg_nodes :: "string list"
  dg_count :: nat
  dg_online :: nat
  dg_schedulable :: nat
  dg_workloads :: int
  dg_cpu :: int
  dg_memory :: int
  dg_disk_free :: int
  dg_unverified :: nat

record domain_overview =
  do_providers :: "domain_group list"
  do_regions :: "domain_group list"
  do_zones :: "domain_group list"
  do_unlabeled :: nat
  do_total :: nat

definition fresh_group :: "string \<Rightarrow> string \<Rightarrow> domain_group" where
  "fresh_group name region = \<lparr>dg_name = name, dg_region = region, dg_providers = [], dg_nodes = [], dg_count = 0,
     dg_online = 0, dg_schedulable = 0, dg_workloads = 0, dg_cpu = 0, dg_memory = 0, dg_disk_free = 0,
     dg_unverified = 0\<rparr>"

definition group_join :: "candidate \<Rightarrow> string \<Rightarrow> domain_group \<Rightarrow> domain_group" where
  "group_join c provider d =
     (let d = (if provider \<noteq> [] then d\<lparr>dg_providers := List.insert provider (dg_providers d)\<rparr> else d);
          d = d\<lparr>dg_nodes := dg_nodes d @ [ca_id c], dg_count := dg_count d + 1,
                dg_workloads := dg_workloads d + ca_load c\<rparr>;
          d = (if ca_online c then d\<lparr>dg_online := dg_online d + 1\<rparr> else d);
          d = (if ca_schedulable c \<and> ca_online c then d\<lparr>dg_schedulable := dg_schedulable d + 1\<rparr> else d);
          cap = ca_capacity c
      in if am_known (cp_cpu cap) \<and> am_known (cp_memory cap)
         then
           (let d = d\<lparr>dg_cpu := i64_add (dg_cpu d) (am_value (cp_cpu cap)),
                      dg_memory := i64_add (dg_memory d) (am_value (cp_memory cap))\<rparr>
            in if am_known (cp_disk_free cap)
               then d\<lparr>dg_disk_free := i64_add (dg_disk_free d) (am_value (cp_disk_free cap))\<rparr> else d)
         else d\<lparr>dg_unverified := dg_unverified d + 1\<rparr>)"

definition group_add ::
    "candidate \<Rightarrow> string \<Rightarrow> string \<Rightarrow> string \<Rightarrow> (string, domain_group) gomap \<Rightarrow> (string, domain_group) gomap" where
  "group_add c name region provider idx =
     (if name = [] then idx
      else AList.update name
        (group_join c provider (case map_of idx name of None \<Rightarrow> fresh_group name region | Some d \<Rightarrow> d)) idx)"

definition group_list :: "(string, domain_group) gomap \<Rightarrow> domain_group list" where
  "group_list idx =
     map (\<lambda>n. (let d = (case map_of idx n of None \<Rightarrow> fresh_group n [] | Some d \<Rightarrow> d)
               in d\<lparr>dg_providers := go_sort (<) (dg_providers d), dg_nodes := go_sort (<) (dg_nodes d)\<rparr>))
       (go_sort (<) (map fst idx))"

definition zone_key_of :: "candidate \<Rightarrow> string" where
  "zone_key_of c =
     (let r = label_of (ca_labels c) ''region''; z = zone_of (ca_labels c)
      in if z \<noteq> [] \<and> r \<noteq> [] then r @ ''/'' @ z else z)"

definition domains :: "candidate list \<Rightarrow> domain_overview" where
  "domains cands =
     (let prov = (\<lambda>c. label_of (ca_labels c) ''provider''); reg = (\<lambda>c. label_of (ca_labels c) ''region'')
      in \<lparr>do_providers = group_list (fold (\<lambda>c. group_add c (prov c) [] []) cands []),
          do_regions = group_list (fold (\<lambda>c. group_add c (reg c) (reg c) (prov c)) cands []),
          do_zones = group_list (fold (\<lambda>c. group_add c (zone_key_of c) (reg c) (prov c)) cands []),
          do_unlabeled = length (filter (\<lambda>c. prov c = [] \<and> reg c = [] \<and> zone_of (ca_labels c) = []) cands),
          do_total = length cands\<rparr>)"

section \<open>Risks\<close>

datatype risk_kind = Replicas_one_zone | Replicas_one_provider

fun risk_kind_string :: "risk_kind \<Rightarrow> string" where
  "risk_kind_string Replicas_one_zone = ''replicas_one_zone''"
| "risk_kind_string Replicas_one_provider = ''replicas_one_provider''"

datatype risk_level = Level_warn | Level_info

record domain_risk =
  dr_kind :: risk_kind
  dr_level :: risk_level
  dr_name :: string
  dr_node :: string
  dr_replicas :: int
  dr_zone :: string
  dr_region :: string
  dr_provider :: string
  dr_alternatives :: "string list"

record risk_input =
  ri_name :: string
  ri_node :: string
  ri_replicas :: int
  ri_selector :: labels

definition risk_request :: "risk_input \<Rightarrow> request" where
  "risk_request w = \<lparr>rq_selector = ri_selector w, rq_exclude = [], rq_needs = no_resources,
     rq_policy = zero_policy, rq_prefer = [], rq_peers = [], rq_tolerations = [], rq_affinity = no_affinity,
     rq_aff = None\<rparr>"

definition risk_for ::
    "candidate list \<Rightarrow> risk_input \<Rightarrow> candidate \<Rightarrow> risk_kind \<Rightarrow> string \<Rightarrow> (labels \<Rightarrow> string) \<Rightarrow> risk_level \<Rightarrow>
     domain_risk option" where
  "risk_for cands w home kind home_value domain_of level =
     (if home_value = [] then None
      else
        (let seen = remdups (map (\<lambda>c. domain_of (ca_labels c))
               (filter (\<lambda>c. domain_of (ca_labels c) \<noteq> [] \<and> domain_of (ca_labels c) \<noteq> home_value \<and>
                            ca_id c \<noteq> ca_id home \<and> filter_reason c (risk_request w) = None) cands))
         in if seen = [] then None
            else Some \<lparr>dr_kind = kind, dr_level = level, dr_name = ri_name w, dr_node = ri_node w,
                       dr_replicas = ri_replicas w, dr_zone = zone_of (ca_labels home),
                       dr_region = label_of (ca_labels home) ''region'',
                       dr_provider = label_of (ca_labels home) ''provider'',
                       dr_alternatives = go_sort (<) seen\<rparr>))"

definition risk_before :: "domain_risk \<Rightarrow> domain_risk \<Rightarrow> bool" where
  "risk_before a b =
     (if dr_name a \<noteq> dr_name b then dr_name a < dr_name b
      else risk_kind_string (dr_kind a) < risk_kind_string (dr_kind b))"

definition risks_of :: "candidate list \<Rightarrow> risk_input \<Rightarrow> domain_risk list" where
  "risks_of cands w =
     (case find (\<lambda>c. ca_id c = ri_node w) (rev cands) of
        None \<Rightarrow> []
      | Some c \<Rightarrow>
          if ri_replicas w < 2 then []
          else List.map_filter id
            [risk_for cands w c Replicas_one_zone (zone_of (ca_labels c)) zone_of Level_warn,
             risk_for cands w c Replicas_one_provider (label_of (ca_labels c) ''provider'')
               (\<lambda>l. label_of l ''provider'') Level_info])"

definition domain_risks :: "candidate list \<Rightarrow> risk_input list \<Rightarrow> domain_risk list" where
  "domain_risks cands ws = go_sort risk_before (concat (map (risks_of cands) ws))"

section \<open>The zones partition the fleet\<close>

abbreviation in_zone :: "string \<Rightarrow> candidate list \<Rightarrow> candidate list" where
  "in_zone z cands \<equiv> filter (\<lambda>c. zone_of (ca_labels c) = z) cands"

lemma zone_index_lookup:
  "map_of (fold zone_add cands idx) z =
     (if in_zone z cands = [] then map_of idx z
      else Some (fold zone_join (in_zone z cands) (case map_of idx z of None \<Rightarrow> fresh_zone z | Some s \<Rightarrow> s)))"
  by (induction cands arbitrary: idx) (auto simp: zone_add_def Let_def)

lemma zone_index_ok: "gm_ok idx \<Longrightarrow> gm_ok (fold zone_add cands idx)"
  by (induction cands arbitrary: idx) (auto simp: zone_add_def Let_def)

lemma zone_index_keys: "gm_keys (fold zone_add cands idx) = gm_keys idx \<union> (\<lambda>c. zone_of (ca_labels c)) ` set cands"
  by (induction cands arbitrary: idx) (auto simp: zone_add_def Let_def)

lemma zone_join_simps [simp]:
  "zn_zone (zone_join c s) = zn_zone s" "zn_nodes (zone_join c s) = zn_nodes s @ [ca_id c]"
  "zn_workloads (zone_join c s) = zn_workloads s + ca_load c"
  "zn_online (zone_join c s) = zn_online s + (if ca_online c then 1 else 0)"
  by (simp_all add: zone_join_def Let_def)

lemma fold_zone_join:
  "zn_zone (fold zone_join cs s) = zn_zone s" "zn_nodes (fold zone_join cs s) = zn_nodes s @ map ca_id cs"
  "zn_workloads (fold zone_join cs s) = zn_workloads s + sum_list (map ca_load cs)"
  "zn_online (fold zone_join cs s) = zn_online s + length (filter ca_online cs)"
  by (induction cs arbitrary: s) simp_all

lemma sorted_names: "distinct xs \<Longrightarrow> sorted_wrt (<) (go_sort (<) xs)" for xs :: "string list"
  using strings.sorted_go_sort [of xs] by (simp add: not_less strict_sorted_iff)

text \<open>
  The zone report accounts for every node exactly once.  The zones come in strict name order,
  one for every zone some node is in; each lists exactly the nodes with that label, the number
  of them online and the sum of their workloads.
\<close>

theorem zones_partition_fleet:
  "sorted_wrt (<) (map zn_zone (zones cands)) \<and>
   set (map zn_zone (zones cands)) = (\<lambda>c. zone_of (ca_labels c)) ` set cands \<and>
   (\<forall>s\<in>set (zones cands).
      mset (zn_nodes s) = mset (map ca_id (in_zone (zn_zone s) cands)) \<and> sorted (zn_nodes s) \<and>
      zn_online s = length (filter ca_online (in_zone (zn_zone s) cands)) \<and>
      zn_workloads s = sum_list (map ca_load (in_zone (zn_zone s) cands)))"
proof -
  let ?idx = "zone_index cands"
  let ?names = "go_sort (<) (map fst ?idx)"
  have keys: "set ?names = (\<lambda>c. zone_of (ca_labels c)) ` set cands"
    by (simp add: zone_index_def zone_index_keys)
  have look: "map_of ?idx z = Some (fold zone_join (in_zone z cands) (fresh_zone z))" if "z \<in> set ?names" for z
    using that unfolding keys by (auto simp: zone_index_def zone_index_lookup filter_empty_conv)
  define f where "f = (\<lambda>z. (case map_of ?idx z of None \<Rightarrow> fresh_zone z | Some s \<Rightarrow> s)
    \<lparr>zn_providers := go_sort (<) (zn_providers (case map_of ?idx z of None \<Rightarrow> fresh_zone z | Some s \<Rightarrow> s)),
     zn_nodes := go_sort (<) (zn_nodes (case map_of ?idx z of None \<Rightarrow> fresh_zone z | Some s \<Rightarrow> s))\<rparr>)"
  have zones: "zones cands = map f ?names" by (simp add: zones_def Let_def f_def)
  have f: "zn_zone (f z) = z \<and> mset (zn_nodes (f z)) = mset (map ca_id (in_zone z cands)) \<and> sorted (zn_nodes (f z)) \<and>
      zn_online (f z) = length (filter ca_online (in_zone z cands)) \<and>
      zn_workloads (f z) = sum_list (map ca_load (in_zone z cands))" if "z \<in> set ?names" for z
    using look [OF that] strings.sorted_go_sort
    by (simp add: f_def fold_zone_join) (simp add: fresh_zone_def not_less)
  then have names: "map zn_zone (zones cands) = ?names"
    unfolding zones by (simp only: map_map) (rule map_idI, simp)
  have "gm_ok ?idx" unfolding zone_index_def by (rule zone_index_ok) simp
  then have "sorted_wrt (<) ?names" by (intro sorted_names) (simp add: gm_ok_def)
  then show ?thesis using names keys f unfolding zones by force
qed

section \<open>Dry runs\<close>

interpretation moving_order: strict_weak moves_before UNIV
  by standard (auto simp: moves_before_def split: if_splits)

definition stays_within :: "amount \<Rightarrow> int \<Rightarrow> int \<Rightarrow> bool" where
  "stays_within cap pct requested \<longleftrightarrow>
     am_known cap \<and> 0 \<le> am_value cap \<and> am_value cap * pct \<le> 2 ^ 62 \<and>
     0 \<le> requested \<and> requested \<le> am_value cap * pct div 100"

text \<open>A node whose CPU and memory are reported and not overcommitted beyond the policy.\<close>

definition has_room :: "policy \<Rightarrow> candidate \<Rightarrow> bool" where
  "has_room pol c \<longleftrightarrow>
     stays_within (cp_memory (ca_capacity c)) (pl_memory_percent pol) (rs_memory (ca_requested c)) \<and>
     stays_within (cp_cpu (ca_capacity c)) (pl_cpu_percent pol) (rs_cpu (ca_requested c))"

lemma stays_within_step:
  assumes "stays_within cap pct requested" and "\<not> dim_short (mk_dimension name cap pct requested need)"
    and "0 \<le> pct" and "0 \<le> need" and "need < 2 ^ 62"
  shows "stays_within cap pct (i64_add requested need)"
proof -
  have nn: "0 \<le> am_value cap * pct" using assms(1,3) by (simp add: stays_within_def)
  have le: "am_value cap * pct div 100 \<le> am_value cap * pct" using nn by linarith
  have "requested + need \<le> am_value cap * pct div 100"
    using assms nn le by (intro mk_dimension_fits [OF assms(2)]) (auto simp: stays_within_def in_i64_def)
  moreover from this have "in_i64 (requested + need)"
    using assms(1,4) le by (auto simp: stays_within_def in_i64_def)
  ultimately show ?thesis using assms(1,4) by (auto simp: stays_within_def i64_add_def)
qed

lemma has_room_assign:
  assumes "has_room (with_defaults (rq_policy req)) c" and "may_run work c req"
    and "validate_policy (with_defaults (rq_policy req)) = None"
    and "0 \<le> rs_memory (rq_needs req)" "rs_memory (rq_needs req) < 2 ^ 62"
    and "0 \<le> rs_cpu (rq_needs req)" "rs_cpu (rq_needs req) < 2 ^ 62"
  shows "has_room (with_defaults (rq_policy req)) (assign_to node (rq_needs req) c)"
proof -
  have "0 \<le> pl_memory_percent (with_defaults (rq_policy req))" "0 \<le> pl_cpu_percent (with_defaults (rq_policy req))"
    using assms(3) by (auto simp: validate_policy_def split: if_splits)
  moreover have "\<forall>d\<in>set (dimensions_of c (with_defaults (rq_policy req)) (rq_needs req)). \<not> dim_short d"
    using assms(2) by (simp add: may_run_def)
  ultimately show ?thesis
    using assms(1,4-7) stays_within_step
    by (auto simp: has_room_def assign_to_def res_add_def dimensions_of_def)
qed

lemma assign_fst [simp]: "fst (assign work p d needs) = map (assign_to (de_node d) needs) work"
  by (simp add: assign_def Let_def)

lemma place_job_work:
  "fst (place_job w pw (name, from, req) work) =
     (case snd (spread_choice w pw work req) of Some _ \<Rightarrow> work
      | None \<Rightarrow> map (assign_to (de_node (fst (spread_choice w pw work req))) (rq_needs req)) work)"
  by (auto simp: place_job_def Let_def split: prod.split option.split)

lemma assign_to_id [simp]: "ca_id (assign_to n r c) = ca_id c" "ca_online (assign_to n r c) = ca_online c"
  by (simp_all add: assign_to_def)

text \<open>A placement changes nothing of a node but its load and what is requested there.\<close>

lemma place_job_keeps:
  "(\<And>n r c. f (assign_to n r c) = f c) \<Longrightarrow> map f (fst (place_job w pw j work)) = map f work"
  by (cases j) (simp add: place_job_work comp_def split: option.split)

lemma place_jobs_keeps:
  "(\<And>n r c. f (assign_to n r c) = f c) \<Longrightarrow> map f (fst (place_jobs w pw js work)) = map f work"
proof (induction js arbitrary: work)
  case (Cons j js)
  from Cons.IH [OF Cons.prems, of "fst (place_job w pw j work)"] place_job_keeps [of f w pw j work, OF Cons.prems]
  show ?case by (auto split: prod.splits)
qed simp

lemma place_job_ids: "map ca_id (fst (place_job w pw j work)) = map ca_id work"
  by (intro place_job_keeps) simp

lemma place_job_room:
  assumes "\<forall>c\<in>set work. has_room (with_defaults (rq_policy req)) c" and "distinct (map ca_id work)"
    and "validate_policy (with_defaults (rq_policy req)) = None"
    and "0 \<le> rs_memory (rq_needs req)" "rs_memory (rq_needs req) < 2 ^ 62"
    and "0 \<le> rs_cpu (rq_needs req)" "rs_cpu (rq_needs req) < 2 ^ 62"
  shows "\<forall>c\<in>set (fst (place_job w pw (name, from, req) work)). has_room (with_defaults (rq_policy req)) c"
proof (cases "snd (spread_choice w pw work req)")
  case None
  let ?n = "de_node (fst (spread_choice w pw work req))"
  from spread_sound_complete(1) [of w pw work req] None obtain c where
    c: "c \<in> set work" "ca_id c = ?n" "may_run work c req" by auto
  show ?thesis
  proof
    fix x assume "x \<in> set (fst (place_job w pw (name, from, req) work))"
    then obtain y where y: "y \<in> set work" "x = assign_to ?n (rq_needs req) y"
      by (auto simp: place_job_work None)
    show "has_room (with_defaults (rq_policy req)) x"
    proof (cases "ca_id y = ?n")
      case True
      with c y assms(2) have "y = c" by (metis distinct_map inj_onD)
      with has_room_assign [OF _ c(3) assms(3-7)] c(1) y(2) assms(1) show ?thesis by blast
    next
      case False
      with y assms(1) show ?thesis by (simp add: assign_to_def)
    qed
  qed
qed (use assms(1) in \<open>simp add: place_job_work\<close>)

text \<open>
  C29: A simulation never promises more than the fleet has.  If at the start no node is overcommitted
  beyond the policy, then none is after any number of simulated placements, each of which sees
  the load of those before it.
\<close>

theorem simulation_within_capacity:
  assumes "\<forall>c\<in>set cands. has_room (with_defaults (rq_policy req)) c" and "distinct (map ca_id cands)"
    and "validate_policy (with_defaults (rq_policy req)) = None"
    and "0 \<le> rs_memory (rq_needs req)" "rs_memory (rq_needs req) < 2 ^ 62"
    and "0 \<le> rs_cpu (rq_needs req)" "rs_cpu (rq_needs req) < 2 ^ 62"
  shows "\<forall>c\<in>set (fst (place_jobs w pw (simulate_jobs req n) cands)). has_room (with_defaults (rq_policy req)) c"
proof -
  have "\<forall>c\<in>set (fst (place_jobs w pw (map (\<lambda>i. (g i, [], req)) is) cands)). has_room (with_defaults (rq_policy req)) c"
    for g and "is" :: "nat list"
    using assms(1,2)
  proof (induction "is" arbitrary: cands)
    case Nil
    then show ?case by simp
  next
    case (Cons i "is")
    let ?j = "place_job w pw (g i, [], req) cands"
    have "\<forall>c\<in>set (fst ?j). has_room (with_defaults (rq_policy req)) c"
      by (rule place_job_room [OF Cons.prems assms(3-7)])
    moreover have "distinct (map ca_id (fst ?j))" using Cons.prems(2) by (simp add: place_job_ids)
    ultimately have "\<forall>c\<in>set (fst (place_jobs w pw (map (\<lambda>i. (g i, [], req)) is) (fst ?j))).
        has_room (with_defaults (rq_policy req)) c" by (rule Cons.IH)
    then show ?case by (auto split: prod.splits)
  qed
  then show ?thesis by (simp add: simulate_jobs_def)
qed

lemma place_job_fields:
  "pd_name (snd (place_job w pw (name, from, req) work)) = name"
  "pd_from (snd (place_job w pw (name, from, req) work)) = from"
  "(pd_unplaced (snd (place_job w pw (name, from, req) work)) = None) \<longleftrightarrow>
     snd (spread_choice w pw work req) = None"
  "snd (spread_choice w pw work req) = None \<Longrightarrow>
     pd_node (snd (place_job w pw (name, from, req) work)) = de_node (fst (spread_choice w pw work req))"
proof -
  have fold: "pd_name (fold (\<lambda>c p. if P c then p\<lparr>pd_node_name := f c, pd_zone := g c\<rparr> else p) cs p) = pd_name p \<and>
      pd_from (fold (\<lambda>c p. if P c then p\<lparr>pd_node_name := f c, pd_zone := g c\<rparr> else p) cs p) = pd_from p \<and>
      pd_unplaced (fold (\<lambda>c p. if P c then p\<lparr>pd_node_name := f c, pd_zone := g c\<rparr> else p) cs p) = pd_unplaced p \<and>
      pd_node (fold (\<lambda>c p. if P c then p\<lparr>pd_node_name := f c, pd_zone := g c\<rparr> else p) cs p) = pd_node p"
    for P f g and cs :: "candidate list" and p
    by (induction cs arbitrary: p) auto
  show "pd_name (snd (place_job w pw (name, from, req) work)) = name"
    "pd_from (snd (place_job w pw (name, from, req) work)) = from"
    "(pd_unplaced (snd (place_job w pw (name, from, req) work)) = None) \<longleftrightarrow> snd (spread_choice w pw work req) = None"
    "snd (spread_choice w pw work req) = None \<Longrightarrow>
       pd_node (snd (place_job w pw (name, from, req) work)) = de_node (fst (spread_choice w pw work req))"
    by (auto simp: place_job_def assign_def Let_def fold split: prod.splits option.splits)
qed

lemma place_job_online:
  "map (\<lambda>c. (ca_id c, ca_online c)) (fst (place_job w pw j work)) = map (\<lambda>c. (ca_id c, ca_online c)) work"
  by (intro place_job_keeps) simp

lemma place_jobs_online:
  "p \<in> set (snd (place_jobs w pw js work)) \<Longrightarrow> pd_unplaced p = None \<Longrightarrow>
     (pd_node p, True) \<in> set (map (\<lambda>c. (ca_id c, ca_online c)) work) \<and>
     (\<exists>req. (pd_name p, pd_from p, req) \<in> set js \<and> pd_node p \<noteq> rq_exclude req)"
proof (induction js arbitrary: work)
  case Nil
  then show ?case by simp
next
  case (Cons j js)
  obtain name src req where j: "j = (name, src, req)" by (cases j)
  let ?w1 = "fst (place_job w pw j work)"
  from Cons.prems(1) consider "p = snd (place_job w pw j work)" | "p \<in> set (snd (place_jobs w pw js ?w1))"
    by (auto split: prod.splits)
  then show ?case
  proof cases
    case 1
    with Cons.prems(2) j have ok: "snd (spread_choice w pw work req) = None"
      using place_job_fields(3) by blast
    from spread_sound_complete(1) [OF this] obtain c where
      c: "c \<in> set work" "ca_id c = de_node (fst (spread_choice w pw work req))" "may_run work c req" by auto
    have p: "pd_name p = name" "pd_from p = src" "pd_node p = ca_id c"
      using place_job_fields(1,2) place_job_fields(4) [OF ok] 1 j c(2) by auto
    from c have "ca_online c" "ca_id c \<noteq> rq_exclude req" by (auto simp: may_run_def)
    with c(1) p j show ?thesis by force
  next
    case 2
    from Cons.IH [OF this Cons.prems(2)] place_job_online [of w pw j work] show ?thesis by auto
  qed
qed

lemma place_jobs_names: "map pd_name (snd (place_jobs w pw js work)) = map fst js"
proof (induction js arbitrary: work)
  case (Cons j js)
  have "pd_name (snd (place_job w pw j work)) = fst j" by (cases j) (simp add: place_job_fields(1))
  with Cons.IH [of "fst (place_job w pw j work)"] show ?case by (auto split: prod.splits)
qed simp

text \<open>
  Losing nodes is answered honestly.  Every workload of a lost node appears in the answer exactly
  once and no other does; and none is put on a lost node or back on the node it came from.
\<close>

theorem failed_nodes_get_nothing:
  "mset (map pd_name (sm_placed (fail_nodes w pw cands ws dead))) =
     mset (map wl_name (filter (\<lambda>x. \<exists>c\<in>set cands. dead c \<and> ca_id c = wl_node x) ws)) \<and>
   (\<forall>p\<in>set (sm_placed (fail_nodes w pw cands ws dead)). pd_unplaced p = None \<longrightarrow>
      pd_node p \<noteq> pd_from p \<and> (\<exists>c\<in>set cands. ca_id c = pd_node p \<and> ca_online c \<and> \<not> dead c))"
proof
  let ?jobs = "move_jobs (displaced dead cands ws)" and ?work = "map (kill_node dead) cands"
  have placed: "sm_placed (fail_nodes w pw cands ws dead) = snd (place_jobs w pw ?jobs ?work)"
    by (simp add: fail_nodes_def simulation_of_def split_def)
  have "map fst ?jobs = map wl_name (displaced dead cands ws)" by (simp add: move_jobs_def comp_def)
  moreover have "mset (displaced dead cands ws) =
      mset (filter (\<lambda>x. \<exists>c\<in>set cands. dead c \<and> ca_id c = wl_node x) ws)"
    unfolding displaced_def Let_def mset_go_sort
    by (intro arg_cong [of _ _ mset] filter_cong) (auto simp: image_iff eq_commute)
  ultimately show "mset (map pd_name (sm_placed (fail_nodes w pw cands ws dead))) =
     mset (map wl_name (filter (\<lambda>x. \<exists>c\<in>set cands. dead c \<and> ca_id c = wl_node x) ws))"
    by (simp only: placed place_jobs_names mset_map)
  show "\<forall>p\<in>set (sm_placed (fail_nodes w pw cands ws dead)). pd_unplaced p = None \<longrightarrow>
      pd_node p \<noteq> pd_from p \<and> (\<exists>c\<in>set cands. ca_id c = pd_node p \<and> ca_online c \<and> \<not> dead c)"
  proof (intro ballI impI)
    fix p assume p: "p \<in> set (sm_placed (fail_nodes w pw cands ws dead))" "pd_unplaced p = None"
    from place_jobs_online [OF p(1) [unfolded placed] p(2)]
    have on: "(pd_node p, True) \<in> set (map (\<lambda>c. (ca_id c, ca_online c)) ?work)"
      and req: "\<exists>req. (pd_name p, pd_from p, req) \<in> set ?jobs \<and> pd_node p \<noteq> rq_exclude req" by auto
    from req have "pd_node p \<noteq> pd_from p" by (auto simp: move_jobs_def move_request_def)
    moreover from on have "\<exists>c\<in>set cands. ca_id c = pd_node p \<and> ca_online c \<and> \<not> dead c"
      by (auto simp: kill_node_def split: if_splits)
    ultimately show "pd_node p \<noteq> pd_from p \<and> (\<exists>c\<in>set cands. ca_id c = pd_node p \<and> ca_online c \<and> \<not> dead c)" ..
  qed
qed

theorem zones_partition_fleet_witness:
  "sorted_wrt (<) (map zn_zone (zones ex_fleet)) \<and> set (map zn_zone (zones ex_fleet)) = {''za'', ''zb''}"
proof -
  have "(\<lambda>c. zone_of (ca_labels c)) ` set ex_fleet = {''za'', ''zb''}"
    by (simp add: ex_fleet_def ex_node_def zone_of_def label_of_def)
  with zones_partition_fleet [of ex_fleet] show ?thesis by simp
qed

definition ex_workload :: workload where
  "ex_workload = \<lparr>wl_name = ''db'', wl_node = ''b'', wl_needs = no_resources, wl_selector = []\<rparr>"

theorem failed_nodes_get_nothing_witness:
  "mset (map pd_name (sm_placed (fail_nodes 1 1 ex_fleet [ex_workload] (\<lambda>c. ca_id c = ''b'')))) = {#''db''#}"
  using conjunct1 [OF failed_nodes_get_nothing [of 1 1 ex_fleet "[ex_workload]" "\<lambda>c. ca_id c = ''b''"]]
  by (simp add: ex_workload_def ex_fleet_def ex_node_def)

theorem simulation_within_capacity_witness:
  "list_all (\<lambda>c. rs_cpu (ca_requested c) \<le> 400) (fst (place_jobs 1 1 (simulate_jobs ex_request 3) ex_fleet))"
proof -
  have "\<forall>c\<in>set ex_fleet. has_room (with_defaults (rq_policy ex_request)) c" by code_simp
  moreover have "distinct (map ca_id ex_fleet)" by code_simp
  moreover have "validate_policy (with_defaults (rq_policy ex_request)) = None" by code_simp
  moreover have "map (\<lambda>c. cp_cpu (ca_capacity c)) (fst (place_jobs 1 1 (simulate_jobs ex_request 3) ex_fleet)) =
      map (\<lambda>c. cp_cpu (ca_capacity c)) ex_fleet"
    by (intro place_jobs_keeps) (simp add: assign_to_def)
  then have "map (\<lambda>c. cp_cpu (ca_capacity c)) (fst (place_jobs 1 1 (simulate_jobs ex_request 3) ex_fleet)) =
      [measured 400, measured 20]"
    by (simp add: ex_fleet_def ex_node_def ex_capacity_def)
  then have "\<forall>c\<in>set (fst (place_jobs 1 1 (simulate_jobs ex_request 3) ex_fleet)). am_value (cp_cpu (ca_capacity c)) \<le> 400"
    by (auto simp: measured_def map_eq_Cons_conv)
  ultimately show ?thesis
    using simulation_within_capacity [of ex_fleet ex_request 1 1 3]
    by (force simp: has_room_def stays_within_def ex_request_def default_policy_def with_defaults_def Let_def
        list_all_iff)
qed

end
