(* ===== verification/Releases.thy ===== *)
theory Releases
  imports Labels
begin

text \<open>
  Container names and the retirement of old releases: the naming part of
  \<open>internal/reconcile/application/controller.go\<close> (\<open>ContainerName\<close> to \<open>ownsContainer\<close>, \<open>filterStale\<close>),
  \<open>releaseOf\<close> to \<open>newestRunningRelease\<close> in \<open>image_truth.go\<close>, and \<open>drain.go\<close>.

  SHA-256 is a parameter: a function from the key to its hexadecimal digits.  A container is what
  the runtime lists of it; the hold and drain durations and the clock reading are arguments.  The
  gate records written along the way are not modelled, nor is the execution of the removals.
\<close>

section \<open>Container names\<close>

definition hash_len :: nat where
  "hash_len = 8"

definition container_name :: "(string \<Rightarrow> string) \<Rightarrow> string \<Rightarrow> string \<Rightarrow> string \<Rightarrow> string" where
  "container_name sha_hex service img nonce =
     (let key = (if nonce \<noteq> [] then img @ CHR 0x00 # nonce else img)
      in service @ ''-'' @ take hash_len (sha_hex key))"

definition replica_container_name ::
    "(string \<Rightarrow> string) \<Rightarrow> string \<Rightarrow> string \<Rightarrow> string \<Rightarrow> nat \<Rightarrow> string" where
  "replica_container_name sha_hex service img nonce index =
     (let base = container_name sha_hex service img nonce
      in if index = 0 then base else base @ ''-r'' @ decimal index)"

definition is_digit :: "char \<Rightarrow> bool" where
  "is_digit c \<longleftrightarrow> CHR ''0'' \<le> c \<and> c \<le> CHR ''9''"

definition is_hex_digit :: "char \<Rightarrow> bool" where
  "is_hex_digit c \<longleftrightarrow> is_digit c \<or> (CHR ''a'' \<le> c \<and> c \<le> CHR ''f'')"

fun cut_prefix :: "string \<Rightarrow> string \<Rightarrow> string option" where
  "cut_prefix [] s = Some s"
| "cut_prefix (p # ps) [] = None"
| "cut_prefix (p # ps) (c # cs) = (if p = c then cut_prefix ps cs else None)"

definition owns_container :: "string \<Rightarrow> string \<Rightarrow> bool" where
  "owns_container service name =
     (case cut_prefix (service @ ''-'') name of
        None \<Rightarrow> False
      | Some suffix \<Rightarrow>
          if length suffix < hash_len then False
          else
            (let hash = take hash_len suffix; rest = drop hash_len suffix
             in if \<not> list_all is_hex_digit hash then False
                else if rest = [] then True
                else (case cut_prefix ''-r'' rest of
                        None \<Rightarrow> False
                      | Some index \<Rightarrow> index \<noteq> [] \<and> list_all is_digit index)))"

text \<open>\<open>strconv.Atoi\<close>: an optional sign and decimal digits within 64 bits.\<close>

fun digits_value :: "string \<Rightarrow> int \<Rightarrow> int" where
  "digits_value [] acc = acc"
| "digits_value (c # cs) acc = digits_value cs (10 * acc + (int (of_char c) - 48))"

definition go_atoi :: "string \<Rightarrow> int option" where
  "go_atoi s =
     (let (neg, ds) = (case s of c # cs \<Rightarrow> if c = CHR ''-'' then (True, cs) else if c = CHR ''+'' then (False, cs)
                                          else (False, s) | [] \<Rightarrow> (False, []));
          v = (if neg then - digits_value ds 0 else digits_value ds 0)
      in if ds = [] \<or> \<not> list_all is_digit ds \<or> \<not> in_i64 v then None else Some v)"

definition last_index :: "string \<Rightarrow> string \<Rightarrow> nat option" where
  "last_index sub s =
     (case filter (\<lambda>i. take (length sub) (drop i s) = sub) [0..<Suc (length s)] of
        [] \<Rightarrow> None | is \<Rightarrow> Some (last is))"

definition release_of :: "string \<Rightarrow> string" where
  "release_of name =
     (case last_index ''-r'' name of
        None \<Rightarrow> name
      | Some i \<Rightarrow>
          if 0 < i then
            (case go_atoi (drop (i + 2) name) of
               None \<Rightarrow> name
             | Some n \<Rightarrow> if n > 0 \<and> \<not> (take 1 (drop (i + 2) name) = ''+'') then take i name else name)
          else name)"

section \<open>Stale containers\<close>

record container_state =
  cs_id :: string
  cs_name :: string
  cs_created :: gotime
  cs_running :: bool
  cs_labels :: labels

record app_controller =
  ac_service :: string
  ac_instance :: string

definition owns_instance :: "app_controller \<Rightarrow> container_state \<Rightarrow> bool" where
  "owns_instance ctl cs =
     (if ac_instance ctl = [] then True
      else (case map_of (cs_labels cs) ''platform-reserved.instance'' of None \<Rightarrow> True | Some i \<Rightarrow> i = ac_instance ctl))"

definition filter_stale :: "app_controller \<Rightarrow> container_state list \<Rightarrow> string list \<Rightarrow> container_state list" where
  "filter_stale ctl all keep =
     filter (\<lambda>cs. \<not> (cs_name cs \<in> set keep \<or> \<not> owns_container (ac_service ctl) (cs_name cs) \<or>
       \<not> owns_instance ctl cs)) all"

section \<open>Releases by creation time\<close>

definition gm_get :: "('k, 'v) gomap \<Rightarrow> 'k \<Rightarrow> 'v \<Rightarrow> 'v" where
  "gm_get m k d = (case map_of m k of None \<Rightarrow> d | Some v \<Rightarrow> v)"

type_synonym times = "(string, gotime) gomap"

definition release_seen :: "string \<Rightarrow> container_state \<Rightarrow> times \<times> times \<times> string set \<Rightarrow> times \<times> times \<times> string set" where
  "release_seen service cs st =
     (case st of (first, lst, seen_base) \<Rightarrow>
        if \<not> owns_container service (cs_name cs) then (first, lst, seen_base)
        else
          (let rel = release_of (cs_name cs);
               (first, seen_base) =
                 (if cs_name cs = rel then (AList.update rel (cs_created cs) first, insert rel seen_base)
                  else if rel \<notin> seen_base \<and>
                    (case map_of first rel of None \<Rightarrow> True | Some t \<Rightarrow> cs_created cs < t)
                    then (AList.update rel (cs_created cs) first, seen_base)
                  else (first, seen_base));
               lst = (if cs_created cs > gm_get lst rel zero_time then AList.update rel (cs_created cs) lst else lst)
           in (first, lst, seen_base)))"

definition release_creation :: "string \<Rightarrow> container_state list \<Rightarrow> times \<times> times" where
  "release_creation service all =
     (case fold (release_seen service) all ([], [], {}) of (first, lst, _) \<Rightarrow> (first, lst))"

definition release_newer :: "string \<Rightarrow> string \<Rightarrow> times \<Rightarrow> string \<Rightarrow> bool" where
  "release_newer a b created serving =
     (if gm_get created a zero_time \<noteq> gm_get created b zero_time
        then gm_get created a zero_time > gm_get created b zero_time
      else if a = serving \<or> b = serving then a = serving \<and> b \<noteq> serving
      else a > b)"

definition newest_step :: "times \<Rightarrow> string \<Rightarrow> string \<Rightarrow> container_state \<Rightarrow> string \<Rightarrow> string" where
  "newest_step last_created current serving cs newest =
     (let rel = release_of (cs_name cs) in
      if \<not> cs_running cs \<or> rel = current then newest
      else if newest = [] \<or> release_newer rel newest last_created serving then rel
      else newest)"

definition newest_running_release ::
    "container_state list \<Rightarrow> times \<Rightarrow> string \<Rightarrow> string \<Rightarrow> string" where
  "newest_running_release stale last_created current serving =
     fold (newest_step last_created current serving) stale []"

section \<open>The drain tracker\<close>

record drain_tracker =
  dt_cutover :: times
  dt_serving :: "(string, string) gomap"
  dt_replaced :: "(string, string) gomap"
  dt_retired :: "(string, times) gomap"
  dt_shrink :: "(string, bool) gomap"

definition new_drain_tracker :: drain_tracker where
  "new_drain_tracker = \<lparr>dt_cutover = [], dt_serving = [], dt_replaced = [], dt_retired = [], dt_shrink = []\<rparr>"

text \<open>A controller may have no tracker (a nil pointer); every method then does nothing.\<close>

definition dt_shrinking :: "string \<Rightarrow> bool \<Rightarrow> drain_tracker option \<Rightarrow> bool \<times> drain_tracker option" where
  "dt_shrinking service surplus t =
     (case t of None \<Rightarrow> (False, None)
      | Some t \<Rightarrow> (surplus \<and> \<not> gm_get (dt_shrink t) service False,
                   Some (t\<lparr>dt_shrink := AList.update service surplus (dt_shrink t)\<rparr>)))"

definition dt_retire :: "string \<Rightarrow> string \<Rightarrow> string \<Rightarrow> gotime \<Rightarrow> drain_tracker option \<Rightarrow> drain_tracker option" where
  "dt_retire service release serving at' t =
     map_option (\<lambda>t.
       let m = AList.delete serving (gm_get (dt_retired t) service []);
           m = (if release \<noteq> [] then AList.update release at' m else m)
       in t\<lparr>dt_retired := AList.update service m (dt_retired t)\<rparr>) t"

definition dt_retired_at :: "string \<Rightarrow> string \<Rightarrow> drain_tracker option \<Rightarrow> gotime option" where
  "dt_retired_at service release t =
     (case t of None \<Rightarrow> None | Some t \<Rightarrow> map_of (gm_get (dt_retired t) service []) release)"

definition dt_forget_retired :: "string \<Rightarrow> string set \<Rightarrow> drain_tracker option \<Rightarrow> drain_tracker option" where
  "dt_forget_retired service present t =
     map_option (\<lambda>t. case map_of (dt_retired t) service of
         None \<Rightarrow> t
       | Some m \<Rightarrow> t\<lparr>dt_retired := AList.update service (gm_retain (\<lambda>r. r \<in> present) m) (dt_retired t)\<rparr>) t"

definition dt_mark :: "string \<Rightarrow> gotime \<Rightarrow> drain_tracker option \<Rightarrow> drain_tracker option" where
  "dt_mark service at' t = map_option (\<lambda>t. t\<lparr>dt_cutover := AList.update service at' (dt_cutover t)\<rparr>) t"

definition dt_moved :: "string \<Rightarrow> string \<Rightarrow> drain_tracker option \<Rightarrow> bool \<times> drain_tracker option" where
  "dt_moved service release t =
     (case t of None \<Rightarrow> (False, None)
      | Some t \<Rightarrow>
          (let prev = gm_get (dt_serving t) service [];
               t = t\<lparr>dt_serving := AList.update service release (dt_serving t)\<rparr>
           in if prev = [] \<or> prev = release then (False, Some t)
              else (True, Some (t\<lparr>dt_replaced := AList.update service prev (dt_replaced t)\<rparr>))))"

definition dt_previous :: "string \<Rightarrow> drain_tracker option \<Rightarrow> string" where
  "dt_previous service t = (case t of None \<Rightarrow> [] | Some t \<Rightarrow> gm_get (dt_replaced t) service [])"

definition dt_at :: "string \<Rightarrow> drain_tracker option \<Rightarrow> gotime" where
  "dt_at service t = (case t of None \<Rightarrow> zero_time | Some t \<Rightarrow> gm_get (dt_cutover t) service zero_time)"

section \<open>Draining and holding\<close>

text \<open>The part of \<open>deploysafety.Effective\<close> that retirement reads.\<close>

record safety =
  sf_drain_timeout :: duration
  sf_auto_rollback :: bool
  sf_watch_window :: duration

definition effective_hold :: "duration \<Rightarrow> safety \<Rightarrow> duration" where
  "effective_hold hold_base cfg =
     (let hold = max hold_base (sf_drain_timeout cfg)
      in if sf_auto_rollback cfg then max hold (sf_watch_window cfg) else hold)"

definition is_draining :: "string \<Rightarrow> safety \<Rightarrow> bool \<Rightarrow> gotime \<Rightarrow> drain_tracker option \<Rightarrow> bool" where
  "is_draining service cfg just_deployed now t =
     (if sf_drain_timeout cfg \<le> 0 then False
      else if just_deployed then True
      else (let cut = dt_at service t in cut \<noteq> zero_time \<and> now < time_add cut (sf_drain_timeout cfg)))"

definition current_base :: "string list \<Rightarrow> string" where
  "current_base targets = (case targets of [] \<Rightarrow> [] | t # _ \<Rightarrow> release_of t)"

definition has_surplus_replicas :: "app_controller \<Rightarrow> container_state list \<Rightarrow> string list \<Rightarrow> bool" where
  "has_surplus_replicas ctl all targets =
     list_ex (\<lambda>cs. cs_running cs \<and> release_of (cs_name cs) = current_base targets) (filter_stale ctl all targets)"

definition stale_releases :: "container_state list \<Rightarrow> string \<Rightarrow> string list" where
  "stale_releases stale current =
     rev (fold (\<lambda>cs rels. let rel = release_of (cs_name cs)
                in if rel \<notin> set rels \<and> rel \<noteq> current then rel # rels else rels) stale [])"

text \<open>When each release of the sorted order was retired.\<close>

fun retirements ::
    "string \<Rightarrow> string \<Rightarrow> string \<Rightarrow> string \<Rightarrow> gotime \<Rightarrow> times \<Rightarrow> drain_tracker option \<Rightarrow> string list \<Rightarrow> times" where
  "retirements service current serving newest_stale cutover first t [] = []"
| "retirements service current serving newest_stale cutover first t (rel # rest) =
     (let later = retirements service current serving newest_stale cutover first t rest in
      if rel = current then later
      else
        (let at' = (case dt_retired_at service rel t of
               Some at' \<Rightarrow> at'
             | None \<Rightarrow>
                 (case rest of
                    next' # _ \<Rightarrow>
                      if rel \<noteq> serving \<and> rel \<noteq> newest_stale \<and> gm_get first next' zero_time \<noteq> zero_time
                      then gm_get first next' zero_time else cutover
                  | [] \<Rightarrow> cutover))
         in (rel, at') # later))"

definition drain_filter ::
    "app_controller \<Rightarrow> container_state list \<Rightarrow> string list \<Rightarrow> gotime \<Rightarrow> duration \<Rightarrow> gotime \<Rightarrow>
     drain_tracker option \<Rightarrow> (container_state list \<times> bool) \<times> drain_tracker option" where
  "drain_filter ctl all targets cutover timeout now t =
     (let stale = filter_stale ctl all targets;
          first = fst (release_creation (ac_service ctl) all);
          current = current_base targets;
          serving = dt_previous (ac_service ctl) t;
          order = go_sort (\<lambda>a b. release_newer b a first serving) (current # stale_releases stale current);
          newest_stale = newest_running_release stale first current serving;
          retired = retirements (ac_service ctl) current serving newest_stale cutover first t order;
          t = dt_forget_retired (ac_service ctl) (insert current (set order)) t;
          keeps = (\<lambda>cs. cs_running cs \<and> (release_of (cs_name cs) = current \<or>
             now < time_add (gm_get retired (release_of (cs_name cs)) zero_time) timeout))
      in ((filter (\<lambda>cs. \<not> keeps cs) stale, list_ex keeps stale), t))"

definition held_filter_for ::
    "app_controller \<Rightarrow> container_state list \<Rightarrow> string list \<Rightarrow> gotime \<Rightarrow> duration \<Rightarrow> drain_tracker option \<Rightarrow>
     container_state list \<times> gotime" where
  "held_filter_for ctl all targets now hold t =
     (let (first, lst) = release_creation (ac_service ctl) all;
          cutover = fold (\<lambda>(_, x) m. if x > m then x else m) first zero_time;
          holding = (cutover \<noteq> zero_time \<and> now < time_add cutover hold);
          current = current_base targets;
          stale = filter_stale ctl all targets;
          newest = (if holding then newest_running_release stale lst current (dt_previous (ac_service ctl) t) else []);
          due = filter (\<lambda>cs. \<not> (newest \<noteq> [] \<and> cs_running cs \<and> release_of (cs_name cs) = newest)) stale
      in (due, if newest \<noteq> [] then time_add cutover hold else zero_time))"

text \<open>\<open>retireStale\<close> up to the removal itself: which containers are due, or the listing error.  The
  listing is an argument; the code lists at most once in a pass.  The first part records the
  release that serves now, the second decides.\<close>

definition note_cutover ::
    "string \<Rightarrow> string list \<Rightarrow> gotime \<Rightarrow> bool \<Rightarrow> drain_tracker option \<Rightarrow> bool \<times> drain_tracker option" where
  "note_cutover service targets now just_deployed t =
     (if targets \<noteq> [] then
        (case dt_moved service (current_base targets) t of
           (True, t) \<Rightarrow> (True, dt_retire service (dt_previous service t) (current_base targets) now t)
         | (False, t) \<Rightarrow> (just_deployed, t))
      else (just_deployed, t))"

definition note_shrink ::
    "app_controller \<Rightarrow> container_state list \<Rightarrow> string list \<Rightarrow> gotime \<Rightarrow> drain_tracker option \<Rightarrow> drain_tracker option" where
  "note_shrink ctl all targets now t =
     (case dt_shrinking (ac_service ctl) (has_surplus_replicas ctl all targets) t of
        (True, t) \<Rightarrow> dt_mark (ac_service ctl) now t | (False, t) \<Rightarrow> t)"

definition decide_due ::
    "app_controller \<Rightarrow> safety \<Rightarrow> duration \<Rightarrow> gotime \<Rightarrow> string + container_state list \<Rightarrow> string list \<Rightarrow> bool \<Rightarrow>
     drain_tracker option \<Rightarrow> (string + container_state list) \<times> drain_tracker option" where
  "decide_due ctl cfg hold_base now listing targets just_deployed t =
     (case listing of
        Inl err \<Rightarrow>
          (Inl err, if just_deployed then dt_mark (ac_service ctl) now t else t)
      | Inr all \<Rightarrow>
          (let t = (if \<not> just_deployed \<and> sf_drain_timeout cfg > 0 \<and> targets \<noteq> []
                    then note_shrink ctl all targets now t else t);
               t = (if just_deployed then dt_mark (ac_service ctl) now t else t)
           in if is_draining (ac_service ctl) cfg just_deployed now t then
                (let cut = (if dt_at (ac_service ctl) t = zero_time then now else dt_at (ac_service ctl) t);
                     ((due, _), t) = drain_filter ctl all targets cut (sf_drain_timeout cfg) now t
                 in (Inr due, t))
              else
                (let hold = effective_hold hold_base cfg
                 in if hold \<le> 0 then (Inr (filter_stale ctl all targets), t)
                    else (Inr (fst (held_filter_for ctl all targets now hold t)), t))))"

definition retire_stale ::
    "app_controller \<Rightarrow> safety \<Rightarrow> duration \<Rightarrow> gotime \<Rightarrow> string + container_state list \<Rightarrow> string list \<Rightarrow> bool \<Rightarrow>
     drain_tracker option \<Rightarrow> (string + container_state list) \<times> drain_tracker option" where
  "retire_stale ctl cfg hold_base now listing targets just_deployed t =
     (let (just_deployed, t) = note_cutover (ac_service ctl) targets now just_deployed t
      in decide_due ctl cfg hold_base now listing targets just_deployed t)"

section \<open>Whose container is it\<close>

lemma cut_prefix_iff: "cut_prefix p s = Some r \<longleftrightarrow> s = p @ r"
  by (induction p s rule: cut_prefix.induct) auto

lemma cut_prefix_None: "cut_prefix p s = None \<longleftrightarrow> (\<nexists>r. s = p @ r)"
  using cut_prefix_iff by (metis not_Some_eq option.distinct(1))

definition replica_suffix :: "string \<Rightarrow> bool" where
  "replica_suffix t \<longleftrightarrow> t = [] \<or> (\<exists>ds. t = ''-r'' @ ds \<and> ds \<noteq> [] \<and> list_all is_digit ds)"

lemma owns_container_iff:
  "owns_container service name \<longleftrightarrow>
     (\<exists>h t. name = service @ CHR ''-'' # h @ t \<and> length h = hash_len \<and> list_all is_hex_digit h \<and> replica_suffix t)"
  (is "?l \<longleftrightarrow> ?r")
proof
  assume ?l
  then obtain suffix where name: "name = (service @ ''-'') @ suffix" and len: "\<not> length suffix < hash_len"
    and hex: "list_all is_hex_digit (take hash_len suffix)"
    and rest: "drop hash_len suffix = [] \<or>
      (\<exists>index. cut_prefix ''-r'' (drop hash_len suffix) = Some index \<and> index \<noteq> [] \<and> list_all is_digit index)"
    by (auto simp: owns_container_def Let_def cut_prefix_iff split: option.splits if_splits)
  have "replica_suffix (drop hash_len suffix)"
    using rest by (auto simp: replica_suffix_def cut_prefix_iff)
  with name len hex show ?r
    by (intro exI [of _ "take hash_len suffix"] exI [of _ "drop hash_len suffix"]) simp
next
  assume ?r
  then obtain h t where name: "name = service @ CHR ''-'' # h @ t" and h: "length h = hash_len" "list_all is_hex_digit h"
    and t: "replica_suffix t" by blast
  have cut: "cut_prefix (service @ ''-'') name = Some (h @ t)" by (simp add: cut_prefix_iff name)
  have take: "take hash_len (h @ t) = h" and drop: "drop hash_len (h @ t) = t" using h(1) by simp_all
  have len: "\<not> length (h @ t) < hash_len" using h(1) by simp
  show ?l
    using t unfolding owns_container_def cut option.case Let_def take drop replica_suffix_def
    using h(2) len by (auto simp: cut_prefix_iff [THEN iffD2])
qed

lemma hex_ne: "is_hex_digit c \<Longrightarrow> c \<noteq> CHR ''-'' \<and> c \<noteq> CHR ''r''"
  by (auto simp: is_hex_digit_def is_digit_def less_eq_char_def)

lemma digit_hex: "list_all is_digit ds \<Longrightarrow> list_all is_hex_digit ds"
  by (auto simp: list_all_iff is_hex_digit_def)

lemma hex_run:
  assumes "list_all is_hex_digit a" and "list_all is_hex_digit b" and "\<not> is_hex_digit x" and "\<not> is_hex_digit y"
    and "a @ x # s = b @ y # t"
  shows "a = b \<and> x = y \<and> s = t"
proof -
  have "takeWhile is_hex_digit (a @ x # s) = a" "takeWhile is_hex_digit (b @ y # t) = b"
    using assms(1-4) by (auto simp: list_all_iff takeWhile_append)
  with assms(5) show ?thesis by auto
qed

lemma not_hex: "\<not> is_hex_digit (CHR ''-'')" "\<not> is_hex_digit (CHR ''r'')"
  using hex_ne by blast+

text \<open>
  Stale cleanup never takes another service's container: no container name belongs to two
  services, whatever hyphens their names contain.
\<close>

theorem container_owner_unique:
  assumes "owns_container s1 name" and "owns_container s2 name"
  shows "s1 = s2"
proof -
  from assms(1) obtain h1 t1 where n1: "name = s1 @ CHR ''-'' # h1 @ t1" and h1: "list_all is_hex_digit h1"
    and t1: "replica_suffix t1" by (auto simp: owns_container_iff)
  from assms(2) obtain h2 t2 where n2: "name = s2 @ CHR ''-'' # h2 @ t2" and h2: "list_all is_hex_digit h2"
    and t2: "replica_suffix t2" by (auto simp: owns_container_iff)
  have r: "list_all is_hex_digit (rev h1)" "list_all is_hex_digit (rev h2)" using h1 h2 by simp_all
  have tails: "rev t1 @ rev h1 @ CHR ''-'' # rev s1 = rev t2 @ rev h2 @ CHR ''-'' # rev s2"
    using n1 n2 by (metis append_assoc append_Cons append_Nil rev.simps(2) rev_append)
  have split: "t = [] \<or> (\<exists>ds. rev t = ds @ [CHR ''r'', CHR ''-''] \<and> list_all is_hex_digit ds)" if "replica_suffix t" for t
  proof -
    from that consider "t = []" | ds where "t = ''-r'' @ ds" "list_all is_digit ds" by (auto simp: replica_suffix_def)
    then show ?thesis
    proof cases
      case 2
      then have "rev t = rev ds @ [CHR ''r'', CHR ''-'']" by simp
      with digit_hex [OF 2(2)] show ?thesis by (metis list_all_rev)
    qed simp
  qed
  have base: "rev s1 = rev s2" if "rev h1 @ CHR ''-'' # rev s1 = rev h2 @ CHR ''-'' # rev s2"
    using hex_run [OF r not_hex(1) not_hex(1) that] by simp
  from split [OF t1] split [OF t2] have "rev s1 = rev s2"
  proof (elim disjE exE)
    fix ds assume "t1 = []" and ds: "rev t2 = ds @ [CHR ''r'', CHR ''-''] \<and> list_all is_hex_digit ds"
    then have "rev h1 @ CHR ''-'' # rev s1 = ds @ CHR ''r'' # CHR ''-'' # rev h2 @ CHR ''-'' # rev s2"
      using tails by simp
    with hex_run [OF r(1) _ not_hex(1) not_hex(2) this] ds show ?thesis by simp
  next
    fix ds assume "t2 = []" and ds: "rev t1 = ds @ [CHR ''r'', CHR ''-''] \<and> list_all is_hex_digit ds"
    then have "ds @ CHR ''r'' # CHR ''-'' # rev h1 @ CHR ''-'' # rev s1 = rev h2 @ CHR ''-'' # rev s2"
      using tails by simp
    with hex_run [OF _ r(2) not_hex(2) not_hex(1) this] ds show ?thesis by simp
  next
    fix ds ds' assume ds: "rev t1 = ds @ [CHR ''r'', CHR ''-''] \<and> list_all is_hex_digit ds"
      and ds': "rev t2 = ds' @ [CHR ''r'', CHR ''-''] \<and> list_all is_hex_digit ds'"
    then have "ds @ CHR ''r'' # CHR ''-'' # rev h1 @ CHR ''-'' # rev s1 =
        ds' @ CHR ''r'' # CHR ''-'' # rev h2 @ CHR ''-'' # rev s2" using tails by simp
    with hex_run [OF _ _ not_hex(2) not_hex(2) this] ds ds' base show ?thesis by simp
  qed (use tails base in simp)
  then show ?thesis by simp
qed

section \<open>Replica names round trip\<close>

lemma digit_char: "d < 10 \<Longrightarrow> is_digit (char_of (48 + d :: nat)) \<and> (of_char (char_of (48 + d :: nat)) :: nat) = 48 + d"
proof -
  assume "d < 10"
  then have "d \<in> {0, 1, 2, 3, 4, 5, 6, 7, 8, 9}" by auto
  then show ?thesis by (auto simp: is_digit_def less_eq_char_def)
qed

lemma decimal_digits: "decimal n \<noteq> [] \<and> list_all is_digit (decimal n)"
proof (induction n rule: decimal.induct)
  case (1 n)
  show ?case
  proof (cases "n < 10")
    case True
    then show ?thesis using digit_char by (simp add: decimal.simps [of n])
  next
    case False
    with 1 digit_char [of "n mod 10"] show ?thesis by (simp add: decimal.simps [of n])
  qed
qed

lemma digits_value_append: "digits_value (a @ b) acc = digits_value b (digits_value a acc)"
  by (induction a arbitrary: acc) simp_all

lemma digits_value_decimal: "digits_value (decimal n) 0 = int n"
proof (induction n rule: decimal.induct)
  case (1 n)
  show ?case
  proof (cases "n < 10")
    case True
    then show ?thesis using digit_char [of n] by (simp add: decimal.simps [of n])
  next
    case False
    have "int n = int (10 * (n div 10) + n mod 10)" by simp
    then have "int n = 10 * int (n div 10) + int (n mod 10)" by (simp only: of_nat_add of_nat_mult of_nat_numeral)
    with False 1 digit_char [of "n mod 10"] show ?thesis
      by (simp add: decimal.simps [of n] digits_value_append)
  qed
qed

lemma go_atoi_decimal:
  assumes "in_i64 (int n)"
  shows "go_atoi (decimal n) = Some (int n)" and "take 1 (decimal n) \<noteq> ''+''"
proof -
  obtain c cs where d: "decimal n = c # cs" using decimal_digits [of n] by (cases "decimal n") auto
  then have "is_digit c" using decimal_digits [of n] by simp
  then have "c \<noteq> CHR ''-''" "c \<noteq> CHR ''+''" by (auto simp: is_digit_def less_eq_char_def)
  with d decimal_digits [of n] digits_value_decimal [of n] assms show
    "go_atoi (decimal n) = Some (int n)" "take 1 (decimal n) \<noteq> ''+''"
    by (auto simp: go_atoi_def Let_def)
qed

lemma last_index_marker:
  assumes "CHR ''-'' \<notin> set b"
  shows "last_index ''-r'' (a @ ''-r'' @ b) = Some (length a)"
proof -
  let ?s = "a @ ''-r'' @ b"
  have at': "take 2 (drop (length a) ?s) = ''-r''" by simp
  have later: "take 2 (drop i ?s) \<noteq> ''-r''" if i: "length a < i" for i
  proof
    assume "take 2 (drop i ?s) = ''-r''"
    then have "CHR ''-'' \<in> set (drop i ?s)" by (metis in_set_takeD list.set_intros(1))
    moreover have "set (drop i ?s) \<subseteq> set (CHR ''r'' # b)"
    proof -
      obtain k where "i = Suc (length a + k)" using less_imp_Suc_add [OF i] by auto
      then have "drop i ?s = drop k (CHR ''r'' # b)" by simp
      then show ?thesis using set_drop_subset by metis
    qed
    ultimately show False using assms by auto
  qed
  have "filter (\<lambda>i. take 2 (drop i ?s) = ''-r'') [0..<Suc (length ?s)] =
      filter (\<lambda>i. take 2 (drop i ?s) = ''-r'') [0..<length a] @ [length a]"
  proof -
    have "[0..<Suc (length ?s)] = [0..<length a] @ [length a..<Suc (length ?s)]"
      using upt_add_eq_append [of 0 "length a" "Suc (length ?s) - length a"]
      by (simp only: le_add_diff_inverse le_SucI length_append le_add1 le0)
    also have "[length a..<Suc (length ?s)] = length a # [Suc (length a)..<Suc (length ?s)]"
      by (rule upt_conv_Cons) simp
    finally have "[0..<Suc (length ?s)] = [0..<length a] @ [length a] @ [Suc (length a)..<Suc (length ?s)]" by simp
    moreover have "filter (\<lambda>i. take 2 (drop i ?s) = ''-r'') [Suc (length a)..<Suc (length ?s)] = []"
      unfolding filter_empty_conv using later by (metis Suc_le_eq atLeastLessThan_iff set_upt)
    ultimately show ?thesis using at' by (simp del: drop_append take_append)
  qed
  moreover have "length ''-r'' = 2" by simp
  moreover have "(case xs @ [x] of [] \<Rightarrow> None | is \<Rightarrow> Some (last is)) = Some x" for xs and x :: nat
    by (cases xs) simp_all
  ultimately show ?thesis unfolding last_index_def by (simp only:)
qed

lemma last_index_digits:
  assumes "list_all is_digit ds"
  shows "last_index ''-r'' (a @ ''-r'' @ ds) = Some (length a)"
  using assms by (intro last_index_marker) (auto simp: list_all_iff is_digit_def less_eq_char_def)

text \<open>
  A replica's release is found from its name.  Every name the controller gives a replica is
  owned by its service, and stripping the replica suffix of replica 1, 2, and so on gives back the
  release's base name, the name of replica 0.
\<close>

theorem replica_names_roundtrip:
  assumes "list_all is_hex_digit (sha_hex (if nonce \<noteq> [] then img @ CHR 0x00 # nonce else img))"
    and "hash_len \<le> length (sha_hex (if nonce \<noteq> [] then img @ CHR 0x00 # nonce else img))"
    and "in_i64 (int index)"
  shows "owns_container service (replica_container_name sha_hex service img nonce index) \<and>
    (0 < index \<longrightarrow> release_of (replica_container_name sha_hex service img nonce index) =
       replica_container_name sha_hex service img nonce 0)"
proof
  let ?key = "if nonce \<noteq> [] then img @ CHR 0x00 # nonce else img"
  let ?h = "take hash_len (sha_hex ?key)"
  have base: "container_name sha_hex service img nonce = service @ CHR ''-'' # ?h"
    by (simp add: container_name_def Let_def)
  have h: "length ?h = hash_len" "list_all is_hex_digit ?h"
    using assms(1,2) by (auto simp: list_all_iff dest: in_set_takeD)
  have suffix: "replica_suffix (if index = 0 then [] else ''-r'' @ decimal index)"
    using decimal_digits [of index] by (auto simp: replica_suffix_def)
  have name: "replica_container_name sha_hex service img nonce index =
      service @ CHR ''-'' # ?h @ (if index = 0 then [] else ''-r'' @ decimal index)"
    by (simp add: replica_container_name_def Let_def base)
  show "owns_container service (replica_container_name sha_hex service img nonce index)"
    unfolding owns_container_iff name using h suffix by blast
  show "0 < index \<longrightarrow> release_of (replica_container_name sha_hex service img nonce index) =
      replica_container_name sha_hex service img nonce 0"
  proof
    assume pos: "0 < index"
    let ?base = "container_name sha_hex service img nonce"
    have full: "replica_container_name sha_hex service img nonce index = ?base @ ''-r'' @ decimal index"
      using pos by (simp add: replica_container_name_def Let_def)
    have idx: "last_index ''-r'' (?base @ ''-r'' @ decimal index) = Some (length ?base)"
      using decimal_digits [of index] by (intro last_index_digits) simp
    have "drop (length ?base + 2) (?base @ ''-r'' @ decimal index) = decimal index" by simp
    moreover have "0 < length ?base" by (simp add: base)
    ultimately show "release_of (replica_container_name sha_hex service img nonce index) =
        replica_container_name sha_hex service img nonce 0"
      using go_atoi_decimal [OF assms(3)] pos unfolding release_of_def full idx
      by (simp add: replica_container_name_def Let_def)
  qed
qed

section \<open>Draining\<close>

lemma gm_get_update [simp]: "gm_get (AList.update k v m) k' d = (if k' = k then v else gm_get m k' d)"
  by (simp add: gm_get_def)

interpretation release_order: strict_total "\<lambda>a b. release_newer b a created serving" UNIV for created serving
  by standard (auto simp: release_newer_def split: if_splits)

lemma filter_stale_iff:
  "cs \<in> set (filter_stale ctl all keep) \<longleftrightarrow>
     cs \<in> set all \<and> cs_name cs \<notin> set keep \<and> owns_container (ac_service ctl) (cs_name cs) \<and> owns_instance ctl cs"
  by (auto simp: filter_stale_def)

lemma stale_releases_set:
  "set (stale_releases stale current) = (\<lambda>cs. release_of (cs_name cs)) ` set stale - {current}"
proof -
  let ?step = "\<lambda>cs rels. let rel = release_of (cs_name cs)
    in if rel \<notin> set rels \<and> rel \<noteq> current then rel # rels else rels"
  have "set (fold ?step stale rels) = set rels \<union> ((\<lambda>cs. release_of (cs_name cs)) ` set stale - {current})" for rels
    by (induction stale arbitrary: rels) (auto simp: Let_def)
  then show ?thesis by (simp add: stale_releases_def)
qed

lemma retirements_lookup:
  assumes "rel \<in> set order" and "rel \<noteq> current"
  shows "\<exists>at'. map_of (retirements service current serving newest cutover first t order) rel = Some at' \<and>
    (\<forall>x. dt_retired_at service rel t = Some x \<longrightarrow> at' = x) \<and>
    (dt_retired_at service rel t = None \<and> (rel = serving \<or> rel = newest) \<longrightarrow> at' = cutover)"
  using assms
proof (induction order)
  case Nil
  then show ?case by simp
next
  case (Cons r rest)
  show ?case
  proof (cases "r = rel")
    case True
    with Cons.prems(2) show ?thesis by (auto simp: Let_def split: option.splits list.splits)
  next
    case False
    with Cons show ?thesis by (auto simp: Let_def)
  qed
qed

lemma drain_filter_due:
  assumes "drain_filter ctl all targets cutover timeout now t = ((due, draining), t')" and "cs \<in> set due"
  shows "cs \<in> set (filter_stale ctl all targets)"
    and "cs_running cs \<Longrightarrow> release_of (cs_name cs) \<noteq> current_base targets"
    and "cs_running cs \<Longrightarrow> dt_retired_at (ac_service ctl) (release_of (cs_name cs)) t = Some at' \<Longrightarrow>
      time_add at' timeout \<le> now"
    and "cs_running cs \<Longrightarrow> dt_retired_at (ac_service ctl) (release_of (cs_name cs)) t = None \<Longrightarrow>
      release_of (cs_name cs) = dt_previous (ac_service ctl) t \<Longrightarrow> time_add cutover timeout \<le> now"
proof -
  let ?stale = "filter_stale ctl all targets" and ?current = "current_base targets"
  let ?first = "fst (release_creation (ac_service ctl) all)" and ?serving = "dt_previous (ac_service ctl) t"
  let ?order = "go_sort (\<lambda>a b. release_newer b a ?first ?serving) (?current # stale_releases ?stale ?current)"
  let ?ret = "retirements (ac_service ctl) ?current ?serving
    (newest_running_release ?stale ?first ?current ?serving) cutover ?first t ?order"
  let ?rel = "release_of (cs_name cs)"
  from assms have mem: "cs \<in> set ?stale" and keep: "\<not> (cs_running cs \<and> (?rel = ?current \<or>
      now < time_add (gm_get ?ret ?rel zero_time) timeout))"
    by (auto simp: drain_filter_def Let_def)
  show "cs \<in> set ?stale" by (rule mem)
  show "cs_running cs \<Longrightarrow> ?rel \<noteq> ?current" using keep by blast
  have look: "cs_running cs \<Longrightarrow> \<exists>x. map_of ?ret ?rel = Some x \<and>
      (\<forall>y. dt_retired_at (ac_service ctl) ?rel t = Some y \<longrightarrow> x = y) \<and>
      (dt_retired_at (ac_service ctl) ?rel t = None \<and> (?rel = ?serving \<or>
         ?rel = newest_running_release ?stale ?first ?current ?serving) \<longrightarrow> x = cutover)"
    using mem keep by (intro retirements_lookup) (auto simp: stale_releases_set)
  show "cs_running cs \<Longrightarrow> dt_retired_at (ac_service ctl) ?rel t = Some at' \<Longrightarrow> time_add at' timeout \<le> now"
    using look keep by (auto simp: gm_get_def)
  show "cs_running cs \<Longrightarrow> dt_retired_at (ac_service ctl) ?rel t = None \<Longrightarrow> ?rel = ?serving \<Longrightarrow>
      time_add cutover timeout \<le> now"
    using look keep by (auto simp: gm_get_def)
qed

text \<open>The tracker's state after traffic moved from \<open>prev\<close> to \<open>new\<close> at \<open>t0\<close>, as long as it does not
  move again.\<close>

definition moved_at :: "string \<Rightarrow> string \<Rightarrow> string \<Rightarrow> gotime \<Rightarrow> drain_tracker option \<Rightarrow> bool" where
  "moved_at service prev new t0 t \<longleftrightarrow>
     (\<exists>tr. t = Some tr \<and> gm_get (dt_serving tr) service [] = new \<and> gm_get (dt_replaced tr) service [] = prev \<and>
        t0 \<le> gm_get (dt_cutover tr) service zero_time \<and>
        (\<forall>x. dt_retired_at service prev t = Some x \<longrightarrow> t0 \<le> x))"

lemma moved_at_mark: "moved_at service prev new t0 t \<Longrightarrow> t0 \<le> now \<Longrightarrow> moved_at service prev new t0 (dt_mark service now t)"
  by (auto simp: moved_at_def dt_mark_def dt_retired_at_def)

lemma moved_at_shrinking:
  "moved_at service prev new t0 t \<Longrightarrow> dt_shrinking service b t = (opened, t') \<Longrightarrow> moved_at service prev new t0 t'"
  by (auto simp: moved_at_def dt_shrinking_def dt_retired_at_def split: option.splits)

lemma moved_at_again:
  "moved_at service prev new t0 t \<Longrightarrow> \<exists>t'. dt_moved service new t = (False, t') \<and> moved_at service prev new t0 t'"
  by (auto simp: moved_at_def dt_moved_def dt_retired_at_def)

lemma retired_at_forget:
  "dt_retired_at service rel (dt_forget_retired service present t) = Some x \<Longrightarrow> dt_retired_at service rel t = Some x"
  by (auto simp: dt_retired_at_def dt_forget_retired_def gm_get_def split: option.splits if_splits)

lemma moved_at_forget:
  "moved_at service prev new t0 t \<Longrightarrow> moved_at service prev new t0 (dt_forget_retired service present t)"
proof -
  assume m: "moved_at service prev new t0 t"
  then obtain tr where tr: "t = Some tr" by (auto simp: moved_at_def)
  obtain tr' where tr': "dt_forget_retired service present t = Some tr'"
    "dt_serving tr' = dt_serving tr" "dt_replaced tr' = dt_replaced tr" "dt_cutover tr' = dt_cutover tr"
    by (auto simp: dt_forget_retired_def tr split: option.split)
  have "\<forall>x. dt_retired_at service prev (Some tr') = Some x \<longrightarrow> t0 \<le> x"
    using m retired_at_forget [of service prev present t] tr'(1) by (auto simp: moved_at_def)
  with m tr tr' show ?thesis by (auto simp: moved_at_def)
qed

lemma moved_at_note_shrink:
  "moved_at (ac_service ctl) prev new t0 t \<Longrightarrow> t0 \<le> now \<Longrightarrow>
     moved_at (ac_service ctl) prev new t0 (note_shrink ctl all targets now t)"
  using moved_at_shrinking [of "ac_service ctl" prev new t0 t]
  by (auto simp: note_shrink_def moved_at_mark split: prod.split bool.split)

text \<open>One more decision inside the window keeps both the new and the previous release running.\<close>

lemma drain_decision:
  assumes "moved_at (ac_service ctl) prev (current_base targets) t0 t" and "0 < t0"
    and "t0 \<le> now" and "now < time_add t0 (sf_drain_timeout cfg)"
    and "decide_due ctl cfg hold_base now (Inr all) targets just_deployed t = (res, t')"
  shows "moved_at (ac_service ctl) prev (current_base targets) t0 t' \<and>
    (\<exists>due. res = Inr due \<and> (\<forall>cs\<in>set due. cs_running cs \<longrightarrow>
       release_of (cs_name cs) \<notin> {prev, current_base targets}))"
proof -
  let ?s = "ac_service ctl" and ?new = "current_base targets" and ?drain = "sf_drain_timeout cfg"
  have pos: "0 < ?drain" using assms(3,4) by (simp add: time_add_def)
  define t2 where "t2 = (if \<not> just_deployed \<and> ?drain > 0 \<and> targets \<noteq> [] then note_shrink ctl all targets now t else t)"
  define t3 where "t3 = (if just_deployed then dt_mark ?s now t2 else t2)"
  have m3: "moved_at ?s prev ?new t0 t3"
    using assms(1,3) by (auto simp: t3_def t2_def moved_at_mark moved_at_note_shrink)
  then have cut: "t0 \<le> dt_at ?s t3" and prev: "dt_previous ?s t3 = prev"
    and ret: "\<And>x. dt_retired_at ?s prev t3 = Some x \<Longrightarrow> t0 \<le> x"
    by (auto simp: moved_at_def dt_at_def dt_previous_def)
  have window: "now < time_add x ?drain" if "t0 \<le> x" for x using that assms(4) by (simp add: time_add_def)
  have nz: "dt_at ?s t3 \<noteq> zero_time" using cut assms(2) by (simp add: zero_time_def)
  have draining: "is_draining ?s cfg just_deployed now t3"
    using pos nz window [OF cut] by (simp add: is_draining_def Let_def)
  obtain due flag t4 where df: "drain_filter ctl all targets (dt_at ?s t3) ?drain now t3 = ((due, flag), t4)"
    by (metis surj_pair)
  have "decide_due ctl cfg hold_base now (Inr all) targets just_deployed t =
      (if is_draining ?s cfg just_deployed now t3 then
         (let cut = (if dt_at ?s t3 = zero_time then now else dt_at ?s t3);
              ((due, _), t) = drain_filter ctl all targets cut ?drain now t3
          in (Inr due, t))
       else (let hold = effective_hold hold_base cfg
             in if hold \<le> 0 then (Inr (filter_stale ctl all targets), t3)
                else (Inr (fst (held_filter_for ctl all targets now hold t3)), t3)))"
    unfolding decide_due_def t3_def t2_def Let_def sum.case by (rule refl)
  also have "\<dots> = (Inr due, t4)" using draining df nz by simp
  finally have res: "res = Inr due" "t' = t4" using assms(5) by simp_all
  have "\<exists>present. t4 = dt_forget_retired ?s present t3"
    using df unfolding drain_filter_def Let_def by blast
  then have m4: "moved_at ?s prev ?new t0 t4" using moved_at_forget [OF m3] by blast
  have "release_of (cs_name cs) \<notin> {prev, ?new}" if "cs \<in> set due" "cs_running cs" for cs
  proof -
    have "release_of (cs_name cs) \<noteq> ?new" using drain_filter_due(2) [OF df that] .
    moreover have "release_of (cs_name cs) \<noteq> prev"
    proof
      assume eq: "release_of (cs_name cs) = prev"
      show False
      proof (cases "dt_retired_at ?s prev t3")
        case None
        with drain_filter_due(4) [OF df that] eq prev window [OF cut] show False by simp
      next
        case (Some x)
        with drain_filter_due(3) [OF df that, of x] eq window [OF ret [OF Some]] show False by simp
      qed
    qed
    ultimately show ?thesis by simp
  qed
  with res m4 show ?thesis by blast
qed

lemma drain_pass:
  assumes "moved_at (ac_service ctl) prev (current_base targets) t0 t" and "0 < t0" and "targets \<noteq> []"
    and "t0 \<le> now" and "now < time_add t0 (sf_drain_timeout cfg)"
    and "retire_stale ctl cfg hold_base now (Inr all) targets just_deployed t = (res, t')"
  shows "moved_at (ac_service ctl) prev (current_base targets) t0 t' \<and>
    (\<exists>due. res = Inr due \<and> (\<forall>cs\<in>set due. cs_running cs \<longrightarrow>
       release_of (cs_name cs) \<notin> {prev, current_base targets}))"
proof -
  from moved_at_again [OF assms(1)] obtain t1 where
    t1: "dt_moved (ac_service ctl) (current_base targets) t = (False, t1)"
      "moved_at (ac_service ctl) prev (current_base targets) t0 t1" by blast
  with assms(3,6) have "decide_due ctl cfg hold_base now (Inr all) targets just_deployed t1 = (res, t')"
    by (simp add: retire_stale_def note_cutover_def)
  from drain_decision [OF t1(2) assms(2,4,5) this] show ?thesis .
qed

text \<open>A sequence of passes of one service, each with its own clock reading and listing.\<close>

fun retire_passes ::
    "app_controller \<Rightarrow> safety \<Rightarrow> duration \<Rightarrow> string list \<Rightarrow> (gotime \<times> container_state list \<times> bool) list \<Rightarrow>
     drain_tracker option \<Rightarrow> (string + container_state list) list" where
  "retire_passes ctl cfg hold_base targets [] t = []"
| "retire_passes ctl cfg hold_base targets ((now, all, just_deployed) # ps) t =
     (let (res, t') = retire_stale ctl cfg hold_base now (Inr all) targets just_deployed t
      in res # retire_passes ctl cfg hold_base targets ps t')"

lemma drain_passes:
  assumes "moved_at (ac_service ctl) prev (current_base targets) t0 t" and "0 < t0" and "targets \<noteq> []"
    and "\<forall>(now, all, jd)\<in>set ps. t0 \<le> now \<and> now < time_add t0 (sf_drain_timeout cfg)"
    and "Inr due \<in> set (retire_passes ctl cfg hold_base targets ps t)" and "cs \<in> set due" and "cs_running cs"
  shows "release_of (cs_name cs) \<notin> {prev, current_base targets}"
  using assms(1,4,5)
proof (induction ps arbitrary: t)
  case Nil
  then show ?case by simp
next
  case (Cons p ps)
  obtain now all jd where p: "p = (now, all, jd)" by (metis prod_cases3)
  obtain res t' where r: "retire_stale ctl cfg hold_base now (Inr all) targets jd t = (res, t')" by fastforce
  have time: "t0 \<le> now" "now < time_add t0 (sf_drain_timeout cfg)" using Cons.prems(2) p by auto
  note step = drain_pass [OF Cons.prems(1) assms(2,3) time r]
  from Cons.prems(3) p r consider "Inr due = res" | "Inr due \<in> set (retire_passes ctl cfg hold_base targets ps t')"
    by auto
  then show ?case
  proof cases
    case 1
    with step assms(6,7) show ?thesis by auto
  next
    case 2
    with step Cons.IH [of t'] Cons.prems(2) show ?thesis by auto
  qed
qed


section \<open>Holding the previous release\<close>

lemma release_of_nonempty: "name \<noteq> [] \<Longrightarrow> release_of name \<noteq> []"
  by (auto simp: release_of_def split: option.splits)

definition running_previous :: "container_state list \<Rightarrow> string \<Rightarrow> string set" where
  "running_previous stale current =
     {release_of (cs_name cs) | cs. cs \<in> set stale \<and> cs_running cs \<and> release_of (cs_name cs) \<noteq> current}"

lemma running_previous_nonempty:
  assumes "\<forall>cs\<in>set stale. cs_name cs \<noteq> []"
  shows "[] \<notin> running_previous stale current"
proof
  assume "[] \<in> running_previous stale current"
  then obtain cs where "cs \<in> set stale" "[] = release_of (cs_name cs)"
    unfolding running_previous_def by blast
  with assms release_of_nonempty [of "cs_name cs"] show False by simp
qed

lemma newest_running_release_max:
  assumes "\<forall>cs\<in>set stale. cs_name cs \<noteq> []"
  shows "(if running_previous stale current = {} then newest_running_release stale lst current serving = []
    else newest_running_release stale lst current serving \<in> running_previous stale current \<and>
      (\<forall>rel\<in>running_previous stale current.
         \<not> release_newer rel (newest_running_release stale lst current serving) lst serving))"
  using assms
proof (induction stale rule: rev_induct)
  case Nil
  then show ?case by (simp add: running_previous_def newest_running_release_def)
next
  case (snoc cs stale)
  let ?n = "newest_running_release stale lst current serving" and ?rel = "release_of (cs_name cs)"
  have step: "newest_running_release (stale @ [cs]) lst current serving = newest_step lst current serving cs ?n"
    by (simp add: newest_running_release_def)
  have rel: "?rel \<noteq> []" using snoc.prems by (intro release_of_nonempty) simp
  have IH: "if running_previous stale current = {} then ?n = []
    else ?n \<in> running_previous stale current \<and> (\<forall>rel\<in>running_previous stale current. \<not> release_newer rel ?n lst serving)"
    using snoc by simp
  have nonempty: "?n \<in> running_previous stale current \<Longrightarrow> ?n \<noteq> []"
    using snoc.prems running_previous_nonempty [of stale current] by auto
  have asym: "release_newer a b lst serving \<Longrightarrow> \<not> release_newer b a lst serving" for a b
    using release_order.asym [of b a lst serving] by blast
  have trans: "\<not> release_newer a b lst serving \<Longrightarrow> \<not> release_newer b c lst serving \<Longrightarrow> \<not> release_newer a c lst serving" for a b c
    using release_order.neg_trans [of c b a lst serving] by blast
  show ?case
  proof (cases "cs_running cs \<and> ?rel \<noteq> current")
    case False
    then have "running_previous (stale @ [cs]) current = running_previous stale current"
      by (auto simp: running_previous_def)
    with False IH show ?thesis by (simp add: step newest_step_def Let_def)
  next
    case True
    then have run: "running_previous (stale @ [cs]) current = insert ?rel (running_previous stale current)"
      by (auto simp: running_previous_def)
    have self: "\<not> release_newer ?rel ?rel lst serving" using asym by blast
    show ?thesis
    proof (cases "?n = [] \<or> release_newer ?rel ?n lst serving")
      case new: True
      have "\<not> release_newer rel ?rel lst serving" if "rel \<in> running_previous stale current" for rel
      proof -
        from that IH nonempty have "?n \<noteq> []" "\<not> release_newer rel ?n lst serving" by (auto split: if_splits)
        with new show ?thesis using asym trans by blast
      qed
      with new True run self show ?thesis by (simp add: step newest_step_def Let_def)
    next
      case False
      with IH have "running_previous stale current \<noteq> {}" by (auto split: if_splits)
      with False True IH run show ?thesis by (simp add: step newest_step_def Let_def)
    qed
  qed
qed

lemma latest_time: "fold (\<lambda>(_, x) m. if x > m then x else m) ts m = fold max (map snd ts) m"
  for ts :: times and m :: gotime
proof (induction ts arbitrary: m)
  case (Cons p ts)
  then show ?case by (cases p) (simp add: max_def)
qed simp

lemma fold_max_ge: "m \<le> fold max ys m \<and> (y \<in> set ys \<longrightarrow> y \<le> fold max ys m)" for m y :: gotime
proof (induction ys arbitrary: m)
  case (Cons a ys)
  from Cons [of "max a m"] show ?case by auto
qed simp

text \<open>
  A release to roll back to stays up.  While the hold after the latest cutover lasts, if any
  previous release still runs, the clean-up keeps every running container of one of them, the most
  recently created (a tie going to the one that served last); and it only ever removes
  containers that belong to this service, are not wanted, and are this instance's own.
\<close>

theorem held_release_kept:
  assumes "held_filter_for ctl all targets now hold t = (due, until)"
    and "release_creation (ac_service ctl) all = (first, lst)"
    and "x \<in> snd ` set first" and "zero_time < x" and "now < time_add x hold"
    and "running_previous (filter_stale ctl all targets) (current_base targets) \<noteq> {}"
  shows "set due \<subseteq> set (filter_stale ctl all targets) \<and>
    (\<exists>rel\<in>running_previous (filter_stale ctl all targets) (current_base targets).
      (\<forall>cs\<in>set due. cs_running cs \<longrightarrow> release_of (cs_name cs) \<noteq> rel) \<and>
      (\<forall>other\<in>running_previous (filter_stale ctl all targets) (current_base targets).
         \<not> release_newer other rel lst (dt_previous (ac_service ctl) t)))"
proof -
  let ?stale = "filter_stale ctl all targets" and ?cur = "current_base targets"
  let ?serving = "dt_previous (ac_service ctl) t"
  define cutover where "cutover = fold (\<lambda>(_, x) m. if x > m then x else m) first zero_time"
  have "cutover = fold max (map snd first) zero_time"
    unfolding cutover_def by (rule latest_time)
  then have "x \<le> cutover" using assms(3) fold_max_ge [of zero_time "map snd first" x] by simp
  then have holding: "cutover \<noteq> zero_time \<and> now < time_add cutover hold"
    using assms(4,5) by (simp add: time_add_def)
  let ?n = "newest_running_release ?stale lst ?cur ?serving"
  have names: "\<forall>cs\<in>set ?stale. cs_name cs \<noteq> []"
    by (auto simp: filter_stale_iff owns_container_iff)
  from newest_running_release_max [OF names, of ?cur lst ?serving] assms(6)
  have n: "?n \<in> running_previous ?stale ?cur"
    and best: "\<forall>rel\<in>running_previous ?stale ?cur. \<not> release_newer rel ?n lst ?serving" by auto
  have "?n \<noteq> []" using n running_previous_nonempty [OF names, of ?cur] by metis
  with assms(1,2) holding have "due = filter (\<lambda>cs. \<not> (cs_running cs \<and> release_of (cs_name cs) = ?n)) ?stale"
    by (simp add: held_filter_for_def Let_def cutover_def [symmetric])
  then have sub: "set due \<subseteq> set ?stale"
    and kept: "\<forall>cs\<in>set due. cs_running cs \<longrightarrow> release_of (cs_name cs) \<noteq> ?n" by simp_all
  from sub kept n best show ?thesis by blast
qed

section \<open>Witnesses\<close>

definition ex_container :: "string \<Rightarrow> gotime \<Rightarrow> container_state" where
  "ex_container name created =
     \<lparr>cs_id = name, cs_name = name, cs_created = created, cs_running = True, cs_labels = []\<rparr>"

definition ex_app :: app_controller where
  "ex_app = \<lparr>ac_service = ''web'', ac_instance = []\<rparr>"

definition ex_listing :: "container_state list" where
  "ex_listing = [ex_container ''web-0000000a'' 100, ex_container ''web-0000000b'' 50]"

theorem container_owner_unique_witness:
  "owns_container ''web'' ''web-0000000a'' \<and> owns_container ''web-worker'' ''web-worker-0000000a-r2'' \<and>
   \<not> owns_container ''web'' ''web-worker-0000000a-r2''"
proof -
  have own: "owns_container ''web'' ''web-0000000a''" "owns_container ''web-worker'' ''web-worker-0000000a-r2''"
    by code_simp+
  with container_owner_unique [of "''web''" "''web-worker-0000000a-r2''" "''web-worker''"] show ?thesis by auto
qed

theorem replica_names_roundtrip_witness:
  "release_of (replica_container_name (\<lambda>_. ''0123456789abcdef'') ''web'' ''img:1'' [] 3) =
   replica_container_name (\<lambda>_. ''0123456789abcdef'') ''web'' ''img:1'' [] 0"
proof -
  have "list_all is_hex_digit ''0123456789abcdef''" by code_simp
  then show ?thesis
    using replica_names_roundtrip [of "\<lambda>_. ''0123456789abcdef''" "[]" "''img:1''" 3 "''web''"]
    by (simp add: hash_len_def in_i64_def)
qed

definition ex_tracker :: drain_tracker where
  "ex_tracker = new_drain_tracker\<lparr>dt_serving := [(''web'', ''web-0000000b'')]\<rparr>"

definition ex_safety :: safety where
  "ex_safety = \<lparr>sf_drain_timeout = 30, sf_auto_rollback = False, sf_watch_window = 0\<rparr>"

definition ex_due :: "container_state list" where
  "ex_due = [ex_container ''web-0000000c'' 10]"


theorem held_release_kept_witness:
  "ex_container ''web-0000000b'' 50 \<notin> set (fst (held_filter_for ex_app ex_listing [''web-0000000a''] 120 60 None))"
proof -
  let ?h = "held_filter_for ex_app ex_listing [''web-0000000a''] 120 60 None"
  have rc: "release_creation (ac_service ex_app) ex_listing =
      ([(''web-0000000a'', 100), (''web-0000000b'', 50)], [(''web-0000000a'', 100), (''web-0000000b'', 50)])"
    by code_simp
  have stale: "filter_stale ex_app ex_listing [''web-0000000a''] = [ex_container ''web-0000000b'' 50]" by code_simp
  have rel: "release_of ''web-0000000b'' = ''web-0000000b''" "current_base [''web-0000000a''] = ''web-0000000a''"
    by code_simp+
  have prev: "running_previous (filter_stale ex_app ex_listing [''web-0000000a'']) (current_base [''web-0000000a'']) =
      {''web-0000000b''}"
    using rel by (auto simp: running_previous_def stale ex_container_def)
  let ?rp = "running_previous (filter_stale ex_app ex_listing [''web-0000000a'']) (current_base [''web-0000000a''])"
  have "?rp \<noteq> {}" using prev by simp
  from held_release_kept [OF prod.collapse [symmetric] rc, where now = 120 and hold = 60 and x = 100 and t = None
      and targets = "[''web-0000000a'']", OF _ _ _ this]
  have "\<exists>r\<in>?rp. \<forall>cs\<in>set (fst ?h). cs_running cs \<longrightarrow> release_of (cs_name cs) \<noteq> r"
    by (simp add: zero_time_def time_add_def) blast
  then have "\<forall>cs\<in>set (fst ?h). cs_running cs \<longrightarrow> release_of (cs_name cs) \<noteq> ''web-0000000b''"
    unfolding prev by blast
  moreover have "cs_running (ex_container ''web-0000000b'' 50)"
    "release_of (cs_name (ex_container ''web-0000000b'' 50)) = ''web-0000000b''"
    by (simp_all add: ex_container_def rel)
  ultimately show ?thesis by blast
qed

end
