(* ===== verification/Rollout.thy ===== *)
theory Rollout
  imports Releases
begin

text \<open>
  Rolling deploys: \<open>internal/rolloutpolicy/rolloutpolicy.go\<close>, \<open>rollout_waves.go\<close> and
  \<open>restart_backoff.go\<close> of \<open>internal/reconcile/application\<close>.

  The container daemon is a list of containers with, for each container, the errors it answers to
  a stop or a remove.  Bringing a replica up (\<open>ensureReplicaRunning\<close>) is a parameter that acts on
  the world and reports whether it deployed and how it failed.  Replicas of a wave that the code
  starts in parallel are started in index order.  Saving the progress in the store is not modelled.
\<close>

section \<open>The policy\<close>

record rollout_policy =
  rp_max_surge :: string
  rp_max_unavailable :: string
  rp_min_available :: string

record resolved =
  rv_max_surge :: int
  rv_max_unavailable :: int
  rv_min_available :: int

definition rollout_step :: "resolved \<Rightarrow> int" where
  "rollout_step r = max 1 (i64_add (rv_max_surge r) (rv_max_unavailable r))"

definition rollout_waves :: "resolved \<Rightarrow> int \<Rightarrow> int" where
  "rollout_waves r replicas =
     (if replicas \<le> 0 then 0
      else (let step = rollout_step r in i64_div (i64_sub (i64_add replicas step) 1) step))"

definition parse_value :: "string \<Rightarrow> (int \<times> bool) option" where
  "parse_value v =
     (let s = trim_space v;
          percent = (s \<noteq> [] \<and> last s = CHR ''%'');
          s = (if percent then butlast s else s)
      in case go_atoi s of
           None \<Rightarrow> None
         | Some n \<Rightarrow> if n < 0 \<or> (percent \<and> n > 100) then None else Some (n, percent))"

definition resolve_value :: "string \<Rightarrow> int \<Rightarrow> bool \<Rightarrow> int option" where
  "resolve_value v replicas round_up =
     (case parse_value v of
        None \<Rightarrow> None
      | Some (n, pct) \<Rightarrow>
          if \<not> pct then Some n
          else (let num = i64_mul n replicas
                in if round_up then Some (i64_div (i64_add num 99) 100) else Some (i64_div num 100)))"

datatype rollout_error = Bad_rollout_value string string | No_progress_possible

definition is_zero_value :: "string \<Rightarrow> bool" where
  "is_zero_value v \<longleftrightarrow> v \<noteq> [] \<and> (case parse_value v of Some (n, _) \<Rightarrow> n = 0 | None \<Rightarrow> False)"

definition validate_rollout :: "rollout_policy \<Rightarrow> rollout_error option" where
  "validate_rollout p =
     (let fields = [(''max_surge'', rp_max_surge p), (''max_unavailable'', rp_max_unavailable p),
                    (''min_available'', rp_min_available p)]
      in case find (\<lambda>(_, v). v \<noteq> [] \<and> parse_value v = None) fields of
           Some (name, v) \<Rightarrow> Some (Bad_rollout_value name v)
         | None \<Rightarrow> if is_zero_value (rp_max_surge p) \<and> is_zero_value (rp_max_unavailable p)
                   then Some No_progress_possible else None)"

definition pick_value :: "(string \<Rightarrow> string) \<Rightarrow> string \<Rightarrow> string \<Rightarrow> string \<Rightarrow> string" where
  "pick_value env own env_name fallback =
     (if own \<noteq> [] then own
      else (let v = trim_space (env env_name)
            in if v \<noteq> [] \<and> parse_value v \<noteq> None then v else fallback))"

definition or_zero :: "int option \<Rightarrow> int" where
  "or_zero x = (case x of None \<Rightarrow> 0 | Some n \<Rightarrow> n)"

definition resolve_rollout :: "rollout_policy \<Rightarrow> (string \<Rightarrow> string) \<Rightarrow> int \<Rightarrow> resolved" where
  "resolve_rollout p env replicas =
     (let surge = or_zero (resolve_value
            (pick_value env (rp_max_surge p) ''APP_ROLLOUT_MAX_SURGE'' ''1'') replicas True);
          unavail = or_zero (resolve_value
            (pick_value env (rp_max_unavailable p) ''APP_ROLLOUT_MAX_UNAVAILABLE'' ''0'') replicas False);
          min_avail = or_zero (resolve_value
            (pick_value env (rp_min_available p) ''APP_ROLLOUT_MIN_AVAILABLE'' ''0'') replicas True);
          surge = (if surge = 0 \<and> unavail = 0 then 1 else surge)
      in \<lparr>rv_max_surge = surge, rv_max_unavailable = unavail, rv_min_available = min_avail\<rparr>)"

record disruption_error =
  de_app :: string
  de_action :: string
  de_min_available :: int
  de_available :: int
  de_remaining :: int

definition check_disruption :: "string \<Rightarrow> string \<Rightarrow> int \<Rightarrow> int \<Rightarrow> int \<Rightarrow> disruption_error option" where
  "check_disruption app action min_available available removing =
     (if min_available \<le> 0 \<or> removing \<le> 0 then None
      else (let remaining = i64_sub available removing
            in if remaining < min_available
               then Some \<lparr>de_app = app, de_action = action, de_min_available = min_available,
                          de_available = available, de_remaining = max 0 remaining\<rparr>
               else None))"

section \<open>Progress\<close>

datatype phase = Phase_rolling | Phase_complete | Phase_failed

record progress =
  pg_active :: bool
  pg_phase :: phase
  pg_wave :: int
  pg_waves :: int
  pg_desired :: int
  pg_updated :: int
  pg_ready :: int
  pg_unavailable :: int
  pg_surge :: int
  pg_max_surge :: int
  pg_max_unavailable :: int
  pg_message :: string
  pg_started_at :: gotime
  pg_updated_at :: gotime

definition record_progress ::
    "string \<Rightarrow> progress \<Rightarrow> gotime \<Rightarrow> (string, progress) gomap \<Rightarrow> (string, progress) gomap" where
  "record_progress service p now m =
     (let p = p\<lparr>pg_updated_at := now\<rparr>;
          p = (case map_of m service of
                 Some prev \<Rightarrow> if pg_active prev \<and> pg_started_at prev \<noteq> zero_time
                              then p\<lparr>pg_started_at := pg_started_at prev\<rparr> else p
               | None \<Rightarrow> p);
          p = (if pg_started_at p = zero_time then p\<lparr>pg_started_at := now\<rparr> else p)
      in AList.update service p m)"

section \<open>The daemon and the world\<close>

record daemon =
  da_stop_err :: "string \<Rightarrow> string option"
  da_remove_err :: "string \<Rightarrow> string option"
  da_list_err :: "string option"
  da_inspect_err :: "string \<Rightarrow> string option"

record world =
  wd_containers :: "container_state list"
  wd_now :: gotime
  wd_progress :: "(string, progress) gomap"

definition stop_container :: "daemon \<Rightarrow> string \<Rightarrow> container_state list \<Rightarrow> string option \<times> container_state list" where
  "stop_container d i cs =
     (case da_stop_err d i of
        Some e \<Rightarrow> (Some e, cs)
      | None \<Rightarrow> (None, map (\<lambda>c. if cs_id c = i then c\<lparr>cs_running := False\<rparr> else c) cs))"

definition remove_container :: "daemon \<Rightarrow> string \<Rightarrow> container_state list \<Rightarrow> string option \<times> container_state list" where
  "remove_container d i cs =
     (case da_remove_err d i of
        Some e \<Rightarrow> (Some e, cs)
      | None \<Rightarrow> (None, filter (\<lambda>c. cs_id c \<noteq> i) cs))"

definition first_some :: "'a option \<Rightarrow> 'a option \<Rightarrow> 'a option" where
  "first_some a b = (case a of Some x \<Rightarrow> Some x | None \<Rightarrow> b)"

fun remove_containers ::
    "daemon \<Rightarrow> container_state list \<Rightarrow> string option \<Rightarrow> container_state list \<Rightarrow> string option \<times> container_state list" where
  "remove_containers d [] err cs = (err, cs)"
| "remove_containers d (c # rest) err cs =
     (let (e1, cs) = stop_container d (cs_id c) cs;
          (e2, cs) = remove_container d (cs_id c) cs
      in remove_containers d rest (first_some (first_some err e1) e2) cs)"

definition list_prefix :: "daemon \<Rightarrow> string \<Rightarrow> container_state list \<Rightarrow> string + container_state list" where
  "list_prefix d prefix cs =
     (case da_list_err d of
        Some e \<Rightarrow> Inl e
      | None \<Rightarrow> Inr (filter (\<lambda>c. cut_prefix prefix (cs_name c) \<noteq> None) cs))"

definition stale_containers ::
    "daemon \<Rightarrow> app_controller \<Rightarrow> string list \<Rightarrow> container_state list \<Rightarrow> string + container_state list" where
  "stale_containers d ctl keep cs =
     (case list_prefix d (ac_service ctl @ ''-'') cs of
        Inl e \<Rightarrow> Inl e | Inr all \<Rightarrow> Inr (filter_stale ctl all keep))"

definition live_running :: "daemon \<Rightarrow> app_controller \<Rightarrow> container_state list \<Rightarrow> nat" where
  "live_running d ctl cs =
     (case stale_containers d ctl [] cs of Inl _ \<Rightarrow> 0 | Inr all \<Rightarrow> length (filter cs_running all))"

section \<open>Retiring old replicas inside a wave\<close>

definition retires_before :: "container_state \<Rightarrow> container_state \<Rightarrow> bool" where
  "retires_before a b =
     (if cs_created a \<noteq> cs_created b then cs_created a < cs_created b else cs_name a < cs_name b)"

fun retire_loop ::
    "daemon \<Rightarrow> nat \<Rightarrow> int \<Rightarrow> bool \<Rightarrow> container_state list \<Rightarrow> nat \<Rightarrow> nat \<Rightarrow> int \<Rightarrow> container_state list \<Rightarrow>
     nat \<times> container_state list" where
  "retire_loop d n flr hold [] removed left live cs = (removed, cs)"
| "retire_loop d n flr hold (c # rest) removed left live cs =
     (if removed \<ge> n \<or> left = 0 \<or> (left = 1 \<and> hold) then (removed, cs)
      else if release_of (cs_name c) = cs_name c then retire_loop d n flr hold rest removed left live cs
      else if cs_running c \<and> live - 1 < flr then retire_loop d n flr hold rest removed left live cs
      else
        (case remove_containers d [c] None cs of
           (None, cs) \<Rightarrow>
             retire_loop d n flr hold rest (removed + 1) (left - 1) (if cs_running c then live - 1 else live) cs
         | (Some _, cs) \<Rightarrow> retire_loop d n flr hold rest removed left live cs))"

definition retire_old ::
    "daemon \<Rightarrow> app_controller \<Rightarrow> safety \<Rightarrow> duration \<Rightarrow> string list \<Rightarrow> nat \<Rightarrow> int \<Rightarrow> container_state list \<Rightarrow>
     nat \<times> container_state list" where
  "retire_old d ctl cfg hold_base targets n flr cs =
     (case stale_containers d ctl targets cs of
        Inl _ \<Rightarrow> (0, cs)
      | Inr stale \<Rightarrow>
          if n = 0 then (0, cs)
          else if sf_drain_timeout cfg > 0 then (0, cs)
          else retire_loop d n flr (effective_hold hold_base cfg > 0) (go_sort retires_before stale) 0
                 (length stale) (int (live_running d ctl cs)) cs)"

definition missing_targets :: "daemon \<Rightarrow> string list \<Rightarrow> container_state list \<Rightarrow> nat" where
  "missing_targets d wave cs =
     length (filter (\<lambda>t. da_inspect_err d t = None \<and> \<not> list_ex (\<lambda>c. cs_name c = t) cs) wave)"

section \<open>Waves\<close>

record wave_failure =
  wf_at :: nat
  wf_reason :: string
  wf_err :: string

text \<open>What bringing one replica up reports: whether it was deployed just now, and a failure.\<close>

type_synonym replica_outcome = "bool \<times> (string \<times> string) option"

type_synonym ensure = "string \<Rightarrow> nat \<Rightarrow> world \<Rightarrow> replica_outcome \<times> world"

fun ensure_all :: "ensure \<Rightarrow> string list \<Rightarrow> nat \<Rightarrow> world \<Rightarrow> replica_outcome list \<times> world" where
  "ensure_all ens [] i w = ([], w)"
| "ensure_all ens (t # ts) i w =
     (let (o', w) = ens t i w; (os, w) = ensure_all ens ts (i + 1) w in (o' # os, w))"

fun ensure_until_error :: "ensure \<Rightarrow> string list \<Rightarrow> nat \<Rightarrow> world \<Rightarrow> replica_outcome list \<times> world" where
  "ensure_until_error ens [] i w = ([], w)"
| "ensure_until_error ens (t # ts) i w =
     (let (o', w) = ens t i w
      in if snd o' \<noteq> None then ([o'], w)
         else (let (os, w) = ensure_until_error ens ts (i + 1) w in (o' # os, w)))"

fun wave_outcome :: "replica_outcome list \<Rightarrow> nat \<Rightarrow> nat \<Rightarrow> nat \<times> wave_failure option" where
  "wave_outcome [] j n = (n, None)"
| "wave_outcome ((deployed, err) # os) j n =
     (case err of
        Some (reason, e) \<Rightarrow> (n, Some \<lparr>wf_at = j, wf_reason = reason, wf_err = e\<rparr>)
      | None \<Rightarrow> wave_outcome os (j + 1) (if deployed then n + 1 else n))"

definition start_wave ::
    "ensure \<Rightarrow> bool \<Rightarrow> string list \<Rightarrow> nat \<Rightarrow> world \<Rightarrow> (nat \<times> wave_failure option) \<times> world" where
  "start_wave ens host_port wave lo w =
     (let parallel = (length wave > 1 \<and> \<not> host_port) in
      if parallel \<and> lo = 0 then
        (case ens (wave ! 0) 0 w of
           ((_, Some (reason, e)), w) \<Rightarrow> ((0, Some \<lparr>wf_at = 0, wf_reason = reason, wf_err = e\<rparr>), w)
         | ((deployed, None), w) \<Rightarrow>
             (let (os, w) = ensure_all ens (tl wave) 1 w
              in (wave_outcome ((deployed, None) # os) 0 0, w)))
      else if parallel then
        (let (os, w) = ensure_all ens wave lo w in (wave_outcome os 0 0, w))
      else
        (let (os, w) = ensure_until_error ens wave lo w in (wave_outcome os 0 0, w)))"

definition note_progress ::
    "daemon \<Rightarrow> app_controller \<Rightarrow> string list \<Rightarrow> int \<Rightarrow> progress \<Rightarrow> world \<Rightarrow> progress \<times> world" where
  "note_progress d ctl targets updated p w =
     (let (old, old_running) =
            (case stale_containers d ctl targets (wd_containers w) of
               Inl _ \<Rightarrow> (0, 0) | Inr stale \<Rightarrow> (int (length stale), int (length (filter cs_running stale))));
          p = p\<lparr>pg_updated := updated, pg_ready := min (pg_desired p) (updated + old_running)\<rparr>;
          p = p\<lparr>pg_unavailable := max 0 (pg_desired p - pg_ready p),
                pg_surge := max 0 (updated + old - pg_desired p)\<rparr>
      in (p, w\<lparr>wd_progress := record_progress (ac_service ctl) p (wd_now w) (wd_progress w)\<rparr>))"

text \<open>The waves of a pass: their first index and their targets.\<close>

definition wave_list :: "nat \<Rightarrow> string list \<Rightarrow> (nat \<times> string list) list" where
  "wave_list step targets =
     map (\<lambda>w. (w * step, take step (drop (w * step) targets))) [0..<(length targets + step - 1) div step]"

record rolling_env =
  re_daemon :: daemon
  re_ctl :: app_controller
  re_safety :: safety
  re_hold_base :: duration
  re_ensure :: ensure
  re_host_port :: bool

definition wave_retire :: "rolling_env \<Rightarrow> string list \<Rightarrow> int \<Rightarrow> nat \<Rightarrow> world \<Rightarrow> nat \<times> world" where
  "wave_retire env targets flr n w =
     (let (k, cs) = retire_old (re_daemon env) (re_ctl env) (re_safety env) (re_hold_base env) targets n flr
                      (wd_containers w)
      in (k, w\<lparr>wd_containers := cs\<rparr>))"

definition retire_before_wave ::
    "rolling_env \<Rightarrow> string list \<Rightarrow> resolved \<Rightarrow> int \<Rightarrow> nat \<Rightarrow> string list \<Rightarrow> progress \<Rightarrow> world \<Rightarrow>
     nat \<times> progress \<times> world" where
  "retire_before_wave env targets res flr lo wave prog w =
     (let missing = missing_targets (re_daemon env) wave (wd_containers w)
      in if rv_max_unavailable res > 0 \<and> missing > 0
         then (let (pre, w) = wave_retire env targets flr (min (nat (rv_max_unavailable res)) missing) w;
                   (prog, w) = note_progress (re_daemon env) (re_ctl env) targets (int lo) prog w
               in (pre, prog, w))
         else (0, prog, w))"

fun roll_waves ::
    "rolling_env \<Rightarrow> string list \<Rightarrow> resolved \<Rightarrow> int \<Rightarrow> (nat \<times> string list) list \<Rightarrow> progress \<Rightarrow> bool \<Rightarrow> world \<Rightarrow>
     (wave_failure option \<times> bool \<times> progress) \<times> world" where
  "roll_waves env targets res flr [] prog any w = ((None, any, prog), w)"
| "roll_waves env targets res flr ((lo, wave) # waves) prog any w =
     (let note = note_progress (re_daemon env) (re_ctl env) targets;
          (pre, prog, w) = retire_before_wave env targets res flr lo wave (prog\<lparr>pg_wave := pg_wave prog + 1\<rparr>) w;
          ((deployed, werr), w) = start_wave (re_ensure env) (re_host_port env) wave lo w
      in case werr of
           Some f \<Rightarrow>
             (let (prog, w) = note (int (lo + wf_at f))
                    (prog\<lparr>pg_phase := Phase_failed, pg_active := False, pg_message := wf_err f\<rparr>) w
              in ((Some f, any, prog), w))
         | None \<Rightarrow>
             if deployed > 0 then
               (let w = (if deployed > pre then snd (wave_retire env targets flr (deployed - pre) w) else w);
                    (prog, w) = note (int (lo + length wave)) prog w
                in roll_waves env targets res flr waves prog True w)
             else roll_waves env targets res flr waves prog any w)"

datatype rolling_result =
    Rolling_failed wave_failure
  | Rolling_cleanup_failed string
  | Rolling_done bool

text \<open>\<open>resumed\<close> says that a rollout restored from the store was still active.\<close>

definition reconcile_rolling ::
    "rolling_env \<Rightarrow> string list \<Rightarrow> resolved \<Rightarrow> bool \<Rightarrow> drain_tracker option \<Rightarrow> world \<Rightarrow>
     (rolling_result \<times> drain_tracker option) \<times> world" where
  "reconcile_rolling env targets res resumed t w =
     (let d = re_daemon env; ctl = re_ctl env; n = int (length targets);
          prog = \<lparr>pg_active = True, pg_phase = Phase_rolling, pg_wave = 0, pg_waves = rollout_waves res n,
                  pg_desired = n, pg_updated = 0, pg_ready = 0, pg_unavailable = 0, pg_surge = 0,
                  pg_max_surge = rv_max_surge res, pg_max_unavailable = rv_max_unavailable res,
                  pg_message = [], pg_started_at = zero_time, pg_updated_at = zero_time\<rparr>;
          flr = max (rv_min_available res) (n - rv_max_unavailable res);
          ((failed, any, prog), w) =
            roll_waves env targets res flr (wave_list (nat (rollout_step res)) targets) prog False w
      in case failed of
           Some f \<Rightarrow> ((Rolling_failed f, t), w)
         | None \<Rightarrow>
             (let (due, t) = retire_stale ctl (re_safety env) (re_hold_base env) (wd_now w)
                    (list_prefix d (ac_service ctl @ ''-'') (wd_containers w)) targets any t
              in case due of
                   Inl e \<Rightarrow> ((Rolling_cleanup_failed e, t), w)
                 | Inr due \<Rightarrow>
                     (case remove_containers d due None (wd_containers w) of
                        (Some e, cs) \<Rightarrow> ((Rolling_cleanup_failed e, t), w\<lparr>wd_containers := cs\<rparr>)
                      | (None, cs) \<Rightarrow>
                          (let w = w\<lparr>wd_containers := cs\<rparr>;
                               prog = prog\<lparr>pg_phase := Phase_complete, pg_active := False, pg_message := []\<rparr>;
                               w = (if any \<or> resumed then snd (note_progress d ctl targets n prog w) else w)
                           in ((Rolling_done any, t), w)))))"

section \<open>Restart back-off\<close>

record backoff_entry =
  bo_restarts :: int
  bo_next :: gotime
  bo_last_start :: gotime

record restart_backoff =
  rb_entries :: "(string, backoff_entry) gomap"
  rb_base :: duration
  rb_max :: duration
  rb_reset_after :: duration

definition new_restart_backoff :: "duration \<Rightarrow> duration \<Rightarrow> duration \<Rightarrow> restart_backoff" where
  "new_restart_backoff base limit reset_after =
     \<lparr>rb_entries = [], rb_base = base, rb_max = limit, rb_reset_after = reset_after\<rparr>"

definition backoff_remaining :: "string \<Rightarrow> gotime \<Rightarrow> restart_backoff \<Rightarrow> duration \<times> int" where
  "backoff_remaining name now b =
     (if rb_base b \<le> 0 then (0, 0)
      else (case map_of (rb_entries b) name of
              None \<Rightarrow> (0, 0)
            | Some e \<Rightarrow> if \<not> now < bo_next e then (0, 0) else (time_sub (bo_next e) now, bo_restarts e)))"

definition record_restart :: "string \<Rightarrow> gotime \<Rightarrow> restart_backoff \<Rightarrow> restart_backoff" where
  "record_restart name now b =
     (if rb_base b \<le> 0 then b
      else
        (let fresh = \<lparr>bo_restarts = 0, bo_next = zero_time, bo_last_start = zero_time\<rparr>;
             e = (case map_of (rb_entries b) name of
                    None \<Rightarrow> fresh
                  | Some e \<Rightarrow> if time_sub now (bo_last_start e) \<ge> rb_reset_after b then fresh else e);
             restarts = bo_restarts e + 1;
             delay = double_upto (nat (restarts - 1)) (rb_base b) (rb_max b);
             delay = (if rb_max b > 0 \<and> delay > rb_max b then rb_max b else delay)
         in b\<lparr>rb_entries := AList.update name
                \<lparr>bo_restarts = restarts, bo_next = time_add now delay, bo_last_start = now\<rparr> (rb_entries b)\<rparr>))"

definition observe_running :: "string \<Rightarrow> gotime \<Rightarrow> restart_backoff \<Rightarrow> restart_backoff" where
  "observe_running name now b =
     (case map_of (rb_entries b) name of
        None \<Rightarrow> b
      | Some e \<Rightarrow> if time_sub now (bo_last_start e) \<ge> rb_reset_after b
                  then b\<lparr>rb_entries := AList.delete name (rb_entries b)\<rparr> else b)"

definition backoff_retain :: "string \<Rightarrow> string list \<Rightarrow> restart_backoff \<Rightarrow> restart_backoff" where
  "backoff_retain service names b =
     b\<lparr>rb_entries := gm_retain (\<lambda>n. n \<in> set names \<or> \<not> owns_container service n) (rb_entries b)\<rparr>"

section \<open>Waves and percents\<close>


lemma concat_waves: "concat (map (\<lambda>w. take step (drop (w * step) xs)) [0..<n]) = take (n * step) xs"
proof (induction n)
  case (Suc n)
  have "take (Suc n * step) xs = take (n * step) xs @ take step (drop (n * step) xs)"
    by (subst add.commute [of step "n * step", folded mult_Suc]) (rule take_add)
  with Suc show ?case by simp
qed simp

lemma waves_enough:
  assumes "0 < (step::nat)"
  shows "n \<le> ((n + step - 1) div step) * step"
proof -
  have "n + step - 1 < ((n + step - 1) div step) * step + step"
    using assms by (metis div_mult_mod_eq mod_less_divisor nat_add_left_cancel_less)
  then show ?thesis by linarith
qed

lemma wave_start:
  assumes "0 < (step::nat)" and "w < (n + step - 1) div step"
  shows "w * step < n"
proof -
  have "(w + 1) * step \<le> n + step - 1"
    using assms by (metis Suc_eq_plus1 Suc_leI div_times_less_eq_dividend le_trans mult_le_mono1)
  with assms(1) show ?thesis by simp
qed

lemma parse_value_range:
  "parse_value v = Some (n, pct) \<Longrightarrow> 0 \<le> n \<and> (pct \<longrightarrow> n \<le> 100)"
  by (auto simp: parse_value_def Let_def split: option.splits if_splits)

lemma resolve_percent:
  assumes "0 \<le> n" "n \<le> 100" "0 \<le> replicas" "replicas \<le> 2 ^ 31"
  shows "i64_div (i64_add (i64_mul n replicas) 99) 100 = (n * replicas + 99) div 100"
    and "i64_div (i64_mul n replicas) 100 = n * replicas div 100"
proof -
  have *: "n * replicas \<le> 100 * 2 ^ 31" using assms by (intro mult_mono) auto
  have "0 \<le> n * replicas" using assms by simp
  with * have "i64_mul n replicas = n * replicas" and "i64_add (n * replicas) 99 = n * replicas + 99"
    by (simp_all add: i64_mul_def i64_add_def in_i64_def)
  then show "i64_div (i64_add (i64_mul n replicas) 99) 100 = (n * replicas + 99) div 100"
    and "i64_div (i64_mul n replicas) 100 = n * replicas div 100"
    using * \<open>0 \<le> n * replicas\<close>
    by (auto simp: i64_div_def sdiv_nonneg in_i64_def intro!: wrap64_id)
qed

lemma resolve_value_nonneg:
  assumes "0 \<le> replicas" and "replicas \<le> 2 ^ 31"
  shows "0 \<le> or_zero (resolve_value v replicas up)"
proof (cases "parse_value v")
  case (Some x)
  then show ?thesis
    using assms parse_value_range [of v "fst x" "snd x"] resolve_percent [of "fst x" replicas]
    by (auto simp: resolve_value_def or_zero_def Let_def pos_imp_zdiv_nonneg_iff split: prod.splits if_splits)
qed (simp add: resolve_value_def or_zero_def)

lemma resolve_rollout_nonneg:
  assumes "0 \<le> replicas" and "replicas \<le> 2 ^ 31"
  shows "0 \<le> rv_max_surge (resolve_rollout p env replicas)" and "0 \<le> rv_max_unavailable (resolve_rollout p env replicas)"
    and "rv_max_surge (resolve_rollout p env replicas) \<noteq> 0 \<or> rv_max_unavailable (resolve_rollout p env replicas) \<noteq> 0"
  using assms resolve_value_nonneg [OF assms] by (auto simp: resolve_rollout_def Let_def)

lemma wave_list_covers:
  assumes "0 < step"
  shows "concat (map snd (wave_list step targets)) = targets"
    and "list_all (\<lambda>(lo, w). w \<noteq> [] \<and> length w \<le> step \<and> w = take (length w) (drop lo targets)) (wave_list step targets)"
  using assms waves_enough [of step "length targets"]
  by (auto simp: wave_list_def comp_def concat_waves list_all_iff min_def dest: wave_start)

lemma int_div_le_self: "0 \<le> (a::int) \<Longrightarrow> 0 < b \<Longrightarrow> a div b \<le> a"
  by (metis div_by_1 zdiv_mono2 int_one_le_iff_zero_less zero_less_one)

lemma waves_count:
  assumes "0 < step" and "step \<le> 2 ^ 31" and "n \<le> 2 ^ 31" and "rollout_step r = int step"
  shows "rollout_waves r (int n) = int ((n + step - 1) div step)"
proof (cases "n = 0")
  case True
  with assms show ?thesis by (simp add: rollout_waves_def)
next
  case False
  have "i64_add (int n) (int step) = int n + int step" and "i64_sub (int n + int step) 1 = int n + int step - 1"
    using assms by (auto simp: i64_add_def i64_sub_def in_i64_def)
  moreover have "(int n + int step - 1) div int step \<le> int n + int step - 1"
    using assms(1) False by (intro int_div_le_self) simp_all
  moreover have "int (n + step - 1) = int n + int step - 1" using assms(1) by simp
  moreover have "0 \<le> (int n + int step - 1) div int step"
    using assms(1) False by (simp add: pos_imp_zdiv_nonneg_iff)
  ultimately show ?thesis using False assms
    by (auto simp: rollout_waves_def Let_def i64_div_def sdiv_nonneg zdiv_int intro!: wrap64_id simp: in_i64_def)
qed

lemma percent_down: "100 * ((a::int) * n div 100) \<le> a * n" "a * n < 100 * (a * n div 100 + 1)"
  by auto

lemma percent_up:
  assumes "0 \<le> (n::int)"
  shows "m * n \<le> 100 * ((m * n + 99) div 100)" and "100 * ((m * n + 99) div 100 - 1) < m * n"
    and "m \<le> 100 \<Longrightarrow> (m * n + 99) div 100 \<le> n"
proof -
  have "m * n \<le> 100 * n" if "m \<le> 100" using that assms by (intro mult_right_mono) auto
  then show "m \<le> 100 \<Longrightarrow> (m * n + 99) div 100 \<le> n" by auto
qed auto

lemma resolved_unavailable:
  assumes "parse_value (rp_max_unavailable p) = Some (k, True)" "rp_max_unavailable p \<noteq> []"
    and "0 \<le> n" "n \<le> 2 ^ 31"
  shows "rv_max_unavailable (resolve_rollout p env n) = k * n div 100"
  using assms parse_value_range [OF assms(1)] resolve_percent(2) [of k n]
  by (simp add: resolve_rollout_def Let_def pick_value_def resolve_value_def or_zero_def)

lemma resolved_min_available:
  assumes "parse_value (rp_min_available p) = Some (m, True)" "rp_min_available p \<noteq> []"
    and "0 \<le> n" "n \<le> 2 ^ 31"
  shows "rv_min_available (resolve_rollout p env n) = (m * n + 99) div 100"
  using assms parse_value_range [OF assms(1)] resolve_percent(1) [of m n]
  by (simp add: resolve_rollout_def Let_def pick_value_def resolve_value_def or_zero_def)

text \<open>
  C31: A resolved rollout policy always makes progress: it may surge or take down at least one replica, its
  waves are non-empty, no longer than the step and together exactly the targets in order, and as many as
  \<open>Waves\<close> says.  Percents round to the safe side: \<open>max_unavailable\<close> down, \<open>min_available\<close> up and never
  above the replicas.
\<close>

theorem rollout_makes_progress:
  assumes "length targets \<le> 2 ^ 31"
    and "n = int (length targets)" and "r = resolve_rollout p env n" and "step = nat (rollout_step r)"
  shows "(0 < rv_max_surge r \<or> 0 < rv_max_unavailable r) \<and>
    concat (map snd (wave_list step targets)) = targets \<and>
    list_all (\<lambda>(lo, w). w \<noteq> [] \<and> length w \<le> step \<and> w = take (length w) (drop lo targets)) (wave_list step targets) \<and>
    (rollout_step r \<le> 2 ^ 31 \<longrightarrow> rollout_waves r n = int (length (wave_list step targets))) \<and>
    (parse_value (rp_max_unavailable p) = Some (k, True) \<and> rp_max_unavailable p \<noteq> [] \<longrightarrow>
       100 * rv_max_unavailable r \<le> k * n \<and> k * n < 100 * (rv_max_unavailable r + 1)) \<and>
    (parse_value (rp_min_available p) = Some (m, True) \<and> rp_min_available p \<noteq> [] \<longrightarrow>
       m * n \<le> 100 * rv_min_available r \<and> 100 * (rv_min_available r - 1) < m * n \<and> rv_min_available r \<le> n)"
proof (intro conjI impI; (elim conjE)?)
  have n: "0 \<le> n" "n \<le> 2 ^ 31" using assms(1,2) by auto
  have s: "0 < step" "rollout_step r = int step" using assms(4) by (auto simp: rollout_step_def)
  show "0 < rv_max_surge r \<or> 0 < rv_max_unavailable r"
    using resolve_rollout_nonneg [OF n, of p env] assms(3) by auto
  show "concat (map snd (wave_list step targets)) = targets"
    "list_all (\<lambda>(lo, w). w \<noteq> [] \<and> length w \<le> step \<and> w = take (length w) (drop lo targets)) (wave_list step targets)"
    using wave_list_covers [OF s(1)] by blast+
  show "rollout_waves r n = int (length (wave_list step targets))" if "rollout_step r \<le> 2 ^ 31"
    using waves_count [OF s(1) _ assms(1) s(2)] that s assms(2) by (simp add: wave_list_def)
  show "100 * rv_max_unavailable r \<le> k * n" "k * n < 100 * (rv_max_unavailable r + 1)"
    if "parse_value (rp_max_unavailable p) = Some (k, True)" "rp_max_unavailable p \<noteq> []"
    using resolved_unavailable [OF that n, of env] assms(3) percent_down [of k n] by simp_all
  show "m * n \<le> 100 * rv_min_available r" "100 * (rv_min_available r - 1) < m * n" "rv_min_available r \<le> n"
    if "parse_value (rp_min_available p) = Some (m, True)" "rp_min_available p \<noteq> []"
    using resolved_min_available [OF that n, of env] assms(3) percent_up [OF n(1), of m] parse_value_range [OF that(1)]
    by simp_all
qed

section \<open>Restart back-off\<close>

lemma record_restart_frame:
  "rb_base (record_restart name t b) = rb_base b" "rb_max (record_restart name t b) = rb_max b"
  "rb_reset_after (record_restart name t b) = rb_reset_after b"
  by (simp_all add: record_restart_def Let_def)

lemma record_restart_entry:
  assumes "0 < rb_base b" and "rb_base b \<le> rb_max b" and "rb_max b \<le> 2 ^ 62"
    and "k = (case map_of (rb_entries b) name of
                Some e \<Rightarrow> if time_sub t (bo_last_start e) \<ge> rb_reset_after b then 0 else nat (bo_restarts e)
              | None \<Rightarrow> 0)"
    and "\<forall>e. map_of (rb_entries b) name = Some e \<longrightarrow> 0 \<le> bo_restarts e"
  shows "map_of (rb_entries (record_restart name t b)) name =
           Some \<lparr>bo_restarts = int k + 1, bo_next = t + min (rb_max b) (rb_base b * 2 ^ k), bo_last_start = t\<rparr>"
proof -
  let ?d = "double_upto k (rb_base b) (rb_max b)"
  have "min (rb_max b) ?d = (if rb_max b > 0 \<and> ?d > rb_max b then rb_max b else ?d)"
    using assms(1,2) by (auto simp: min_def)
  then show ?thesis
    using assms double_upto_capped [OF assms(1,3), of k]
    by (auto simp: record_restart_def Let_def time_add_def split: option.splits if_splits)
qed

lemma Suc_as_int: "nat (int n + 1) = Suc n"
  by simp

lemma restarts_entry:
  assumes "0 < base" and "base \<le> limit" and "limit \<le> 2 ^ 62" and "in_i64 reset_after"
    and "successively (\<lambda>s t. s \<le> t \<and> t - s < reset_after) (ts @ [t])"
  shows "map_of (rb_entries (fold (record_restart name) (ts @ [t]) (new_restart_backoff base limit reset_after))) name =
           Some \<lparr>bo_restarts = int (length ts) + 1, bo_next = t + min limit (base * 2 ^ length ts), bo_last_start = t\<rparr> \<and>
         rb_base (fold (record_restart name) (ts @ [t]) (new_restart_backoff base limit reset_after)) = base \<and>
         rb_max (fold (record_restart name) (ts @ [t]) (new_restart_backoff base limit reset_after)) = limit \<and>
         rb_reset_after (fold (record_restart name) (ts @ [t]) (new_restart_backoff base limit reset_after)) = reset_after"
  using assms(5)
proof (induction ts arbitrary: t rule: rev_induct)
  case Nil
  let ?b = "new_restart_backoff base limit reset_after"
  have "?b = \<lparr>rb_entries = [], rb_base = base, rb_max = limit, rb_reset_after = reset_after\<rparr>"
    by (simp add: new_restart_backoff_def)
  then show ?case using record_restart_entry [where b = ?b and k = 0 and name = name and t = t] assms(1-3) by (simp add: record_restart_frame)
next
  case (snoc s ts)
  let ?b = "fold (record_restart name) (ts @ [s]) (new_restart_backoff base limit reset_after)"
  have s: "successively (\<lambda>s t. s \<le> t \<and> t - s < reset_after) (ts @ [s])" and st: "s \<le> t" "t - s < reset_after"
    using snoc.prems by (auto simp: successively_append_iff)
  note IH = snoc.IH [OF s]
  have "time_sub t s < reset_after" using st assms(4) by (subst time_sub_less_iff) auto
  with IH have "map_of (rb_entries (record_restart name t ?b)) name =
      Some \<lparr>bo_restarts = int (Suc (length ts)) + 1, bo_next = t + min limit (base * 2 ^ Suc (length ts)), bo_last_start = t\<rparr>"
    using record_restart_entry [where b = ?b and k = "Suc (length ts)" and name = name and t = t] assms(1-3)
      Suc_as_int [of "length ts"] by simp
  with IH show ?case by (simp add: record_restart_frame)
qed

text \<open>
  After a run of restarts each closer than the reset time to the one before, the next restart waits the
  base doubled once per earlier restart and capped, is allowed exactly from then on, and a restart after the reset time
  starts over with the base; a container seen up that long is forgotten.
\<close>

theorem restart_backoff_doubles:
  assumes "0 < base" and "base \<le> limit" and "limit \<le> 2 ^ 62" and "in_i64 reset_after"
    and "successively (\<lambda>s t. s \<le> t \<and> t - s < reset_after) (ts @ [t])"
    and "b = fold (record_restart name) (ts @ [t]) (new_restart_backoff base limit reset_after)"
    and "wait = min limit (base * 2 ^ length ts)" and "0 \<le> k"
  shows "backoff_remaining name t b = (wait, int (length ts) + 1) \<and>
         (backoff_remaining name (t + k) b = (0, 0) \<longleftrightarrow> wait \<le> k) \<and>
         (let b' = record_restart name (t + reset_after + k) b
          in 0 \<le> reset_after \<longrightarrow> backoff_remaining name (t + reset_after + k) b' = (base, 1)) \<and>
         (0 \<le> reset_after \<longrightarrow> map_of (rb_entries (observe_running name (t + reset_after + k) b)) name = None)"
proof -
  note e = restarts_entry [OF assms(1-5), of name, folded assms(6), folded assms(7)]
  have w: "0 < wait" "wait \<le> 2 ^ 62"
    using assms(1-3,7) by (auto simp: min_def)
  have 1: "backoff_remaining name t b = (wait, int (length ts) + 1)"
    using e w assms(1) time_sub_exact [of "t + wait" t] by (simp add: backoff_remaining_def in_i64_def)
  have 2: "backoff_remaining name (t + k) b = (0, 0) \<longleftrightarrow> wait \<le> k"
    using e w assms(1,8) time_sub_exact [of "t + wait" "t + k"] by (auto simp: backoff_remaining_def in_i64_def)
  have reset: "reset_after \<le> time_sub (t + reset_after + k) t" if "0 \<le> reset_after"
    using that assms(4,8) by (auto simp: time_sub_def in_i64_def)
  then have 3: "backoff_remaining name (t + reset_after + k) (record_restart name (t + reset_after + k) b) = (base, 1)"
    if "0 \<le> reset_after"
    using that e assms(1-3) record_restart_entry [where b = b and k = 0 and name = name and t = "t + reset_after + k"]
      time_sub_exact [of "t + reset_after + k + base" "t + reset_after + k"]
    by (simp add: backoff_remaining_def record_restart_frame in_i64_def)
  show ?thesis using 1 2 3 e reset by (simp add: Let_def observe_running_def)
qed

section \<open>The availability floor\<close>

text \<open>On a daemon that fails a stop and a remove of a container together, removing a container
  either takes it away or changes nothing.\<close>

definition fails_together :: "daemon \<Rightarrow> bool" where
  "fails_together d \<longleftrightarrow> (\<forall>i. (da_stop_err d i = None) = (da_remove_err d i = None))"

lemma remove_one:
  assumes "fails_together d"
  shows "remove_containers d [c] None cs =
     (case da_remove_err d (cs_id c) of
        None \<Rightarrow> (None, filter (\<lambda>x. cs_id x \<noteq> cs_id c) cs)
      | Some e \<Rightarrow> (Some (the (da_stop_err d (cs_id c))), cs))"
proof (cases "da_remove_err d (cs_id c)")
  case None
  then have "da_stop_err d (cs_id c) = None" using assms by (auto simp: fails_together_def)
  moreover have "filter (\<lambda>x. cs_id x \<noteq> i) (map (\<lambda>x. if cs_id x = i then x\<lparr>cs_running := False\<rparr> else x) cs)
      = filter (\<lambda>x. cs_id x \<noteq> i) cs" for i
    by (induction cs) auto
  ultimately show ?thesis using None
    by (simp add: stop_container_def remove_container_def Let_def first_some_def)
next
  case (Some e)
  then obtain e' where "da_stop_err d (cs_id c) = Some e'" using assms unfolding fails_together_def
    by (metis not_None_eq)
  with Some show ?thesis by (simp add: stop_container_def remove_container_def Let_def first_some_def)
qed

definition owned :: "app_controller \<Rightarrow> container_state \<Rightarrow> bool" where
  "owned ctl c \<longleftrightarrow> owns_container (ac_service ctl) (cs_name c) \<and> owns_instance ctl c"

lemma owned_prefix: "owned ctl c \<Longrightarrow> cut_prefix (ac_service ctl @ ''-'') (cs_name c) \<noteq> None"
  by (auto simp: owned_def owns_container_iff cut_prefix_iff cut_prefix_None)

lemma stale_containers_eq:
  "da_list_err d = None \<Longrightarrow>
   stale_containers d ctl keep cs = Inr (filter (\<lambda>c. cs_name c \<notin> set keep \<and> owned ctl c) cs)"
  using owned_prefix [of ctl]
  by (auto simp: stale_containers_def list_prefix_def filter_stale_def owned_def intro!: filter_cong)

lemma live_running_eq:
  "da_list_err d = None \<Longrightarrow> live_running d ctl cs = length (filter (\<lambda>c. owned ctl c \<and> cs_running c) cs)"
  by (simp add: live_running_def stale_containers_eq conj_commute)


definition ids_distinct :: "container_state list \<Rightarrow> bool" where
  "ids_distinct cs \<longleftrightarrow> distinct (map cs_id cs)"

lemma filter_one:
  "distinct cs \<Longrightarrow> c \<in> set cs \<Longrightarrow> length (filter (\<lambda>x. x = c \<and> P x) cs) = (if P c then 1 else 0)"
proof (induction cs)
  case (Cons x cs)
  show ?case
  proof (cases "x = c")
    case True
    with Cons.prems have "filter (\<lambda>x. x = c \<and> P x) cs = []" by (auto simp: filter_empty_conv)
    with True show ?thesis by simp
  next
    case False
    with Cons show ?thesis by simp
  qed
qed simp

lemma remove_by_id:
  assumes "ids_distinct cs" and "c \<in> set cs"
  shows "ids_distinct (filter (\<lambda>x. cs_id x \<noteq> cs_id c) cs)"
    and "set (filter (\<lambda>x. cs_id x \<noteq> cs_id c) cs) = set cs - {c}"
    and "length (filter P cs) =
           length (filter P (filter (\<lambda>x. cs_id x \<noteq> cs_id c) cs)) + (if P c then 1 else 0)"
proof -
  have inj: "cs_id x = cs_id c \<longleftrightarrow> x = c" if "x \<in> set cs" for x
    using that assms by (auto simp: ids_distinct_def distinct_map dest: inj_onD)
  show "ids_distinct (filter (\<lambda>x. cs_id x \<noteq> cs_id c) cs)"
    using assms(1) by (simp add: ids_distinct_def distinct_map_filter)
  have eq: "filter (\<lambda>x. cs_id x \<noteq> cs_id c) cs = filter (\<lambda>x. x \<noteq> c) cs"
    using inj by (intro filter_cong) auto
  show "set (filter (\<lambda>x. cs_id x \<noteq> cs_id c) cs) = set cs - {c}" unfolding eq by auto
  have "distinct cs" using assms(1) by (auto simp: ids_distinct_def distinct_map)
  from filter_one [OF this assms(2), of P]
  show "length (filter P cs) =
           length (filter P (filter (\<lambda>x. cs_id x \<noteq> cs_id c) cs)) + (if P c then 1 else 0)"
    using sum_length_filter_compl [of "\<lambda>x. x = c" "filter P cs"] unfolding eq
    by (simp add: conj_commute)
qed

definition running_of :: "app_controller \<Rightarrow> container_state list \<Rightarrow> int" where
  "running_of ctl cs = int (length (filter (\<lambda>c. owned ctl c \<and> cs_running c) cs))"

lemma retire_loop_spec:
  assumes "fails_together d"
    and "retire_loop d n flr hold xs removed left (running_of ctl cs) cs = (k, cs')"
    and "ids_distinct cs" and "ids_distinct xs" and "set xs \<subseteq> set cs" and "\<forall>c \<in> set xs. owned ctl c"
    and "removed \<le> n"
  shows "removed \<le> k \<and> k \<le> n \<and> ids_distinct cs' \<and> length cs = length cs' + (k - removed) \<and>
         set cs' \<subseteq> set cs \<and> {c \<in> set cs. c \<notin> set xs \<or> release_of (cs_name c) = cs_name c} \<subseteq> set cs' \<and>
         min flr (running_of ctl cs) \<le> running_of ctl cs' \<and> (hold \<and> 0 < left \<longrightarrow> k - removed < left)"
  using assms(2-)
proof (induction xs arbitrary: removed left cs)
  case Nil
  then show ?case by auto
next
  case (Cons c xs)
  have c: "c \<in> set cs" "owned ctl c" "ids_distinct xs" "set xs \<subseteq> set cs" "\<forall>c \<in> set xs. owned ctl c"
    using Cons.prems by (auto simp: ids_distinct_def)
  have xs: "c \<notin> set xs" using Cons.prems(3) by (auto simp: ids_distinct_def)
  let ?cs = "filter (\<lambda>x. cs_id x \<noteq> cs_id c) cs"
  note rm = remove_by_id [OF Cons.prems(2) c(1)]
  have live: "running_of ctl ?cs = (if cs_running c then running_of ctl cs - 1 else running_of ctl cs)"
    using rm(3) [of "\<lambda>c. owned ctl c \<and> cs_running c"] c(2) by (simp add: running_of_def)
  have len: "length cs = length ?cs + 1" using rm(3) [of "\<lambda>_. True"] by simp
  consider (stop) "removed \<ge> n \<or> left = 0 \<or> (left = 1 \<and> hold)"
    | (skip) "\<not> (removed \<ge> n \<or> left = 0 \<or> (left = 1 \<and> hold))"
        "release_of (cs_name c) = cs_name c \<or> (cs_running c \<and> running_of ctl cs - 1 < flr) \<or>
         da_remove_err d (cs_id c) \<noteq> None"
    | (gone) "\<not> (removed \<ge> n \<or> left = 0 \<or> (left = 1 \<and> hold))" "release_of (cs_name c) \<noteq> cs_name c"
        "cs_running c \<longrightarrow> flr \<le> running_of ctl cs - 1" "da_remove_err d (cs_id c) = None"
    by linarith
  then show ?case
  proof cases
    case stop
    then show ?thesis using Cons.prems by auto
  next
    case skip
    then have "retire_loop d n flr hold xs removed left (running_of ctl cs) cs = (k, cs')"
      using Cons.prems(1) remove_one [OF assms(1), of c cs] by (auto split: if_splits option.splits)
    from Cons.IH [OF this Cons.prems(2) c(3-5) Cons.prems(6)] show ?thesis by auto
  next
    case gone
    then have "retire_loop d n flr hold xs (removed + 1) (left - 1) (running_of ctl ?cs) ?cs = (k, cs')"
      using Cons.prems(1) remove_one [OF assms(1), of c cs] by (auto simp: live split: if_splits option.splits)
    moreover have "set xs \<subseteq> set ?cs" unfolding rm(2) using c(4) xs by auto
    ultimately have "removed + 1 \<le> k \<and> k \<le> n \<and> ids_distinct cs' \<and> length ?cs = length cs' + (k - (removed + 1)) \<and>
         set cs' \<subseteq> set ?cs \<and> {x \<in> set ?cs. x \<notin> set xs \<or> release_of (cs_name x) = cs_name x} \<subseteq> set cs' \<and>
         min flr (running_of ctl ?cs) \<le> running_of ctl cs' \<and> (hold \<and> 0 < left - 1 \<longrightarrow> k - (removed + 1) < left - 1)"
      using gone(1) by (intro Cons.IH rm(1) c(3,5)) auto
    note IH = this [unfolded rm(2)]
    have "min flr (running_of ctl cs) \<le> min flr (running_of ctl ?cs)" using live gone(3) by auto
    moreover have "{x \<in> set cs. x \<notin> set (c # xs) \<or> release_of (cs_name x) = cs_name x} \<subseteq> set cs'"
      using IH gone(2) by auto
    moreover have "hold \<and> 0 < left \<longrightarrow> k - removed < left"
      using IH gone(1) by auto
    moreover have "length cs = length cs' + (k - removed)" using IH len by auto
    ultimately show ?thesis using IH by auto
  qed
qed

lemma retire_old_spec:
  assumes "fails_together d" and "da_list_err d = None" and "ids_distinct cs"
    and "retire_old d ctl cfg hold_base targets n flr cs = (k, cs')"
  shows "k \<le> n \<and> ids_distinct cs' \<and> length cs = length cs' + k \<and> set cs' \<subseteq> set cs \<and>
         {c \<in> set cs. cs_name c \<in> set targets \<or> \<not> owned ctl c \<or> release_of (cs_name c) = cs_name c} \<subseteq> set cs' \<and>
         min flr (running_of ctl cs) \<le> running_of ctl cs' \<and>
         (effective_hold hold_base cfg > 0 \<and> stale_containers d ctl targets cs \<noteq> Inr [] \<longrightarrow>
            stale_containers d ctl targets cs' \<noteq> Inr [])"
proof -
  let ?stale = "filter (\<lambda>c. cs_name c \<notin> set targets \<and> owned ctl c) cs"
  show ?thesis
  proof (cases "n = 0 \<or> sf_drain_timeout cfg > 0")
    case True
    then have "k = 0 \<and> cs' = cs" using assms(4)
      by (elim disjE) (simp_all add: retire_old_def stale_containers_eq [OF assms(2)] split: if_splits)
    then show ?thesis using assms(3) by auto
  next
    case False
    have "retire_loop d n flr (effective_hold hold_base cfg > 0) (go_sort retires_before ?stale) 0
            (length ?stale) (running_of ctl cs) cs = (k, cs')"
      using False assms(4)
      by (simp add: retire_old_def stale_containers_eq [OF assms(2)] live_running_eq [OF assms(2)] running_of_def)
    moreover have "ids_distinct (go_sort retires_before ?stale)"
    proof -
      have "mset (map cs_id (go_sort retires_before ?stale)) = mset (map cs_id ?stale)" by simp
      moreover have "distinct (map cs_id ?stale)" using assms(3) by (simp add: ids_distinct_def distinct_map_filter)
      ultimately show ?thesis unfolding ids_distinct_def by (rule mset_eq_imp_distinct_iff [THEN iffD2])
    qed
    ultimately have *: "0 \<le> k \<and> k \<le> n \<and> ids_distinct cs' \<and> length cs = length cs' + (k - 0) \<and>
         set cs' \<subseteq> set cs \<and> {c \<in> set cs. c \<notin> set (go_sort retires_before ?stale) \<or> release_of (cs_name c) = cs_name c} \<subseteq> set cs' \<and>
         min flr (running_of ctl cs) \<le> running_of ctl cs' \<and> (effective_hold hold_base cfg > 0 \<and> 0 < length ?stale \<longrightarrow> k - 0 < length ?stale)"
      by (rule retire_loop_spec [OF assms(1) _ assms(3)]) auto
    have "stale_containers d ctl targets cs' \<noteq> Inr []"
      if "effective_hold hold_base cfg > 0" "stale_containers d ctl targets cs \<noteq> Inr []"
    proof
      assume "stale_containers d ctl targets cs' = Inr []"
      then have none: "filter (\<lambda>c. cs_name c \<notin> set targets \<and> owned ctl c) cs' = []"
        by (simp add: stale_containers_eq [OF assms(2)])
      have d: "distinct cs" "distinct cs'" using assms(3) * by (auto simp: ids_distinct_def distinct_map)
      have "set cs \<subseteq> set cs' \<union> set ?stale" and "set cs' \<subseteq> set cs" using * by auto
      then have "set cs' \<union> set ?stale = set cs" by auto
      moreover have "set cs' \<inter> set ?stale = {}" using none by (auto simp: filter_empty_conv)
      ultimately have "card (set cs) = card (set cs') + card (set ?stale)"
        by (metis List.finite_set card_Un_disjoint)
      then have "length cs = length cs' + length ?stale"
        using d distinct_filter [OF d(1), of "\<lambda>c. cs_name c \<notin> set targets \<and> owned ctl c"]
        by (simp only: distinct_card)
      moreover have "0 < length ?stale" using that(2) by (simp add: stale_containers_eq [OF assms(2)])
      ultimately show False using * that(1) by linarith
    qed
    then show ?thesis using * by auto
  qed
qed


text \<open>Bringing up replicas keeps the containers distinct and takes none of the app's running
  containers down.\<close>

definition keeps_running :: "app_controller \<Rightarrow> ensure \<Rightarrow> bool" where
  "keeps_running ctl ens \<longleftrightarrow>
     (\<forall>t i w. ids_distinct (wd_containers w) \<longrightarrow>
        ids_distinct (wd_containers (snd (ens t i w))) \<and>
        running_of ctl (wd_containers w) \<le> running_of ctl (wd_containers (snd (ens t i w))))"

definition no_fewer :: "app_controller \<Rightarrow> int \<Rightarrow> world \<Rightarrow> world \<Rightarrow> bool" where
  "no_fewer ctl flr w w' \<longleftrightarrow> ids_distinct (wd_containers w') \<and>
     min flr (running_of ctl (wd_containers w)) \<le> running_of ctl (wd_containers w')"

lemma no_fewer_trans: "no_fewer ctl flr w w' \<Longrightarrow> no_fewer ctl flr w' w'' \<Longrightarrow> no_fewer ctl flr w w''"
  by (auto simp: no_fewer_def)

lemma ensure_keeps:
  assumes "keeps_running ctl ens" and "ids_distinct (wd_containers w)"
  shows "no_fewer ctl flr w (snd (ens t i w))"
proof -
  have "running_of ctl (wd_containers w) \<le> running_of ctl (wd_containers (snd (ens t i w)))"
    "ids_distinct (wd_containers (snd (ens t i w)))"
    using assms unfolding keeps_running_def by blast+
  then show ?thesis by (simp add: no_fewer_def)
qed

lemma ensure_all_keeps:
  assumes "keeps_running ctl ens" and "ids_distinct (wd_containers w)"
  shows "no_fewer ctl flr w (snd (ensure_all ens ts i w)) \<and>
         no_fewer ctl flr w (snd (ensure_until_error ens ts i w))"
  using assms(2)
proof (induction ts arbitrary: i w)
  case (Cons t ts)
  let ?w = "snd (ens t i w)"
  have one: "no_fewer ctl flr w ?w" using assms(1) Cons.prems by (rule ensure_keeps)
  then have "ids_distinct (wd_containers ?w)" by (simp add: no_fewer_def)
  from Cons.IH [OF this, of "i + 1"] one show ?case
    by (auto simp: Let_def case_prod_beta intro: no_fewer_trans)
qed (auto simp: no_fewer_def)

lemma start_wave_keeps:
  assumes "keeps_running ctl ens" and "ids_distinct (wd_containers w)"
  shows "no_fewer ctl flr w (snd (start_wave ens host_port wave lo w))"
proof -
  let ?w = "snd (ens (wave ! 0) 0 w)"
  have one: "no_fewer ctl flr w ?w" using assms by (rule ensure_keeps)
  then have ids: "ids_distinct (wd_containers ?w)" by (simp add: no_fewer_def)
  note all = ensure_all_keeps [OF assms, of flr wave lo]
    no_fewer_trans [OF one conjunct1 [OF ensure_all_keeps [OF assms(1) ids]], of "tl wave" 1]
  show ?thesis
    using all one
    by (auto simp: start_wave_def Let_def split: prod.splits option.splits)
qed

lemma note_progress_containers: "wd_containers (snd (note_progress d ctl targets u p w)) = wd_containers w"
  by (simp add: note_progress_def Let_def split: sum.splits)

lemma retire_old_keeps:
  assumes "fails_together d" and "da_list_err d = None" and "ids_distinct (wd_containers w)"
  shows "no_fewer ctl flr w (w\<lparr>wd_containers := snd (retire_old d ctl cfg hold_base targets n flr (wd_containers w))\<rparr>)"
  using retire_old_spec [OF assms, of ctl cfg hold_base targets n flr]
  by (cases "retire_old d ctl cfg hold_base targets n flr (wd_containers w)") (auto simp: no_fewer_def)

lemma no_fewer_note: "no_fewer ctl flr w (snd (note_progress d c targets u p w')) = no_fewer ctl flr w w'"
  by (simp add: no_fewer_def note_progress_containers)

lemma wave_retire_keeps:
  assumes "fails_together (re_daemon env)" and "da_list_err (re_daemon env) = None" and "ids_distinct (wd_containers w)"
  shows "no_fewer (re_ctl env) flr w (snd (wave_retire env targets flr n w))"
  using retire_old_keeps [OF assms, of "re_ctl env" flr "re_safety env" "re_hold_base env" targets n]
  by (auto simp: wave_retire_def split: prod.splits)

lemma retire_before_wave_keeps:
  assumes "fails_together (re_daemon env)" and "da_list_err (re_daemon env) = None" and "ids_distinct (wd_containers w)"
  shows "no_fewer (re_ctl env) flr w (snd (snd (retire_before_wave env targets res flr lo wave prog w)))"
proof -
  have "no_fewer (re_ctl env) flr w w" using assms(3) by (simp add: no_fewer_def)
  then show ?thesis
    using wave_retire_keeps [OF assms]
    by (auto simp: retire_before_wave_def Let_def no_fewer_note case_prod_beta)
qed

lemma roll_waves_keep:
  assumes "fails_together (re_daemon env)" and "da_list_err (re_daemon env) = None"
    and "keeps_running (re_ctl env) (re_ensure env)"
    and "ids_distinct (wd_containers w)"
  shows "no_fewer (re_ctl env) flr w (snd (roll_waves env targets res flr waves prog any w))"
  using assms(4)
proof (induction waves arbitrary: prog any w)
  case Nil
  then show ?case by (simp add: no_fewer_def)
next
  case (Cons lw waves)
  obtain lo wave where lw: "lw = (lo, wave)" by (cases lw)
  obtain pre prog1 w1 where
    1: "retire_before_wave env targets res flr lo wave (prog\<lparr>pg_wave := pg_wave prog + 1\<rparr>) w = (pre, prog1, w1)"
    by (metis prod_cases3)
  obtain deployed werr w2 where
    2: "start_wave (re_ensure env) (re_host_port env) wave lo w1 = ((deployed, werr), w2)"
    by (metis prod.exhaust)
  define w3 where "w3 = (if deployed > pre then snd (wave_retire env targets flr (deployed - pre) w2) else w2)"
  note keep = no_fewer_def [THEN iffD1, THEN conjunct1]
  have n1: "no_fewer (re_ctl env) flr w w1"
    using retire_before_wave_keeps [OF assms(1,2) Cons.prems] 1 by (metis snd_conv)
  have n2: "no_fewer (re_ctl env) flr w w2"
    using start_wave_keeps [OF assms(3) keep [OF n1]] 2 n1 by (metis no_fewer_trans snd_conv)
  have n3: "no_fewer (re_ctl env) flr w w3"
    using wave_retire_keeps [OF assms(1,2) keep [OF n2]] n2 by (auto simp: w3_def intro: no_fewer_trans)
  note step = no_fewer_trans [OF _ Cons.IH [OF keep]]
  show ?case
  proof (cases werr)
    case (Some f)
    with 1 2 n2 show ?thesis by (simp add: lw Let_def case_prod_beta no_fewer_note)
  next
    case None
    show ?thesis
    proof (cases "deployed > 0")
      case True
      let ?np = "note_progress (re_daemon env) (re_ctl env) targets (int (lo + length wave)) prog1 w3"
      have "no_fewer (re_ctl env) flr w (snd ?np)" using n3 by (simp only: no_fewer_note)
      from step [OF this this, of "fst ?np" True]
      show ?thesis using 1 2 None True
        by (cases "deployed > pre") (simp_all add: lw Let_def case_prod_beta w3_def)
    next
      case False
      from step [OF n2 n2, of prog1 any] show ?thesis
        using 1 2 None False by (simp add: lw Let_def case_prod_beta)
    qed
  qed
qed



definition demo_ctl :: app_controller where
  "demo_ctl = \<lparr>ac_service = ''a'', ac_instance = []\<rparr>"

definition demo_container :: "string \<Rightarrow> string \<Rightarrow> gotime \<Rightarrow> container_state" where
  "demo_container i name t = \<lparr>cs_id = i, cs_name = name, cs_created = t, cs_running = True, cs_labels = []\<rparr>"

definition demo_old :: "container_state list" where
  "demo_old = [demo_container ''1'' ''a-01234567'' 1, demo_container ''2'' ''a-01234567-r1'' 2,
               demo_container ''3'' ''a-01234567-r2'' 3]"

text \<open>
  The floor rests on stops and removes failing together: when the daemon stops a container and then
  fails to remove it, \<open>retireOld\<close> does not count the stop, and the next old replica goes below the floor.
\<close>

theorem floor_needs_fails_together:
  "let d = \<lparr>da_stop_err = (\<lambda>_. None), da_remove_err = (\<lambda>i. if i = ''2'' then Some ''busy'' else None),
            da_list_err = None, da_inspect_err = (\<lambda>_. None)\<rparr>;
       cfg = \<lparr>sf_drain_timeout = 0, sf_auto_rollback = False, sf_watch_window = 0\<rparr>
   in live_running d demo_ctl demo_old = 3 \<and>
      live_running d demo_ctl (snd (retire_old d demo_ctl cfg 0 [] 2 2 demo_old)) = 1"
  by code_simp


definition demo_targets :: "string list" where
  "demo_targets = map (\<lambda>i. decimal i) [1..<11]"

theorem rollout_makes_progress_witness:
  "rollout_waves (resolve_rollout \<lparr>rp_max_surge = ''25%'', rp_max_unavailable = ''25%'', rp_min_available = ''75%''\<rparr> (\<lambda>_. []) 10) 10
     = int (length (wave_list 5 demo_targets)) \<and> concat (map snd (wave_list 5 demo_targets)) = demo_targets"
proof -
  let ?p = "\<lparr>rp_max_surge = ''25%'', rp_max_unavailable = ''25%'', rp_min_available = ''75%''\<rparr>"
  have "nat (rollout_step (resolve_rollout ?p (\<lambda>_. []) 10)) = 5"
    "rollout_step (resolve_rollout ?p (\<lambda>_. []) 10) = 5" by code_simp+
  moreover have "length demo_targets = 10" by (simp add: demo_targets_def)
  ultimately show ?thesis
    using rollout_makes_progress [of demo_targets 10 "resolve_rollout ?p (\<lambda>_. []) 10" ?p "\<lambda>_. []" 5] by simp
qed

theorem restart_backoff_doubles_witness:
  "backoff_remaining ''a'' 14 (fold (record_restart ''a'') [10, 11, 14] (new_restart_backoff 2 60 100)) = (8, 3)"
  using restart_backoff_doubles [of 2 60 100 "[10, 11]" 14 _ "''a''" 8 0, OF _ _ _ _ _ refl] by (simp add: in_i64_def)

definition demo_ensure :: ensure where
  "demo_ensure t i w =
     (if \<not> list_ex (\<lambda>c. cs_id c = t) (wd_containers w)
      then ((True, None), w\<lparr>wd_containers := demo_container t t (wd_now w) # wd_containers w\<rparr>)
      else ((False, None), w))"

lemma demo_ensure_keeps: "keeps_running ctl demo_ensure"
  by (auto simp: keeps_running_def demo_ensure_def ids_distinct_def running_of_def demo_container_def list_ex_iff image_iff)

definition demo_env :: rolling_env where
  "demo_env = \<lparr>re_daemon = \<lparr>da_stop_err = (\<lambda>_. None), da_remove_err = (\<lambda>_. None), da_list_err = None, da_inspect_err = (\<lambda>_. None)\<rparr>,
     re_ctl = demo_ctl, re_safety = \<lparr>sf_drain_timeout = 0, sf_auto_rollback = False, sf_watch_window = 0\<rparr>,
     re_hold_base = 0, re_ensure = demo_ensure, re_host_port = False\<rparr>"

definition demo_world :: world where
  "demo_world = \<lparr>wd_containers = demo_old, wd_now = 9, wd_progress = []\<rparr>"

definition demo_waves :: "(nat \<times> string list) list" where
  "demo_waves = [(0, [''a-89abcdef'', ''a-89abcdef-r1'']), (2, [''a-89abcdef-r2''])]"

definition demo_progress :: progress where
  "demo_progress = \<lparr>pg_active = True, pg_phase = Phase_rolling, pg_wave = 0, pg_waves = 2, pg_desired = 3, pg_updated = 0,
     pg_ready = 0, pg_unavailable = 0, pg_surge = 0, pg_max_surge = 1, pg_max_unavailable = 1, pg_message = [],
     pg_started_at = zero_time, pg_updated_at = zero_time\<rparr>"


end
