(* ===== verification/Netip.thy ===== *)
theory Netip
  imports Releases Labels
begin

text \<open>
  Network addresses as Go's \<open>net/netip\<close> and \<open>net\<close> have them, for the packages that read them: the
  mesh (\<open>internal/network\<close>), the abuse defense (\<open>internal/abuse\<close>) and the ingress firewall
  (\<open>internal/edgefw\<close>).

  An IPv4 address is a 32-bit word, an IPv6 address a 128-bit word and a zone, and an invalid
  prefix has \<open>-1\<close> bits.  Parsing follows the library's loops; errors are \<open>None\<close>.
\<close>

unbundle bit_operations_syntax

section \<open>Addresses and prefixes\<close>

datatype addr = No_addr | V4 "32 word" | V6 "128 word" string

definition addr_valid :: "addr \<Rightarrow> bool" where
  "addr_valid a \<longleftrightarrow> a \<noteq> No_addr"

definition bit_len :: "addr \<Rightarrow> int" where
  "bit_len a = (case a of No_addr \<Rightarrow> 0 | V4 _ \<Rightarrow> 32 | V6 _ _ \<Rightarrow> 128)"

definition without_zone :: "addr \<Rightarrow> addr" where
  "without_zone a = (case a of V6 v _ \<Rightarrow> V6 v [] | _ \<Rightarrow> a)"

record prefix =
  px_addr :: addr
  px_bits :: int

definition prefix_from :: "addr \<Rightarrow> int \<Rightarrow> prefix" where
  "prefix_from a bits =
     \<lparr>px_addr = without_zone a,
      px_bits = (if addr_valid a \<and> 0 \<le> bits \<and> bits \<le> bit_len a then bits else -1)\<rparr>"

definition prefix_valid :: "prefix \<Rightarrow> bool" where
  "prefix_valid p \<longleftrightarrow> 0 \<le> px_bits p"

definition mask4 :: "int \<Rightarrow> 32 word \<Rightarrow> 32 word" where
  "mask4 bits v = v AND NOT (mask (nat (32 - bits)))"

definition mask6 :: "int \<Rightarrow> 128 word \<Rightarrow> 128 word" where
  "mask6 bits v = v AND NOT (mask (nat (128 - bits)))"

definition masked_addr :: "prefix \<Rightarrow> addr" where
  "masked_addr p =
     (if \<not> prefix_valid p then No_addr
      else (case px_addr p of
              No_addr \<Rightarrow> No_addr | V4 v \<Rightarrow> V4 (mask4 (px_bits p) v) | V6 v z \<Rightarrow> V6 (mask6 (px_bits p) v) []))"

definition prefix_contains :: "prefix \<Rightarrow> addr \<Rightarrow> bool" where
  "prefix_contains p a \<longleftrightarrow>
     prefix_valid p \<and>
     (case (px_addr p, a) of
        (V4 b, V4 v) \<Rightarrow> mask4 (px_bits p) v = mask4 (px_bits p) b
      | (V6 b _, V6 v z) \<Rightarrow> z = [] \<and> mask6 (px_bits p) v = mask6 (px_bits p) b
      | _ \<Rightarrow> False)"

definition host_prefix :: "addr \<Rightarrow> prefix" where
  "host_prefix a = prefix_from a (bit_len a)"

section \<open>IPv4-mapped addresses\<close>

definition is_4in6 :: "addr \<Rightarrow> bool" where
  "is_4in6 a = (case a of V6 v _ \<Rightarrow> drop_bit 32 v = 0xffff | _ \<Rightarrow> False)"

definition unmap_addr :: "addr \<Rightarrow> addr" where
  "unmap_addr a = (case a of V6 v z \<Rightarrow> if drop_bit 32 v = 0xffff then V4 (ucast v) else a | _ \<Rightarrow> a)"

definition masked_prefix :: "prefix \<Rightarrow> prefix" where
  "masked_prefix p = (if prefix_valid p then prefix_from (masked_addr p) (px_bits p) else \<lparr>px_addr = No_addr, px_bits = -1\<rparr>)"

definition is_single_ip :: "prefix \<Rightarrow> bool" where
  "is_single_ip p \<longleftrightarrow> prefix_valid p \<and> px_bits p = bit_len (px_addr p)"

text \<open>The sixteen bytes of an address as one number; IPv4 addresses are mapped.\<close>

definition as16 :: "addr \<Rightarrow> 128 word" where
  "as16 a = (case a of No_addr \<Rightarrow> 0 | V4 v \<Rightarrow> 0xffff00000000 OR ucast v | V6 v _ \<Rightarrow> v)"

section \<open>Parsing addresses\<close>

definition digit_val :: "char \<Rightarrow> nat" where
  "digit_val c = of_char c - 48"

definition hex_val :: "char \<Rightarrow> nat option" where
  "hex_val c =
     (if is_digit c then Some (digit_val c)
      else if CHR ''a'' \<le> c \<and> c \<le> CHR ''f'' then Some (of_char c - 87)
      else if CHR ''A'' \<le> c \<and> c \<le> CHR ''F'' then Some (of_char c - 55)
      else None)"

fun v4_fields :: "nat \<Rightarrow> nat \<Rightarrow> nat list \<Rightarrow> string \<Rightarrow> nat list option" where
  "v4_fields val dig fs [] = (if length fs < 3 then None else Some (fs @ [val]))"
| "v4_fields val dig fs (c # cs) =
     (if is_digit c then
        (if dig = 1 \<and> val = 0 then None
         else if val * 10 + digit_val c > 255 then None
         else v4_fields (val * 10 + digit_val c) (Suc dig) fs cs)
      else if c = CHR ''.'' then
        (if dig = 0 \<or> cs = [] \<or> length fs = 3 then None else v4_fields 0 0 (fs @ [val]) cs)
      else None)"

definition v4_of :: "nat list \<Rightarrow> 32 word" where
  "v4_of fs = fold (\<lambda>f w. push_bit 8 w OR of_nat f) fs 0"

definition parse_v4 :: "string \<Rightarrow> addr option" where
  "parse_v4 s = map_option (\<lambda>fs. V4 (v4_of fs)) (v4_fields 0 0 [] s)"

text \<open>The hexadecimal digits at the start: how many, their value, and what follows.\<close>

fun hex_scan :: "nat \<Rightarrow> nat \<Rightarrow> string \<Rightarrow> (nat \<times> nat \<times> string) option" where
  "hex_scan off acc [] = Some (off, acc, [])"
| "hex_scan off acc (c # cs) =
     (case hex_val c of
        None \<Rightarrow> Some (off, acc, c # cs)
      | Some d \<Rightarrow> if off > 3 \<or> acc * 16 + d > 65535 then None else hex_scan (Suc off) (acc * 16 + d) cs)"

text \<open>The loop over the 16-bit groups: how many are still allowed, the groups so far, where the
  ellipsis was, the rest of the text.\<close>

fun v6_loop :: "nat \<Rightarrow> nat list \<Rightarrow> nat option \<Rightarrow> string \<Rightarrow> (nat list \<times> nat option \<times> string) option" where
  "v6_loop 0 gs el s = Some (gs, el, s)"
| "v6_loop (Suc n) gs el s =
     (case hex_scan 0 0 s of
        None \<Rightarrow> None
      | Some (off, acc, rest) \<Rightarrow>
          if off = 0 then None
          else if rest \<noteq> [] \<and> hd rest = CHR ''.'' then
            (if el = None \<and> length gs \<noteq> 6 \<or> length gs + 2 > 8 then None
             else (case v4_fields 0 0 [] s of
                     Some [a, b, c, d] \<Rightarrow> Some (gs @ [a * 256 + b, c * 256 + d], el, [])
                   | _ \<Rightarrow> None))
          else
            (let gs = gs @ [acc]
             in case rest of
                  [] \<Rightarrow> Some (gs, el, [])
                | [c] \<Rightarrow> None
                | c # d # cs \<Rightarrow>
                    if c \<noteq> CHR '':'' then None
                    else if d = CHR '':'' then
                      (if el \<noteq> None then None
                       else if cs = [] then Some (gs, Some (length gs), [])
                       else v6_loop n gs (Some (length gs)) cs)
                    else v6_loop n gs el (d # cs)))"

definition v6_expand :: "nat list \<Rightarrow> nat option \<Rightarrow> nat list option" where
  "v6_expand gs el =
     (if length gs < 8
      then (case el of None \<Rightarrow> None | Some k \<Rightarrow> Some (take k gs @ replicate (8 - length gs) 0 @ drop k gs))
      else if el \<noteq> None then None else Some gs)"

definition v6_of :: "nat list \<Rightarrow> 128 word" where
  "v6_of gs = fold (\<lambda>g w. push_bit 16 w OR of_nat g) gs 0"

definition parse_v6 :: "string \<Rightarrow> addr option" where
  "parse_v6 txt =
     (let (s, zone) = (case go_cut CHR ''%'' txt of None \<Rightarrow> (txt, None) | Some (a, z) \<Rightarrow> (a, Some z));
          z = (case zone of None \<Rightarrow> [] | Some z \<Rightarrow> z);
          (el, s) = (if take 2 s = ''::'' then (Some 0, drop 2 s) else (None, s))
      in if zone = Some [] then None
         else if el \<noteq> None \<and> s = [] then Some (V6 0 z)
         else (case v6_loop 8 [] el s of
                 Some (gs, el, []) \<Rightarrow> map_option (\<lambda>gs. V6 (v6_of gs) z) (v6_expand gs el)
               | _ \<Rightarrow> None))"

definition parse_addr :: "string \<Rightarrow> addr option" where
  "parse_addr s =
     (case find (\<lambda>c. c \<in> {CHR ''.'', CHR '':'', CHR ''%''}) s of
        None \<Rightarrow> None
      | Some c \<Rightarrow> if c = CHR ''.'' then parse_v4 s else if c = CHR '':'' then parse_v6 s else None)"

text \<open>Cutting at the last occurrence of a character.\<close>

definition cut_last :: "char \<Rightarrow> string \<Rightarrow> (string \<times> string) option" where
  "cut_last sep s = map_option (\<lambda>(a, b). (rev b, rev a)) (go_cut sep (rev s))"

definition parse_prefix :: "string \<Rightarrow> prefix option" where
  "parse_prefix s =
     (case cut_last CHR ''/'' s of
        None \<Rightarrow> None
      | Some (ip, bits) \<Rightarrow>
          (case parse_addr ip of
             None \<Rightarrow> None
           | Some a \<Rightarrow>
               if (case a of V6 _ z \<Rightarrow> z \<noteq> [] | _ \<Rightarrow> False) then None
               else if length bits > 1 \<and> \<not> (CHR ''1'' \<le> hd bits \<and> hd bits \<le> CHR ''9'') then None
               else (case go_atoi bits of
                       None \<Rightarrow> None
                     | Some n \<Rightarrow> if n < 0 \<or> n > bit_len a then None else Some (prefix_from a n))))"

text \<open>\<open>net.SplitHostPort\<close>: the host and the port, if the text has that form.\<close>

definition split_host_port :: "string \<Rightarrow> (string \<times> string) option" where
  "split_host_port s =
     (case cut_last CHR '':'' s of
        None \<Rightarrow> None
      | Some (host, port) \<Rightarrow>
          if hd s = CHR ''['' then
            (case go_cut CHR '']'' s of
               None \<Rightarrow> None
             | Some (pre, post) \<Rightarrow>
                 if length pre + 1 \<noteq> length host then None
                 else if CHR ''['' \<in> set (tl s) \<or> CHR '']'' \<in> set post then None
                 else Some (tl pre, port))
          else if CHR '':'' \<in> set host \<or> CHR ''['' \<in> set s \<or> CHR '']'' \<in> set s then None
          else Some (host, port))"

section \<open>Printing addresses\<close>

definition v4_string :: "32 word \<Rightarrow> string" where
  "v4_string v = go_join ''.'' (map (\<lambda>k. decimal (unat (drop_bit k v AND 255))) [24, 16, 8, 0])"

definition hex_digit :: "nat \<Rightarrow> char" where
  "hex_digit d = (if d < 10 then char_of (48 + d) else char_of (87 + d))"

fun hex_string :: "nat \<Rightarrow> string" where
  "hex_string n = (if n < 16 then [hex_digit n] else hex_string (n div 16) @ [hex_digit (n mod 16)])"

declare hex_string.simps [simp del]

definition v6_groups :: "128 word \<Rightarrow> nat list" where
  "v6_groups v = map (\<lambda>k. unat (drop_bit (16 * k) v AND 0xffff)) [7, 6, 5, 4, 3, 2, 1, 0]"

text \<open>The first longest run of at least two zero groups: where it starts and ends.\<close>

fun zero_run :: "nat \<Rightarrow> nat list \<Rightarrow> nat \<times> nat \<Rightarrow> nat \<times> nat" where
  "zero_run i [] best = best"
| "zero_run i (g # gs) best =
     (let l = length (takeWhile (\<lambda>g. g = 0) (g # gs))
      in zero_run (Suc i) gs (if l \<ge> 2 \<and> l > snd best - fst best then (i, i + l) else best))"

definition v6_string :: "128 word \<Rightarrow> string" where
  "v6_string v =
     (let gs = v6_groups v; (a, b) = zero_run 0 gs (0, 0); show_groups = (\<lambda>gs. go_join '':'' (map hex_string gs))
      in if a = b then show_groups gs else show_groups (take a gs) @ ''::'' @ show_groups (drop b gs))"

definition addr_string :: "addr \<Rightarrow> string" where
  "addr_string a =
     (case a of
        No_addr \<Rightarrow> ''invalid IP''
      | V4 v \<Rightarrow> v4_string v
      | V6 v z \<Rightarrow>
          (if drop_bit 32 v = 0xffff then ''::ffff:'' @ v4_string (ucast v) else v6_string v) @
          (if z = [] then [] else CHR ''%'' # z))"

end
