(* ===== verification/Mesh.thy ===== *)
theory Mesh
  imports Netip
begin

text \<open>
  The WireGuard mesh decisions of \<open>internal/network\<close>: address allocation (\<open>ipam.go\<close>), the
  inventory and its validation (\<open>config.go\<close>) and the full-mesh plan (\<open>plan.go\<close>).

  Addresses and prefixes are those of theory Netip.  Keys are 32 bytes.  Parsing endpoints and sending the plans to the nodes is not
  modelled.
\<close>

unbundle bit_operations_syntax

section \<open>The inventory\<close>

type_synonym mesh_key = "8 word list"

definition zero_key :: mesh_key where
  "zero_key = replicate 32 0"

record node_info =
  ni_id :: string
  ni_name :: string
  ni_key :: mesh_key
  ni_endpoint :: string
  ni_addr :: addr

definition node_ready :: "node_info \<Rightarrow> bool" where
  "node_ready n \<longleftrightarrow> ni_id n \<noteq> [] \<and> ni_key n \<noteq> zero_key \<and> addr_valid (ni_addr n)"

datatype cidr_error = Cidr_unset | Cidr_not_ipv4 | Cidr_host_bits | Cidr_too_small

datatype mesh_error =
    Invalid_cidr cidr_error
  | Node_without_id
  | Node_listed_twice string
  | Duplicate_public_key string string
  | Duplicate_address string string addr
  | Address_outside_mesh string addr
  | No_address_available prefix
  | Allocate_failed string mesh_error
  | Plan_failed string mesh_error
  | Unknown_node string

definition is_v4 :: "addr \<Rightarrow> bool" where
  "is_v4 a \<longleftrightarrow> (case a of V4 _ \<Rightarrow> True | _ \<Rightarrow> False)"

definition validate_cidr :: "prefix \<Rightarrow> cidr_error option" where
  "validate_cidr cidr =
     (if \<not> prefix_valid cidr then Some Cidr_unset
      else if \<not> is_v4 (px_addr cidr) then Some Cidr_not_ipv4
      else if px_addr cidr \<noteq> masked_addr cidr then Some Cidr_host_bits
      else if px_bits cidr > 30 then Some Cidr_too_small
      else None)"

fun check_nodes ::
    "prefix \<Rightarrow> node_info list \<Rightarrow> (mesh_key, string) gomap \<Rightarrow> (addr, string) gomap \<Rightarrow> string list \<Rightarrow>
     mesh_error option" where
  "check_nodes cidr [] by_key by_addr seen = None"
| "check_nodes cidr (n # ns) by_key by_addr seen =
     (if ni_id n = [] then Some Node_without_id
      else if ni_id n \<in> set seen then Some (Node_listed_twice (ni_id n))
      else if \<not> node_ready n then check_nodes cidr ns by_key by_addr (ni_id n # seen)
      else (case map_of by_key (ni_key n) of
              Some other \<Rightarrow> Some (Duplicate_public_key other (ni_id n))
            | None \<Rightarrow>
                (case map_of by_addr (ni_addr n) of
                   Some other \<Rightarrow> Some (Duplicate_address other (ni_id n) (ni_addr n))
                 | None \<Rightarrow>
                     if \<not> prefix_contains cidr (ni_addr n) then Some (Address_outside_mesh (ni_id n) (ni_addr n))
                     else check_nodes cidr ns ((ni_key n, ni_id n) # by_key) ((ni_addr n, ni_id n) # by_addr)
                            (ni_id n # seen))))"

definition validate_inventory :: "node_info list \<Rightarrow> prefix \<Rightarrow> mesh_error option" where
  "validate_inventory nodes cidr =
     (case validate_cidr cidr of
        Some e \<Rightarrow> Some (Invalid_cidr e)
      | None \<Rightarrow> check_nodes cidr nodes [] [] [])"

section \<open>Allocation\<close>

definition as32 :: "addr \<Rightarrow> 32 word" where
  "as32 a = (case a of V4 v \<Rightarrow> v | _ \<Rightarrow> 0)"

lemma offset_grows:
  assumes "(offset :: 32 word) < host_count"
  shows "unat (offset + 1) = unat offset + 1" and "unat (offset + 1) \<le> unat host_count"
proof -
  have "unat offset < unat host_count" using assms by (simp add: word_less_nat_alt)
  moreover have "unat host_count < 2 ^ 32" using unsigned_less [of host_count] by simp
  ultimately show "unat (offset + 1) = unat offset + 1" "unat (offset + 1) \<le> unat host_count"
    by (simp_all add: unat_word_ariths)
qed

text \<open>The loop over the offsets, in 32-bit arithmetic.\<close>

function first_free :: "32 word \<Rightarrow> 32 word \<Rightarrow> 32 word \<Rightarrow> addr list \<Rightarrow> addr option" where
  "first_free base offset host_count taken =
     (if offset < host_count
      then (if V4 (base + offset) \<in> set taken then first_free base (offset + 1) host_count taken
            else Some (V4 (base + offset)))
      else None)"
  by pat_completeness auto

termination
  by (relation "measure (\<lambda>(_, offset, host_count, _). unat host_count - unat offset)")
    (auto simp: offset_grows word_less_nat_alt)

declare first_free.simps [simp del]

definition host_count :: "prefix \<Rightarrow> 32 word" where
  "host_count cidr = push_bit (nat (32 - px_bits cidr)) 1"

definition allocate_address :: "prefix \<Rightarrow> addr list \<Rightarrow> mesh_error + addr" where
  "allocate_address cidr taken =
     (case validate_cidr cidr of
        Some e \<Rightarrow> Inl (Invalid_cidr e)
      | None \<Rightarrow>
          (case first_free (as32 (masked_addr cidr)) 1 (host_count cidr) taken of
             Some a \<Rightarrow> Inr a
           | None \<Rightarrow> Inl (No_address_available cidr)))"

fun allocate_missing :: "prefix \<Rightarrow> node_info list \<Rightarrow> addr list \<Rightarrow> mesh_error + node_info list" where
  "allocate_missing cidr [] taken = Inr []"
| "allocate_missing cidr (n # ns) taken =
     (if addr_valid (ni_addr n)
      then (case allocate_missing cidr ns taken of Inl e \<Rightarrow> Inl e | Inr out \<Rightarrow> Inr (n # out))
      else (case allocate_address cidr taken of
              Inl e \<Rightarrow> Inl (Allocate_failed (ni_id n) e)
            | Inr a \<Rightarrow>
                (case allocate_missing cidr ns (taken @ [a]) of
                   Inl e \<Rightarrow> Inl e | Inr out \<Rightarrow> Inr (n\<lparr>ni_addr := a\<rparr> # out))))"

definition allocate_addresses :: "node_info list \<Rightarrow> prefix \<Rightarrow> mesh_error + node_info list" where
  "allocate_addresses nodes cidr =
     (case validate_cidr cidr of
        Some e \<Rightarrow> Inl (Invalid_cidr e)
      | None \<Rightarrow> allocate_missing cidr nodes (map ni_addr (filter (\<lambda>n. addr_valid (ni_addr n)) nodes)))"

section \<open>The full-mesh plan\<close>

record plan_options =
  po_cidr :: prefix
  po_listen_port :: int
  po_keepalive :: duration

definition default_listen_port :: int where
  "default_listen_port = 51820"

definition default_keepalive :: duration where
  "default_keepalive = 25 * second"

definition opt_listen_port :: "plan_options \<Rightarrow> int" where
  "opt_listen_port o' = (if po_listen_port o' = 0 then default_listen_port else po_listen_port o')"

definition opt_keepalive :: "plan_options \<Rightarrow> duration" where
  "opt_keepalive o' =
     (if po_keepalive o' = 0 then default_keepalive else if po_keepalive o' < 0 then 0 else po_keepalive o')"

record peer_config =
  pr_node :: string
  pr_key :: mesh_key
  pr_endpoint :: string
  pr_allowed :: "prefix list"
  pr_keepalive :: duration

record device_config =
  dc_node :: string
  dc_private :: mesh_key
  dc_addr :: prefix
  dc_port :: int
  dc_peers :: "peer_config list"

definition invalid_prefix :: prefix where
  "invalid_prefix = \<lparr>px_addr = No_addr, px_bits = -1\<rparr>"

definition peer_by_node_id :: "device_config \<Rightarrow> string \<Rightarrow> peer_config option" where
  "peer_by_node_id c i = find (\<lambda>p. pr_node p = i) (dc_peers c)"

definition peer_of :: "plan_options \<Rightarrow> node_info \<Rightarrow> peer_config" where
  "peer_of opts n =
     \<lparr>pr_node = ni_id n, pr_key = ni_key n, pr_endpoint = ni_endpoint n,
      pr_allowed = [host_prefix (ni_addr n)], pr_keepalive = opt_keepalive opts\<rparr>"

definition sort_peers :: "peer_config list \<Rightarrow> peer_config list" where
  "sort_peers ps = go_sort (\<lambda>a b. pr_node a < pr_node b) ps"

definition mesh_plan :: "string \<Rightarrow> node_info list \<Rightarrow> plan_options \<Rightarrow> mesh_error + device_config" where
  "mesh_plan self nodes opts =
     (if self = [] then Inl (Unknown_node [])
      else (case validate_inventory nodes (po_cidr opts) of
              Some e \<Rightarrow> Inl (Plan_failed self e)
            | None \<Rightarrow>
                (case find (\<lambda>n. ni_id n = self) nodes of
                   None \<Rightarrow> Inl (Unknown_node self)
                 | Some n \<Rightarrow>
                     Inr \<lparr>dc_node = self, dc_private = zero_key,
                          dc_addr = (if addr_valid (ni_addr n) then prefix_from (ni_addr n) (px_bits (po_cidr opts))
                                     else invalid_prefix),
                          dc_port = opt_listen_port opts,
                          dc_peers = sort_peers (map (peer_of opts)
                                       (filter (\<lambda>m. \<not> (ni_id m = self \<or> \<not> node_ready m)) nodes))\<rparr>)))"

fun plan_each :: "node_info list \<Rightarrow> node_info list \<Rightarrow> plan_options \<Rightarrow> (string, device_config) gomap \<Rightarrow>
    mesh_error + (string, device_config) gomap" where
  "plan_each nodes [] opts out = Inr out"
| "plan_each nodes (n # ns) opts out =
     (case mesh_plan (ni_id n) nodes opts of
        Inl e \<Rightarrow> Inl e
      | Inr cfg \<Rightarrow> plan_each nodes ns opts (AList.update (ni_id n) cfg out))"

definition plan_all :: "node_info list \<Rightarrow> plan_options \<Rightarrow> mesh_error + (string, device_config) gomap" where
  "plan_all nodes opts =
     (case validate_inventory nodes (po_cidr opts) of
        Some e \<Rightarrow> Inl (Plan_failed [] e)
      | None \<Rightarrow> plan_each nodes nodes opts [])"

section \<open>What allocation gives\<close>

lemma first_free_Some:
  "first_free base offset host taken = Some a \<Longrightarrow>
   \<exists>o'. offset \<le> o' \<and> o' < host \<and> a = V4 (base + o') \<and> a \<notin> set taken \<and>
     (\<forall>p. offset \<le> p \<and> p < o' \<longrightarrow> V4 (base + p) \<in> set taken)"
proof (induction base offset host taken rule: first_free.induct)
  case (1 base offset host taken)
  show ?case
  proof (cases "offset < host \<and> V4 (base + offset) \<in> set taken")
    case True
    then have "first_free base (offset + 1) host taken = Some a"
      using "1.prems" by (subst (asm) first_free.simps) simp
    from "1.IH" [OF _ _ this] True obtain o' where o': "offset + 1 \<le> o'" "o' < host" "a = V4 (base + o')" "a \<notin> set taken"
      "\<forall>p. offset + 1 \<le> p \<and> p < o' \<longrightarrow> V4 (base + p) \<in> set taken" by auto
    have "offset \<le> o'" "offset \<noteq> o'"
      using o'(1) offset_grows(1) [of offset host] True by (auto simp: word_le_nat_alt)
    moreover have "V4 (base + p) \<in> set taken" if "offset \<le> p" "p < o'" for p
    proof (cases "p = offset")
      case False
      then have "offset + 1 \<le> p"
        using that(1) offset_grows(1) [of offset host] True by (auto simp: word_le_nat_alt word_unat_eq_iff)
      with o' that show ?thesis by blast
    qed (use True in simp)
    ultimately show ?thesis using o' by blast
  next
    case False
    then have "offset < host" "V4 (base + offset) \<notin> set taken" "a = V4 (base + offset)"
      using "1.prems" by (subst (asm) first_free.simps, simp split: if_splits)+
    then show ?thesis by (intro exI [of _ offset]) auto
  qed
qed

lemma first_free_None:
  "first_free base offset host taken = None \<Longrightarrow> offset \<le> o' \<Longrightarrow> o' < host \<Longrightarrow> V4 (base + o') \<in> set taken"
proof (induction base offset host taken rule: first_free.induct)
  case (1 base offset host taken)
  have lt: "offset < host" using "1.prems" by (auto intro: order.strict_trans1)
  then have free: "V4 (base + offset) \<in> set taken" "first_free base (offset + 1) host taken = None"
    using "1.prems"(1) by (subst (asm) first_free.simps, simp split: if_splits)+
  show ?case
  proof (cases "o' = offset")
    case False
    then have "offset + 1 \<le> o'"
      using "1.prems"(2) offset_grows(1) [OF lt] by (auto simp: word_le_nat_alt word_unat_eq_iff)
    with "1.IH" [OF lt free(1) free(2)] "1.prems" show ?thesis by blast
  qed (use free in simp)
qed

text \<open>A canonical IPv4 range with at least one network bit.\<close>

lemma cidr_ok:
  assumes "validate_cidr cidr = None" and "0 < px_bits cidr"
  obtains base k where "px_addr cidr = V4 base" and "2 \<le> k" and "k < 32"
    and "base AND mask k = 0" and "host_count cidr = 2 ^ k" and "masked_addr cidr = V4 base"
    and "\<forall>v. prefix_contains cidr (V4 v) = (v AND NOT (mask k) = base)"
proof -
  obtain base where b: "px_addr cidr = V4 base"
    using assms by (auto simp: validate_cidr_def is_v4_def split: if_splits addr.splits)
  define k where "k = nat (32 - px_bits cidr)"
  have bits: "prefix_valid cidr" "px_bits cidr \<le> 30" "masked_addr cidr = V4 base"
    using assms b by (auto simp: validate_cidr_def split: if_splits)
  then have base: "base AND NOT (mask k) = base" by (simp add: masked_addr_def b mask4_def k_def)
  have "base AND mask k = 0"
  proof -
    have "base AND mask k = (base AND NOT (mask k)) AND mask k" by (simp only: base)
    also have "\<dots> = 0" by (simp add: and.assoc)
    finally show ?thesis .
  qed
  moreover have "host_count cidr = 2 ^ k" by (simp add: host_count_def k_def push_bit_eq_mult)
  moreover have "prefix_contains cidr (V4 v) \<longleftrightarrow> v AND NOT (mask k) = base" for v
    using bits base by (simp add: prefix_contains_def b mask4_def k_def)
  ultimately show ?thesis using bits assms(2) by (intro that [OF b, of k]) (auto simp: k_def)
qed

lemma and_split: "(v AND mask k) + (v AND NOT (mask k)) = (v :: 32 word)"
proof -
  have "(v AND mask k) AND (v AND NOT (mask k)) = 0"
    by (rule bit_word_eqI) (auto simp: bit_simps)
  then have "(v AND mask k) + (v AND NOT (mask k)) = (v AND mask k) OR (v AND NOT (mask k))"
    by (simp add: disjunctive_add_eq_or)
  also have "\<dots> = v" by (rule bit_word_eqI) (auto simp: bit_simps)
  finally show ?thesis .
qed

lemma offset_split:
  assumes "(base :: 32 word) AND mask k = 0" and "k < 32"
  shows "p < 2 ^ k \<Longrightarrow> (base + p) AND NOT (mask k) = base"
    and "v AND NOT (mask k) = base \<Longrightarrow> v - base < 2 ^ k"
proof -
  show "(base + p) AND NOT (mask k) = base" if "p < 2 ^ k"
  proof -
    have p: "p AND mask k = p" using that assms(2) by (simp add: less_mask_eq)
    have "base AND p = base AND (p AND mask k)" using p by simp
    also have "\<dots> = (base AND mask k) AND p" by (simp add: ac_simps)
    finally have "base AND p = 0" using assms(1) by simp
    then have "base + p = base OR p" by (simp add: disjunctive_add_eq_or)
    moreover have "base AND NOT (mask k) = base"
      using and_split [of base k] assms(1) by simp
    moreover have "p AND NOT (mask k) = 0" using p and_split [of p k] by simp
    ultimately show ?thesis by (simp add: bit.conj_disj_distrib2)
  qed
  show "v - base < 2 ^ k" if "v AND NOT (mask k) = base"
  proof -
    have "v = (v AND mask k) + (v AND NOT (mask k))" by (rule and_split [symmetric])
    then have "v - base = v AND mask k" using that by (metis add_diff_cancel_right')
    then show ?thesis using assms(2) and_mask_less_size [of k v] by (simp add: word_size)
  qed
qed

lemma offset_order:
  assumes "(base :: 32 word) AND mask k = 0" and "k < 32" and "p < 2 ^ k"
  shows "unat (base + p) = unat base + unat p"
proof -
  have "base AND p = base AND (p AND mask k)" using assms(2,3) by (simp add: less_mask_eq)
  also have "\<dots> = (base AND mask k) AND p" by (simp add: ac_simps)
  finally have "base + p = base OR p" using assms(1) by (simp add: disjunctive_add_eq_or)
  moreover have "uint base \<le> uint (base OR p)" by (simp add: unsigned_or_eq or_greater_eq)
  ultimately have "base \<le> base + p" by (simp add: word_le_def)
  then show ?thesis by (simp add: unat_plus_simple)
qed

text \<open>
  C24: In a valid range with a network part, allocation returns the lowest address of the range that is not
  taken, never the network address itself, and fails only when every other address of the range is taken.
\<close>

theorem lowest_address_allocated:
  assumes "validate_cidr cidr = None" and "0 < px_bits cidr"
  shows "case allocate_address cidr taken of
           Inr a \<Rightarrow> a \<notin> set taken \<and> prefix_contains cidr a \<and> a \<noteq> masked_addr cidr \<and>
             (\<forall>v < as32 a. prefix_contains cidr (V4 v) \<and> V4 v \<noteq> masked_addr cidr \<longrightarrow> V4 v \<in> set taken)
         | Inl e \<Rightarrow> e = No_address_available cidr \<and>
             (\<forall>v. prefix_contains cidr (V4 v) \<and> V4 v \<noteq> masked_addr cidr \<longrightarrow> V4 v \<in> set taken)"
proof -
  obtain base k where c: "px_addr cidr = V4 base" "2 \<le> k" "k < 32" "base AND mask k = 0" "host_count cidr = 2 ^ k"
    "masked_addr cidr = V4 base" "\<forall>v. prefix_contains cidr (V4 v) = (v AND NOT (mask k) = base)"
    by (rule cidr_ok [OF assms])
  note split = offset_split [OF c(4,3)]
  have host: "1 \<le> v - base" if "v \<noteq> base" for v :: "32 word"
    using that by (metis eq_iff_diff_eq_0 word_less_1 not_le)
  let ?f = "first_free base 1 (2 ^ k) taken"
  have alloc: "allocate_address cidr taken = (case ?f of Some a \<Rightarrow> Inr a | None \<Rightarrow> Inl (No_address_available cidr))"
    using assms(1) by (simp add: allocate_address_def c(5,6) as32_def)
  show ?thesis
  proof (cases ?f)
    case None
    have "V4 v \<in> set taken" if "v AND NOT (mask k) = base" "v \<noteq> base" for v
      using first_free_None [OF None host [OF that(2)] split(2) [OF that(1)]] by simp
    with None alloc show ?thesis by (auto simp: c)
  next
    case (Some a)
    obtain p where p: "1 \<le> p" "p < 2 ^ k" "a = V4 (base + p)" "a \<notin> set taken"
      and low: "\<forall>q. 1 \<le> q \<and> q < p \<longrightarrow> V4 (base + q) \<in> set taken"
      using first_free_Some [OF Some] by blast
    have "p \<noteq> 0" using p(1) by auto
    moreover have "V4 v \<in> set taken" if "v < base + p" "v AND NOT (mask k) = base" "v \<noteq> base" for v
    proof -
      have "unat base + unat (v - base) = unat v"
        using offset_order [OF c(4,3) split(2) [OF that(2)]] by simp
      with that(1) have "v - base < p"
        using offset_order [OF c(4,3) p(2)] by (simp add: word_less_nat_alt)
      with low host [OF that(3)] show ?thesis by (metis add_diff_cancel_left' diff_add_cancel add.commute)
    qed
    ultimately show ?thesis using Some alloc p split(1) [OF p(2)] by (auto simp: c as32_def)
  qed
qed


lemma allocate_address_fresh:
  assumes "validate_cidr cidr = None" and "0 < px_bits cidr" and "allocate_address cidr taken = Inr a"
  shows "a \<notin> set taken \<and> prefix_contains cidr a \<and> a \<noteq> masked_addr cidr \<and> addr_valid a"
proof -
  obtain base k where c: "px_addr cidr = V4 base" "2 \<le> k" "k < 32" "base AND mask k = 0" "host_count cidr = 2 ^ k"
    "masked_addr cidr = V4 base" "\<forall>v. prefix_contains cidr (V4 v) = (v AND NOT (mask k) = base)"
    by (rule cidr_ok [OF assms(1,2)])
  have "first_free base 1 (2 ^ k) taken = Some a"
    using assms by (auto simp: allocate_address_def c(5,6) as32_def split: option.splits)
  from first_free_Some [OF this] obtain p where "1 \<le> p" "p < 2 ^ k" "a = V4 (base + p)" "a \<notin> set taken" by blast
  then show ?thesis using offset_split(1) [OF c(4,3)] c(6,7) by (auto simp: addr_valid_def)
qed

lemma allocate_missing_spec:
  assumes "validate_cidr cidr = None" and "0 < px_bits cidr"
    and "allocate_missing cidr ns taken = Inr out"
    and "\<forall>n \<in> set ns. addr_valid (ni_addr n) \<longrightarrow> ni_addr n \<in> set taken"
  shows "list_all2 (\<lambda>n m. m = n\<lparr>ni_addr := ni_addr m\<rparr> \<and>
           (if addr_valid (ni_addr n) then ni_addr m = ni_addr n
            else prefix_contains cidr (ni_addr m) \<and> ni_addr m \<noteq> masked_addr cidr \<and> addr_valid (ni_addr m) \<and>
                 ni_addr m \<notin> set taken)) ns out \<and>
         (distinct (map ni_addr (filter (\<lambda>n. addr_valid (ni_addr n)) ns)) \<longrightarrow> distinct (map ni_addr out)) \<and>
         (\<forall>m \<in> set out. ni_addr m \<in> set taken \<longrightarrow> (\<exists>n \<in> set ns. addr_valid (ni_addr n) \<and> ni_addr m = ni_addr n))"
  using assms(3,4)
proof (induction ns arbitrary: taken out)
  case Nil
  then show ?case by simp
next
  case (Cons n ns)
  show ?case
  proof (cases "addr_valid (ni_addr n)")
    case True
    then obtain out' where out: "allocate_missing cidr ns taken = Inr out'" "out = n # out'"
      using Cons.prems(1) by (auto split: sum.splits)
    with Cons.IH [OF out(1)] Cons.prems(2) True show ?thesis by (auto 0 3)
  next
    case False
    then obtain a out' where a: "allocate_address cidr taken = Inr a" "allocate_missing cidr ns (taken @ [a]) = Inr out'"
      and out: "out = n\<lparr>ni_addr := a\<rparr> # out'"
      using Cons.prems(1) by (auto split: sum.splits)
    have "\<forall>n \<in> set ns. addr_valid (ni_addr n) \<longrightarrow> ni_addr n \<in> set (taken @ [a])" using Cons.prems(2) by auto
    note IH = Cons.IH [OF a(2) this]
    note fresh = allocate_address_fresh [OF assms(1,2) a(1)]
    have "a \<notin> set (map ni_addr out')" using IH fresh Cons.prems(2) by (auto 0 3)
    moreover have "list_all2 (\<lambda>n m. m = n\<lparr>ni_addr := ni_addr m\<rparr> \<and>
           (if addr_valid (ni_addr n) then ni_addr m = ni_addr n
            else prefix_contains cidr (ni_addr m) \<and> ni_addr m \<noteq> masked_addr cidr \<and> addr_valid (ni_addr m) \<and>
                 ni_addr m \<notin> set taken)) ns out'"
      using conjunct1 [OF IH] by (rule list_all2_mono) (auto split: if_splits)
    ultimately show ?thesis using IH fresh False out by auto
  qed
qed

text \<open>
  Allocation is additive: it changes nothing but missing addresses, every node ends with a valid one, a
  new address is in the range, is not the network address and was held by nobody, and if the addresses
  already assigned are distinct so are all addresses afterwards.
\<close>

theorem allocation_additive:
  assumes "validate_cidr cidr = None" and "0 < px_bits cidr" and "allocate_addresses nodes cidr = Inr out"
  shows "list_all2 (\<lambda>n m. m = n\<lparr>ni_addr := ni_addr m\<rparr> \<and>
           (if addr_valid (ni_addr n) then ni_addr m = ni_addr n
            else prefix_contains cidr (ni_addr m) \<and> ni_addr m \<noteq> masked_addr cidr \<and> addr_valid (ni_addr m) \<and>
                 ni_addr m \<notin> set (map ni_addr nodes))) nodes out \<and>
         (distinct (map ni_addr (filter (\<lambda>n. addr_valid (ni_addr n)) nodes)) \<longrightarrow> distinct (map ni_addr out))"
proof -
  let ?taken = "map ni_addr (filter (\<lambda>n. addr_valid (ni_addr n)) nodes)"
  have "allocate_missing cidr nodes ?taken = Inr out"
    using assms by (simp add: allocate_addresses_def)
  note spec = allocate_missing_spec [OF assms(1,2) this]
  have "list_all2 (\<lambda>n m. m = n\<lparr>ni_addr := ni_addr m\<rparr> \<and>
           (if addr_valid (ni_addr n) then ni_addr m = ni_addr n
            else prefix_contains cidr (ni_addr m) \<and> ni_addr m \<noteq> masked_addr cidr \<and> addr_valid (ni_addr m) \<and>
                 ni_addr m \<notin> set (map ni_addr nodes))) nodes out"
    by (rule list_all2_mono [OF conjunct1 [OF spec]]) (auto split: if_splits)
  then show ?thesis using spec by simp
qed

section \<open>What a valid inventory is\<close>

lemma image_mem: "y \<in> f ` A \<longleftrightarrow> (\<exists>x \<in> A. f x = y)"
  by (metis image_iff)

lemma check_nodes_None:
  "check_nodes cidr ns by_key by_addr seen = None \<longleftrightarrow>
     (\<forall>n \<in> set ns. ni_id n \<noteq> [] \<and> ni_id n \<notin> set seen) \<and> distinct (map ni_id ns) \<and>
     (let r = filter node_ready ns
      in distinct (map ni_key r) \<and> distinct (map ni_addr r) \<and>
         (\<forall>n \<in> set r. ni_key n \<notin> gm_keys by_key \<and> ni_addr n \<notin> gm_keys by_addr \<and> prefix_contains cidr (ni_addr n)))"
proof (induction ns arbitrary: by_key by_addr seen)
  case Nil
  then show ?case by simp
next
  case (Cons n ns)
  show ?case
  proof (cases "ni_id n = [] \<or> ni_id n \<in> set seen \<or> \<not> node_ready n")
    case True
    have "ni_id n \<in> ni_id ` set ns \<longleftrightarrow> (\<exists>m \<in> set ns. ni_id m = ni_id n)" by (metis image_iff)
    with True show ?thesis by (auto simp: Cons.IH Let_def)
  next
    case False
    consider (key) other where "map_of by_key (ni_key n) = Some other"
      | (addr) other where "map_of by_key (ni_key n) = None" "map_of by_addr (ni_addr n) = Some other"
      | (new) "map_of by_key (ni_key n) = None" "map_of by_addr (ni_addr n) = None" by fastforce
    then show ?thesis
    proof cases
      case key
      then have "ni_key n \<in> gm_keys by_key" by (metis gm_keys_lookup option.distinct(1))
      with key False show ?thesis by (auto simp: Let_def)
    next
      case addr
      then have "ni_addr n \<in> gm_keys by_addr" by (metis gm_keys_lookup option.distinct(1))
      with addr False show ?thesis by (auto simp: Let_def)
    next
      case new
      then have "ni_key n \<notin> gm_keys by_key" "ni_addr n \<notin> gm_keys by_addr" by (metis gm_keys_lookup)+
      with new False show ?thesis by (auto simp: Cons.IH Let_def image_mem)
    qed
  qed
qed

definition inventory_ok :: "node_info list \<Rightarrow> prefix \<Rightarrow> bool" where
  "inventory_ok nodes cidr \<longleftrightarrow>
     validate_cidr cidr = None \<and> list_all (\<lambda>n. ni_id n \<noteq> []) nodes \<and> distinct (map ni_id nodes) \<and>
     (let r = filter node_ready nodes
      in distinct (map ni_key r) \<and> distinct (map ni_addr r) \<and> list_all (\<lambda>n. prefix_contains cidr (ni_addr n)) r)"

lemma validate_inventory_None: "validate_inventory nodes cidr = None \<longleftrightarrow> inventory_ok nodes cidr"
  by (auto simp: validate_inventory_def inventory_ok_def check_nodes_None Let_def list_all_iff split: option.splits)


lemma distinct_map_mset: "mset xs = mset ys \<Longrightarrow> distinct (map f (filter P xs)) = distinct (map f (filter P ys))"
  by (intro mset_eq_imp_distinct_iff) simp

lemma host_prefix_v4: "host_prefix (V4 v) = \<lparr>px_addr = V4 v, px_bits = 32\<rparr>"
  by (simp add: host_prefix_def prefix_from_def without_zone_def bit_len_def addr_valid_def)

lemma contains_v4: "validate_cidr cidr = None \<Longrightarrow> prefix_contains cidr a \<Longrightarrow> \<exists>v. a = V4 v"
  by (cases "px_addr cidr"; cases a) (auto simp: validate_cidr_def is_v4_def prefix_contains_def split: if_splits)

lemma inventory_ok_perm: "mset nodes = mset nodes' \<Longrightarrow> inventory_ok nodes cidr = inventory_ok nodes' cidr"
  using distinct_map_mset [of nodes nodes' ni_id "\<lambda>_. True"] distinct_map_mset [of nodes nodes' ni_key node_ready]
    distinct_map_mset [of nodes nodes' ni_addr node_ready] mset_eq_setD [of nodes nodes']
  by (simp add: inventory_ok_def Let_def list_all_iff)

section \<open>Plans\<close>

text \<open>Peers that a node ID determines are totally ordered by it, so their order does not depend
  on the sorting algorithm.\<close>

interpretation peer_order: strict_total "\<lambda>a b. pr_node a < pr_node b" "{p. g (pr_node p) = p}" for g
proof (standard, goal_cases)
  case (1 x y)
  from 1(3) show ?case by (rule less_not_sym)
next
  case (2 x y z)
  from 2(4,5) show ?case unfolding not_less by (rule order.trans [rotated])
next
  case (3 x y)
  then have g: "g (pr_node x) = x" "g (pr_node y) = y" by (simp_all only: mem_Collect_eq)
  have "pr_node x \<noteq> pr_node y"
  proof
    assume eq: "pr_node x = pr_node y"
    have "x = g (pr_node y)" using g(1) unfolding eq by (rule sym)
    from trans [OF this g(2)] show False by (rule notE [OF 3(3)])
  qed
  from neq_iff [THEN iffD1, OF this] show ?case .
qed

definition mesh_peers :: "plan_options \<Rightarrow> string \<Rightarrow> node_info list \<Rightarrow> peer_config list" where
  "mesh_peers opts self nodes = map (peer_of opts) (filter (\<lambda>m. \<not> (ni_id m = self \<or> \<not> node_ready m)) nodes)"

lemma find_by_id:
  "distinct (map ni_id ns) \<Longrightarrow> find (\<lambda>n. ni_id n = i) ns = Some n \<longleftrightarrow> n \<in> set ns \<and> ni_id n = i"
  by (induction ns) (auto simp: image_mem)

lemma peers_carrier:
  assumes "distinct (map ni_id nodes)"
  obtains g where "set (mesh_peers opts self nodes) \<subseteq> {p. g (pr_node p) = p}"
proof
  show "set (mesh_peers opts self nodes) \<subseteq> {p. (\<lambda>i. peer_of opts (the (find (\<lambda>n. ni_id n = i) nodes))) (pr_node p) = p}"
  proof
    fix p
    assume "p \<in> set (mesh_peers opts self nodes)"
    then obtain n where n: "n \<in> set nodes" "p = peer_of opts n" by (auto simp: mesh_peers_def)
    then have "find (\<lambda>m. ni_id m = ni_id n) nodes = Some n"
      using assms by (simp add: find_by_id)
    with n show "p \<in> {p. (\<lambda>i. peer_of opts (the (find (\<lambda>n. ni_id n = i) nodes))) (pr_node p) = p}"
      by (simp add: peer_of_def)
  qed
qed

lemma find_perm:
  assumes "distinct (map ni_id nodes)" and "mset nodes = mset nodes'"
  shows "find (\<lambda>n. ni_id n = i) nodes' = find (\<lambda>n. ni_id n = i) nodes"
proof -
  have "distinct (map ni_id nodes')" using assms distinct_map_mset [of nodes nodes' ni_id "\<lambda>_. True"] by simp
  then have *: "find (\<lambda>n. ni_id n = i) nodes' = Some n \<longleftrightarrow> find (\<lambda>n. ni_id n = i) nodes = Some n" for n
    using assms(1) mset_eq_setD [OF assms(2)] by (simp add: find_by_id)
  show ?thesis
  proof (cases "find (\<lambda>n. ni_id n = i) nodes'")
    case None
    with * show ?thesis by (metis option.exhaust)
  next
    case (Some n)
    then show ?thesis using *[of n] by simp
  qed
qed

lemma mesh_plan_Inr:
  "mesh_plan self nodes opts = Inr cfg \<longleftrightarrow>
     self \<noteq> [] \<and> inventory_ok nodes (po_cidr opts) \<and>
     (\<exists>n. find (\<lambda>n. ni_id n = self) nodes = Some n \<and>
        cfg = \<lparr>dc_node = self, dc_private = zero_key,
               dc_addr = (if addr_valid (ni_addr n) then prefix_from (ni_addr n) (px_bits (po_cidr opts)) else invalid_prefix),
               dc_port = opt_listen_port opts, dc_peers = sort_peers (mesh_peers opts self nodes)\<rparr>)"
  by (auto simp: mesh_plan_def mesh_peers_def simp flip: validate_inventory_None split: option.splits)

text \<open>
  C26: A plan peers a node with exactly the other ready nodes, in ID order, with pairwise different keys and
  allowed addresses, never with itself and with no private key in it, and it does not depend on the
  order of the inventory.
\<close>

theorem plan_is_full_mesh:
  assumes "mesh_plan self nodes opts = Inr cfg"
  shows "set (dc_peers cfg) = peer_of opts ` {n \<in> set nodes. node_ready n \<and> ni_id n \<noteq> self} \<and>
         sorted_wrt (<) (map pr_node (dc_peers cfg)) \<and>
         distinct (map pr_key (dc_peers cfg)) \<and> distinct (map pr_allowed (dc_peers cfg)) \<and>
         self \<notin> pr_node ` set (dc_peers cfg) \<and> dc_private cfg = zero_key \<and>
         (mset nodes' = mset nodes \<longrightarrow> mesh_plan self nodes' opts = Inr cfg)"
proof -
  let ?ps = "mesh_peers opts self nodes"
  obtain n where ok: "self \<noteq> []" "inventory_ok nodes (po_cidr opts)" "find (\<lambda>n. ni_id n = self) nodes = Some n"
    and cfg: "cfg = \<lparr>dc_node = self, dc_private = zero_key,
               dc_addr = (if addr_valid (ni_addr n) then prefix_from (ni_addr n) (px_bits (po_cidr opts)) else invalid_prefix),
               dc_port = opt_listen_port opts, dc_peers = sort_peers ?ps\<rparr>"
    using assms by (auto simp: mesh_plan_Inr)
  have ids: "distinct (map ni_id nodes)" and ready: "distinct (map ni_key (filter node_ready nodes))"
    "distinct (map ni_addr (filter node_ready nodes))"
    using ok(2) by (auto simp: inventory_ok_def Let_def)
  have sub: "distinct (map f (filter (\<lambda>m. \<not> (ni_id m = self \<or> \<not> node_ready m)) nodes))"
    if "distinct (map f (filter node_ready nodes))" for f :: "node_info \<Rightarrow> 'b"
    using distinct_map_filter [OF that, of "\<lambda>m. ni_id m \<noteq> self"] by (simp add: conj_commute)
  obtain g where g: "set ?ps \<subseteq> {p. g (pr_node p) = p}" using peers_carrier [OF ids] .
  have set: "set (sort_peers ?ps) = peer_of opts ` {n \<in> set nodes. node_ready n \<and> ni_id n \<noteq> self}"
    by (auto simp: sort_peers_def mesh_peers_def)
  have mset: "mset (map f (sort_peers ?ps)) = mset (map f ?ps)" for f :: "peer_config \<Rightarrow> 'c" by (simp add: sort_peers_def)
  have dist: "distinct (map f (sort_peers ?ps))" if "distinct (map (f \<circ> peer_of opts) (filter node_ready nodes))"
    for f :: "peer_config \<Rightarrow> 'c"
    using sub [OF that] mset_eq_imp_distinct_iff [OF mset [of f]] by (simp add: mesh_peers_def)
  have "\<exists>v. ni_addr n = V4 v" if "n \<in> set (filter node_ready nodes)" for n
    using ok(2) that contains_v4 by (auto simp: inventory_ok_def Let_def list_all_iff)
  then have "\<exists>v. a = V4 v" if "a \<in> set (map ni_addr (filter node_ready nodes))" for a
    using that by auto
  then have "inj_on (\<lambda>a. [host_prefix a]) (set (map ni_addr (filter node_ready nodes)))"
    by (intro inj_onI) (metis host_prefix_v4 list.inject prefix.select_convs(1))
  then have allowed: "distinct (map (\<lambda>a. [host_prefix a]) (map ni_addr (filter node_ready nodes)))"
    using ready(2) by (simp only: distinct_map)
  have f: "pr_key \<circ> peer_of opts = ni_key" "pr_node \<circ> peer_of opts = ni_id"
    "pr_allowed \<circ> peer_of opts = (\<lambda>a. [host_prefix a]) \<circ> ni_addr"
    by (auto simp: fun_eq_iff peer_of_def)
  have peers: "distinct (map pr_key (sort_peers ?ps))" "distinct (map pr_node (sort_peers ?ps))"
    "distinct (map pr_allowed (sort_peers ?ps))"
    by (rule dist, simp only: f ready(1) distinct_map_filter [OF ids] allowed [unfolded map_map])+
  have "sorted (map pr_node (sort_peers ?ps))"
    using peer_order.sorted_go_sort [OF g] by (simp add: sort_peers_def sorted_map not_less)
  then have "sorted_wrt (<) (map pr_node (sort_peers ?ps))" using peers(2) by (simp add: strict_sorted_iff)
  moreover have "mesh_plan self nodes' opts = Inr cfg" if m: "mset nodes' = mset nodes"
  proof -
    have "mset ?ps = mset (mesh_peers opts self nodes')" using m by (simp add: mesh_peers_def)
    from peer_order.go_sort_perm [OF g this]
    have "sort_peers (mesh_peers opts self nodes') = sort_peers ?ps" by (simp only: sort_peers_def)
    then show ?thesis
      using ok find_perm [OF ids m [symmetric], of self] inventory_ok_perm [OF m, of "po_cidr opts"]
      by (simp add: mesh_plan_Inr cfg)
  qed
  moreover have "self \<notin> pr_node ` set (sort_peers ?ps)" by (auto simp: set peer_of_def)
  ultimately show ?thesis using set peers(1,3) by (simp add: cfg)
qed


lemma find_unique: "x \<in> set xs \<Longrightarrow> P x \<Longrightarrow> \<forall>y \<in> set xs. P y \<longrightarrow> y = x \<Longrightarrow> find P xs = Some x"
proof (induction xs)
  case (Cons y xs)
  show ?case
  proof (cases "P y")
    case True
    moreover from this Cons.prems(3) have "y = x" by (meson list.set_intros(1))
    ultimately show ?thesis by (simp only: find.simps if_True)
  next
    case False
    with Cons.prems(1,2) have "x \<in> set xs" by (metis set_ConsD)
    with Cons.IH Cons.prems(2,3) have "find P xs = Some x" by (meson list.set_intros(2))
    with False show ?thesis by simp
  qed
qed simp

text \<open>On a valid inventory every node gets a plan, and two ready nodes are each other's peers.\<close>

lemma mesh_plan_total:
  assumes "inventory_ok nodes (po_cidr opts)" and "n \<in> set nodes"
  shows "\<exists>cfg. mesh_plan (ni_id n) nodes opts = Inr cfg"
proof -
  have "distinct (map ni_id nodes)" and ne: "ni_id n \<noteq> []"
    using assms by (simp_all add: inventory_ok_def list_all_iff)
  with assms(2) have "find (\<lambda>m. ni_id m = ni_id n) nodes = Some n" by (simp add: find_by_id)
  with assms(1) ne show ?thesis unfolding mesh_plan_Inr by blast
qed

lemma plan_each_all:
  assumes "inventory_ok nodes (po_cidr opts)" and "set ns \<subseteq> set nodes"
  shows "\<exists>m. plan_each nodes ns opts out = Inr m \<and>
           (\<forall>i. if i \<in> ni_id ` set ns then \<exists>cfg. map_of m i = Some cfg \<and> mesh_plan i nodes opts = Inr cfg
                else map_of m i = map_of out i)"
  using assms(2)
proof (induction ns arbitrary: out)
  case Nil
  then show ?case by simp
next
  case (Cons n ns)
  obtain cfg where cfg: "mesh_plan (ni_id n) nodes opts = Inr cfg"
    using mesh_plan_total [OF assms(1), of n] Cons.prems by auto
  have "set ns \<subseteq> set nodes" using Cons.prems by simp
  from Cons.IH [OF this, of "AList.update (ni_id n) cfg out"] obtain m where
    m: "plan_each nodes ns opts (AList.update (ni_id n) cfg out) = Inr m"
      "\<And>i. if i \<in> ni_id ` set ns then \<exists>cfg. map_of m i = Some cfg \<and> mesh_plan i nodes opts = Inr cfg
           else map_of m i = map_of (AList.update (ni_id n) cfg out) i" by blast
  have "if i \<in> ni_id ` set (n # ns) then \<exists>cfg. map_of m i = Some cfg \<and> mesh_plan i nodes opts = Inr cfg
        else map_of m i = map_of out i" for i
    using m(2) [of i] cfg by (auto split: if_splits)
  with m(1) cfg show ?case by auto
qed

text \<open>
  On an inventory that validates, planning every node succeeds, and any two ready nodes are peers of
  each other with the key, endpoint and single address of the inventory.
\<close>

theorem every_ready_pair_meshed:
  assumes "validate_inventory nodes (po_cidr opts) = None" and "a \<in> set nodes" and "b \<in> set nodes" and "a \<noteq> b"
    and "node_ready a" and "node_ready b"
  shows "\<exists>m ca cb. plan_all nodes opts = Inr m \<and> map_of m (ni_id a) = Some ca \<and> map_of m (ni_id b) = Some cb \<and>
           peer_by_node_id ca (ni_id b) = Some (peer_of opts b) \<and> peer_by_node_id cb (ni_id a) = Some (peer_of opts a)"
proof -
  have ok: "inventory_ok nodes (po_cidr opts)" using assms(1) by (simp add: validate_inventory_None)
  then have ids: "distinct (map ni_id nodes)" by (simp add: inventory_ok_def)
  with assms(2-4) have ne: "ni_id a \<noteq> ni_id b" by (auto simp: distinct_map dest: inj_onD)
  obtain m where m: "plan_each nodes nodes opts [] = Inr m"
    "\<And>i. i \<in> ni_id ` set nodes \<Longrightarrow> \<exists>cfg. map_of m i = Some cfg \<and> mesh_plan i nodes opts = Inr cfg"
    using plan_each_all [OF ok, of nodes "[]"] by (auto split: if_splits)
  have peer: "peer_by_node_id c (ni_id y) = Some (peer_of opts y)"
    if c: "mesh_plan (ni_id x) nodes opts = Inr c" and y: "y \<in> set nodes" "node_ready y" "ni_id x \<noteq> ni_id y" for x y c
  proof -
    have set: "set (dc_peers c) = peer_of opts ` {n \<in> set nodes. \<not> (ni_id n = ni_id x \<or> \<not> node_ready n)}"
      using c by (auto simp: mesh_plan_Inr sort_peers_def mesh_peers_def)
    have mem: "peer_of opts y \<in> set (dc_peers c)" using y unfolding set by auto
    have uniq: "p = peer_of opts y" if "p \<in> set (dc_peers c)" "pr_node p = ni_id y" for p
      using that ids y(1) unfolding set by (auto simp: peer_of_def distinct_map dest: inj_onD)
    have "pr_node (peer_of opts y) = ni_id y" by (simp add: peer_of_def)
    from find_unique [where P = "\<lambda>p. pr_node p = ni_id y", OF mem this] uniq
    show ?thesis unfolding peer_by_node_id_def by blast
  qed
  obtain ca cb where "map_of m (ni_id a) = Some ca" "mesh_plan (ni_id a) nodes opts = Inr ca"
    "map_of m (ni_id b) = Some cb" "mesh_plan (ni_id b) nodes opts = Inr cb"
    using m(2) [of "ni_id a"] m(2) [of "ni_id b"] assms(2,3) by auto
  then show ?thesis
    using m(1) assms ne peer [of a ca b] peer [of b cb a] by (simp add: plan_all_def)
qed

text \<open>A range with no network bits passes the validation but offers no address: \<open>1 << 32\<close> is 0
  in 32 bits.\<close>

lemma whole_range_allocates_nothing:
  "let cidr = prefix_from (V4 0) 0
   in validate_cidr cidr = None \<and> allocate_address cidr [] = Inl (No_address_available cidr)"
proof -
  have "validate_cidr (prefix_from (V4 0) 0) = None" by code_simp
  moreover have "host_count (prefix_from (V4 0) 0) = 0" by code_simp
  moreover have "first_free base 1 0 [] = None" for base by (subst first_free.simps) simp
  ultimately show ?thesis by (simp add: allocate_address_def Let_def)
qed


section \<open>Examples\<close>

definition ex_cidr :: prefix where
  "ex_cidr = prefix_from (V4 0x0AB50000) 16"

definition ex_node :: "string \<Rightarrow> 8 word \<Rightarrow> addr \<Rightarrow> node_info" where
  "ex_node i k a = \<lparr>ni_id = i, ni_name = i, ni_key = replicate 32 k, ni_endpoint = [], ni_addr = a\<rparr>"

definition ex_nodes :: "node_info list" where
  "ex_nodes = [ex_node ''a'' 1 (V4 0x0AB50001), ex_node ''b'' 2 (V4 0x0AB50002), ex_node ''c'' 3 No_addr]"

definition ex_options :: plan_options where
  "ex_options = \<lparr>po_cidr = ex_cidr, po_listen_port = 0, po_keepalive = 0\<rparr>"

lemma ex_cidr_ok: "validate_cidr ex_cidr = None" "0 < px_bits ex_cidr" "masked_addr ex_cidr = V4 0x0AB50000"
  "host_count ex_cidr = 0x10000"
  by code_simp+

lemma ex_allocate: "allocate_address ex_cidr [V4 0x0AB50001, V4 0x0AB50002] = Inr (V4 0x0AB50003)"
proof -
  have "first_free 0x0AB50000 3 0x10000 [V4 0x0AB50001, V4 0x0AB50002] = Some (V4 0x0AB50003)"
    by (subst first_free.simps) simp
  then have "first_free 0x0AB50000 2 0x10000 [V4 0x0AB50001, V4 0x0AB50002] = Some (V4 0x0AB50003)"
    by (subst first_free.simps) simp
  then have "first_free 0x0AB50000 1 0x10000 [V4 0x0AB50001, V4 0x0AB50002] = Some (V4 0x0AB50003)"
    by (subst first_free.simps) simp
  then show ?thesis by (simp add: allocate_address_def ex_cidr_ok as32_def)
qed

theorem lowest_address_allocated_witness:
  "allocate_address ex_cidr [V4 0x0AB50001, V4 0x0AB50002] = Inr (V4 0x0AB50003) \<and>
   prefix_contains ex_cidr (V4 0x0AB50003)"
  using lowest_address_allocated [OF ex_cidr_ok(1,2), of "[V4 0x0AB50001, V4 0x0AB50002]"] ex_allocate by simp

lemma ex_allocated:
  "allocate_addresses ex_nodes ex_cidr =
     Inr [ex_node ''a'' 1 (V4 0x0AB50001), ex_node ''b'' 2 (V4 0x0AB50002), ex_node ''c'' 3 (V4 0x0AB50003)]"
  using ex_allocate by (simp add: allocate_addresses_def ex_cidr_ok ex_nodes_def ex_node_def addr_valid_def)

theorem allocation_additive_witness:
  "distinct (map ni_addr [ex_node ''a'' 1 (V4 0x0AB50001), ex_node ''b'' 2 (V4 0x0AB50002), ex_node ''c'' 3 (V4 0x0AB50003)])"
  using allocation_additive [OF ex_cidr_ok(1,2) ex_allocated] by (simp add: ex_nodes_def ex_node_def addr_valid_def)

lemma ex_inventory: "validate_inventory ex_nodes (po_cidr ex_options) = None"
  by code_simp

lemma ex_plan: "\<exists>cfg. mesh_plan ''a'' ex_nodes ex_options = Inr cfg"
  using ex_inventory by (simp add: mesh_plan_def ex_nodes_def ex_node_def)

theorem plan_is_full_mesh_witness:
  "\<exists>cfg. mesh_plan ''a'' ex_nodes ex_options = Inr cfg \<and> mesh_plan ''a'' (rev ex_nodes) ex_options = Inr cfg \<and>
     ''a'' \<notin> pr_node ` set (dc_peers cfg)"
proof -
  obtain cfg where "mesh_plan ''a'' ex_nodes ex_options = Inr cfg" using ex_plan by blast
  with plan_is_full_mesh [OF this, of "rev ex_nodes"] show ?thesis by (metis mset_rev)
qed

theorem every_ready_pair_meshed_witness:
  "\<exists>m c. plan_all ex_nodes ex_options = Inr m \<and> map_of m ''a'' = Some c \<and>
     peer_by_node_id c ''b'' = Some (peer_of ex_options (ex_node ''b'' 2 (V4 0x0AB50002)))"
proof -
  have "node_ready (ex_node ''a'' 1 (V4 0x0AB50001))" "node_ready (ex_node ''b'' 2 (V4 0x0AB50002))" by code_simp+
  moreover have "ex_node ''a'' 1 (V4 0x0AB50001) \<noteq> ex_node ''b'' 2 (V4 0x0AB50002)" "ni_id (ex_node i k a) = i" for i k a
    by (simp_all add: ex_node_def)
  ultimately show ?thesis
    using every_ready_pair_meshed [OF ex_inventory, of "ex_node ''a'' 1 (V4 0x0AB50001)" "ex_node ''b'' 2 (V4 0x0AB50002)"]
    by (auto simp: ex_nodes_def)
qed

end
