(* ===== verification/Nodefailure.thy ===== *)
theory Nodefailure
  imports Prelude
begin

text \<open>
  The node failure policy, \<open>internal/nodefailure\<close>: what happens to the apps and databases of a node
  that stays silent (\<open>nodefailure.go\<close>, \<open>process.go\<close>) and what an operator may decide
  (\<open>operator.go\<close>).

  The platform behind the \<open>Executor\<close> interface is a parameter: a state of any type and a record of
  the calls on it.  The store is kept in the world: the nodes, the policies and the failure states
  by node, with the failures of the store's calls given by the environment.  Reasons are values
  that carry the data the code prints.  One pass over a node reads the clock once.
\<close>

section \<open>Data\<close>

datatype failure_mode = Mode_off | Mode_notify | Mode_auto

datatype failure_phase = Ph_unreachable | Ph_recovering | Ph_lost

datatype failure_class = Cl_reschedule | Cl_decision

datatype action_status = St_pending | St_moving | St_moved | St_fenced | St_waiting | St_failed

datatype failure_reason =
    Rs_none
  | Rs_no_heartbeat duration
  | Rs_marked_lost
  | Rs_policy failure_mode
  | Rs_database
  | Rs_volumes nat
  | Rs_stateless
  | Rs_no_target string
  | Rs_save_failed string
  | Rs_place_failed string
  | Rs_moved_to string
  | Rs_placed_back
  | Rs_fence_failed string
  | Rs_fenced
  | Rs_wait
  | Rs_restore string

record nf_resource =
  rs_kind :: string
  rs_name :: string
  rs_volumes :: "string list"

record failure_policy =
  fp_node :: string
  fp_mode :: "failure_mode option"
  fp_grace_seconds :: int

record failure_action =
  fa_kind :: string
  fa_name :: string
  fa_class :: failure_class
  fa_status :: action_status
  fa_target :: string
  fa_reason :: failure_reason

record failure_state =
  fs_node :: string
  fs_phase :: failure_phase
  fs_reason :: failure_reason
  fs_unreachable_at :: gotime
  fs_recovering_at :: "gotime option"
  fs_cordoned :: bool
  fs_actions :: "failure_action list"

record nf_node =
  nn_id :: string
  nn_pending :: bool
  nn_offline :: bool
  nn_last_seen :: "gotime option"
  nn_schedulable :: bool

record nf_config =
  nc_mode :: failure_mode
  nc_grace :: duration
  nc_recovery_hold :: duration
  nc_interval :: duration

text \<open>The environment is given as the parsed values it holds.\<close>

definition positive_or :: "duration option \<Rightarrow> duration \<Rightarrow> duration" where
  "positive_or v d = (case v of Some x \<Rightarrow> if x > 0 then x else d | None \<Rightarrow> d)"

definition nf_config_from_env ::
    "failure_mode option \<Rightarrow> duration option \<Rightarrow> duration option \<Rightarrow> duration option \<Rightarrow> nf_config" where
  "nf_config_from_env mode grace hold interval =
     \<lparr>nc_mode = (case mode of Some m \<Rightarrow> m | None \<Rightarrow> Mode_off),
      nc_grace = positive_or grace (5 * minute),
      nc_recovery_hold = positive_or hold (2 * minute),
      nc_interval = positive_or interval (15 * second)\<rparr>"

section \<open>The platform and the store\<close>

record 'p executor =
  ex_is_local :: "string \<Rightarrow> bool"
  ex_resources :: "string \<Rightarrow> 'p \<Rightarrow> string + nf_resource list"
  ex_node_of :: "string \<Rightarrow> string \<Rightarrow> 'p \<Rightarrow> string + string"
  ex_pick_target :: "nf_resource \<Rightarrow> string \<Rightarrow> bool \<Rightarrow> 'p \<Rightarrow> (string + string) \<times> 'p"
  ex_place :: "string \<Rightarrow> string \<Rightarrow> string \<Rightarrow> 'p \<Rightarrow> string option \<times> 'p"
  ex_fence :: "string \<Rightarrow> string \<Rightarrow> string \<Rightarrow> 'p \<Rightarrow> string option \<times> 'p"

datatype audit_action =
    Audit_unreachable | Audit_recovering | Audit_recovered | Audit_reschedule | Audit_fence | Audit_lost | Audit_resolve

record 'p nf_world =
  nw_nodes :: "nf_node list"
  nw_policies :: "(string, failure_policy) gomap"
  nw_states :: "(string, failure_state) gomap"
  nw_platform :: 'p
  nw_audit :: "(audit_action \<times> string list) list"

record 'p nf_env =
  ne_exec :: "'p executor"
  ne_cfg :: nf_config
  ne_now :: gotime
  ne_list_err :: "string option"
  ne_policy_err :: "string \<Rightarrow> string option"
  ne_state_err :: "string \<Rightarrow> string option"
  ne_save_err :: "failure_state \<Rightarrow> string option"
  ne_schedulable_err :: "string \<Rightarrow> string option"
  ne_delete_err :: "string \<Rightarrow> string option"

datatype nf_error =
    Nf_store string
  | Nf_list_resources string string
  | Nf_uncordon string string
  | Nf_node_not_found
  | Nf_node_healthy
  | Nf_no_failure
  | Nf_no_such_action
  | Nf_pick_target string
  | Nf_place string
  | Nf_unknown_action
  | Nf_panic

definition audit :: "audit_action \<Rightarrow> string list \<Rightarrow> 'p nf_world \<Rightarrow> 'p nf_world" where
  "audit a d w = w\<lparr>nw_audit := nw_audit w @ [(a, d)]\<rparr>"

definition get_policy :: "'p nf_env \<Rightarrow> string \<Rightarrow> 'p nf_world \<Rightarrow> nf_error + failure_policy" where
  "get_policy env i w =
     (case ne_policy_err env i of
        Some e \<Rightarrow> Inl (Nf_store e)
      | None \<Rightarrow>
          Inr (case map_of (nw_policies w) i of
                 Some p \<Rightarrow> p | None \<Rightarrow> \<lparr>fp_node = i, fp_mode = None, fp_grace_seconds = 0\<rparr>))"

definition get_state :: "'p nf_env \<Rightarrow> string \<Rightarrow> 'p nf_world \<Rightarrow> nf_error + failure_state option" where
  "get_state env i w =
     (case ne_state_err env i of Some e \<Rightarrow> Inl (Nf_store e) | None \<Rightarrow> Inr (map_of (nw_states w) i))"

definition save_state :: "'p nf_env \<Rightarrow> failure_state \<Rightarrow> 'p nf_world \<Rightarrow> string option \<times> 'p nf_world" where
  "save_state env st w =
     (case ne_save_err env st of
        Some e \<Rightarrow> (Some e, w)
      | None \<Rightarrow> (None, w\<lparr>nw_states := AList.update (fs_node st) st (nw_states w)\<rparr>))"

definition finish_save :: "'p nf_env \<Rightarrow> failure_state \<Rightarrow> 'p nf_world \<Rightarrow> nf_error option \<times> 'p nf_world" where
  "finish_save env st w = (let (e, w) = save_state env st w in (map_option Nf_store e, w))"

definition set_schedulable :: "'p nf_env \<Rightarrow> string \<Rightarrow> bool \<Rightarrow> 'p nf_world \<Rightarrow> string option \<times> 'p nf_world" where
  "set_schedulable env i b w =
     (case ne_schedulable_err env i of
        Some e \<Rightarrow> (Some e, w)
      | None \<Rightarrow> (None, w\<lparr>nw_nodes := map (\<lambda>n. if nn_id n = i then n\<lparr>nn_schedulable := b\<rparr> else n) (nw_nodes w)\<rparr>))"

definition delete_state :: "'p nf_env \<Rightarrow> string \<Rightarrow> 'p nf_world \<Rightarrow> nf_error option \<times> 'p nf_world" where
  "delete_state env i w =
     (case ne_delete_err env i of
        Some e \<Rightarrow> (Some (Nf_store e), w)
      | None \<Rightarrow> (None, w\<lparr>nw_states := AList.delete i (nw_states w)\<rparr>))"

definition get_node :: "string \<Rightarrow> 'p nf_world \<Rightarrow> nf_error + nf_node" where
  "get_node i w = (case find (\<lambda>n. nn_id n = i) (nw_nodes w) of Some n \<Rightarrow> Inr n | None \<Rightarrow> Inl Nf_node_not_found)"

section \<open>Policy and reachability\<close>

definition classify :: "nf_resource \<Rightarrow> failure_class \<times> failure_reason" where
  "classify r =
     (if rs_kind r = ''database'' then (Cl_decision, Rs_database)
      else if rs_volumes r \<noteq> [] then (Cl_decision, Rs_volumes (length (rs_volumes r)))
      else (Cl_reschedule, Rs_stateless))"

definition effective_policy :: "'p nf_env \<Rightarrow> string \<Rightarrow> 'p nf_world \<Rightarrow> nf_error + failure_mode \<times> duration" where
  "effective_policy env i w =
     (case get_policy env i w of
        Inl e \<Rightarrow> Inl e
      | Inr p \<Rightarrow>
          Inr ((case fp_mode p of Some m \<Rightarrow> m | None \<Rightarrow> nc_mode (ne_cfg env)),
               (if fp_grace_seconds p > 0 then i64_mul (fp_grace_seconds p) second else nc_grace (ne_cfg env))))"

definition silent_for :: "nf_node \<Rightarrow> gotime \<Rightarrow> duration option" where
  "silent_for n now = (case nn_last_seen n of None \<Rightarrow> None | Some t \<Rightarrow> Some (time_sub now t))"

definition unreachable :: "'p nf_env \<Rightarrow> nf_node \<Rightarrow> duration \<Rightarrow> bool" where
  "unreachable env n grace = (case silent_for n (ne_now env) of None \<Rightarrow> True | Some d \<Rightarrow> d > grace)"

section \<open>A failed node\<close>

definition resource_key :: "string \<Rightarrow> string \<Rightarrow> string" where
  "resource_key kind name = kind @ ''/'' @ name"

definition action_done :: "failure_action \<Rightarrow> bool" where
  "action_done a \<longleftrightarrow> fa_status a = St_moved \<or> fa_status a = St_fenced"

definition new_action :: "nf_resource \<Rightarrow> failure_action" where
  "new_action r =
     (let (class, reason) = classify r
      in \<lparr>fa_kind = rs_kind r, fa_name = rs_name r, fa_class = class, fa_status = St_pending, fa_target = [],
          fa_reason = reason\<rparr>)"

definition merge_actions :: "failure_action list \<Rightarrow> nf_resource list \<Rightarrow> failure_action list" where
  "merge_actions actions resources =
     (let on = set (map (\<lambda>r. resource_key (rs_kind r) (rs_name r)) resources);
          kept = filter (\<lambda>a. action_done a \<or> resource_key (fa_kind a) (fa_name a) \<in> on) actions;
          have_key = set (map (\<lambda>a. resource_key (fa_kind a) (fa_name a)) kept)
      in kept @ map new_action (filter (\<lambda>r. resource_key (rs_kind r) (rs_name r) \<notin> have_key) resources))"

definition set_action :: "nat \<Rightarrow> failure_action \<Rightarrow> failure_state \<Rightarrow> failure_state" where
  "set_action i a st = st\<lparr>fs_actions := (fs_actions st)[i := a]\<rparr>"

definition cordon :: "'p nf_env \<Rightarrow> nf_node \<Rightarrow> failure_state \<Rightarrow> 'p nf_world \<Rightarrow> failure_state \<times> 'p nf_world" where
  "cordon env n st w =
     (if \<not> nn_schedulable n \<or> fs_cordoned st then (st, w)
      else (case set_schedulable env (nn_id n) False w of
              (Some e, w) \<Rightarrow> (st, w)
            | (None, w) \<Rightarrow> (st\<lparr>fs_cordoned := True\<rparr>, w)))"

text \<open>The resource of an action: the last one listed with its kind and name.\<close>

definition action_resource :: "failure_action \<Rightarrow> nf_resource list \<Rightarrow> nf_resource" where
  "action_resource a resources =
     (case find (\<lambda>r. rs_kind r = fa_kind a \<and> rs_name r = fa_name a) (rev resources) of
        Some r \<Rightarrow> r
      | None \<Rightarrow> \<lparr>rs_kind = fa_kind a, rs_name = fa_name a, rs_volumes = []\<rparr>)"

definition commit_move ::
    "'p nf_env \<Rightarrow> string \<Rightarrow> nat \<Rightarrow> failure_action \<Rightarrow> string \<Rightarrow> failure_state \<Rightarrow> 'p nf_world \<Rightarrow>
     failure_state \<times> 'p nf_world" where
  "commit_move env node i a target st w =
     (let a = a\<lparr>fa_status := St_moving, fa_target := target\<rparr>;
          st = set_action i a st
      in case save_state env st w of
           (Some e, w) \<Rightarrow> (set_action i (a\<lparr>fa_status := St_failed, fa_reason := Rs_save_failed e\<rparr>) st, w)
         | (None, w) \<Rightarrow>
             (case ex_place (ne_exec env) (fa_kind a) (fa_name a) target (nw_platform w) of
                (Some e, p) \<Rightarrow>
                  (set_action i (a\<lparr>fa_status := St_failed, fa_reason := Rs_place_failed e\<rparr>) st,
                   audit Audit_reschedule [fa_kind a, fa_name a, node, target, e] (w\<lparr>nw_platform := p\<rparr>))
              | (None, p) \<Rightarrow>
                  (set_action i (a\<lparr>fa_status := St_moved, fa_reason := Rs_moved_to target\<rparr>) st,
                   audit Audit_reschedule [fa_kind a, fa_name a, node, target] (w\<lparr>nw_platform := p\<rparr>))))"

definition reschedule ::
    "'p nf_env \<Rightarrow> string \<Rightarrow> nf_resource list \<Rightarrow> nat \<Rightarrow> failure_state \<Rightarrow> 'p nf_world \<Rightarrow>
     failure_state \<times> 'p nf_world" where
  "reschedule env node resources i st w =
     (let a = fs_actions st ! i;
          elsewhere = (case ex_node_of (ne_exec env) (fa_kind a) (fa_name a) (nw_platform w) of
                         Inl _ \<Rightarrow> False | Inr cur \<Rightarrow> cur \<noteq> [] \<and> cur \<noteq> node)
      in if elsewhere then (set_action i (a\<lparr>fa_status := St_moved\<rparr>) st, w)
         else if fa_status a \<noteq> St_moving \<or> fa_target a = [] then
           (case ex_pick_target (ne_exec env) (action_resource a resources) node True (nw_platform w) of
              (Inl e, p) \<Rightarrow>
                (set_action i (a\<lparr>fa_status := St_failed, fa_reason := Rs_no_target e\<rparr>) st, w\<lparr>nw_platform := p\<rparr>)
            | (Inr target, p) \<Rightarrow> commit_move env node i a target st (w\<lparr>nw_platform := p\<rparr>))
         else commit_move env node i a (fa_target a) st w)"

fun reschedule_all ::
    "'p nf_env \<Rightarrow> string \<Rightarrow> nf_resource list \<Rightarrow> nat list \<Rightarrow> failure_state \<Rightarrow> 'p nf_world \<Rightarrow>
     failure_state \<times> 'p nf_world" where
  "reschedule_all env node resources [] st w = (st, w)"
| "reschedule_all env node resources (i # is) st w =
     (let a = fs_actions st ! i;
          (st, w) = (if fa_class a \<noteq> Cl_reschedule \<or> fa_status a = St_moved \<or> fa_status a = St_fenced then (st, w)
                     else reschedule env node resources i st w)
      in reschedule_all env node resources is st w)"

definition advance ::
    "'p nf_env \<Rightarrow> nf_node \<Rightarrow> failure_state \<Rightarrow> bool \<Rightarrow> 'p nf_world \<Rightarrow> nf_error option \<times> 'p nf_world" where
  "advance env n st act w =
     (case ex_resources (ne_exec env) (nn_id n) (nw_platform w) of
        Inl e \<Rightarrow> (Some (Nf_list_resources (nn_id n) e), w)
      | Inr resources \<Rightarrow>
          (let st = st\<lparr>fs_actions := merge_actions (fs_actions st) resources\<rparr>;
               (st, w) =
                 (if act then
                    (let (st, w) = cordon env n st w
                     in reschedule_all env (nn_id n) resources [0..<length (fs_actions st)] st w)
                  else (st, w))
           in finish_save env st w))"

section \<open>A node that is back\<close>

fun fence_all ::
    "'p nf_env \<Rightarrow> string \<Rightarrow> failure_action list \<Rightarrow> 'p nf_world \<Rightarrow>
     (failure_action list \<times> bool) \<times> 'p nf_world" where
  "fence_all env node [] w = (([], True), w)"
| "fence_all env node (a # as) w =
     (if fa_status a \<noteq> St_moved
      then (let ((as, ok), w) = fence_all env node as w in ((a # as, ok), w))
      else if ex_node_of (ne_exec env) (fa_kind a) (fa_name a) (nw_platform w) = Inr node
      then (let ((as, ok), w) = fence_all env node as w
            in ((a\<lparr>fa_status := St_fenced, fa_reason := Rs_placed_back\<rparr> # as, ok), w))
      else (case ex_fence (ne_exec env) (fa_kind a) (fa_name a) node (nw_platform w) of
              (Some e, p) \<Rightarrow>
                (let ((as, _), w) = fence_all env node as (w\<lparr>nw_platform := p\<rparr>)
                 in ((a\<lparr>fa_reason := Rs_fence_failed e\<rparr> # as, False), w))
            | (None, p) \<Rightarrow>
                (let ((as, ok), w) = fence_all env node as
                       (audit Audit_fence [fa_kind a, fa_name a, node] (w\<lparr>nw_platform := p\<rparr>))
                 in ((a\<lparr>fa_status := St_fenced, fa_reason := Rs_fenced\<rparr> # as, ok), w))))"

definition clear_failure :: "'p nf_env \<Rightarrow> nf_node \<Rightarrow> failure_state \<Rightarrow> 'p nf_world \<Rightarrow> nf_error option \<times> 'p nf_world" where
  "clear_failure env n st w =
     (case (if fs_cordoned st then set_schedulable env (nn_id n) True w else (None, w)) of
        (Some e, w) \<Rightarrow> (Some (Nf_uncordon (nn_id n) e), w)
      | (None, w) \<Rightarrow>
          (case delete_state env (nn_id n) w of
             (Some e, w) \<Rightarrow> (Some e, w)
           | (None, w) \<Rightarrow> (None, audit Audit_recovered [nn_id n] w)))"

definition note_recovery :: "'p nf_env \<Rightarrow> nf_node \<Rightarrow> failure_state \<Rightarrow> 'p nf_world \<Rightarrow> failure_state \<times> 'p nf_world" where
  "note_recovery env n st w =
     (if fs_phase st \<noteq> Ph_recovering
      then (st\<lparr>fs_phase := Ph_recovering, fs_recovering_at := Some (ne_now env)\<rparr>, audit Audit_recovering [nn_id n] w)
      else (st, w))"

definition settle_recovery ::
    "'p nf_env \<Rightarrow> nf_node \<Rightarrow> bool \<Rightarrow> failure_state \<Rightarrow> 'p nf_world \<Rightarrow> nf_error option \<times> 'p nf_world" where
  "settle_recovery env n all_fenced st w =
     (if all_fenced then
        (case fs_recovering_at st of
           None \<Rightarrow> (Some Nf_panic, w)
         | Some t \<Rightarrow>
             if time_sub (ne_now env) t \<ge> nc_recovery_hold (ne_cfg env) then clear_failure env n st w
             else finish_save env st w)
      else finish_save env st w)"

definition node_healthy :: "'p nf_env \<Rightarrow> nf_node \<Rightarrow> failure_state \<Rightarrow> 'p nf_world \<Rightarrow> nf_error option \<times> 'p nf_world" where
  "node_healthy env n st w =
     (let ((actions, all_fenced), w) = fence_all env (nn_id n) (fs_actions st) w;
          (st, w) = note_recovery env n (st\<lparr>fs_actions := actions\<rparr>) w
      in settle_recovery env n all_fenced st w)"

section \<open>The tick\<close>

definition process_node :: "'p nf_env \<Rightarrow> nf_node \<Rightarrow> 'p nf_world \<Rightarrow> nf_error option \<times> 'p nf_world" where
  "process_node env n w =
     (case effective_policy env (nn_id n) w of
        Inl e \<Rightarrow> (Some e, w)
      | Inr (mode, grace) \<Rightarrow>
          (case get_state env (nn_id n) w of
             Inl e \<Rightarrow> (Some e, w)
           | Inr st \<Rightarrow>
               if \<not> unreachable env n grace then
                 (case st of None \<Rightarrow> (None, w) | Some st \<Rightarrow> node_healthy env n st w)
               else
                 (case st of
                    None \<Rightarrow>
                      if mode = Mode_off then (None, w)
                      else
                        (let since = (case nn_last_seen n of Some t \<Rightarrow> t | None \<Rightarrow> ne_now env);
                             st = \<lparr>fs_node = nn_id n, fs_phase = Ph_unreachable, fs_reason = Rs_no_heartbeat grace,
                                   fs_unreachable_at = since, fs_recovering_at = None, fs_cordoned = False,
                                   fs_actions = []\<rparr>
                         in advance env n st (mode = Mode_auto) (audit Audit_unreachable [nn_id n] w))
                  | Some st \<Rightarrow>
                      (let (st, w) = (if fs_phase st = Ph_recovering
                                      then (st\<lparr>fs_phase := Ph_unreachable, fs_recovering_at := None\<rparr>,
                                            audit Audit_unreachable [nn_id n] w)
                                      else (st, w))
                       in advance env n st (mode = Mode_auto \<or> fs_phase st = Ph_lost) w))))"

fun tick_nodes :: "'p nf_env \<Rightarrow> nf_node list \<Rightarrow> 'p nf_world \<Rightarrow> 'p nf_world" where
  "tick_nodes env [] w = w"
| "tick_nodes env (n # ns) w =
     tick_nodes env ns
       (if ex_is_local (ne_exec env) (nn_id n) \<or> nn_pending n then w else snd (process_node env n w))"

definition tick :: "'p nf_env \<Rightarrow> 'p nf_world \<Rightarrow> 'p nf_world" where
  "tick env w = (case ne_list_err env of Some _ \<Rightarrow> w | None \<Rightarrow> tick_nodes env (nw_nodes w) w)"

section \<open>What an operator sees and decides\<close>

datatype status_phase = Sp_none | Sp_grace | Sp_phase failure_phase

record nf_status =
  ns_node :: string
  ns_mode :: failure_mode
  ns_grace_seconds :: int
  ns_phase :: status_phase
  ns_silent_seconds :: int
  ns_grace_remaining_seconds :: int
  ns_reason :: failure_reason
  ns_unreachable_at :: "gotime option"
  ns_consequences :: "failure_action list"
  ns_policy :: failure_policy
  ns_state :: "failure_state option"

text \<open>The plan that would run now: targets are picked without committing.\<close>

fun preview_actions :: "'p nf_env \<Rightarrow> string \<Rightarrow> nf_resource list \<Rightarrow> 'p nf_world \<Rightarrow> failure_action list \<times> 'p nf_world" where
  "preview_actions env node [] w = ([], w)"
| "preview_actions env node (r # rs) w =
     (let a = new_action r;
          (a, w) =
            (if fa_class a = Cl_reschedule then
               (case ex_pick_target (ne_exec env) r node False (nw_platform w) of
                  (Inl e, p) \<Rightarrow> (a\<lparr>fa_reason := Rs_no_target e\<rparr>, w\<lparr>nw_platform := p\<rparr>)
                | (Inr target, p) \<Rightarrow> (a\<lparr>fa_target := target\<rparr>, w\<lparr>nw_platform := p\<rparr>))
             else (a, w));
          (as, w) = preview_actions env node rs w
      in (a # as, w))"

definition preview :: "'p nf_env \<Rightarrow> string \<Rightarrow> 'p nf_world \<Rightarrow> (nf_error + failure_action list) \<times> 'p nf_world" where
  "preview env node w =
     (case ex_resources (ne_exec env) node (nw_platform w) of
        Inl e \<Rightarrow> (Inl (Nf_list_resources node e), w)
      | Inr resources \<Rightarrow> (let (as, w) = preview_actions env node resources w in (Inr as, w)))"

definition seconds_of :: "duration \<Rightarrow> int" where
  "seconds_of d = d sdiv second"

definition status_for :: "'p nf_env \<Rightarrow> nf_node \<Rightarrow> 'p nf_world \<Rightarrow> (nf_error + nf_status) \<times> 'p nf_world" where
  "status_for env n w =
     (case (effective_policy env (nn_id n) w, get_policy env (nn_id n) w, get_state env (nn_id n) w) of
        (Inl e, _, _) \<Rightarrow> (Inl e, w)
      | (_, Inl e, _) \<Rightarrow> (Inl e, w)
      | (_, _, Inl e) \<Rightarrow> (Inl e, w)
      | (Inr (mode, grace), Inr pol, Inr st) \<Rightarrow>
          (let silent = silent_for n (ne_now env);
               elapsed = (case silent of None \<Rightarrow> 0 | Some d \<Rightarrow> d);
               local' = (ex_is_local (ne_exec env) (nn_id n) \<or> nn_pending n);
               down = (\<not> local' \<and> unreachable env n grace);
               out = \<lparr>ns_node = nn_id n, ns_mode = mode, ns_grace_seconds = seconds_of grace, ns_phase = Sp_none,
                      ns_silent_seconds = seconds_of elapsed, ns_grace_remaining_seconds = 0, ns_reason = Rs_none,
                      ns_unreachable_at = None, ns_consequences = [], ns_policy = pol, ns_state = st\<rparr>;
               out = (case st of
                        Some s \<Rightarrow> out\<lparr>ns_phase := Sp_phase (fs_phase s), ns_reason := fs_reason s,
                                     ns_consequences := fs_actions s, ns_unreachable_at := Some (fs_unreachable_at s)\<rparr>
                      | None \<Rightarrow>
                          if down then out\<lparr>ns_phase := Sp_phase Ph_unreachable, ns_reason := Rs_policy mode\<rparr>
                          else if \<not> local' \<and> nn_offline n then
                            out\<lparr>ns_phase := Sp_grace,
                                ns_grace_remaining_seconds := (let rem = i64_sub grace elapsed
                                                               in if rem > 0 then seconds_of rem else 0)\<rparr>
                          else out)
           in if st = None \<and> ns_phase out \<noteq> Sp_none then
                (case preview env (nn_id n) w of
                   (Inl e, w) \<Rightarrow> (Inl e, w)
                 | (Inr as, w) \<Rightarrow> (Inr (out\<lparr>ns_consequences := as\<rparr>), w))
              else (Inr out, w)))"

definition node_status :: "'p nf_env \<Rightarrow> string \<Rightarrow> 'p nf_world \<Rightarrow> (nf_error + nf_status) \<times> 'p nf_world" where
  "node_status env i w = (case get_node i w of Inl e \<Rightarrow> (Inl e, w) | Inr n \<Rightarrow> status_for env n w)"

definition mark_lost :: "'p nf_env \<Rightarrow> string \<Rightarrow> bool \<Rightarrow> 'p nf_world \<Rightarrow> (nf_error + nf_status) \<times> 'p nf_world" where
  "mark_lost env i dry_run w =
     (case get_node i w of
        Inl e \<Rightarrow> (Inl e, w)
      | Inr n \<Rightarrow>
          (case effective_policy env i w of
             Inl e \<Rightarrow> (Inl e, w)
           | Inr (_, grace) \<Rightarrow>
               if \<not> unreachable env n grace \<and> \<not> nn_offline n then (Inl Nf_node_healthy, w)
               else if dry_run then
                 (case preview env i w of
                    (Inl e, w) \<Rightarrow> (Inl e, w)
                  | (Inr plan, w) \<Rightarrow>
                      (case status_for env n w of
                         (Inl e, w) \<Rightarrow> (Inl e, w)
                       | (Inr s, w) \<Rightarrow> (Inr (s\<lparr>ns_consequences := plan\<rparr>), w)))
               else
                 (case get_state env i w of
                    Inl e \<Rightarrow> (Inl e, w)
                  | Inr st \<Rightarrow>
                      (let since = (case nn_last_seen n of Some t \<Rightarrow> t | None \<Rightarrow> ne_now env);
                           st = (case st of
                                   Some st \<Rightarrow> st
                                 | None \<Rightarrow> \<lparr>fs_node = i, fs_phase = Ph_lost, fs_reason = Rs_none, fs_unreachable_at = since,
                                            fs_recovering_at = None, fs_cordoned = False, fs_actions = []\<rparr>);
                           st = st\<lparr>fs_phase := Ph_lost, fs_recovering_at := None, fs_reason := Rs_marked_lost\<rparr>
                       in case advance env n st True (audit Audit_lost [i] w) of
                            (Some e, w) \<Rightarrow> (Inl e, w)
                          | (None, w) \<Rightarrow> status_for env n w))))"

datatype resolution = Resolve_wait | Resolve_restore | Resolve_other string

definition last_index_of :: "('a \<Rightarrow> bool) \<Rightarrow> 'a list \<Rightarrow> nat option" where
  "last_index_of P xs = find (\<lambda>i. P (xs ! i)) (rev [0..<length xs])"

definition resolve_restore ::
    "'p nf_env \<Rightarrow> string \<Rightarrow> string \<Rightarrow> string \<Rightarrow> string \<Rightarrow> nat \<Rightarrow> failure_state \<Rightarrow> 'p nf_world \<Rightarrow>
     (nf_error + failure_state \<times> string) \<times> 'p nf_world" where
  "resolve_restore env i kind name target k st w =
     (let (picked, w) =
        (if target = [] then
           (case ex_pick_target (ne_exec env) \<lparr>rs_kind = kind, rs_name = name, rs_volumes = []\<rparr> i True (nw_platform w) of
              (r, p) \<Rightarrow> (r, w\<lparr>nw_platform := p\<rparr>))
         else (Inr target, w))
      in case picked of
           Inl e \<Rightarrow> (Inl (Nf_pick_target e), w)
         | Inr target \<Rightarrow>
             (case ex_place (ne_exec env) kind name target (nw_platform w) of
                (Some e, p) \<Rightarrow> (Inl (Nf_place e), w\<lparr>nw_platform := p\<rparr>)
              | (None, p) \<Rightarrow>
                  (Inr (set_action k ((fs_actions st ! k)\<lparr>fa_status := St_moved, fa_target := target,
                                                         fa_reason := Rs_restore target\<rparr>) st, target),
                   w\<lparr>nw_platform := p\<rparr>)))"

definition resolve_failure ::
    "'p nf_env \<Rightarrow> string \<Rightarrow> string \<Rightarrow> string \<Rightarrow> resolution \<Rightarrow> string \<Rightarrow> 'p nf_world \<Rightarrow>
     (nf_error + nf_status) \<times> 'p nf_world" where
  "resolve_failure env i kind name action target w =
     (case (get_node i w, get_state env i w) of
        (Inl e, _) \<Rightarrow> (Inl e, w)
      | (_, Inl e) \<Rightarrow> (Inl e, w)
      | (_, Inr None) \<Rightarrow> (Inl Nf_no_failure, w)
      | (Inr n, Inr (Some st)) \<Rightarrow>
          if fs_phase st = Ph_recovering then (Inl Nf_no_failure, w)
          else
            (case last_index_of (\<lambda>a. fa_kind a = kind \<and> fa_name a = name) (fs_actions st) of
               None \<Rightarrow> (Inl Nf_no_such_action, w)
             | Some k \<Rightarrow>
                 (let (r, w) =
                    (case action of
                       Resolve_wait \<Rightarrow>
                         (Inr (set_action k ((fs_actions st ! k)\<lparr>fa_status := St_waiting, fa_reason := Rs_wait\<rparr>) st,
                               target), w)
                     | Resolve_restore \<Rightarrow> resolve_restore env i kind name target k st w
                     | Resolve_other _ \<Rightarrow> (Inl Nf_unknown_action, w))
                  in case r of
                       Inl e \<Rightarrow> (Inl e, w)
                     | Inr (st, target) \<Rightarrow>
                         (case save_state env st (audit Audit_resolve [kind, name, i, target] w) of
                            (Some e, w) \<Rightarrow> (Inl (Nf_store e), w)
                          | (None, w) \<Rightarrow> status_for env n w))))"

definition set_policy :: "failure_policy \<Rightarrow> 'p nf_world \<Rightarrow> nf_error option \<times> 'p nf_world" where
  "set_policy p w =
     (case get_node (fp_node p) w of
        Inl e \<Rightarrow> (Some e, w)
      | Inr _ \<Rightarrow> (None, w\<lparr>nw_policies := AList.update (fp_node p) p (nw_policies w)\<rparr>))"

section \<open>The failure states of every reachable world\<close>

definition action_ok :: "failure_action \<Rightarrow> bool" where
  "action_ok a \<longleftrightarrow> (fa_kind a = ''database'' \<longrightarrow> fa_class a = Cl_decision)"

definition state_ok :: "failure_state \<Rightarrow> bool" where
  "state_ok st \<longleftrightarrow>
     (fs_phase st = Ph_recovering \<longleftrightarrow> fs_recovering_at st \<noteq> None) \<and> list_all action_ok (fs_actions st)"

definition world_ok :: "'p nf_world \<Rightarrow> bool" where
  "world_ok w \<longleftrightarrow> (\<forall>i st. map_of (nw_states w) i = Some st \<longrightarrow> fs_node st = i \<and> state_ok st)"

text \<open>What the loops over the actions leave alone.\<close>

definition action_id :: "failure_action \<Rightarrow> string \<times> string \<times> failure_class" where
  "action_id a = (fa_kind a, fa_name a, fa_class a)"

definition same_shape :: "failure_state \<Rightarrow> failure_state \<Rightarrow> bool" where
  "same_shape st st' \<longleftrightarrow>
     fs_node st' = fs_node st \<and> fs_phase st' = fs_phase st \<and> fs_recovering_at st' = fs_recovering_at st \<and>
     map action_id (fs_actions st') = map action_id (fs_actions st)"

lemma same_shape_refl [simp]: "same_shape st st"
  by (simp add: same_shape_def)

lemma same_shape_trans: "same_shape a b \<Longrightarrow> same_shape b c \<Longrightarrow> same_shape a c"
  by (simp add: same_shape_def)

lemma same_shape_set:
  "same_shape st st' \<Longrightarrow> i < length (fs_actions st') \<Longrightarrow> action_id a = action_id (fs_actions st' ! i) \<Longrightarrow>
   same_shape st (set_action i a st')"
  by (simp add: same_shape_def set_action_def map_update) (metis list_update_id map_update)

lemma action_ok_id: "action_id a = action_id b \<Longrightarrow> action_ok a = action_ok b"
  by (simp add: action_id_def action_ok_def)

lemma same_shape_ok: "same_shape st st' \<Longrightarrow> state_ok st' = state_ok st"
proof -
  assume s: "same_shape st st'"
  have "list_all action_ok as = list_all (\<lambda>(k, n, c). k = ''database'' \<longrightarrow> c = Cl_decision) (map action_id as)" for as
    by (induction as) (auto simp: action_ok_def action_id_def)
  with s show ?thesis by (simp add: same_shape_def state_ok_def)
qed

lemma same_shape_length: "same_shape st st' \<Longrightarrow> length (fs_actions st') = length (fs_actions st)"
  unfolding same_shape_def by (metis length_map)

lemma same_shape_id: "same_shape st st' \<Longrightarrow> i < length (fs_actions st) \<Longrightarrow> action_id (fs_actions st' ! i) = action_id (fs_actions st ! i)"
  unfolding same_shape_def by (metis length_map nth_map)

lemma world_ok_cong: "nw_states w' = nw_states w \<Longrightarrow> world_ok w' = world_ok w"
  by (simp add: world_ok_def)

lemma save_state_ok:
  "world_ok w \<Longrightarrow> state_ok st \<Longrightarrow> world_ok (snd (save_state env st w))"
  by (simp add: save_state_def world_ok_def split: option.splits)

lemma finish_save_ok:
  "world_ok w \<Longrightarrow> state_ok st \<Longrightarrow> world_ok (snd (finish_save env st w))"
  using save_state_ok by (simp add: finish_save_def Let_def case_prod_beta)

lemma audit_states [simp]: "nw_states (audit a d w) = nw_states w" "nw_platform (audit a d w) = nw_platform w"
  by (simp_all add: audit_def)

lemma commit_move_ok:
  assumes "world_ok w" and "state_ok st" and "i < length (fs_actions st)" and "a = fs_actions st ! i"
    and "commit_move env node i a target st w = (st', w')"
  shows "same_shape st st' \<and> world_ok w'"
proof -
  let ?a = "a\<lparr>fa_status := St_moving, fa_target := target\<rparr>"
  have id: "action_id (?a\<lparr>fa_status := s, fa_reason := r\<rparr>) = action_id a" "action_id ?a = action_id a" for s r
    by (simp_all add: action_id_def)
  have s1: "same_shape st (set_action i ?a st)"
    using assms(3,4) id by (intro same_shape_set) auto
  then have s2: "same_shape st (set_action i (?a\<lparr>fa_status := s, fa_reason := r\<rparr>) (set_action i ?a st))" for s r
    using assms(3,4) id by (intro same_shape_set) (auto simp: set_action_def)
  have "world_ok (snd (save_state env (set_action i ?a st) w))"
    using save_state_ok assms(1,2) same_shape_ok [OF s1] by blast
  then show ?thesis
    using assms(5) s2 unfolding commit_move_def Let_def
    by (auto split: prod.splits option.splits elim!: world_ok_cong [THEN iffD1, rotated])
qed

lemma reschedule_ok:
  assumes "world_ok w" and "state_ok st" and "i < length (fs_actions st)"
    and "reschedule env node rs i st w = (st', w')"
  shows "same_shape st st' \<and> world_ok w'"
proof -
  let ?a = "fs_actions st ! i"
  have s: "same_shape st (set_action i (?a\<lparr>fa_status := s\<rparr>) st)" "same_shape st (set_action i (?a\<lparr>fa_status := s, fa_reason := r\<rparr>) st)"
    for s r using assms(3) by (intro same_shape_set; simp add: action_id_def)+
  have w: "world_ok (w\<lparr>nw_platform := p\<rparr>)" for p using assms(1) by (simp add: world_ok_def)
  note cm = commit_move_ok [OF _ assms(2,3) refl]
  show ?thesis
    using assms(4) s w cm [OF w] cm [OF assms(1)] assms(1) unfolding reschedule_def Let_def
    by (auto split: if_splits sum.splits prod.splits)
qed

lemma reschedule_all_ok:
  assumes "world_ok w" and "state_ok st" and "\<forall>i \<in> set is. i < length (fs_actions st)"
    and "reschedule_all env node rs is st w = (st', w')"
  shows "same_shape st st' \<and> world_ok w'"
  using assms
proof (induction "is" arbitrary: st w)
  case Nil
  then show ?case by simp
next
  case (Cons i "is")
  let ?skip = "fa_class (fs_actions st ! i) \<noteq> Cl_reschedule \<or> fa_status (fs_actions st ! i) = St_moved \<or>
    fa_status (fs_actions st ! i) = St_fenced"
  obtain st1 w1 where one: "(if ?skip then (st, w) else reschedule env node rs i st w) = (st1, w1)"
    by (cases "if ?skip then (st, w) else reschedule env node rs i st w")
  have "same_shape st st1 \<and> world_ok w1"
    using one reschedule_ok [OF Cons.prems(1,2), of i env node rs st1 w1] Cons.prems(1,3)
    by (cases ?skip) simp_all
  moreover from this have "state_ok st1" "\<forall>i \<in> set is. i < length (fs_actions st1)"
    using Cons.prems(2,3) same_shape_ok same_shape_length by (blast, force)
  moreover have "reschedule_all env node rs is st1 w1 = (st', w')"
    using Cons.prems(4) one by (simp only: reschedule_all.simps Let_def) simp
  ultimately show ?case using Cons.IH same_shape_trans by blast
qed


lemma new_action_ok: "action_ok (new_action r)"
  by (auto simp: new_action_def classify_def action_ok_def Let_def split: prod.splits if_splits)

lemma merge_actions_ok: "list_all action_ok as \<Longrightarrow> list_all action_ok (merge_actions as rs)"
  by (auto simp: merge_actions_def Let_def list_all_iff new_action_ok)

lemma set_schedulable_states: "nw_states (snd (set_schedulable env i b w)) = nw_states w"
  by (simp add: set_schedulable_def split: option.splits)

lemma cordon_shape: "same_shape st (fst (cordon env n st w))" "nw_states (snd (cordon env n st w)) = nw_states w"
  using set_schedulable_states [of env "nn_id n" False w]
  by (auto simp: cordon_def same_shape_def split: option.splits prod.splits)

lemma advance_ok:
  assumes "world_ok w" and "state_ok st"
  shows "world_ok (snd (advance env n st act w))"
proof (cases "ex_resources (ne_exec env) (nn_id n) (nw_platform w)")
  case (Inl e)
  then show ?thesis using assms(1) by (simp add: advance_def)
next
  case (Inr rs)
  let ?st = "st\<lparr>fs_actions := merge_actions (fs_actions st) rs\<rparr>"
  have st: "state_ok ?st" using assms(2) by (simp add: state_ok_def merge_actions_ok)
  show ?thesis
  proof (cases act)
    case False
    with Inr st assms(1) show ?thesis by (simp add: advance_def finish_save_ok)
  next
    case True
    obtain st1 w1 where c: "cordon env n ?st w = (st1, w1)" by (cases "cordon env n ?st w")
    then have s1: "same_shape ?st st1" "world_ok w1"
      using cordon_shape [where st = ?st and env = env and n = n and w = w] assms(1) world_ok_cong [of w1 w] by simp_all
    then have ok1: "state_ok st1" using st same_shape_ok by blast
    obtain st2 w2 where r: "reschedule_all env (nn_id n) rs [0..<length (fs_actions st1)] st1 w1 = (st2, w2)"
      by (cases "reschedule_all env (nn_id n) rs [0..<length (fs_actions st1)] st1 w1")
    have "same_shape st1 st2 \<and> world_ok w2"
      using reschedule_all_ok [OF s1(2) ok1 _ r] by simp
    then have "state_ok st2" "world_ok w2" using ok1 same_shape_ok by blast+
    then show ?thesis using Inr True c r by (simp add: advance_def Let_def finish_save_ok)
  qed
qed

lemma fence_all_shape:
  "map action_id (fst (fst (fence_all env node as w))) = map action_id as \<and>
   nw_states (snd (fence_all env node as w)) = nw_states w"
proof (induction as arbitrary: w)
  case Nil
  then show ?case by simp
next
  case (Cons a as)
  have id: "action_id (a\<lparr>fa_status := s, fa_reason := r\<rparr>) = action_id a" "action_id (a\<lparr>fa_reason := r\<rparr>) = action_id a"
    for s r by (simp_all add: action_id_def)
  have plat: "nw_states (w\<lparr>nw_platform := p\<rparr>) = nw_states w" for p by simp
  show ?case
    using Cons.IH [of w] Cons.IH [of "w\<lparr>nw_platform := p\<rparr>" for p]
      Cons.IH [of "audit d x (w\<lparr>nw_platform := p\<rparr>)" for d x p]
    by (auto simp: Let_def case_prod_beta id split: option.splits)
qed

lemma clear_failure_ok: "world_ok w \<Longrightarrow> world_ok (snd (clear_failure env n st w))"
proof -
  assume w: "world_ok w"
  have d: "world_ok v \<Longrightarrow> world_ok (snd (delete_state env (nn_id n) v))" for v
    by (auto simp: delete_state_def world_ok_def split: option.splits if_splits)
  obtain e w1 where 1: "(if fs_cordoned st then set_schedulable env (nn_id n) True w else (None, w)) = (e, w1)"
    by (metis prod.exhaust)
  then have "nw_states w1 = nw_states w"
    using set_schedulable_states [of env "nn_id n" True w] by (simp split: if_splits)
  then have w1: "world_ok w1" using w world_ok_cong by blast
  obtain e2 w2 where 2: "delete_state env (nn_id n) w1 = (e2, w2)" by (metis prod.exhaust)
  then have "world_ok w2" using d [OF w1] by simp
  then have "world_ok (audit a x w2)" for a x using world_ok_cong [of "audit a x w2" w2] by simp
  then show ?thesis
    using w1 \<open>world_ok w2\<close> unfolding clear_failure_def 1 by (simp add: 2 split: option.splits)
qed

lemma note_recovery_ok:
  "state_ok st \<Longrightarrow> state_ok (fst (note_recovery env n st w)) \<and> fs_recovering_at (fst (note_recovery env n st w)) \<noteq> None"
  "nw_states (snd (note_recovery env n st w)) = nw_states w"
  "nw_platform (snd (note_recovery env n st w)) = nw_platform w"
  by (auto simp: note_recovery_def state_ok_def)

lemma settle_recovery_ok:
  assumes "world_ok w" and "state_ok st" and "fs_recovering_at st \<noteq> None"
  shows "world_ok (snd (settle_recovery env n ok st w))" and "fst (settle_recovery env n ok st w) \<noteq> Some Nf_panic"
proof -
  have "fst (finish_save env st w) \<noteq> Some Nf_panic" "fst (clear_failure env n st w) \<noteq> Some Nf_panic"
    by (auto simp: finish_save_def clear_failure_def delete_state_def Let_def split: prod.splits option.splits if_splits)
  with assms show "world_ok (snd (settle_recovery env n ok st w))" "fst (settle_recovery env n ok st w) \<noteq> Some Nf_panic"
    by (auto simp: settle_recovery_def finish_save_ok clear_failure_ok split: if_splits)
qed

lemma node_healthy_ok:
  assumes "world_ok w" and "state_ok st"
  shows "world_ok (snd (node_healthy env n st w))" and "fst (node_healthy env n st w) \<noteq> Some Nf_panic"
proof -
  obtain as ok w1 where f: "fence_all env (nn_id n) (fs_actions st) w = ((as, ok), w1)"
    by (metis prod.exhaust)
  let ?st = "st\<lparr>fs_actions := as\<rparr>"
  have shape: "same_shape st ?st" and w1: "world_ok w1"
    using fence_all_shape [of env "nn_id n" "fs_actions st" w] f world_ok_cong [of w1 w] assms(1)
    by (simp_all add: same_shape_def)
  then have st: "state_ok ?st" using assms(2) same_shape_ok by blast
  obtain st2 w2 where r: "note_recovery env n ?st w1 = (st2, w2)" by (metis prod.exhaust)
  then have "state_ok st2" "fs_recovering_at st2 \<noteq> None" "world_ok w2"
    using note_recovery_ok(1) [OF st, of env n w1] note_recovery_ok(2) [of env n ?st w1] w1 world_ok_cong [of w2 w1] by simp_all
  from settle_recovery_ok [OF this(3,1,2)]
  show "world_ok (snd (node_healthy env n st w))" "fst (node_healthy env n st w) \<noteq> Some Nf_panic"
    by (simp_all add: node_healthy_def f r)
qed

lemma advance_no_panic: "fst (advance env n st act w) \<noteq> Some Nf_panic"
  by (auto simp: advance_def finish_save_def Let_def split: sum.splits prod.splits)

lemma process_ok:
  assumes "world_ok w"
  shows "world_ok (snd (process_node env n w))" and "fst (process_node env n w) \<noteq> Some Nf_panic"
proof -
  have st: "state_ok st" if "get_state env (nn_id n) w = Inr (Some st)" for st
    using that assms by (auto simp: get_state_def world_ok_def split: option.splits)
  have reset: "state_ok (st\<lparr>fs_phase := Ph_unreachable, fs_recovering_at := None\<rparr>)" if "state_ok st" for st
    using that by (simp add: state_ok_def)
  have new: "state_ok \<lparr>fs_node = i, fs_phase = Ph_unreachable, fs_reason = r, fs_unreachable_at = t,
      fs_recovering_at = None, fs_cordoned = False, fs_actions = []\<rparr>" for i r t
    by (simp add: state_ok_def)
  have au: "world_ok (audit a d w)" for a d using assms world_ok_cong [of "audit a d w" w] by simp
  have err: "e \<noteq> Nf_panic" if "effective_policy env (nn_id n) w = Inl e \<or> get_state env (nn_id n) w = Inl e" for e
    using that by (auto simp: effective_policy_def get_policy_def get_state_def split: option.splits sum.splits)
  show "world_ok (snd (process_node env n w))"
    unfolding process_node_def Let_def
    using assms st
    by (auto split: sum.splits option.splits intro!: advance_ok node_healthy_ok(1) reset new au)
  show "fst (process_node env n w) \<noteq> Some Nf_panic"
    unfolding process_node_def Let_def
    using assms st err
    by (auto simp: advance_no_panic node_healthy_ok(2) split: sum.splits option.splits)
qed

lemma tick_nodes_ok: "world_ok w \<Longrightarrow> world_ok (tick_nodes env ns w)"
  by (induction ns arbitrary: w) (auto simp: process_ok)

lemma tick_ok: "world_ok w \<Longrightarrow> world_ok (tick env w)"
  by (simp add: tick_def tick_nodes_ok split: option.splits)

lemma preview_actions_states: "nw_states (snd (preview_actions env i rs w)) = nw_states w"
  by (induction rs arbitrary: w) (auto simp: Let_def case_prod_beta split: prod.splits sum.splits)

lemma preview_states: "nw_states (snd (preview env i w)) = nw_states w"
  using preview_actions_states [of env i _ w]
  by (auto simp: preview_def Let_def case_prod_beta split: sum.splits)

lemma status_for_states: "nw_states (snd (status_for env n w)) = nw_states w"
  using preview_states [of env "nn_id n" w]
  by (auto simp: status_for_def Let_def split: sum.splits prod.splits)


lemma status_for_ok: "world_ok w \<Longrightarrow> world_ok (snd (status_for env n w))"
  using world_ok_cong status_for_states by blast

lemma mark_lost_ok:
  assumes "world_ok w"
  shows "world_ok (snd (mark_lost env i dry w))"
proof -
  have p: "world_ok (snd (preview env i w))" using assms world_ok_cong preview_states by blast
  have st: "state_ok (st\<lparr>fs_phase := Ph_lost, fs_recovering_at := None, fs_reason := r\<rparr>)"
    if "get_state env i w = Inr (Some st)" for st r
    using that assms by (auto simp: get_state_def world_ok_def state_ok_def split: option.splits)
  have new: "state_ok \<lparr>fs_node = i, fs_phase = Ph_lost, fs_reason = r, fs_unreachable_at = t,
      fs_recovering_at = None, fs_cordoned = False, fs_actions = []\<rparr>" for r t
    by (simp add: state_ok_def)
  have au: "world_ok (audit a d w)" for a d using assms world_ok_cong [of "audit a d w" w] by simp
  have adv: "world_ok w'" if "advance env n st act v = (e, w')" "world_ok v" "state_ok st" for n st act v e w'
    using advance_ok [OF that(2,3), of env n act] that(1) by simp
  have pre: "world_ok w'" if "preview env i w = (e, w')" for e w' using p that by simp
  have sf: "world_ok w'" if "status_for env n v = (e, w')" "world_ok v" for n v e w'
    using status_for_ok [OF that(2), of env n] that(1) by simp
  show ?thesis
    unfolding mark_lost_def Let_def
    using assms
    by (auto split: sum.splits option.splits prod.splits intro: pre sf adv au st new status_for_ok)
qed

lemma last_index_of_less: "last_index_of P xs = Some k \<Longrightarrow> k < length xs"
  by (auto simp: last_index_of_def find_Some_iff) (metis in_set_conv_nth length_rev set_rev set_upt atLeastLessThan_iff length_upt diff_zero)

lemma resolve_restore_shape:
  assumes "k < length (fs_actions st)" and "resolve_restore env i kind name target k st w = (r, w')"
  shows "nw_states w' = nw_states w \<and> (\<forall>st' t. r = Inr (st', t) \<longrightarrow> same_shape st st')"
proof -
  have "same_shape st (set_action k ((fs_actions st ! k)\<lparr>fa_status := s, fa_target := t, fa_reason := x\<rparr>) st)" for s t x
    using assms(1) by (intro same_shape_set) (auto simp: action_id_def)
  then show ?thesis
    using assms(2) by (auto simp: resolve_restore_def Let_def split: prod.splits sum.splits option.splits if_splits)
qed

lemma resolve_ok:
  assumes "world_ok w"
  shows "world_ok (snd (resolve_failure env i kind name act target w))"
proof (cases "\<exists>n st k. get_node i w = Inr n \<and> get_state env i w = Inr (Some st) \<and> fs_phase st \<noteq> Ph_recovering \<and>
    last_index_of (\<lambda>a. fa_kind a = kind \<and> fa_name a = name) (fs_actions st) = Some k")
  case False
  then show ?thesis using assms
    by (auto simp: resolve_failure_def split: sum.splits option.splits)
next
  case True
  then obtain n st k where h: "get_node i w = Inr n" "get_state env i w = Inr (Some st)" "fs_phase st \<noteq> Ph_recovering"
    "last_index_of (\<lambda>a. fa_kind a = kind \<and> fa_name a = name) (fs_actions st) = Some k" by blast
  have st: "state_ok st" using h(2) assms by (auto simp: get_state_def world_ok_def split: option.splits)
  have k: "k < length (fs_actions st)" using last_index_of_less [OF h(4)] .
  define step where "step = (case act of
                       Resolve_wait \<Rightarrow>
                         (Inr (set_action k ((fs_actions st ! k)\<lparr>fa_status := St_waiting, fa_reason := Rs_wait\<rparr>) st,
                               target), w)
                     | Resolve_restore \<Rightarrow> resolve_restore env i kind name target k st w
                     | Resolve_other _ \<Rightarrow> (Inl Nf_unknown_action, w))"
  obtain r w1 where r: "step = (r, w1)" by (cases step)
  have "nw_states w1 = nw_states w \<and> (\<forall>st' t. r = Inr (st', t) \<longrightarrow> same_shape st st')"
  proof (cases act)
    case Resolve_wait
    have "same_shape st (set_action k ((fs_actions st ! k)\<lparr>fa_status := St_waiting, fa_reason := Rs_wait\<rparr>) st)"
      using k by (intro same_shape_set) (auto simp: action_id_def)
    with Resolve_wait r show ?thesis by (auto simp: step_def)
  next
    case Resolve_restore
    with r show ?thesis using resolve_restore_shape [OF k] by (simp add: step_def)
  next
    case (Resolve_other x)
    with r show ?thesis by (auto simp: step_def)
  qed
  then have w1: "world_ok w1" and ok: "\<And>st' t. r = Inr (st', t) \<Longrightarrow> state_ok st'"
    using assms st world_ok_cong same_shape_ok by blast+
  have au: "world_ok (audit a d w1)" for a d using w1 world_ok_cong [of "audit a d w1" w1] by simp
  have save: "world_ok v" if "save_state env st' (audit a d w1) = (e, v)" "state_ok st'" for st' a d e v
    using save_state_ok [OF au that(2), of env a d] that(1) by simp
  have eq: "resolve_failure env i kind name act target w = (let (r, w) = step in case r of
                       Inl e \<Rightarrow> (Inl e, w)
                     | Inr (st, target) \<Rightarrow>
                         (case save_state env st (audit Audit_resolve [kind, name, i, target] w) of
                            (Some e, w) \<Rightarrow> (Inl (Nf_store e), w)
                          | (None, w) \<Rightarrow> status_for env n w))"
    using h by (simp add: resolve_failure_def step_def)
  show ?thesis
    unfolding eq r Let_def using w1 ok save
    by (auto split: sum.splits option.splits prod.splits intro!: status_for_ok)
qed

text \<open>Worlds reached from one without failure states by ticks, operator decisions and changes from
  outside: the platform, the nodes and their heartbeats, the policies and the clock.\<close>

inductive nf_reachable :: "'p executor \<Rightarrow> 'p nf_world \<Rightarrow> bool" for ex where
  start: "nw_states w = [] \<Longrightarrow> nf_reachable ex w"
| outside: "nf_reachable ex w \<Longrightarrow> nw_states w' = nw_states w \<Longrightarrow> nf_reachable ex w'"
| ticked: "nf_reachable ex w \<Longrightarrow> ne_exec env = ex \<Longrightarrow> nf_reachable ex (tick env w)"
| marked: "nf_reachable ex w \<Longrightarrow> ne_exec env = ex \<Longrightarrow> nf_reachable ex (snd (mark_lost env i dry w))"
| resolved: "nf_reachable ex w \<Longrightarrow> ne_exec env = ex \<Longrightarrow>
    nf_reachable ex (snd (resolve_failure env i kind name act target w))"
| policed: "nf_reachable ex w \<Longrightarrow> nf_reachable ex (snd (set_policy p w))"

lemma reachable_ok: "nf_reachable ex w \<Longrightarrow> world_ok w"
proof (induction rule: nf_reachable.induct)
  case (policed w p)
  then show ?case
    using world_ok_cong [of "snd (set_policy p w)" w] by (simp add: set_policy_def split: sum.splits)
next
  case (start w)
  then show ?case by (simp add: world_ok_def)
next
  case (outside w w')
  then show ?case using world_ok_cong by blast
qed (auto simp: tick_ok mark_lost_ok resolve_ok)


text \<open>
  C30: In every world reached by ticks, operator decisions and outside changes, a failure state is kept under its
  own node, has a recovery time exactly while it is recovering, and never lists a database as one to
  reschedule; so a pass never dereferences a missing recovery time.
\<close>

theorem failure_states_typed:
  assumes "nf_reachable ex w" and "ne_exec env = ex"
  shows "(\<forall>i st. map_of (nw_states w) i = Some st \<longrightarrow>
            fs_node st = i \<and> (fs_phase st = Ph_recovering \<longleftrightarrow> fs_recovering_at st \<noteq> None) \<and>
            (\<forall>a \<in> set (fs_actions st). fa_kind a = ''database'' \<longrightarrow> fa_class a = Cl_decision)) \<and>
         fst (process_node env n w) \<noteq> Some Nf_panic"
  using reachable_ok [OF assms(1)] process_ok(2) [of w env n]
  by (auto simp: world_ok_def state_ok_def action_ok_def list_all_iff)

section \<open>What the controller does to the platform\<close>

text \<open>An executor that writes down every placement and every fencing it is asked for.\<close>

datatype platform_call = Call_place string string string | Call_fence string string string

definition recording :: "'p executor \<Rightarrow> ('p \<times> platform_call list) executor" where
  "recording ex =
     \<lparr>ex_is_local = ex_is_local ex,
      ex_resources = (\<lambda>i (p, l). ex_resources ex i p),
      ex_node_of = (\<lambda>k n (p, l). ex_node_of ex k n p),
      ex_pick_target = (\<lambda>r i c (p, l). let (t, p) = ex_pick_target ex r i c p in (t, (p, l))),
      ex_place = (\<lambda>k n t (p, l). let (e, p) = ex_place ex k n t p in (e, (p, l @ [Call_place k n t]))),
      ex_fence = (\<lambda>k n t (p, l). let (e, p) = ex_fence ex k n t p in (e, (p, l @ [Call_fence k n t])))\<rparr>"

definition new_calls :: "(platform_call \<Rightarrow> bool) \<Rightarrow> ('p \<times> platform_call list) nf_world \<Rightarrow> ('p \<times> platform_call list) nf_world \<Rightarrow> bool" where
  "new_calls P w w' \<longleftrightarrow> (\<exists>new. snd (nw_platform w') = snd (nw_platform w) @ new \<and> list_all P new)"

lemma new_calls_refl: "snd (nw_platform w') = snd (nw_platform w) \<Longrightarrow> new_calls P w w'"
  by (simp add: new_calls_def)

lemma new_calls_trans: "new_calls P u v \<Longrightarrow> new_calls P v w \<Longrightarrow> new_calls P u w"
  by (auto simp: new_calls_def)

lemma new_calls_mono: "new_calls P u v \<Longrightarrow> (\<And>c. P c \<Longrightarrow> Q c) \<Longrightarrow> new_calls Q u v"
  by (auto simp: new_calls_def list_all_iff)

lemma new_calls_cong: "nw_platform w' = nw_platform w \<Longrightarrow> new_calls P u w' = new_calls P u w"
  "nw_platform u' = nw_platform u \<Longrightarrow> new_calls P u' w = new_calls P u w"
  by (simp_all add: new_calls_def)

lemma recording_pick: "snd (snd (ex_pick_target (recording ex) r i c p)) = snd p"
  by (cases p) (simp add: recording_def case_prod_beta Let_def)

lemma recording_place: "snd (snd (ex_place (recording ex) k n t p)) = snd p @ [Call_place k n t]"
  by (cases p) (simp add: recording_def case_prod_beta Let_def)

lemma recording_fence: "snd (snd (ex_fence (recording ex) k n t p)) = snd p @ [Call_fence k n t]"
  by (cases p) (simp add: recording_def case_prod_beta Let_def)

lemma save_platform: "nw_platform (snd (save_state env st w)) = nw_platform w"
  by (simp add: save_state_def split: option.splits)

lemma finish_platform: "nw_platform (snd (finish_save env st w)) = nw_platform w"
  by (simp add: finish_save_def Let_def case_prod_beta save_platform)

lemma schedulable_platform: "nw_platform (snd (set_schedulable env i b w)) = nw_platform w"
  by (simp add: set_schedulable_def split: option.splits)

lemma cordon_platform: "nw_platform (snd (cordon env n st w)) = nw_platform w"
  using schedulable_platform [of env "nn_id n" False w]
  by (auto simp: cordon_def split: option.splits prod.splits)

lemma commit_move_calls:
  assumes "ne_exec env = recording ex"
  shows "new_calls (\<lambda>c. \<exists>t. c = Call_place (fa_kind a) (fa_name a) t) w (snd (commit_move env node i a target st w))"
proof -
  obtain e w1 where s: "save_state env (set_action i (a\<lparr>fa_status := St_moving, fa_target := target\<rparr>) st) w = (e, w1)"
    by (metis prod.exhaust)
  then have w1: "nw_platform w1 = nw_platform w" using save_platform by (metis snd_conv)
  obtain e2 p where p: "ex_place (recording ex) (fa_kind a) (fa_name a) target (nw_platform w1) = (e2, p)"
    by (metis prod.exhaust)
  then have "snd p = snd (nw_platform w) @ [Call_place (fa_kind a) (fa_name a) target]"
    using recording_place [of ex "fa_kind a" "fa_name a" target "nw_platform w1"] w1 by simp
  with w1 p s show ?thesis
    by (auto simp: commit_move_def Let_def assms new_calls_def split: option.splits)
qed

lemma reschedule_calls:
  assumes "ne_exec env = recording ex"
  shows "new_calls (\<lambda>c. \<exists>t. c = Call_place (fa_kind (fs_actions st ! i)) (fa_name (fs_actions st ! i)) t) w
           (snd (reschedule env node rs i st w))"
proof -
  let ?a = "fs_actions st ! i"
  obtain t p where p: "ex_pick_target (recording ex) (action_resource ?a rs) node True (nw_platform w) = (t, p)"
    by (metis prod.exhaust)
  then have "snd p = snd (nw_platform w)"
    using recording_pick [of ex "action_resource ?a rs" node True "nw_platform w"] by simp
  then have q: "new_calls P w (w\<lparr>nw_platform := p\<rparr>)" for P by (simp add: new_calls_refl)
  note cm = commit_move_calls [OF assms, of ?a _ node i _ st]
  show ?thesis
    using p q by (auto simp: reschedule_def Let_def assms new_calls_refl cm new_calls_trans [OF q cm] split: sum.splits)
qed

lemma reschedule_all_calls:
  assumes "ne_exec env = recording ex" and "world_ok w" and "state_ok st" and "\<forall>i \<in> set is. i < length (fs_actions st)"
  shows "new_calls (\<lambda>c. \<exists>a t. a \<in> set (fs_actions st) \<and> fa_class a = Cl_reschedule \<and> c = Call_place (fa_kind a) (fa_name a) t) w
           (snd (reschedule_all env node rs is st w))"
  using assms(2-)
proof (induction "is" arbitrary: st w)
  case Nil
  then show ?case by (simp add: new_calls_refl)
next
  case (Cons i "is")
  let ?P = "\<lambda>st c. \<exists>a t. a \<in> set (fs_actions st) \<and> fa_class a = Cl_reschedule \<and> c = Call_place (fa_kind a) (fa_name a) t"
  let ?skip = "fa_class (fs_actions st ! i) \<noteq> Cl_reschedule \<or> fa_status (fs_actions st ! i) = St_moved \<or>
    fa_status (fs_actions st ! i) = St_fenced"
  obtain st1 w1 where one: "(if ?skip then (st, w) else reschedule env node rs i st w) = (st1, w1)"
    by (cases "if ?skip then (st, w) else reschedule env node rs i st w")
  have ok: "same_shape st st1 \<and> world_ok w1"
    using one reschedule_ok [OF Cons.prems(1,2), of i env node rs st1 w1] Cons.prems(1,3)
    by (cases ?skip) simp_all
  have i: "fs_actions st ! i \<in> set (fs_actions st)" using Cons.prems(3) by simp
  have step1: "new_calls (?P st) w w1"
  proof (cases ?skip)
    case True
    with one show ?thesis by (simp add: new_calls_refl)
  next
    case False
    have "new_calls (\<lambda>c. \<exists>t. c = Call_place (fa_kind (fs_actions st ! i)) (fa_name (fs_actions st ! i)) t) w w1"
      using reschedule_calls [OF assms(1), of st i w node rs] one False by simp
    then show ?thesis by (rule new_calls_mono) (use False i in blast)
  qed
  have step2: "new_calls (?P st1) w1 (snd (reschedule_all env node rs is st1 w1))"
    using Cons.prems(2,3) ok same_shape_ok same_shape_length by (intro Cons.IH) (blast, blast, force)
  have mono: "?P st1 c \<Longrightarrow> ?P st c" for c
  proof -
    have "(\<exists>a\<in>set (fs_actions s). fa_class a = Cl_reschedule \<and> fa_kind a = k \<and> fa_name a = m) \<longleftrightarrow>
        (k, m, Cl_reschedule) \<in> set (map action_id (fs_actions s))" for s k m
      by (force simp: action_id_def)
    then show "?P st1 c \<Longrightarrow> ?P st c" using ok unfolding same_shape_def by metis
  qed
  from new_calls_trans [OF step1 new_calls_mono [OF step2 mono]]
  show ?case by (simp only: reschedule_all.simps Let_def one prod.case)
qed

lemma advance_calls:
  assumes "ne_exec env = recording ex" and "world_ok w" and "state_ok st"
  shows "new_calls (\<lambda>c. \<exists>rs a t. ex_resources (recording ex) (nn_id n) (nw_platform w) = Inr rs \<and>
             a \<in> set (merge_actions (fs_actions st) rs) \<and> fa_class a = Cl_reschedule \<and> c = Call_place (fa_kind a) (fa_name a) t)
           w (snd (advance env n st act w))"
    (is "new_calls ?P w _")
proof (cases "ex_resources (recording ex) (nn_id n) (nw_platform w)")
  case (Inl e)
  then show ?thesis using assms(1) by (simp add: advance_def new_calls_refl)
next
  case (Inr rs)
  let ?st = "st\<lparr>fs_actions := merge_actions (fs_actions st) rs\<rparr>"
  have st: "state_ok ?st" using assms(3) by (simp add: state_ok_def merge_actions_ok)
  obtain st1 w1 where c: "cordon env n ?st w = (st1, w1)" by (cases "cordon env n ?st w")
  then have s1: "same_shape ?st st1" "world_ok w1" "nw_platform w1 = nw_platform w"
    using cordon_shape [where st = ?st and env = env and n = n and w = w] assms(2) world_ok_cong [of w1 w]
      cordon_platform [where st = ?st and env = env and n = n and w = w] by simp_all
  have acts: "fs_actions st1 = fs_actions ?st"
    using c by (auto simp: cordon_def split: if_splits option.splits prod.splits)
  have "new_calls ?P w1 (snd (reschedule_all env (nn_id n) rs [0..<length (fs_actions st1)] st1 w1))"
    using reschedule_all_calls [OF assms(1) s1(2), of st1 "[0..<length (fs_actions st1)]" "nn_id n" rs] same_shape_ok [OF s1(1)] st Inr acts
    by (auto elim!: new_calls_mono)
  then have "new_calls ?P w (snd (reschedule_all env (nn_id n) rs [0..<length (fs_actions st1)] st1 w1))"
    using s1(3) new_calls_cong(2) by blast
  then show ?thesis
    using Inr c assms(1)
    by (auto simp: advance_def Let_def case_prod_beta new_calls_cong(1) [OF finish_platform] new_calls_refl)
qed

lemma fence_all_calls:
  assumes "ne_exec env = recording ex"
  shows "new_calls (\<lambda>c. \<exists>k m. c = Call_fence k m node) w (snd (fence_all env node as w))"
proof (induction as arbitrary: w)
  case Nil
  then show ?case by (simp add: new_calls_refl)
next
  case (Cons a as)
  obtain e p where p: "ex_fence (recording ex) (fa_kind a) (fa_name a) node (nw_platform w) = (e, p)" by (metis prod.exhaust)
  then have "snd p = snd (nw_platform w) @ [Call_fence (fa_kind a) (fa_name a) node]"
    using recording_fence [of ex "fa_kind a" "fa_name a" node "nw_platform w"] by simp
  then have f: "new_calls (\<lambda>c. \<exists>k m. c = Call_fence k m node) w (w\<lparr>nw_platform := p\<rparr>)"
    by (simp add: new_calls_def)
  have f2: "new_calls (\<lambda>c. \<exists>k m. c = Call_fence k m node) w (audit d x (w\<lparr>nw_platform := p\<rparr>))" for d x
    using f by (simp add: new_calls_def)
  show ?case
    using p Cons.IH [of w] new_calls_trans [OF f Cons.IH] new_calls_trans [OF f2 Cons.IH]
    by (auto simp: Let_def case_prod_beta assms split: option.splits)
qed

lemma clear_platform: "nw_platform (snd (clear_failure env n st w)) = nw_platform w"
proof -
  obtain e w1 where 1: "(if fs_cordoned st then set_schedulable env (nn_id n) True w else (None, w)) = (e, w1)"
    by (metis prod.exhaust)
  then have "nw_platform w1 = nw_platform w"
    using schedulable_platform [of env "nn_id n" True w] by (simp split: if_splits)
  then show ?thesis unfolding clear_failure_def 1 by (simp add: delete_state_def split: option.splits)
qed

lemma settle_platform: "nw_platform (snd (settle_recovery env n ok st w)) = nw_platform w"
  by (simp add: settle_recovery_def clear_platform finish_platform split: option.splits)

lemma node_healthy_calls:
  assumes "ne_exec env = recording ex"
  shows "new_calls (\<lambda>c. \<exists>k m. c = Call_fence k m (nn_id n)) w (snd (node_healthy env n st w))"
proof -
  obtain as ok w1 where f: "fence_all env (nn_id n) (fs_actions st) w = ((as, ok), w1)"
    by (metis prod.exhaust)
  have calls: "new_calls (\<lambda>c. \<exists>k m. c = Call_fence k m (nn_id n)) w w1"
    using fence_all_calls [OF assms, of "nn_id n" w "fs_actions st"] f by simp
  have eq: "nw_platform (snd (node_healthy env n st w)) = nw_platform w1"
  proof -
    obtain st2 w2 where r: "note_recovery env n (st\<lparr>fs_actions := as\<rparr>) w1 = (st2, w2)" by (metis prod.exhaust)
    then have "nw_platform w2 = nw_platform w1" using note_recovery_ok(3) by (metis snd_conv)
    then show ?thesis unfolding node_healthy_def f by (simp add: r settle_platform)
  qed
  show ?thesis by (rule new_calls_cong(1) [OF eq, THEN iffD2, OF calls])
qed

text \<open>Why a placement was asked for: the app was recorded as stateless, or is listed without volumes.\<close>

definition movable :: "'p executor \<Rightarrow> string \<Rightarrow> ('p \<times> platform_call list) nf_world \<Rightarrow> string \<Rightarrow> string \<Rightarrow> bool" where
  "movable ex node w k m \<longleftrightarrow>
     (\<exists>st a. map_of (nw_states w) node = Some st \<and> a \<in> set (fs_actions st) \<and>
        fa_kind a = k \<and> fa_name a = m \<and> fa_class a = Cl_reschedule) \<or>
     (\<exists>rs r. ex_resources ex node (fst (nw_platform w)) = Inr rs \<and> r \<in> set rs \<and>
        rs_kind r = k \<and> rs_name r = m \<and> rs_volumes r = [])"

definition allowed_call :: "'p executor \<Rightarrow> string \<Rightarrow> ('p \<times> platform_call list) nf_world \<Rightarrow> platform_call \<Rightarrow> bool" where
  "allowed_call ex node w c =
     (case c of Call_place k m t \<Rightarrow> k \<noteq> ''database'' \<and> movable ex node w k m | Call_fence k m t \<Rightarrow> t = node)"

lemma merge_movable:
  assumes "a \<in> set (merge_actions as rs)" and "fa_class a = Cl_reschedule"
  shows "a \<in> set as \<or> (\<exists>r \<in> set rs. rs_kind r = fa_kind a \<and> rs_name r = fa_name a \<and> rs_volumes r = [])"
proof -
  have "a \<in> set as \<or> (\<exists>r \<in> set rs. a = new_action r)"
    using assms(1) by (auto simp: merge_actions_def Let_def)
  moreover have "rs_kind r = fa_kind a \<and> rs_name r = fa_name a \<and> rs_volumes r = []" if "a = new_action r" for r
    using that assms(2) by (auto simp: new_action_def classify_def split: if_splits)
  ultimately show ?thesis by blast
qed

lemma advance_allowed:
  assumes "ne_exec env = recording ex" and "world_ok w" and "state_ok st"
    and "nw_platform w = nw_platform u" and "\<And>a. a \<in> set (fs_actions st) \<Longrightarrow>
      \<exists>s. map_of (nw_states u) (nn_id n) = Some s \<and> a \<in> set (fs_actions s)"
  shows "new_calls (allowed_call ex (nn_id n) u) w (snd (advance env n st act w))"
proof (rule new_calls_mono [OF advance_calls [OF assms(1-3)]])
  fix c
  assume "\<exists>rs a t. ex_resources (recording ex) (nn_id n) (nw_platform w) = Inr rs \<and>
    a \<in> set (merge_actions (fs_actions st) rs) \<and> fa_class a = Cl_reschedule \<and> c = Call_place (fa_kind a) (fa_name a) t"
  then obtain rs a t where rs: "ex_resources (recording ex) (nn_id n) (nw_platform w) = Inr rs"
    and a: "a \<in> set (merge_actions (fs_actions st) rs)" "fa_class a = Cl_reschedule"
    and c: "c = Call_place (fa_kind a) (fa_name a) t" by blast
  have "list_all action_ok (fs_actions st)" using assms(3) by (simp add: state_ok_def)
  then have "action_ok a" using merge_actions_ok a(1) by (auto simp: list_all_iff)
  then have "fa_kind a \<noteq> ''database''" using a(2) by (auto simp: action_ok_def)
  moreover have "ex_resources ex (nn_id n) (fst (nw_platform u)) = Inr rs"
    using rs assms(4) by (simp add: recording_def case_prod_beta)
  ultimately show "allowed_call ex (nn_id n) u c"
    using merge_movable [OF a] assms(5) a(2) c unfolding allowed_call_def movable_def by auto blast
qed

lemma process_allowed:
  assumes "world_ok w" and "ne_exec env = recording ex"
  shows "new_calls (allowed_call ex (nn_id n) w) w (snd (process_node env n w))"
proof -
  have st: "state_ok st" "map_of (nw_states w) (nn_id n) = Some st" if "get_state env (nn_id n) w = Inr (Some st)" for st
    using that assms(1) by (auto simp: get_state_def world_ok_def split: option.splits)
  have reset: "state_ok (st\<lparr>fs_phase := Ph_unreachable, fs_recovering_at := None\<rparr>)" if "state_ok st" for st
    using that by (simp add: state_ok_def)
  have new: "state_ok \<lparr>fs_node = i, fs_phase = Ph_unreachable, fs_reason = r, fs_unreachable_at = t,
      fs_recovering_at = None, fs_cordoned = False, fs_actions = []\<rparr>" for i r t
    by (simp add: state_ok_def)
  have au: "world_ok (audit a d w)" for a d using assms(1) world_ok_cong [of "audit a d w" w] by simp
  have adv: "new_calls (allowed_call ex (nn_id n) w) w (snd (advance env n st act w))"
    "new_calls (allowed_call ex (nn_id n) w) w (snd (advance env n st act (audit a d w)))"
    if "state_ok st" "\<And>a. a \<in> set (fs_actions st) \<Longrightarrow> \<exists>s. map_of (nw_states w) (nn_id n) = Some s \<and> a \<in> set (fs_actions s)"
    for st act a d
    using advance_allowed [OF assms(2,1) that(1) refl that(2), of act]
      advance_allowed [OF assms(2) au that(1) _ that(2), of a d act]
    by (simp_all add: new_calls_cong(2) [of "audit a d w" w])
  have "new_calls (allowed_call ex (nn_id n) w) w (snd (node_healthy env n st w))" for st
    by (rule new_calls_mono [OF node_healthy_calls [OF assms(2)]]) (auto simp: allowed_call_def)
  then show ?thesis
    unfolding process_node_def Let_def
    by (auto split: sum.splits option.splits intro!: adv reset new dest: st simp: new_calls_refl st)
qed

text \<open>
  A pass over a node fences only on that node and places only apps, never databases: each placed app was
  recorded as stateless before or is listed without volumes now.
\<close>

theorem only_stateless_moved:
  assumes "nf_reachable (recording ex) w" and "ne_exec env = recording ex"
  shows "\<exists>new. snd (nw_platform (snd (process_node env n w))) = snd (nw_platform w) @ new \<and>
           list_all (allowed_call ex (nn_id n) w) new"
  using process_allowed [OF reachable_ok [OF assms(1)] assms(2), of n] by (simp add: new_calls_def)


section \<open>A recovered node\<close>

text \<open>Nothing but clearing a recovered node removes a failure state.\<close>

definition keeps_states :: "'p nf_world \<Rightarrow> 'p nf_world \<Rightarrow> bool" where
  "keeps_states w w' \<longleftrightarrow> gm_keys (nw_states w) \<subseteq> gm_keys (nw_states w')"

lemma keeps_states_refl: "nw_states w' = nw_states w \<Longrightarrow> keeps_states w w'"
  by (simp add: keeps_states_def)

lemma keeps_states_trans: "keeps_states u v \<Longrightarrow> keeps_states v w \<Longrightarrow> keeps_states u w"
  by (auto simp: keeps_states_def)

lemma save_keeps: "keeps_states w (snd (save_state env st w))"
  by (auto simp: save_state_def keeps_states_def split: option.splits)

lemma finish_keeps: "keeps_states w (snd (finish_save env st w))"
  using save_keeps by (simp add: finish_save_def Let_def case_prod_beta)

lemma keeps_states_upd: "keeps_states u w \<Longrightarrow> keeps_states u (w\<lparr>nw_platform := p\<rparr>)"
  "keeps_states u w \<Longrightarrow> keeps_states u (audit a d w)"
  by (simp_all add: keeps_states_def)

lemma commit_move_keeps: "keeps_states w (snd (commit_move env node i a target st w))"
proof -
  obtain e w1 where s: "save_state env (set_action i (a\<lparr>fa_status := St_moving, fa_target := target\<rparr>) st) w = (e, w1)"
    by (metis prod.exhaust)
  then have "keeps_states w w1" using save_keeps by (metis snd_conv)
  then show ?thesis
    by (auto simp: commit_move_def Let_def s split: option.splits prod.splits intro: keeps_states_upd)
qed

lemma reschedule_keeps: "keeps_states w (snd (reschedule env node rs i st w))"
proof -
  have "keeps_states w (w\<lparr>nw_platform := p\<rparr>)" for p by (simp add: keeps_states_def)
  then show ?thesis
    by (auto simp: reschedule_def Let_def keeps_states_refl commit_move_keeps split: prod.splits sum.splits
        intro: keeps_states_trans [OF _ commit_move_keeps])
qed

lemma reschedule_all_keeps: "keeps_states w (snd (reschedule_all env node rs is st w))"
proof (induction "is" arbitrary: st w)
  case (Cons i "is")
  show ?case
    using Cons.IH keeps_states_trans [OF reschedule_keeps Cons.IH]
    by (simp add: Let_def case_prod_beta)
qed (simp add: keeps_states_refl)

lemma advance_keeps: "keeps_states w (snd (advance env n st act w))"
proof (cases "ex_resources (ne_exec env) (nn_id n) (nw_platform w)")
  case (Inr rs)
  obtain st1 w1 where c: "cordon env n (st\<lparr>fs_actions := merge_actions (fs_actions st) rs\<rparr>) w = (st1, w1)"
    by (metis prod.exhaust)
  then have "keeps_states w w1" using cordon_shape(2) keeps_states_refl by (metis snd_conv)
  then have "keeps_states w (snd (reschedule_all env (nn_id n) rs is st1 w1))" for "is"
    using reschedule_all_keeps keeps_states_trans by blast
  then show ?thesis
    using Inr c by (auto simp: advance_def Let_def case_prod_beta finish_keeps intro: keeps_states_trans [OF _ finish_keeps])
qed (simp add: advance_def keeps_states_refl)

text \<open>Fencing a copy does not change where an app is placed.\<close>

definition fence_keeps_place :: "'p executor \<Rightarrow> bool" where
  "fence_keeps_place ex \<longleftrightarrow> (\<forall>k m k' m' i p. ex_node_of ex k m (snd (ex_fence ex k' m' i p)) = ex_node_of ex k m p)"

lemma fence_all_fences:
  assumes "fence_keeps_place ex" and "ne_exec env = recording ex"
    and "fence_all env node as w = ((as', True), w')"
  shows "\<exists>new. snd (nw_platform w') = snd (nw_platform w) @ new \<and>
           (\<forall>a \<in> set as. fa_status a = St_moved \<longrightarrow>
              Call_fence (fa_kind a) (fa_name a) node \<in> set new \<or>
              ex_node_of ex (fa_kind a) (fa_name a) (fst (nw_platform w)) = Inr node)"
  using assms(3)
proof (induction as arbitrary: as' w)
  case Nil
  then show ?case by simp
next
  case (Cons a as)
  let ?P = "\<lambda>new v. \<forall>a \<in> set as. fa_status a = St_moved \<longrightarrow>
              Call_fence (fa_kind a) (fa_name a) node \<in> set new \<or>
              ex_node_of ex (fa_kind a) (fa_name a) (fst (nw_platform v)) = Inr node"
  have node_of: "ex_node_of (recording ex) k m q = ex_node_of ex k m (fst q)" for k m q
    by (cases q) (simp add: recording_def)
  show ?case
  proof (cases "fa_status a \<noteq> St_moved \<or> ex_node_of ex (fa_kind a) (fa_name a) (fst (nw_platform w)) = Inr node")
    case True
    then obtain as'' where "fence_all env node as w = ((as'', True), w')"
      using Cons.prems by (auto simp: assms(2) node_of Let_def split: if_splits prod.splits)
    from Cons.IH [OF this] True show ?thesis by auto
  next
    case False
    obtain e p where p: "ex_fence (recording ex) (fa_kind a) (fa_name a) node (nw_platform w) = (e, p)"
      by (metis prod.exhaust)
    have e: "e = None" using Cons.prems False p by (auto simp: assms(2) node_of Let_def split: option.splits prod.splits)
    let ?v = "audit Audit_fence [fa_kind a, fa_name a, node] (w\<lparr>nw_platform := p\<rparr>)"
    obtain as'' where "fence_all env node as ?v = ((as'', True), w')"
      using Cons.prems False p e by (auto simp: assms(2) node_of Let_def split: prod.splits)
    from Cons.IH [OF this] obtain new where new: "snd (nw_platform w') = snd (nw_platform ?v) @ new" "?P new ?v" by blast
    have log: "snd p = snd (nw_platform w) @ [Call_fence (fa_kind a) (fa_name a) node]"
      using recording_fence [of ex "fa_kind a" "fa_name a" node "nw_platform w"] p by simp
    have "fst p = snd (ex_fence ex (fa_kind a) (fa_name a) node (fst (nw_platform w)))"
      using p by (cases "nw_platform w") (auto simp: recording_def case_prod_beta Let_def)
    then have "?P new w" using new(2) assms(1) by (simp add: fence_keeps_place_def)
    with new(1) log show ?thesis
      by (intro exI [of _ "Call_fence (fa_kind a) (fa_name a) node # new"]) auto
  qed
qed


lemma clear_failure_uncordons:
  assumes "clear_failure env n st w = (e, w')" and "map_of (nw_states w) (nn_id n) \<noteq> None"
    and "map_of (nw_states w') (nn_id n) = None"
  shows "fs_cordoned st \<longrightarrow> list_all (\<lambda>m. nn_id m = nn_id n \<longrightarrow> nn_schedulable m) (nw_nodes w')"
proof
  assume c: "fs_cordoned st"
  obtain e1 w1 where 1: "set_schedulable env (nn_id n) True w = (e1, w1)" by (metis prod.exhaust)
  have "nw_states w1 = nw_states w" using set_schedulable_states 1 by (metis snd_conv)
  then have e1: "e1 = None" using assms c 1 by (cases e1) (auto simp: clear_failure_def)
  obtain e2 w2 where 2: "delete_state env (nn_id n) w1 = (e2, w2)" by (metis prod.exhaust)
  have "nw_nodes w' = nw_nodes w1" using assms(1) c 1 2 e1
    by (auto simp: clear_failure_def delete_state_def audit_def split: option.splits)
  then show "list_all (\<lambda>m. nn_id m = nn_id n \<longrightarrow> nn_schedulable m) (nw_nodes w')"
    using 1 e1 by (auto simp: set_schedulable_def list_all_iff split: option.splits)
qed

lemma process_unreachable_keeps:
  assumes "effective_policy env (nn_id n) w = Inr (mode, grace)" and "unreachable env n grace"
  shows "keeps_states w (snd (process_node env n w))"
proof -
  have au: "keeps_states w (audit a d w)" for a d by (simp add: keeps_states_refl)
  show ?thesis
    using assms keeps_states_trans [OF au advance_keeps]
    by (auto simp: process_node_def Let_def keeps_states_refl advance_keeps split: sum.splits option.splits)
qed



section \<open>Examples\<close>

text \<open>A platform that keeps where each resource is placed and its volumes, and always picks the
  node \<open>n2\<close>.\<close>

type_synonym demo_platform = "((string \<times> string) \<times> string \<times> string list) list"

definition demo_exec :: "demo_platform executor" where
  "demo_exec =
     \<lparr>ex_is_local = (\<lambda>i. i = ''cp''),
      ex_resources = (\<lambda>i p. Inr (map (\<lambda>((k, m), (_, v)). \<lparr>rs_kind = k, rs_name = m, rs_volumes = v\<rparr>)
                                  (filter (\<lambda>(_, (t, _)). t = i) p))),
      ex_node_of = (\<lambda>k m p. case map_of p (k, m) of Some (t, _) \<Rightarrow> Inr t | None \<Rightarrow> Inl ''not found''),
      ex_pick_target = (\<lambda>r i c p. (Inr ''n2'', p)),
      ex_place = (\<lambda>k m t p. (None, AList.update (k, m) (t, case map_of p (k, m) of Some (_, v) \<Rightarrow> v | None \<Rightarrow> []) p)),
      ex_fence = (\<lambda>k m i p. (None, p))\<rparr>"

definition demo_nf_env :: "failure_mode \<Rightarrow> gotime \<Rightarrow> (demo_platform \<times> platform_call list) nf_env" where
  "demo_nf_env mode now =
     \<lparr>ne_exec = recording demo_exec, ne_cfg = nf_config_from_env (Some mode) None None None, ne_now = now,
      ne_list_err = None, ne_policy_err = (\<lambda>_. None), ne_state_err = (\<lambda>_. None), ne_save_err = (\<lambda>_. None),
      ne_schedulable_err = (\<lambda>_. None), ne_delete_err = (\<lambda>_. None)\<rparr>"

definition demo_node :: nf_node where
  "demo_node = \<lparr>nn_id = ''n1'', nn_pending = False, nn_offline = True, nn_last_seen = Some 0, nn_schedulable = True\<rparr>"

definition demo_nf_world :: "(demo_platform \<times> platform_call list) nf_world" where
  "demo_nf_world =
     \<lparr>nw_nodes = [demo_node], nw_policies = [], nw_states = [],
      nw_platform = ([((''app'', ''web''), (''n1'', [])), ((''database'', ''db''), (''n1'', [''db-data'']))], []),
      nw_audit = []\<rparr>"

text \<open>
  An app keeps the class it was recorded with: an app that gets a volume after the failure was
  noticed, and before the node is marked lost, is moved although its data stays on the failed node.
\<close>

lemma stale_class_moves_volumes:
  "let w1 = tick (demo_nf_env Mode_notify hour) demo_nf_world;
       w2 = w1\<lparr>nw_platform := ([((''app'', ''web''), (''n1'', [''web-data'']))], [])\<rparr>;
       w3 = snd (mark_lost (demo_nf_env Mode_notify hour) ''n1'' False w2)
   in snd (nw_platform w1) = [] \<and> snd (nw_platform w3) = [Call_place ''app'' ''web'' ''n2'']"
  by code_simp

theorem failure_states_typed_witness:
  "fst (process_node (demo_nf_env Mode_auto (2 * hour)) demo_node (tick (demo_nf_env Mode_auto hour) demo_nf_world)) \<noteq> Some Nf_panic"
proof -
  have env: "ne_exec (demo_nf_env m t) = recording demo_exec" for m t by (simp add: demo_nf_env_def)
  have "nf_reachable (recording demo_exec) demo_nf_world" by (rule nf_reachable.start) (simp add: demo_nf_world_def)
  then have "nf_reachable (recording demo_exec) (tick (demo_nf_env Mode_auto hour) demo_nf_world)"
    using env by (rule nf_reachable.ticked)
  from failure_states_typed [OF this env] show ?thesis by blast
qed

theorem only_stateless_moved_witness:
  "snd (nw_platform (snd (process_node (demo_nf_env Mode_auto hour) demo_node demo_nf_world))) = [Call_place ''app'' ''web'' ''n2''] \<and>
   allowed_call demo_exec ''n1'' demo_nf_world (Call_place ''app'' ''web'' ''n2'')"
proof -
  have env: "ne_exec (demo_nf_env m t) = recording demo_exec" for m t by (simp add: demo_nf_env_def)
  have "nf_reachable (recording demo_exec) demo_nf_world" by (rule nf_reachable.start) (simp add: demo_nf_world_def)
  from only_stateless_moved [OF this env, where n = demo_node] obtain new where
    new: "snd (nw_platform (snd (process_node (demo_nf_env Mode_auto hour) demo_node demo_nf_world))) = snd (nw_platform demo_nf_world) @ new"
    "list_all (allowed_call demo_exec ''n1'' demo_nf_world) new" by (auto simp: demo_node_def)
  moreover have "snd (nw_platform (snd (process_node (demo_nf_env Mode_auto hour) demo_node demo_nf_world))) =
      [Call_place ''app'' ''web'' ''n2'']" "snd (nw_platform demo_nf_world) = []"
    by code_simp+
  ultimately show ?thesis by auto
qed

definition demo_moved :: failure_state where
  "demo_moved =
     \<lparr>fs_node = ''n1'', fs_phase = Ph_recovering, fs_reason = Rs_no_heartbeat (5 * minute), fs_unreachable_at = 0,
      fs_recovering_at = Some hour, fs_cordoned = True,
      fs_actions = [\<lparr>fa_kind = ''app'', fa_name = ''web'', fa_class = Cl_reschedule, fa_status = St_moved,
                     fa_target = ''n2'', fa_reason = Rs_moved_to ''n2''\<rparr>]\<rparr>"

definition demo_back :: "(demo_platform \<times> platform_call list) nf_world" where
  "demo_back = demo_nf_world\<lparr>nw_states := [(''n1'', demo_moved)], nw_platform := ([((''app'', ''web''), (''n2'', []))], [])\<rparr>"


end
