(* ===== verification/Autoscale.thy ===== *)
theory Autoscale
  imports Prelude
begin

text \<open>
  The replica autoscaler, \<open>internal/autoscale\<close>: the policy (\<open>policy.go\<close>), the pure decision
  (\<open>decide.go\<close>), the controller that applies it (\<open>controller.go\<close>) and the status it reports
  (\<open>status.go\<close>).

  \<open>float64\<close> values are exact rationals and replica counts exact integers; the messages are left
  out.  The store is kept in the world, and the failures of its calls, the metric, the headroom
  and the spend cap are given by the environment of a tick.
\<close>

section \<open>Policy\<close>

record as_policy =
  ap_app :: string
  ap_min :: int
  ap_max :: int
  ap_metric :: string
  ap_target :: rat
  ap_up_tolerance :: int
  ap_down_tolerance :: int
  ap_up_cooldown :: int
  ap_down_cooldown :: int
  ap_stabilization :: int
  ap_step_up :: int
  ap_step_down :: int

definition zero_or :: "int \<Rightarrow> int \<Rightarrow> int" where
  "zero_or x d = (if x = 0 then d else x)"

definition as_normalize :: "as_policy \<Rightarrow> as_policy" where
  "as_normalize p =
     p\<lparr>ap_up_tolerance := zero_or (ap_up_tolerance p) 10,
       ap_down_tolerance := zero_or (ap_down_tolerance p) 30,
       ap_up_cooldown := zero_or (ap_up_cooldown p) 60,
       ap_down_cooldown := zero_or (ap_down_cooldown p) 600,
       ap_stabilization := zero_or (ap_stabilization p) 300,
       ap_step_up := zero_or (ap_step_up p) 4,
       ap_step_down := zero_or (ap_step_down p) 1\<rparr>"

datatype as_policy_error =
    Ape_app | Ape_min | Ape_max_missing | Ape_max_below_min | Ape_ceiling int | Ape_target | Ape_target_percent string
  | Ape_metric | Ape_up_tolerance | Ape_down_tolerance | Ape_up_cooldown | Ape_down_cooldown | Ape_stabilization
  | Ape_step_up | Ape_step_down

definition validate_target :: "as_policy \<Rightarrow> as_policy_error option" where
  "validate_target p =
     (if ap_target p \<le> 0 then Some Ape_target
      else if ap_metric p = ''cpu_percent'' \<or> ap_metric p = ''memory_percent'' then
        (if ap_target p > 100 then Some (Ape_target_percent (ap_metric p)) else None)
      else if ap_metric p = ''requests_per_replica'' then None
      else Some Ape_metric)"

definition outside :: "int \<Rightarrow> int \<Rightarrow> int \<Rightarrow> bool" where
  "outside lo hi x \<longleftrightarrow> x < lo \<or> x > hi"

definition validate_as_policy :: "as_policy \<Rightarrow> int \<Rightarrow> as_policy_error option" where
  "validate_as_policy p ceil_max =
     (if ap_app p = [] then Some Ape_app
      else if ap_min p < 1 then Some Ape_min
      else if ap_max p < 1 then Some Ape_max_missing
      else if ap_max p < ap_min p then Some Ape_max_below_min
      else if ceil_max > 0 \<and> ap_max p > ceil_max then Some (Ape_ceiling ceil_max)
      else
        (case validate_target p of
           Some e \<Rightarrow> Some e
         | None \<Rightarrow>
             if outside 1 100 (ap_up_tolerance p) then Some Ape_up_tolerance
             else if outside 1 99 (ap_down_tolerance p) then Some Ape_down_tolerance
             else if outside 1 86400 (ap_up_cooldown p) then Some Ape_up_cooldown
             else if outside 1 86400 (ap_down_cooldown p) then Some Ape_down_cooldown
             else if outside 1 86400 (ap_stabilization p) then Some Ape_stabilization
             else if outside 1 100 (ap_step_up p) then Some Ape_step_up
             else if outside 1 100 (ap_step_down p) then Some Ape_step_down
             else None))"

definition up_cooldown :: "as_policy \<Rightarrow> duration" where
  "up_cooldown p = i64_mul (ap_up_cooldown p) second"

definition down_cooldown :: "as_policy \<Rightarrow> duration" where
  "down_cooldown p = i64_mul (ap_down_cooldown p) second"

definition stabilization :: "as_policy \<Rightarrow> duration" where
  "stabilization p = i64_mul (ap_stabilization p) second"

text \<open>Settings from the environment, as the parsed values they hold.\<close>

definition env_int :: "int option \<Rightarrow> int \<Rightarrow> int" where
  "env_int v d = (case v of Some n \<Rightarrow> if n > 0 then n else d | None \<Rightarrow> d)"

definition ceiling_from_env :: "int option \<Rightarrow> int" where
  "ceiling_from_env v = env_int v 20"

definition flap_threshold_from_env :: "int option \<Rightarrow> int" where
  "flap_threshold_from_env v = env_int v 3"

definition as_interval_from_env :: "duration option \<Rightarrow> duration" where
  "as_interval_from_env v = env_int v (30 * second)"

definition window_from_env :: "duration option \<Rightarrow> duration" where
  "window_from_env v = env_int v (2 * minute)"

definition metric_max_age_from_env :: "duration option \<Rightarrow> duration" where
  "metric_max_age_from_env v = env_int v (90 * second)"

section \<open>The decision\<close>

datatype as_reason =
    Ar_none | Ar_within_target | Ar_scaled_up | Ar_scaled_down | Ar_metrics_unavailable | Ar_cooldown | Ar_stabilizing
  | Ar_no_capacity | Ar_spend_cap_paused | Ar_at_maximum | Ar_at_minimum | Ar_bounds_corrected | Ar_suspended
  | Ar_scale_failed | Ar_pending | Ar_flapping

datatype as_blocker =
    Ab_none | Ab_cooldown | Ab_stabilization | Ab_spend_cap | Ab_no_capacity | Ab_max_replicas | Ab_min_replicas
  | Ab_global_ceiling | Ab_step_limit | Ab_no_metrics | Ab_suspended

record as_input =
  in_now :: gotime
  in_current :: int
  in_value :: rat
  in_value_known :: bool
  in_ceiling :: int
  in_last_up :: gotime
  in_last_down :: gotime
  in_down_since :: gotime
  in_down_floor :: int
  in_spend_blocked :: bool
  in_headroom :: "(int \<Rightarrow> int) option"

record as_decision =
  dc_current :: int
  dc_desired :: int
  dc_value :: rat
  dc_reason :: as_reason
  dc_blocked :: as_blocker
  dc_down_since :: gotime
  dc_down_floor :: int

definition dc_changed :: "as_decision \<Rightarrow> bool" where
  "dc_changed d \<longleftrightarrow> dc_desired d \<noteq> dc_current d"

definition reset_down :: "as_decision \<Rightarrow> as_decision" where
  "reset_down d = d\<lparr>dc_down_since := zero_time, dc_down_floor := 0\<rparr>"

definition hold_at :: "as_reason \<Rightarrow> as_blocker \<Rightarrow> as_decision \<Rightarrow> as_decision" where
  "hold_at r b d = d\<lparr>dc_reason := r, dc_blocked := b\<rparr>"

definition capped_extra :: "as_input \<Rightarrow> int \<Rightarrow> int" where
  "capped_extra inp extra =
     (case in_headroom inp of
        None \<Rightarrow> extra
      | Some f \<Rightarrow> (let h = f extra in if h \<ge> 0 \<and> h < extra then h else extra))"

definition grow_to :: "as_input \<Rightarrow> int \<Rightarrow> as_reason \<Rightarrow> as_decision \<Rightarrow> as_decision" where
  "grow_to inp target reason d =
     (if in_spend_blocked inp then hold_at Ar_spend_cap_paused Ab_spend_cap d
      else (let extra = capped_extra inp (target - in_current inp)
            in if extra \<le> 0 then hold_at Ar_no_capacity Ab_no_capacity d
               else d\<lparr>dc_desired := in_current inp + extra, dc_reason := reason\<rparr>))"

definition scale_up :: "as_policy \<Rightarrow> as_input \<Rightarrow> int \<Rightarrow> int \<Rightarrow> as_blocker \<Rightarrow> as_decision \<Rightarrow> as_decision" where
  "scale_up p inp raw hi cap_by d =
     (if in_current inp \<ge> hi then hold_at Ar_at_maximum cap_by d
      else
        (let want = min raw hi; step = min want (in_current inp + ap_step_up p)
         in if in_spend_blocked inp then hold_at Ar_spend_cap_paused Ab_spend_cap d
            else if in_last_up inp \<noteq> zero_time \<and> time_sub (in_now inp) (in_last_up inp) < up_cooldown p
            then hold_at Ar_cooldown Ab_cooldown d
            else
              (let grown = grow_to inp step Ar_scaled_up d
               in if dc_blocked grown \<noteq> Ab_none \<or> \<not> dc_changed grown then grown
                  else if dc_desired grown < step then grown\<lparr>dc_blocked := Ab_no_capacity\<rparr>
                  else if step < want then grown\<lparr>dc_blocked := Ab_step_limit\<rparr>
                  else if want < raw then grown\<lparr>dc_blocked := cap_by\<rparr>
                  else grown)))"

definition scale_down :: "as_policy \<Rightarrow> as_input \<Rightarrow> int \<Rightarrow> int \<Rightarrow> as_decision \<Rightarrow> as_decision" where
  "scale_down p inp want lo d =
     (if in_current inp \<le> lo then hold_at Ar_at_minimum Ab_min_replicas (reset_down d)
      else
        (let d = (if dc_down_since d = zero_time then d\<lparr>dc_down_since := in_now inp, dc_down_floor := want\<rparr>
                  else d\<lparr>dc_down_floor := max (dc_down_floor d) want\<rparr>)
         in if time_sub (in_now inp) (dc_down_since d) < stabilization p
            then hold_at Ar_stabilizing Ab_stabilization d
            else if dc_down_floor d \<ge> in_current inp then hold_at Ar_within_target Ab_none (reset_down d)
            else
              (let lst = (if in_last_down inp > in_last_up inp then in_last_down inp else in_last_up inp)
               in if lst \<noteq> zero_time \<and> time_sub (in_now inp) lst < down_cooldown p
                  then hold_at Ar_cooldown Ab_cooldown d
                  else
                    (let target = max (dc_down_floor d) (in_current inp - ap_step_down p)
                     in reset_down (d\<lparr>dc_desired := target, dc_reason := Ar_scaled_down,
                                      dc_blocked := (if target > dc_down_floor d then Ab_step_limit else dc_blocked d)\<rparr>)))))"

definition raw_count :: "as_policy \<Rightarrow> as_input \<Rightarrow> int" where
  "raw_count p inp = \<lceil>of_int (in_current inp) * in_value inp / ap_target p - 1 / 1000000000\<rceil>"

definition upper_band :: "as_policy \<Rightarrow> rat" where
  "upper_band p = ap_target p * (1 + of_int (ap_up_tolerance p) / 100)"

definition lower_band :: "as_policy \<Rightarrow> rat" where
  "lower_band p = ap_target p * (1 - of_int (ap_down_tolerance p) / 100)"

definition high_bound :: "as_policy \<Rightarrow> as_input \<Rightarrow> int \<times> as_blocker" where
  "high_bound p inp =
     (if in_ceiling inp > 0 \<and> in_ceiling inp < ap_max p then (in_ceiling inp, Ab_global_ceiling)
      else (ap_max p, Ab_max_replicas))"

definition decide :: "as_policy \<Rightarrow> as_input \<Rightarrow> as_decision" where
  "decide p inp =
     (let d = \<lparr>dc_current = in_current inp, dc_desired = in_current inp, dc_value = in_value inp, dc_reason = Ar_none,
               dc_blocked = Ab_none, dc_down_since = in_down_since inp, dc_down_floor = in_down_floor inp\<rparr>;
          (hi, cap_by) = high_bound p inp;
          lo = min (ap_min p) hi
      in if in_current inp < lo then grow_to inp lo Ar_bounds_corrected (reset_down d)
         else if in_current inp > hi then (reset_down d)\<lparr>dc_desired := hi, dc_reason := Ar_bounds_corrected\<rparr>
         else if \<not> in_value_known inp then hold_at Ar_metrics_unavailable Ab_no_metrics (reset_down d)
         else
           (let raw = raw_count p inp
            in if in_value inp > upper_band p \<and> raw > in_current inp then scale_up p inp raw hi cap_by (reset_down d)
               else if in_value inp < lower_band p \<and> raw < in_current inp then scale_down p inp (max raw lo) lo d
               else hold_at Ar_within_target Ab_none (reset_down d)))"

section \<open>The controller\<close>

datatype as_event_kind = Ev_scaled_up | Ev_scaled_down | Ev_held | Ev_failed | Ev_configured | Ev_cleared

record as_state =
  st_current :: int
  st_desired :: int
  st_value :: rat
  st_value_known :: bool
  st_reason :: as_reason
  st_blocked :: as_blocker
  st_last_up :: gotime
  st_last_down :: gotime
  st_down_since :: gotime
  st_down_floor :: int
  st_updated :: gotime

definition as_state_zero :: as_state where
  "as_state_zero =
     \<lparr>st_current = 0, st_desired = 0, st_value = 0, st_value_known = False, st_reason = Ar_none, st_blocked = Ab_none,
      st_last_up = zero_time, st_last_down = zero_time, st_down_since = zero_time, st_down_floor = 0,
      st_updated = zero_time\<rparr>"

record as_event =
  ev_app :: string
  ev_kind :: as_event_kind
  ev_current :: int
  ev_desired :: int
  ev_value :: rat
  ev_reason :: as_reason
  ev_blocked :: as_blocker
  ev_at :: gotime

record as_gauge =
  ga_app :: string
  ga_current :: int
  ga_desired :: int
  ga_no_capacity :: bool
  ga_flaps :: nat

record as_world =
  aw_policies :: "as_policy list"
  aw_replicas :: "(string, int \<times> bool) gomap"
  aw_states :: "(string, as_state) gomap"
  aw_events :: "as_event list"
  aw_gauges :: "as_gauge list"
  aw_nudges :: nat

record as_env =
  ae_now :: gotime
  ae_ceiling :: int
  ae_flap_threshold :: int
  ae_metric :: "as_policy \<Rightarrow> int \<Rightarrow> string + rat \<times> bool"
  ae_headroom :: "string \<Rightarrow> int \<Rightarrow> string + int"
  ae_spend :: "string \<Rightarrow> string + string"
  ae_recorder :: bool
  ae_app_err :: "string \<Rightarrow> string option"
  ae_policy_write_err :: "string option"
  ae_policies_err :: "string option"
  ae_policy_err :: "string \<Rightarrow> string option"
  ae_replicas_err :: "string \<Rightarrow> string option"
  ae_state_err :: "string \<Rightarrow> string option"
  ae_save_err :: "string \<Rightarrow> as_state \<Rightarrow> string option"
  ae_set_err :: "string \<Rightarrow> int \<Rightarrow> string option"
  ae_events_err :: "string \<Rightarrow> string option"
  ae_gauge_err :: "string option"

datatype as_error = Ae_load_replicas string | Ae_load_state string | Ae_load_history string | Ae_save_state string
  | Ae_set_replicas int string | Ae_list_policies string | Ae_load_policy string | Ae_write_policy string | Ae_load_app string
  | Ae_not_found

text \<open>
  The store writes times as RFC 3339 text, which drops the fraction of a second; it keeps an
  app's newest events, newest first.
\<close>

definition stored_time :: "gotime \<Rightarrow> gotime" where
  "stored_time t = t div second * second"

definition stored_state :: "as_state \<Rightarrow> as_state" where
  "stored_state st =
     st\<lparr>st_last_up := stored_time (st_last_up st), st_last_down := stored_time (st_last_down st),
        st_down_since := stored_time (st_down_since st), st_updated := stored_time (st_updated st)\<rparr>"

fun trim_events :: "string \<Rightarrow> nat \<Rightarrow> as_event list \<Rightarrow> as_event list" where
  "trim_events app k [] = []"
| "trim_events app k (e # es) =
     (if ev_app e \<noteq> app then e # trim_events app k es
      else if k = 0 then trim_events app 0 es
      else e # trim_events app (k - 1) es)"

definition events_kept :: nat where
  "events_kept = 500"

definition insert_event :: "as_event \<Rightarrow> as_event list \<Rightarrow> as_event list" where
  "insert_event e es = trim_events (ev_app e) events_kept (e\<lparr>ev_at := stored_time (ev_at e)\<rparr> # es)"

definition save_as_state :: "as_env \<Rightarrow> string \<Rightarrow> as_state \<Rightarrow> as_event list \<Rightarrow> as_world \<Rightarrow> string option \<times> as_world" where
  "save_as_state env app st evs w =
     (case ae_save_err env app st of
        Some e \<Rightarrow> (Some e, w)
      | None \<Rightarrow> (None, w\<lparr>aw_states := AList.update app (stored_state st) (aw_states w),
                        aw_events := fold insert_event evs (aw_events w)\<rparr>))"

definition set_replicas :: "as_env \<Rightarrow> string \<Rightarrow> int \<Rightarrow> as_world \<Rightarrow> string option \<times> as_world" where
  "set_replicas env app n w =
     (case (ae_set_err env app n, map_of (aw_replicas w) app) of
        (Some e, _) \<Rightarrow> (Some e, w)
      | (None, None) \<Rightarrow> (Some ''service not found'', w)
      | (None, Some (_, susp)) \<Rightarrow> (None, w\<lparr>aw_replicas := AList.update app (n, susp) (aw_replicas w)\<rparr>))"

definition list_events :: "as_env \<Rightarrow> string \<Rightarrow> nat \<Rightarrow> as_world \<Rightarrow> string + as_event list" where
  "list_events env app k w =
     (case ae_events_err env app of
        Some e \<Rightarrow> Inl e
      | None \<Rightarrow> Inr (take k (filter (\<lambda>e. ev_app e = app) (aw_events w))))"

definition is_scale :: "as_event \<Rightarrow> bool" where
  "is_scale e \<longleftrightarrow> ev_kind e = Ev_scaled_up \<or> ev_kind e = Ev_scaled_down"

fun reversals :: "as_event list \<Rightarrow> nat" where
  "reversals (x # y # es) = (if ev_kind y \<noteq> ev_kind x then 1 else 0) + reversals (y # es)"
| "reversals _ = 0"

definition flaps :: "as_event list \<Rightarrow> gotime \<Rightarrow> duration \<Rightarrow> nat" where
  "flaps es now window =
     reversals (go_sort (\<lambda>a b. ev_at a < ev_at b) (filter (\<lambda>e. is_scale e \<and> time_sub now (ev_at e) \<le> window) es))"

definition flap_window :: duration where
  "flap_window = hour"

definition flap_scan_limit :: nat where
  "flap_scan_limit = 100"

definition as_input_of :: "as_env \<Rightarrow> as_policy \<Rightarrow> as_state \<Rightarrow> int \<Rightarrow> as_input" where
  "as_input_of env p st current =
     \<lparr>in_now = ae_now env, in_current = current,
      in_value = (case ae_metric env p current of Inl _ \<Rightarrow> 0 | Inr (v, _) \<Rightarrow> v),
      in_value_known = (case ae_metric env p current of Inl _ \<Rightarrow> False | Inr (_, k) \<Rightarrow> k),
      in_ceiling = ae_ceiling env, in_last_up = st_last_up st, in_last_down = st_last_down st,
      in_down_since = st_down_since st, in_down_floor = st_down_floor st,
      in_spend_blocked = (case ae_spend env (ap_app p) of Inl _ \<Rightarrow> True | Inr s \<Rightarrow> s \<noteq> []),
      in_headroom = Some (\<lambda>extra. case ae_headroom env (ap_app p) extra of Inl _ \<Rightarrow> -1 | Inr n \<Rightarrow> n)\<rparr>"

definition next_state :: "as_env \<Rightarrow> as_state \<Rightarrow> as_decision \<Rightarrow> as_state" where
  "next_state env prev d =
     \<lparr>st_current = dc_current d, st_desired = dc_desired d, st_value = dc_value d,
      st_value_known = (dc_reason d \<noteq> Ar_metrics_unavailable \<and> dc_reason d \<noteq> Ar_suspended),
      st_reason = dc_reason d, st_blocked = dc_blocked d,
      st_last_up = (if dc_changed d \<and> dc_desired d > dc_current d then ae_now env else st_last_up prev),
      st_last_down = (if dc_changed d \<and> \<not> dc_desired d > dc_current d then ae_now env else st_last_down prev),
      st_down_since = dc_down_since d, st_down_floor = dc_down_floor d, st_updated = ae_now env\<rparr>"

definition decision_event :: "as_env \<Rightarrow> string \<Rightarrow> as_event_kind \<Rightarrow> as_decision \<Rightarrow> as_event" where
  "decision_event env app kind d =
     \<lparr>ev_app = app, ev_kind = kind, ev_current = dc_current d, ev_desired = dc_desired d, ev_value = dc_value d, ev_reason = dc_reason d,
      ev_blocked = dc_blocked d, ev_at = ae_now env\<rparr>"

definition decision_events :: "as_env \<Rightarrow> string \<Rightarrow> as_state \<Rightarrow> as_decision \<Rightarrow> as_event list" where
  "decision_events env app prev d =
     (if dc_changed d \<and> dc_desired d > dc_current d then [decision_event env app Ev_scaled_up d]
      else if dc_changed d then [decision_event env app Ev_scaled_down d]
      else if (st_reason prev \<noteq> dc_reason d \<or> st_blocked prev \<noteq> dc_blocked d) \<and>
        (st_reason prev \<noteq> Ar_none \<or> dc_reason d \<noteq> Ar_within_target)
      then [decision_event env app Ev_held d] else [])"

definition undo_scale :: "as_env \<Rightarrow> string \<Rightarrow> as_state \<Rightarrow> as_state \<Rightarrow> as_decision \<Rightarrow> as_world \<Rightarrow> as_world" where
  "undo_scale env app prev nxt d w =
     (let nxt = nxt\<lparr>st_last_up := st_last_up prev, st_last_down := st_last_down prev, st_desired := st_current nxt,
                    st_reason := Ar_scale_failed, st_blocked := Ab_none\<rparr>;
          ev = (decision_event env app Ev_failed d)\<lparr>ev_reason := Ar_scale_failed, ev_blocked := Ab_none,
                                                    ev_desired := st_current nxt\<rparr>
      in snd (save_as_state env app nxt [ev] w))"

definition record_gauge :: "as_env \<Rightarrow> string \<Rightarrow> as_state \<Rightarrow> as_world \<Rightarrow> as_world" where
  "record_gauge env app st w =
     (if \<not> ae_recorder env \<or> ae_gauge_err env \<noteq> None then w
      else (let es = (case list_events env app flap_scan_limit w of Inl _ \<Rightarrow> [] | Inr es \<Rightarrow> es)
            in w\<lparr>aw_gauges := aw_gauges w @
                  [\<lparr>ga_app = app, ga_current = st_current st, ga_desired = st_desired st,
                    ga_no_capacity = (st_blocked st = Ab_no_capacity), ga_flaps = flaps es (ae_now env) flap_window\<rparr>]\<rparr>))"

definition apply_decision ::
    "as_env \<Rightarrow> string \<Rightarrow> as_state \<Rightarrow> as_decision \<Rightarrow> as_world \<Rightarrow> as_error option \<times> as_world" where
  "apply_decision env app prev d w =
     (let nxt = next_state env prev d
      in case save_as_state env app nxt (decision_events env app prev d) w of
           (Some e, w) \<Rightarrow> (Some (Ae_save_state e), w)
         | (None, w) \<Rightarrow>
             if dc_changed d then
               (case set_replicas env app (dc_desired d) w of
                  (Some e, w) \<Rightarrow> (Some (Ae_set_replicas (dc_desired d) e), undo_scale env app prev nxt d w)
                | (None, w) \<Rightarrow> (None, record_gauge env app nxt (w\<lparr>aw_nudges := aw_nudges w + 1\<rparr>)))
             else (None, record_gauge env app nxt w))"

definition suspended_decision :: "int \<Rightarrow> as_decision" where
  "suspended_decision current =
     \<lparr>dc_current = current, dc_desired = current, dc_value = 0, dc_reason = Ar_suspended, dc_blocked = Ab_suspended,
      dc_down_since = zero_time, dc_down_floor = 0\<rparr>"

definition state_of :: "string \<Rightarrow> as_world \<Rightarrow> as_state" where
  "state_of app w = (case map_of (aw_states w) app of Some st \<Rightarrow> st | None \<Rightarrow> as_state_zero)"

definition as_reconcile :: "as_env \<Rightarrow> as_policy \<Rightarrow> as_world \<Rightarrow> as_error option \<times> as_world" where
  "as_reconcile env p w =
     (case (ae_replicas_err env (ap_app p), map_of (aw_replicas w) (ap_app p)) of
        (Some e, _) \<Rightarrow> (Some (Ae_load_replicas e), w)
      | (None, None) \<Rightarrow> (None, w)
      | (None, Some (replicas, susp)) \<Rightarrow>
          (let current = max replicas 1
           in case ae_state_err env (ap_app p) of
                Some e \<Rightarrow> (Some (Ae_load_state e), w)
              | None \<Rightarrow>
                  (let st = state_of (ap_app p) w;
                       d = (if susp then suspended_decision current else decide p (as_input_of env p st current))
                   in apply_decision env (ap_app p) st d w)))"

fun as_reconcile_all :: "as_env \<Rightarrow> as_policy list \<Rightarrow> as_world \<Rightarrow> (string \<times> as_error) list \<times> as_world" where
  "as_reconcile_all env [] w = ([], w)"
| "as_reconcile_all env (p # ps) w =
     (let (e, w) = as_reconcile env p w; (es, w) = as_reconcile_all env ps w
      in ((case e of Some x \<Rightarrow> [(ap_app p, x)] | None \<Rightarrow> []) @ es, w))"

definition as_tick :: "as_env \<Rightarrow> as_world \<Rightarrow> (as_error + (string \<times> as_error) list) \<times> as_world" where
  "as_tick env w =
     (case ae_policies_err env of
        Some e \<Rightarrow> (Inl (Ae_list_policies e), w)
      | None \<Rightarrow> (let (es, w) = as_reconcile_all env (sort_key ap_app (aw_policies w)) w in (Inr es, w)))"

section \<open>Status\<close>

record as_condition =
  co_healthy :: bool
  co_reason :: as_reason

record as_status =
  sa_policy :: as_policy
  sa_effective_max :: int
  sa_current :: int
  sa_desired :: int
  sa_value :: rat
  sa_value_known :: bool
  sa_blocked :: as_blocker
  sa_flaps :: nat
  sa_flapping :: bool
  sa_last_up :: "gotime option"
  sa_last_down :: "gotime option"
  sa_evaluated :: "gotime option"
  sa_condition :: as_condition

definition unhealthy_reason :: "as_reason \<Rightarrow> bool" where
  "unhealthy_reason r \<longleftrightarrow>
     r \<in> {Ar_metrics_unavailable, Ar_no_capacity, Ar_spend_cap_paused, Ar_at_maximum, Ar_scale_failed}"

definition optional_time :: "gotime \<Rightarrow> gotime option" where
  "optional_time t = (if t = zero_time then None else Some t)"

definition get_as_policy :: "as_env \<Rightarrow> string \<Rightarrow> as_world \<Rightarrow> as_error + as_policy" where
  "get_as_policy env app w =
     (case (ae_policy_err env app, find (\<lambda>p. ap_app p = app) (aw_policies w)) of
        (Some e, _) \<Rightarrow> Inl (Ae_load_policy e)
      | (None, None) \<Rightarrow> Inl Ae_not_found
      | (None, Some p) \<Rightarrow> Inr p)"

definition as_status_of :: "as_env \<Rightarrow> string \<Rightarrow> as_world \<Rightarrow> as_error + as_status" where
  "as_status_of env app w =
     (case get_as_policy env app w of
        Inl e \<Rightarrow> Inl e
      | Inr p \<Rightarrow>
          (case ae_replicas_err env app of
             Some e \<Rightarrow> Inl (Ae_load_replicas e)
           | None \<Rightarrow>
               (case ae_state_err env app of
                  Some e \<Rightarrow> Inl (Ae_load_state e)
                | None \<Rightarrow>
                    (case list_events env app flap_scan_limit w of
                       Inl e \<Rightarrow> Inl (Ae_load_history e)
                     | Inr es \<Rightarrow>
                         (let current = max (case map_of (aw_replicas w) app of Some (n, _) \<Rightarrow> n | None \<Rightarrow> 0) 1;
                              n = flaps es (ae_now env) flap_window;
                              threshold = (if ae_flap_threshold env < 1 then 3 else ae_flap_threshold env);
                              flapping = (int n \<ge> threshold);
                              out = \<lparr>sa_policy = p,
                                     sa_effective_max = (if ae_ceiling env > 0 \<and> ae_ceiling env < ap_max p then ae_ceiling env
                                                         else ap_max p),
                                     sa_current = current, sa_desired = current, sa_value = 0, sa_value_known = False,
                                     sa_blocked = Ab_none, sa_flaps = n, sa_flapping = flapping, sa_last_up = None,
                                     sa_last_down = None, sa_evaluated = None,
                                     sa_condition = \<lparr>co_healthy = False, co_reason = Ar_pending\<rparr>\<rparr>
                          in case map_of (aw_states w) app of
                               None \<Rightarrow> Inr out
                             | Some st \<Rightarrow>
                                 (let cond = \<lparr>co_healthy = (\<not> unhealthy_reason (st_reason st) \<and> st_blocked st \<noteq> Ab_no_capacity),
                                              co_reason = st_reason st\<rparr>;
                                      cond = (if flapping \<and> co_healthy cond
                                              then \<lparr>co_healthy = False, co_reason = Ar_flapping\<rparr> else cond)
                                  in Inr (out\<lparr>sa_desired := st_desired st, sa_value := st_value st,
                                              sa_value_known := st_value_known st, sa_blocked := st_blocked st,
                                              sa_last_up := optional_time (st_last_up st),
                                              sa_last_down := optional_time (st_last_down st),
                                              sa_evaluated := optional_time (st_updated st),
                                              sa_condition := cond\<rparr>)))))))"

section \<open>Configuration\<close>

text \<open>
  A policy comes from the API (\<open>internal/api/autoscale.go\<close>) or from the \<open>autoscale:\<close> block of an
  \<open>app.yaml\<close> (\<open>internal/spec/autoscale.go\<close>, \<open>internal/deploy/autoscale.go\<close>), whose duration texts are
  the values the standard library parses: None for a text it rejects.
\<close>

definition save_policy :: "as_env \<Rightarrow> as_policy \<Rightarrow> as_event \<Rightarrow> as_world \<Rightarrow> string option \<times> as_world" where
  "save_policy env p ev w =
     (case ae_policy_write_err env of
        Some e \<Rightarrow> (Some e, w)
      | None \<Rightarrow> (None, w\<lparr>aw_policies := p # filter (\<lambda>q. ap_app q \<noteq> ap_app p) (aw_policies w),
                        aw_events := insert_event ev (aw_events w)\<rparr>))"

definition delete_policy :: "as_env \<Rightarrow> string \<Rightarrow> as_event \<Rightarrow> as_world \<Rightarrow> as_error option \<times> as_world" where
  "delete_policy env app ev w =
     (case ae_policy_write_err env of
        Some e \<Rightarrow> (Some (Ae_write_policy e), w)
      | None \<Rightarrow>
          if \<forall>q \<in> set (aw_policies w). ap_app q \<noteq> app then (Some Ae_not_found, w)
          else (None, w\<lparr>aw_policies := filter (\<lambda>q. ap_app q \<noteq> app) (aw_policies w),
                         aw_states := AList.delete app (aw_states w), aw_events := insert_event ev (aw_events w)\<rparr>))"

definition config_event :: "as_env \<Rightarrow> string \<Rightarrow> as_event_kind \<Rightarrow> as_event" where
  "config_event env app k =
     \<lparr>ev_app = app, ev_kind = k, ev_current = 0, ev_desired = 0, ev_value = 0, ev_reason = Ar_none, ev_blocked = Ab_none,
      ev_at = ae_now env\<rparr>"

datatype put_result = Put_invalid as_policy_error | Put_no_app | Put_internal as_error | Put_ok as_status

definition put_autoscale :: "as_env \<Rightarrow> string \<Rightarrow> as_policy \<Rightarrow> as_world \<Rightarrow> put_result \<times> as_world" where
  "put_autoscale env name req w =
     (let pol = as_normalize (req\<lparr>ap_app := name\<rparr>)
      in case validate_as_policy pol (ae_ceiling env) of
           Some e \<Rightarrow> (Put_invalid e, w)
         | None \<Rightarrow>
             (case (ae_app_err env name, map_of (aw_replicas w) name) of
                (Some e, _) \<Rightarrow> (Put_internal (Ae_load_app e), w)
              | (None, None) \<Rightarrow> (Put_no_app, w)
              | (None, Some _) \<Rightarrow>
                  (case save_policy env pol (config_event env name Ev_configured) w of
                     (Some e, w) \<Rightarrow> (Put_internal (Ae_write_policy e), w)
                   | (None, w) \<Rightarrow>
                       (let (_, w) = as_reconcile env pol w
                        in (case as_status_of env name w of Inl e \<Rightarrow> Put_internal e | Inr st \<Rightarrow> Put_ok st, w)))))"

definition delete_autoscale :: "as_env \<Rightarrow> string \<Rightarrow> as_world \<Rightarrow> as_error option \<times> as_world" where
  "delete_autoscale env name w = delete_policy env name (config_event env name Ev_cleared) w"

text \<open>A manual edit of an app: the replica count it may save, or the refusal.\<close>

datatype edit_refusal = Edit_conflict | Edit_internal as_error

definition keep_autoscaled_replicas :: "as_env \<Rightarrow> string \<Rightarrow> int \<Rightarrow> int \<Rightarrow> as_world \<Rightarrow> edit_refusal + int" where
  "keep_autoscaled_replicas env name existing req w =
     (case get_as_policy env name w of
        Inl Ae_not_found \<Rightarrow> Inr req
      | Inl e \<Rightarrow> Inl (Edit_internal e)
      | Inr _ \<Rightarrow>
          (let current = max existing 1
           in if req = 0 then Inr current else if req \<noteq> current then Inl Edit_conflict else Inr req))"

record as_block =
  ab_min :: int
  ab_max :: int
  ab_metric :: string
  ab_target :: rat
  ab_up_tolerance :: int
  ab_down_tolerance :: int
  ab_up_cooldown :: "duration option option"
  ab_down_cooldown :: "duration option option"
  ab_stabilization :: "duration option option"
  ab_step_up :: int
  ab_step_down :: int

datatype block_error = Be_duration string | Be_policy as_policy_error | Be_replicas_set

text \<open>The outer option is an absent text.\<close>

definition block_seconds :: "string \<Rightarrow> duration option option \<Rightarrow> block_error + int" where
  "block_seconds field v =
     (case v of
        None \<Rightarrow> Inr 0
      | Some None \<Rightarrow> Inl (Be_duration field)
      | Some (Some d) \<Rightarrow> if d < second then Inl (Be_duration field) else Inr (d div second))"

definition block_policy :: "as_block \<Rightarrow> string \<Rightarrow> int \<Rightarrow> block_error + as_policy" where
  "block_policy a app ceil_max =
     (case block_seconds ''scale_up_cooldown'' (ab_up_cooldown a) of Inl e \<Rightarrow> Inl e | Inr up \<Rightarrow>
      (case block_seconds ''scale_down_cooldown'' (ab_down_cooldown a) of Inl e \<Rightarrow> Inl e | Inr down \<Rightarrow>
       (case block_seconds ''stabilization'' (ab_stabilization a) of Inl e \<Rightarrow> Inl e | Inr stab \<Rightarrow>
        (let p = as_normalize
               \<lparr>ap_app = app, ap_min = (if ab_min a = 0 then 1 else ab_min a), ap_max = ab_max a, ap_metric = ab_metric a,
                ap_target = ab_target a, ap_up_tolerance = ab_up_tolerance a, ap_down_tolerance = ab_down_tolerance a,
                ap_up_cooldown = up, ap_down_cooldown = down, ap_stabilization = stab, ap_step_up = ab_step_up a,
                ap_step_down = ab_step_down a\<rparr>
         in case validate_as_policy p ceil_max of Some e \<Rightarrow> Inl (Be_policy e) | None \<Rightarrow> Inr p))))"

definition validate_block :: "as_block option \<Rightarrow> string \<Rightarrow> int \<Rightarrow> block_error option" where
  "validate_block a service replicas =
     (case a of
        None \<Rightarrow> None
      | Some a \<Rightarrow>
          if replicas \<noteq> 0 then Some Be_replicas_set
          else (case block_policy a service 0 of Inl e \<Rightarrow> Some e | Inr _ \<Rightarrow> None))"

datatype deploy_refusal = Dr_block block_error | Dr_store as_error | Dr_managed

definition deploy_policy ::
    "as_env \<Rightarrow> as_block option \<Rightarrow> int \<Rightarrow> string \<Rightarrow> int \<Rightarrow> as_world \<Rightarrow> deploy_refusal + as_policy option" where
  "deploy_policy env blk ceil_max name spec_replicas w =
     (case blk of
        Some a \<Rightarrow> (case block_policy a name ceil_max of Inl e \<Rightarrow> Inl (Dr_block e) | Inr p \<Rightarrow> Inr (Some p))
      | None \<Rightarrow>
          (case get_as_policy env name w of
             Inl Ae_not_found \<Rightarrow> Inr None
           | Inl e \<Rightarrow> Inl (Dr_store e)
           | Inr p \<Rightarrow> if spec_replicas \<noteq> 0 then Inl Dr_managed else Inr (Some p)))"

definition apply_autoscale_replicas ::
    "as_env \<Rightarrow> as_block option \<Rightarrow> int \<Rightarrow> string \<Rightarrow> int \<Rightarrow> int \<Rightarrow> as_world \<Rightarrow> deploy_refusal + int" where
  "apply_autoscale_replicas env blk ceil_max name spec_replicas desired w =
     (case deploy_policy env blk ceil_max name spec_replicas w of
        Inl e \<Rightarrow> Inl e
      | Inr None \<Rightarrow> Inr desired
      | Inr (Some p) \<Rightarrow>
          (case ae_replicas_err env name of
             Some e \<Rightarrow> Inl (Dr_store (Ae_load_replicas e))
           | None \<Rightarrow>
               (let n = (case map_of (aw_replicas w) name of Some (n, _) \<Rightarrow> n | None \<Rightarrow> 0)
                in Inr (min (max n (ap_min p)) (ap_max p)))))"

definition save_autoscale ::
    "as_env \<Rightarrow> as_block option \<Rightarrow> int \<Rightarrow> string \<Rightarrow> as_world \<Rightarrow> deploy_refusal option \<times> as_world" where
  "save_autoscale env blk ceil_max name w =
     (case blk of
        None \<Rightarrow> (None, w)
      | Some a \<Rightarrow>
          (case block_policy a name ceil_max of
             Inl e \<Rightarrow> (Some (Dr_block e), w)
           | Inr p \<Rightarrow>
               (case save_policy env p (config_event env name Ev_configured) w of
                  (Some e, w) \<Rightarrow> (Some (Dr_store (Ae_write_policy e)), w)
                | (None, w) \<Rightarrow> (None, w))))"

section \<open>What one decision may do\<close>

text \<open>A reading that lets the count shrink, and the count it recommends.\<close>

definition low_bound :: "as_policy \<Rightarrow> as_input \<Rightarrow> int" where
  "low_bound p inp = min (ap_min p) (fst (high_bound p inp))"

definition low_reading :: "as_policy \<Rightarrow> as_input \<Rightarrow> bool" where
  "low_reading p inp \<longleftrightarrow>
     in_value_known inp \<and> in_value inp < lower_band p \<and> raw_count p inp < in_current inp"

definition high_reading :: "as_policy \<Rightarrow> as_input \<Rightarrow> bool" where
  "high_reading p inp \<longleftrightarrow>
     in_value_known inp \<and> in_value inp > upper_band p \<and> raw_count p inp > in_current inp"

definition wanted :: "as_policy \<Rightarrow> as_input \<Rightarrow> int" where
  "wanted p inp = max (raw_count p inp) (low_bound p inp)"

definition low_since :: "as_input \<Rightarrow> gotime" where
  "low_since inp = (if in_down_since inp = zero_time then in_now inp else in_down_since inp)"

definition low_floor :: "as_policy \<Rightarrow> as_input \<Rightarrow> int" where
  "low_floor p inp =
     (if in_down_since inp = zero_time then wanted p inp else max (in_down_floor inp) (wanted p inp))"

lemma decision_simps [simp]:
  "dc_current (hold_at r b d) = dc_current d" "dc_desired (hold_at r b d) = dc_desired d"
  "dc_reason (hold_at r b d) = r" "dc_blocked (hold_at r b d) = b"
  "dc_down_since (hold_at r b d) = dc_down_since d" "dc_down_floor (hold_at r b d) = dc_down_floor d"
  "dc_current (reset_down d) = dc_current d" "dc_desired (reset_down d) = dc_desired d"
  "dc_reason (reset_down d) = dc_reason d" "dc_blocked (reset_down d) = dc_blocked d"
  "dc_down_since (reset_down d) = zero_time" "dc_down_floor (reset_down d) = 0"
  by (simp_all add: hold_at_def reset_down_def)

lemma capped_extra_le: "capped_extra inp extra \<le> extra"
  by (auto simp: capped_extra_def Let_def split: option.splits)

lemma capped_extra_head:
  "in_headroom inp = Some f \<Longrightarrow> 0 \<le> f extra \<Longrightarrow> capped_extra inp extra \<le> f extra"
  by (auto simp: capped_extra_def Let_def)

text \<open>A growing decision: only towards the target, never under a spend cap, never past the
  headroom.\<close>

definition may_grow :: "as_input \<Rightarrow> int \<Rightarrow> int \<Rightarrow> bool" where
  "may_grow inp target n \<longleftrightarrow>
     in_current inp < n \<and> n \<le> target \<and> \<not> in_spend_blocked inp \<and>
     n = in_current inp + capped_extra inp (target - in_current inp)"

lemma grow_to_cases:
  fixes d inp target r
  assumes "dc_desired d = in_current inp"
  defines "g \<equiv> grow_to inp target r d"
  obtains (hold) "dc_desired g = in_current inp" "dc_reason g \<in> {Ar_spend_cap_paused, Ar_no_capacity}"
    | (grow) "may_grow inp target (dc_desired g)" "dc_reason g = r"
proof (cases "in_spend_blocked inp \<or> capped_extra inp (target - in_current inp) \<le> 0")
  case True
  then show thesis using assms(1) by (intro hold) (auto simp: g_def grow_to_def Let_def)
next
  case False
  then have "may_grow inp target (dc_desired g)" and "dc_reason g = r"
    using capped_extra_le [of inp "target - in_current inp"]
    by (auto simp: g_def grow_to_def Let_def may_grow_def)
  then show thesis by (rule grow)
qed

lemma frame_simps [simp]:
  "dc_current (grow_to inp target r d) = dc_current d"
  "dc_down_since (grow_to inp target r d) = dc_down_since d"
  "dc_current (scale_up p inp raw hi b d) = dc_current d"
  "dc_down_since (scale_up p inp raw hi b d) = dc_down_since d"
  "dc_current (scale_down p inp want lo d) = dc_current d"
  by (simp_all add: grow_to_def scale_up_def scale_down_def Let_def reset_down_def hold_at_def)

definition up_target :: "as_policy \<Rightarrow> as_input \<Rightarrow> int \<Rightarrow> int" where
  "up_target p inp hi = min (min (raw_count p inp) hi) (in_current inp + ap_step_up p)"

definition up_ready :: "as_policy \<Rightarrow> as_input \<Rightarrow> bool" where
  "up_ready p inp \<longleftrightarrow>
     in_last_up inp = zero_time \<or> up_cooldown p \<le> time_sub (in_now inp) (in_last_up inp)"

lemma scale_up_cases:
  fixes d p inp hi b
  assumes "dc_desired d = in_current inp"
  defines "g \<equiv> scale_up p inp (raw_count p inp) hi b d"
  obtains (hold) "dc_desired g = in_current inp" "dc_reason g \<notin> {Ar_scaled_up, Ar_scaled_down}"
    | (grow) "may_grow inp (up_target p inp hi) (dc_desired g)" "dc_reason g = Ar_scaled_up" "up_ready p inp"
proof -
  define e where "e = grow_to inp (up_target p inp hi) Ar_scaled_up d"
  let ?cool = "in_last_up inp \<noteq> zero_time \<and> time_sub (in_now inp) (in_last_up inp) < up_cooldown p"
  consider "in_current inp \<ge> hi \<or> in_spend_blocked inp \<or> ?cool"
    | "\<not> in_current inp \<ge> hi" "\<not> in_spend_blocked inp" "\<not> ?cool" by blast
  then show thesis
  proof cases
    case 1
    then show thesis using assms(1) by (intro hold) (auto simp: g_def scale_up_def Let_def)
  next
    case 2
    then have eq: "dc_desired g = dc_desired e" "dc_reason g = dc_reason e"
      by (auto simp: g_def scale_up_def Let_def e_def up_target_def)
    have ready: "up_ready p inp" using 2 by (auto simp: up_ready_def)
    show thesis
      by (rule grow_to_cases [OF assms(1), where target = "up_target p inp hi" and r = Ar_scaled_up])
        (auto simp: eq ready e_def [symmetric] intro: hold grow)
  qed
qed

definition last_change :: "as_input \<Rightarrow> gotime" where
  "last_change inp = max (in_last_up inp) (in_last_down inp)"

lemma last_change_alt:
  "(if in_last_down inp > in_last_up inp then in_last_down inp else in_last_up inp) = last_change inp"
  by (simp add: last_change_def max_def)

definition may_shrink :: "as_policy \<Rightarrow> as_input \<Rightarrow> bool" where
  "may_shrink p inp \<longleftrightarrow>
     low_floor p inp < in_current inp \<and> stabilization p \<le> time_sub (in_now inp) (low_since inp) \<and>
     (last_change inp = zero_time \<or> down_cooldown p \<le> time_sub (in_now inp) (last_change inp))"

lemma scale_down_cases:
  fixes d p inp lo
  assumes "dc_desired d = in_current inp" and "dc_down_since d = in_down_since inp"
    and "dc_down_floor d = in_down_floor inp"
  defines "g \<equiv> scale_down p inp (wanted p inp) lo d"
  obtains (hold) "dc_desired g = in_current inp" "dc_reason g \<notin> {Ar_scaled_down, Ar_scaled_up}"
      "dc_down_since g = zero_time \<or> dc_down_since g = low_since inp \<and> dc_down_floor g = low_floor p inp"
    | (shrink) "dc_reason g = Ar_scaled_down" "dc_down_since g = zero_time" "may_shrink p inp"
      "dc_desired g = max (low_floor p inp) (in_current inp - ap_step_down p)"
proof -
  define e where "e = (if dc_down_since d = zero_time
      then d\<lparr>dc_down_since := in_now inp, dc_down_floor := wanted p inp\<rparr>
      else d\<lparr>dc_down_floor := max (dc_down_floor d) (wanted p inp)\<rparr>)"
  have e: "dc_down_since e = low_since inp" "dc_down_floor e = low_floor p inp" "dc_desired e = in_current inp"
    using assms(1-3) by (simp_all add: e_def low_since_def low_floor_def)
  let ?soon = "time_sub (in_now inp) (low_since inp) < stabilization p"
  let ?cool = "last_change inp \<noteq> zero_time \<and> time_sub (in_now inp) (last_change inp) < down_cooldown p"
  let ?target = "max (low_floor p inp) (in_current inp - ap_step_down p)"
  have g: "g =
     (if in_current inp \<le> lo then hold_at Ar_at_minimum Ab_min_replicas (reset_down d)
      else if ?soon then hold_at Ar_stabilizing Ab_stabilization e
      else if low_floor p inp \<ge> in_current inp then hold_at Ar_within_target Ab_none (reset_down e)
      else if ?cool then hold_at Ar_cooldown Ab_cooldown e
      else reset_down (e\<lparr>dc_desired := ?target, dc_reason := Ar_scaled_down,
                         dc_blocked := (if ?target > low_floor p inp then Ab_step_limit else dc_blocked e)\<rparr>))"
    unfolding g_def scale_down_def Let_def last_change_alt e_def [symmetric] e ..
  consider "in_current inp \<le> lo" | "\<not> in_current inp \<le> lo" "?soon"
    | "\<not> in_current inp \<le> lo" "\<not> ?soon" "low_floor p inp \<ge> in_current inp"
    | "\<not> in_current inp \<le> lo" "\<not> ?soon" "\<not> low_floor p inp \<ge> in_current inp" "?cool"
    | "\<not> in_current inp \<le> lo" "\<not> ?soon" "\<not> low_floor p inp \<ge> in_current inp" "\<not> ?cool"
    by blast
  then show thesis
  proof cases
    case 5
    then have "may_shrink p inp" by (auto simp: may_shrink_def)
    with 5 show thesis by (intro shrink) (auto simp: g)
  qed (rule hold; simp add: g e assms(1))+
qed

text \<open>Every case of a decision, in terms of the reading.\<close>

lemma decide_frame [simp]: "dc_current (decide p inp) = in_current inp"
  by (simp add: decide_def Let_def reset_down_def split: prod.split)


lemma decide_cases:
  fixes p inp
  defines "g \<equiv> decide p inp" and "lo \<equiv> low_bound p inp" and "hi \<equiv> fst (high_bound p inp)"
  obtains
      (hold) "in_current inp \<le> hi" "dc_desired g = in_current inp"
        "dc_reason g \<notin> {Ar_scaled_up, Ar_scaled_down}" "dc_down_since g = zero_time"
    | (raise) "in_current inp < lo" "may_grow inp lo (dc_desired g)" "dc_reason g = Ar_bounds_corrected"
        "dc_down_since g = zero_time"
    | (cut) "hi < in_current inp" "dc_desired g = hi" "dc_reason g = Ar_bounds_corrected"
        "dc_down_since g = zero_time"
    | (grow) "lo \<le> in_current inp" "in_current inp \<le> hi" "high_reading p inp" "may_grow inp (up_target p inp hi) (dc_desired g)"
        "dc_reason g = Ar_scaled_up" "up_ready p inp" "dc_down_since g = zero_time"
    | (wait) "lo \<le> in_current inp" "in_current inp \<le> hi" "low_reading p inp" "dc_desired g = in_current inp"
        "dc_reason g \<notin> {Ar_scaled_up, Ar_scaled_down}"
        "dc_down_since g = low_since inp" "dc_down_floor g = low_floor p inp"
    | (shrink) "lo \<le> in_current inp" "in_current inp \<le> hi" "low_reading p inp" "dc_reason g = Ar_scaled_down"
        "dc_down_since g = zero_time" "may_shrink p inp"
        "dc_desired g = max (low_floor p inp) (in_current inp - ap_step_down p)"
proof -
  define d where "d = \<lparr>dc_current = in_current inp, dc_desired = in_current inp, dc_value = in_value inp,
    dc_reason = Ar_none, dc_blocked = Ab_none, dc_down_since = in_down_since inp, dc_down_floor = in_down_floor inp\<rparr>"
  have d: "dc_desired (reset_down d) = in_current inp" "dc_desired d = in_current inp"
    "dc_down_since d = in_down_since inp" "dc_down_floor d = in_down_floor inp"
    by (simp_all add: d_def)
  have lohi: "lo \<le> hi" by (simp add: lo_def hi_def low_bound_def)
  obtain b where hb: "high_bound p inp = (hi, b)" unfolding hi_def by (metis prod.collapse)
  let ?up = "in_value inp > upper_band p \<and> raw_count p inp > in_current inp"
  let ?down = "in_value inp < lower_band p \<and> raw_count p inp < in_current inp"
  have g: "g =
      (if in_current inp < lo then grow_to inp lo Ar_bounds_corrected (reset_down d)
       else if in_current inp > hi then (reset_down d)\<lparr>dc_desired := hi, dc_reason := Ar_bounds_corrected\<rparr>
       else if \<not> in_value_known inp then hold_at Ar_metrics_unavailable Ab_no_metrics (reset_down d)
       else if ?up then scale_up p inp (raw_count p inp) hi b (reset_down d)
       else if ?down then scale_down p inp (wanted p inp) lo d
       else hold_at Ar_within_target Ab_none (reset_down d))"
    by (simp add: g_def decide_def Let_def hb d_def lo_def low_bound_def wanted_def)
  consider "in_current inp < lo" | "\<not> in_current inp < lo" "in_current inp > hi"
    | "lo \<le> in_current inp" "in_current inp \<le> hi" "in_value_known inp" "?up"
    | "lo \<le> in_current inp" "in_current inp \<le> hi" "in_value_known inp" "\<not> ?up" "?down"
    | "lo \<le> in_current inp" "in_current inp \<le> hi" "\<not> in_value_known inp \<or> \<not> ?up \<and> \<not> ?down"
    by fastforce
  then show thesis
  proof cases
    case 1
    then have eq: "g = grow_to inp lo Ar_bounds_corrected (reset_down d)" by (simp add: g)
    show thesis
      by (rule grow_to_cases [OF d(1), where target = lo and r = Ar_bounds_corrected])
        (use 1 lohi in \<open>auto simp: eq intro: hold raise\<close>)
  next
    case 2
    then show thesis by (intro cut) (simp_all add: g reset_down_def)
  next
    case 3
    then have eq: "g = scale_up p inp (raw_count p inp) hi b (reset_down d)" by (simp add: g)
    have high: "high_reading p inp" using 3 by (simp add: high_reading_def)
    show thesis
      by (rule scale_up_cases [OF d(1), where p = p and hi = hi and b = b])
        (auto simp: eq 3 intro: hold grow [OF _ _ high])
  next
    case 4
    then have eq: "g = scale_down p inp (wanted p inp) lo d" by (simp add: g)
    have low: "low_reading p inp" using 4 by (simp add: low_reading_def)
    show thesis
      by (rule scale_down_cases [OF d(2,3,4), where p = p and lo = lo])
        (use 4 low in \<open>auto simp: eq intro: hold wait shrink\<close>)
  next
    case 5
    then show thesis by (intro hold) (auto simp: g d)
  qed
qed


lemma valid_policy:
  assumes "validate_as_policy p c = None"
  shows "1 \<le> ap_min p" and "ap_min p \<le> ap_max p" and "1 \<le> ap_step_up p" and "1 \<le> ap_step_down p"
    and "0 < ap_target p" and "1 \<le> ap_up_tolerance p" and "1 \<le> ap_down_tolerance p"
    and "1 \<le> ap_up_cooldown p" and "1 \<le> ap_down_cooldown p" and "1 \<le> ap_stabilization p"
  using assms by (auto simp: validate_as_policy_def validate_target_def outside_def split: if_splits option.splits)

lemma up_target_le: "up_target p inp hi \<le> hi" "up_target p inp hi \<le> in_current inp + ap_step_up p"
  by (simp_all add: up_target_def)

lemma low_floor_ge: "low_bound p inp \<le> low_floor p inp"
  by (auto simp: low_floor_def wanted_def)

lemma decide_in_bounds:
  fixes p inp
  defines "lo \<equiv> low_bound p inp" and "hi \<equiv> fst (high_bound p inp)" and "n \<equiv> dc_desired (decide p inp)"
  assumes "1 \<le> ap_step_up p" and "1 \<le> ap_step_down p"
  shows "if in_current inp < lo then in_current inp \<le> n \<and> n \<le> lo
         else if hi < in_current inp then n = hi
         else lo \<le> n \<and> n \<le> hi \<and> in_current inp - ap_step_down p \<le> n \<and> n \<le> in_current inp + ap_step_up p"
proof -
  have "lo \<le> hi" by (simp add: lo_def hi_def low_bound_def)
  show ?thesis
  proof (cases p inp rule: decide_cases)
    case hold
    with \<open>lo \<le> hi\<close> assms show ?thesis by auto
  qed (use assms \<open>lo \<le> hi\<close> up_target_le [of p inp hi] low_floor_ge [of p inp] in
      \<open>auto simp: may_grow_def may_shrink_def\<close>)
qed


text \<open>
  For a valid policy, a decision taken inside the bounds stays inside them and moves by at most the step limits; one taken outside moves towards them. The count only moves on a known reading outside the dead band, downwards below it and upwards above it; a spend cap in force and the headroom of the placement are never exceeded.
\<close>

theorem decide_bounds:
  assumes "validate_as_policy p c = None"
    and "decide p inp = d" and "fst (high_bound p inp) = hi" and "min (ap_min p) hi = lo"
  shows "(if in_current inp < lo then in_current inp \<le> dc_desired d \<and> dc_desired d \<le> lo
          else if hi < in_current inp then dc_desired d = hi
          else lo \<le> dc_desired d \<and> dc_desired d \<le> hi \<and>
            in_current inp - ap_step_down p \<le> dc_desired d \<and> dc_desired d \<le> in_current inp + ap_step_up p) \<and>
         (lo \<le> in_current inp \<and> in_current inp \<le> hi \<and> dc_desired d \<noteq> in_current inp \<longrightarrow>
            in_value_known inp \<and>
            (in_value inp < lower_band p \<and> dc_desired d < in_current inp \<or>
             upper_band p < in_value inp \<and> in_current inp < dc_desired d)) \<and>
         (in_spend_blocked inp \<longrightarrow> dc_desired d \<le> in_current inp) \<and>
         (in_headroom inp = Some f \<and> (\<forall>x. 0 \<le> f x \<and> f x \<le> room) \<longrightarrow> dc_desired d \<le> in_current inp + room)"
    (is "?range \<and> ?moved \<and> ?spend \<and> ?room")
proof (intro conjI)
  have steps: "1 \<le> ap_step_up p" "1 \<le> ap_step_down p" using valid_policy [OF assms(1)] by auto
  have lo: "lo = low_bound p inp" using assms(3,4) by (simp add: low_bound_def)
  show ?range using decide_in_bounds [OF steps] assms(2,3) lo by metis
  show ?moved
    by (cases p inp rule: decide_cases)
      (use steps in \<open>auto simp: lo assms(2,3) may_grow_def may_shrink_def high_reading_def low_reading_def\<close>)
  show ?spend
    by (cases p inp rule: decide_cases)
      (use steps in \<open>auto simp: assms(2) may_grow_def may_shrink_def\<close>)
  show ?room
  proof (intro impI, elim conjE)
    assume f: "in_headroom inp = Some f" and room: "\<forall>x. 0 \<le> f x \<and> f x \<le> room"
    have le: "in_current inp + capped_extra inp extra \<le> in_current inp + room" for extra
      using capped_extra_head [OF f, of extra] room order_trans by (metis add_left_mono)
    have "0 \<le> room" using room order_trans by blast
    then show "dc_desired d \<le> in_current inp + room"
      by (cases p inp rule: decide_cases)
        (use steps le assms(2) in \<open>auto simp: may_grow_def may_shrink_def\<close>)
  qed
qed


section \<open>Runs of the controller\<close>

definition decision_for :: "as_env \<Rightarrow> as_policy \<Rightarrow> as_world \<Rightarrow> int \<Rightarrow> bool \<Rightarrow> as_decision" where
  "decision_for env p w n susp =
     (if susp then suspended_decision (max n 1)
      else decide p (as_input_of env p (state_of (ap_app p) w) (max n 1)))"

text \<open>The state a failed replica write leaves, when it can be saved.\<close>

definition undone :: "as_env \<Rightarrow> as_state \<Rightarrow> as_decision \<Rightarrow> as_state" where
  "undone env prev d =
     (next_state env prev d)\<lparr>st_last_up := st_last_up prev, st_last_down := st_last_down prev,
        st_desired := dc_current d, st_reason := Ar_scale_failed, st_blocked := Ab_none\<rparr>"

lemma state_of_update [simp]:
  "state_of app (w\<lparr>aw_states := AList.update app st ss, aw_events := es\<rparr>) = st"
  "state_of app (w\<lparr>aw_replicas := m\<rparr>) = state_of app w"
  "state_of app (w\<lparr>aw_nudges := k\<rparr>) = state_of app w"
  "state_of app (w\<lparr>aw_gauges := gs\<rparr>) = state_of app w"
  by (simp_all add: state_of_def)

lemma record_gauge_frame [simp]:
  "aw_replicas (record_gauge env app st w) = aw_replicas w"
  "aw_states (record_gauge env app st w) = aw_states w"
  "aw_nudges (record_gauge env app st w) = aw_nudges w"
  "aw_events (record_gauge env app st w) = aw_events w"
  by (simp_all add: record_gauge_def Let_def)

lemma state_of_cong: "aw_states w = aw_states w' \<Longrightarrow> state_of app w = state_of app w'"
  by (simp add: state_of_def)

lemma stored_time_props [simp]:
  "stored_time t \<le> t" "t - second < stored_time t" "stored_time (stored_time t) = stored_time t"
  "stored_time zero_time = zero_time"
proof -
  have t: "t = stored_time t + t mod second" and "0 \<le> t mod second" and "t mod second < second"
    by (simp_all add: stored_time_def second_def)
  then show "stored_time t \<le> t" and "t - second < stored_time t" by linarith+
  show "stored_time (stored_time t) = stored_time t" by (simp add: stored_time_def second_def)
qed (simp add: stored_time_def zero_time_def)

lemma stored_time_mono: "t \<le> t' \<Longrightarrow> stored_time t \<le> stored_time t'"
  by (simp add: stored_time_def second_def zdiv_mono1)

lemma stored_state_simps [simp]:
  "st_last_up (stored_state st) = stored_time (st_last_up st)"
  "st_last_down (stored_state st) = stored_time (st_last_down st)"
  "st_down_since (stored_state st) = stored_time (st_down_since st)"
  "st_down_floor (stored_state st) = st_down_floor st" "st_reason (stored_state st) = st_reason st"
  by (simp_all add: stored_state_def)

lemma insert_event_hd: "ev_kind (hd (insert_event e es)) = ev_kind e"
  by (simp add: insert_event_def events_kept_def)

lemma time_sub_antimono: "b \<le> b' \<Longrightarrow> time_sub a b' \<le> time_sub a b"
  by (auto simp: time_sub_def max_def min_def)

lemma time_sub_stored: "time_sub a (stored_time b) < time_sub a b + second"
  using stored_time_props(1,2) [of b] by (auto simp: time_sub_def max_def min_def second_def)

lemma save_as_state_None:
  "save_as_state env app st evs w = (None, w') \<Longrightarrow> ae_save_err env app st = None \<and>
     aw_replicas w' = aw_replicas w \<and> aw_nudges w' = aw_nudges w \<and> state_of app w' = stored_state st \<and>
     aw_events w' = fold insert_event evs (aw_events w)"
  by (auto simp: save_as_state_def split: option.splits)

lemma save_as_state_Some: "save_as_state env app st evs w = (Some e, w') \<Longrightarrow> w' = w"
  by (auto simp: save_as_state_def split: option.splits)

lemma set_replicas_Some: "set_replicas env app n w = (Some e, w') \<Longrightarrow> w' = w"
  by (auto simp: set_replicas_def split: option.splits)

lemma set_replicas_None:
  "set_replicas env app n w = (None, w') \<Longrightarrow>
     \<exists>m susp. map_of (aw_replicas w) app = Some (m, susp) \<and> w' = w\<lparr>aw_replicas := AList.update app (n, susp) (aw_replicas w)\<rparr>"
  by (auto simp: set_replicas_def split: option.splits)

lemma undo_scale_cases:
  "undo_scale env app prev (next_state env prev d) d w = w' \<Longrightarrow>
     aw_replicas w' = aw_replicas w \<and> aw_nudges w' = aw_nudges w \<and>
     (if ae_save_err env app (undone env prev d) = None
      then state_of app w' = stored_state (undone env prev d) \<and>
        ev_kind (hd (aw_events w')) = Ev_failed
      else w' = w)"
  by (auto simp: undo_scale_def Let_def save_as_state_def undone_def next_state_def decision_event_def
      insert_event_hd split: option.splits)

text \<open>What a reconcile does to the replica table and to the saved state.\<close>

lemma as_reconcile_cases:
  assumes "as_reconcile env p w = (r, w')"
  defines "app \<equiv> ap_app p" and "prev \<equiv> state_of (ap_app p) w"
  obtains (skip) "aw_replicas w' = aw_replicas w" "state_of app w' = prev" "aw_nudges w' = aw_nudges w"
      "\<forall>n e. r \<noteq> Some (Ae_set_replicas n e)"
      "\<And>n susp. ae_replicas_err env app = None \<Longrightarrow> ae_state_err env app = None \<Longrightarrow>
        map_of (aw_replicas w) app = Some (n, susp) \<Longrightarrow>
        ae_save_err env app (next_state env prev (decision_for env p w n susp)) \<noteq> None"
    | (held) n susp d where "map_of (aw_replicas w) app = Some (n, susp)" "d = decision_for env p w n susp"
      "ae_replicas_err env app = None" "ae_state_err env app = None" "ae_save_err env app (next_state env prev d) = None"
      "\<not> dc_changed d" "aw_replicas w' = aw_replicas w" "state_of app w' = stored_state (next_state env prev d)" "r = None"
    | (moved) n susp d where "map_of (aw_replicas w) app = Some (n, susp)" "d = decision_for env p w n susp"
      "ae_replicas_err env app = None" "ae_state_err env app = None" "ae_save_err env app (next_state env prev d) = None"
      "dc_changed d" "aw_replicas w' = AList.update app (dc_desired d, susp) (aw_replicas w)"
      "state_of app w' = stored_state (next_state env prev d)" "r = None"
    | (failed) n susp d e where "map_of (aw_replicas w) app = Some (n, susp)" "d = decision_for env p w n susp"
      "ae_replicas_err env app = None" "ae_state_err env app = None" "ae_save_err env app (next_state env prev d) = None"
      "dc_changed d" "aw_replicas w' = aw_replicas w" "aw_nudges w' = aw_nudges w"
      "r = Some (Ae_set_replicas (dc_desired d) e)"
      "if ae_save_err env app (undone env prev d) = None
       then state_of app w' = stored_state (undone env prev d) \<and> ev_kind (hd (aw_events w')) = Ev_failed
       else state_of app w' = stored_state (next_state env prev d)"
proof (cases "ae_replicas_err env app = None \<and> ae_state_err env app = None \<and> map_of (aw_replicas w) app \<noteq> None")
  case False
  then show thesis
    using assms(1) by (intro skip) (auto simp: as_reconcile_def app_def prev_def split: option.splits)
next
  case True
  then obtain n susp where look: "map_of (aw_replicas w) app = Some (n, susp)" by auto
  define d where "d = decision_for env p w n susp"
  have ap: "apply_decision env app prev d w = (r, w')"
    using assms(1) True look
    by (simp add: as_reconcile_def app_def prev_def d_def decision_for_def Let_def)
  obtain x w1 where save: "save_as_state env app (next_state env prev d) (decision_events env app prev d) w = (x, w1)"
    by (metis prod.exhaust)
  show thesis
  proof (cases x)
    case (Some e)
    then have "w1 = w" and "ae_save_err env app (next_state env prev d) \<noteq> None"
      using save by (auto simp: save_as_state_def split: option.splits)
    then show thesis using ap save Some look d_def
      by (intro skip) (auto simp: apply_decision_def Let_def prev_def app_def)
  next
    case None
    note w1 = save_as_state_None [OF save [unfolded None]]
    show thesis
    proof (cases "dc_changed d")
      case False
      then have "r = None" and "w' = record_gauge env app (next_state env prev d) w1"
        using ap save None by (auto simp: apply_decision_def Let_def)
      with False True w1 look d_def show thesis
        by (intro held [of n susp d]) (auto simp: state_of_def)
    next
      case changed: True
      obtain y w2 where set: "set_replicas env app (dc_desired d) w1 = (y, w2)" by (metis prod.exhaust)
      show thesis
      proof (cases y)
        case (Some e)
        then have "w2 = w1" using set set_replicas_Some by blast
        then have r: "r = Some (Ae_set_replicas (dc_desired d) e)"
          and "undo_scale env app prev (next_state env prev d) d w1 = w'"
          using ap save None changed set Some
          by (auto simp: apply_decision_def Let_def set_replicas_def split: option.splits)
        from undo_scale_cases [OF this(2)] r True w1 look d_def changed show thesis
          by (intro failed [of n susp d e]) auto
      next
        case None': None
        have w': "w' = record_gauge env app (next_state env prev d) (w2\<lparr>aw_nudges := aw_nudges w2 + 1\<rparr>)" "r = None"
          using ap save None changed set None' by (auto simp: apply_decision_def Let_def)
        from set_replicas_None [OF set [unfolded None']] w1 look
        have "w2 = w1\<lparr>aw_replicas := AList.update app (dc_desired d, susp) (aw_replicas w)\<rparr>" by auto
        with w' True w1 look d_def changed show thesis
          by (intro moved [of n susp d]) (auto simp: state_of_def)
      qed
    qed
  qed
qed


text \<open>
  A run for one policy: reconciles, with whatever the environment of each answers, and writes of
  the replica table by anything else.
\<close>

datatype as_op = Op_reconcile as_env | Op_external "(string, int \<times> bool) gomap"

fun as_step :: "as_policy \<Rightarrow> as_op \<Rightarrow> as_world \<Rightarrow> as_world" where
  "as_step p (Op_reconcile env) w = snd (as_reconcile env p w)"
| "as_step p (Op_external m) w = w\<lparr>aw_replicas := m\<rparr>"

fun as_run :: "as_policy \<Rightarrow> as_op list \<Rightarrow> as_world \<Rightarrow> as_world" where
  "as_run p [] w = w"
| "as_run p (op # ops) w = as_run p ops (as_step p op w)"

definition replicas_of :: "string \<Rightarrow> as_world \<Rightarrow> int option" where
  "replicas_of app w = map_option fst (map_of (aw_replicas w) app)"

text \<open>A change of the count: when, whether upwards, and the reason recorded for it.\<close>

type_synonym count_change = "gotime \<times> bool \<times> as_reason"

fun as_change :: "as_policy \<Rightarrow> as_op \<Rightarrow> as_world \<Rightarrow> count_change list" where
  "as_change p (Op_reconcile env) w =
     (let w' = snd (as_reconcile env p w)
      in case (replicas_of (ap_app p) w, replicas_of (ap_app p) w') of
           (Some n, Some m) \<Rightarrow>
             if m = n then [] else [(ae_now env, n < m, st_reason (state_of (ap_app p) w'))]
         | _ \<Rightarrow> [])"
| "as_change p (Op_external m) w = []"

fun as_changes :: "as_policy \<Rightarrow> as_op list \<Rightarrow> as_world \<Rightarrow> count_change list" where
  "as_changes p [] w = []"
| "as_changes p (op # ops) w = as_change p op w @ as_changes p ops (as_step p op w)"

fun op_times :: "as_op list \<Rightarrow> gotime list" where
  "op_times [] = []"
| "op_times (Op_reconcile env # ops) = ae_now env # op_times ops"
| "op_times (Op_external _ # ops) = op_times ops"

fun cooled :: "as_policy \<Rightarrow> count_change \<Rightarrow> count_change \<Rightarrow> bool" where
  "cooled p (t, up, _) (t', _, r) \<longleftrightarrow>
     (r = Ar_scaled_up \<and> up \<longrightarrow> up_cooldown p - second < time_sub t' t) \<and>
     (r = Ar_scaled_down \<longrightarrow> down_cooldown p - second < time_sub t' t)"

lemma next_state_simps [simp]:
  "st_reason (next_state env prev d) = dc_reason d"
  "st_current (next_state env prev d) = dc_current d"
  "st_down_since (next_state env prev d) = dc_down_since d"
  "st_down_floor (next_state env prev d) = dc_down_floor d"
  "st_last_up (next_state env prev d) = (if dc_changed d \<and> dc_desired d > dc_current d then ae_now env else st_last_up prev)"
  "st_last_down (next_state env prev d) = (if dc_changed d \<and> \<not> dc_desired d > dc_current d then ae_now env else st_last_down prev)"
  by (simp_all add: next_state_def)

lemma undone_simps [simp]:
  "st_last_up (undone env prev d) = st_last_up prev" "st_last_down (undone env prev d) = st_last_down prev"
  "st_down_since (undone env prev d) = dc_down_since d" "st_down_floor (undone env prev d) = dc_down_floor d"
  "st_reason (undone env prev d) = Ar_scale_failed"
  by (simp_all add: undone_def)

lemma decision_for_simps [simp]:
  "dc_current (decision_for env p w n susp) = max n 1"
  by (simp add: decision_for_def suspended_decision_def as_input_of_def)

text \<open>The times of the last changes only move to the time of the pass.\<close>

lemma reconcile_last:
  assumes "as_reconcile env p w = (r, w')"
  shows "stored_time (st_last_up (state_of (ap_app p) w')) \<in>
      {stored_time (st_last_up (state_of (ap_app p) w)), stored_time (ae_now env)}"
    and "stored_time (st_last_down (state_of (ap_app p) w')) \<in>
      {stored_time (st_last_down (state_of (ap_app p) w)), stored_time (ae_now env)}"
  using assms by (cases rule: as_reconcile_cases; auto split: if_splits)+

definition last_moved :: "as_state \<Rightarrow> gotime" where
  "last_moved st = max (stored_time (st_last_up st)) (stored_time (st_last_down st))"

lemma last_up_kept:
  assumes "stored_time a \<le> stored_time (st_last_up (state_of (ap_app p) w))" and "\<forall>t\<in>set (op_times [op]). a \<le> t"
  shows "stored_time a \<le> stored_time (st_last_up (state_of (ap_app p) (as_step p op w)))"
proof (cases op)
  case (Op_reconcile env)
  then have "stored_time a \<le> stored_time (ae_now env)" using assms(2) by (intro stored_time_mono) simp
  then show ?thesis using Op_reconcile assms reconcile_last(1) [of env p w]
    by (cases "as_reconcile env p w") auto
qed (use assms in auto)

lemma last_moved_kept:
  assumes "stored_time a \<le> last_moved (state_of (ap_app p) w)" and "\<forall>t\<in>set (op_times [op]). a \<le> t"
  shows "stored_time a \<le> last_moved (state_of (ap_app p) (as_step p op w))"
proof (cases op)
  case (Op_reconcile env)
  then have "stored_time a \<le> stored_time (ae_now env)" using assms(2) by (intro stored_time_mono) simp
  then show ?thesis using Op_reconcile assms reconcile_last [of env p w]
    by (cases "as_reconcile env p w") (auto simp: last_moved_def le_max_iff_disj)
qed (use assms in auto)

text \<open>A change is a decision that was written.\<close>

lemma as_change_none:
  "aw_replicas (snd (as_reconcile env p w)) = aw_replicas w \<Longrightarrow> as_change p (Op_reconcile env) w = []"
  by (cases "map_of (aw_replicas w) (ap_app p)") (auto simp: replicas_of_def Let_def)

lemma as_changeE:
  assumes "(t, up, r) \<in> set (as_change p op w)"
  obtains env n susp d where "op = Op_reconcile env" "t = ae_now env"
    "map_of (aw_replicas w) (ap_app p) = Some (n, susp)" "d = decision_for env p w n susp"
    "dc_changed d" "r = dc_reason d" "up = (n < dc_desired d)" "n \<noteq> dc_desired d" "\<not> susp"
    "ae_replicas_err env (ap_app p) = None" "ae_state_err env (ap_app p) = None"
    "ae_save_err env (ap_app p) (next_state env (state_of (ap_app p) w) d) = None"
    "state_of (ap_app p) (as_step p op w) = stored_state (next_state env (state_of (ap_app p) w) d)"
    "replicas_of (ap_app p) (as_step p op w) = Some (dc_desired d)"
proof (cases op)
  case (Op_reconcile env)
  obtain x w' where rec: "as_reconcile env p w = (x, w')" by (metis prod.exhaust)
  from rec show thesis
  proof (cases rule: as_reconcile_cases)
    case (moved n susp d)
    moreover have "\<not> susp" using moved(2,6)
      by (auto simp: decision_for_def suspended_decision_def dc_changed_def)
    ultimately show thesis
      using assms Op_reconcile rec by (intro that [of env n susp d]) (auto simp: replicas_of_def Let_def split: if_splits)
  qed (use assms Op_reconcile rec as_change_none [of env p w] in \<open>simp_all del: as_change.simps\<close>)
qed (use assms in auto)


text \<open>The gap to an earlier time, as far as the stored times tell.\<close>

lemma stored_gap:
  assumes "stored_time a \<le> stored_time b" and "c \<le> time_sub t b"
  shows "c - second < time_sub t a"
proof -
  have "stored_time a \<le> b" using assms(1) stored_time_props(1) [of b] by linarith
  then have "time_sub t b \<le> time_sub t (stored_time a)" by (rule time_sub_antimono)
  with assms(2) time_sub_stored [of t a] show ?thesis by linarith
qed

lemma changed_cooldown:
  assumes "(t, up, r) \<in> set (as_change p op w)" and "second \<le> a"
  shows "r = Ar_scaled_up \<Longrightarrow> stored_time a \<le> stored_time (st_last_up (state_of (ap_app p) w)) \<Longrightarrow>
      up_cooldown p - second < time_sub t a"
    and "r = Ar_scaled_down \<Longrightarrow> stored_time a \<le> last_moved (state_of (ap_app p) w) \<Longrightarrow>
      down_cooldown p - second < time_sub t a"
proof -
  from assms(1) obtain env n d where t: "t = ae_now env" and r: "r = dc_reason d"
    and d: "d = decide p (as_input_of env p (state_of (ap_app p) w) (max n 1))"
    by (elim as_changeE) (auto simp: decision_for_def)
  let ?st = "state_of (ap_app p) w"
  let ?inp = "as_input_of env p ?st (max n 1)"
  have inp: "in_now ?inp = t" "in_last_up ?inp = st_last_up ?st"
    "last_change ?inp = max (st_last_up ?st) (st_last_down ?st)"
    by (simp_all add: as_input_of_def t last_change_def)
  have pos: "zero_time < stored_time a"
    using assms(2) stored_time_props(2) [of a] unfolding zero_time_def by linarith
  show "up_cooldown p - second < time_sub t a"
    if "r = Ar_scaled_up" "stored_time a \<le> stored_time (st_last_up ?st)"
  proof (rule stored_gap [OF that(2)])
    from that(1) r d have "up_ready p ?inp" by (cases p ?inp rule: decide_cases) auto
    moreover have "st_last_up ?st \<noteq> zero_time" using that(2) pos by auto
    ultimately show "up_cooldown p \<le> time_sub t (st_last_up ?st)" by (auto simp: up_ready_def inp)
  qed
  show "down_cooldown p - second < time_sub t a"
    if "r = Ar_scaled_down" "stored_time a \<le> last_moved ?st"
  proof (rule stored_gap)
    show moved: "stored_time a \<le> stored_time (max (st_last_up ?st) (st_last_down ?st))"
      using that(2) stored_time_mono by (auto simp: last_moved_def max_def split: if_splits intro: order_trans)
    from that(1) r d have "may_shrink p ?inp" by (cases p ?inp rule: decide_cases) auto
    moreover have "max (st_last_up ?st) (st_last_down ?st) \<noteq> zero_time" using moved pos by auto
    ultimately show "down_cooldown p \<le> time_sub t (max (st_last_up ?st) (st_last_down ?st))"
      by (auto simp: may_shrink_def inp)
  qed
qed

lemma op_times_Cons: "op_times (op # ops) = op_times [op] @ op_times ops"
  by (cases op) simp_all

lemma later_changes_cooled:
  assumes "second \<le> a" and "\<forall>t\<in>set (op_times ops). a \<le> t" and "c \<in> set (as_changes p ops w)"
  shows "(stored_time a \<le> stored_time (st_last_up (state_of (ap_app p) w)) \<longrightarrow> cooled p (a, True, q) c) \<and>
    (stored_time a \<le> last_moved (state_of (ap_app p) w) \<longrightarrow> cooled p (a, False, q) c)"
  using assms(2,3)
proof (induction ops arbitrary: w)
  case (Cons op ops)
  obtain t up r where c: "c = (t, up, r)" by (metis prod.exhaust)
  have times: "\<forall>t\<in>set (op_times [op]). a \<le> t" "\<forall>t\<in>set (op_times ops). a \<le> t"
    using Cons.prems(1) op_times_Cons [of op ops] by auto
  have max: "stored_time a \<le> stored_time (st_last_up st) \<Longrightarrow> stored_time a \<le> last_moved st" for st by (simp add: last_moved_def)
  show ?case
  proof (cases "c \<in> set (as_change p op w)")
    case True
    show ?thesis
      using changed_cooldown [OF True [unfolded c] assms(1)] max by (auto simp: c)
  next
    case False
    with Cons.prems(2) have "c \<in> set (as_changes p ops (as_step p op w))" by simp
    from Cons.IH [OF times(2) this] show ?thesis
      using last_up_kept [OF _ times(1)] last_moved_kept [OF _ times(1)] by blast
  qed
qed simp

lemma change_noted:
  assumes "(t, up, r) \<in> set (as_change p op w)"
    and "\<And>inp. 1 \<le> in_current inp \<Longrightarrow> 1 \<le> dc_desired (decide p inp)"
  shows "stored_time t \<le> last_moved (state_of (ap_app p) (as_step p op w))"
    and "up \<Longrightarrow> stored_time t \<le> stored_time (st_last_up (state_of (ap_app p) (as_step p op w)))"
    and "t \<in> set (op_times [op])"
proof -
  from assms(1) obtain env n d where d: "t = ae_now env" "up = (n < dc_desired d)"
    "d = decision_for env p w n False" "dc_changed d" "op = Op_reconcile env"
    and st: "state_of (ap_app p) (as_step p op w) = stored_state (next_state env (state_of (ap_app p) w) d)"
    by (elim as_changeE) auto
  show "t \<in> set (op_times [op])" using d by simp
  show "stored_time t \<le> last_moved (state_of (ap_app p) (as_step p op w))"
    unfolding st using d(1,4) by (simp add: last_moved_def)
  have "1 \<le> dc_desired d" using assms(2) d(3) by (simp add: decision_for_def as_input_of_def)
  then show "stored_time t \<le> stored_time (st_last_up (state_of (ap_app p) (as_step p op w)))" if up
    unfolding st using that d by (auto simp: dc_changed_def)
qed


lemma decide_positive:
  assumes "validate_as_policy p c = None" and "1 \<le> in_current inp"
  shows "1 \<le> dc_desired (decide p inp)"
proof -
  have hi: "1 \<le> fst (high_bound p inp)" using valid_policy(1,2) [OF assms(1)] by (auto simp: high_bound_def)
  then have lo: "1 \<le> low_bound p inp" using valid_policy(1) [OF assms(1)] by (simp add: low_bound_def)
  from decide_in_bounds [OF valid_policy(3,4) [OF assms(1)], of inp] assms(2) hi lo show ?thesis
    by (auto split: if_splits)
qed



section \<open>The stabilization window\<close>

text \<open>The readings a run has recorded, newest first; None is one of a suspended app.\<close>

fun as_recorded :: "as_policy \<Rightarrow> as_op \<Rightarrow> as_world \<Rightarrow> as_input option list" where
  "as_recorded p (Op_external m) w = []"
| "as_recorded p (Op_reconcile env) w =
     (case map_of (aw_replicas w) (ap_app p) of
        None \<Rightarrow> []
      | Some (n, susp) \<Rightarrow>
          let st = state_of (ap_app p) w
          in if ae_replicas_err env (ap_app p) = None \<and> ae_state_err env (ap_app p) = None \<and>
               ae_save_err env (ap_app p) (next_state env st (decision_for env p w n susp)) = None
             then [if susp then None else Some (as_input_of env p st (max n 1))] else [])"

fun as_history :: "as_policy \<Rightarrow> as_op list \<Rightarrow> as_world \<Rightarrow> as_input option list" where
  "as_history p [] w = []"
| "as_history p (op # ops) w = as_history p ops (as_step p op w) @ as_recorded p op w"

definition low_run :: "as_policy \<Rightarrow> int \<Rightarrow> as_input option list \<Rightarrow> bool" where
  "low_run p n ys \<longleftrightarrow>
     ys \<noteq> [] \<and> (\<forall>y\<in>set ys. case y of None \<Rightarrow> False | Some inp \<Rightarrow> low_reading p inp \<and> wanted p inp \<le> n)"

definition window_ok :: "as_policy \<Rightarrow> as_input option list \<Rightarrow> as_state \<Rightarrow> bool" where
  "window_ok p hist st \<longleftrightarrow>
     st_down_since st = zero_time \<or>
     (\<exists>ys zs. hist = ys @ zs \<and> low_run p (st_down_floor st) ys \<and>
        stored_time (in_now (the (last ys))) = st_down_since st)"

lemma low_run_extend:
  assumes "low_reading p inp" and "in_down_since inp = st_down_since st" and "in_down_floor inp = st_down_floor st"
    and "window_ok p hist st"
  shows "\<exists>ys zs. Some inp # hist = ys @ zs \<and> low_run p (low_floor p inp) ys \<and>
    low_since inp \<in> {in_now (the (last ys)), stored_time (in_now (the (last ys)))}"
proof (cases "st_down_since st = zero_time")
  case True
  then have "low_run p (low_floor p inp) [Some inp]" and "in_now inp = low_since inp"
    using assms(1,2) by (auto simp: low_run_def low_floor_def low_since_def)
  then show ?thesis by (intro exI [of _ "[Some inp]"] exI [of _ hist]) simp
next
  case False
  with assms(4) obtain ys zs where ys: "hist = ys @ zs" "low_run p (st_down_floor st) ys"
    "stored_time (in_now (the (last ys))) = st_down_since st" by (auto simp: window_ok_def)
  have "low_run p (low_floor p inp) (Some inp # ys)"
    using ys(2) False assms(1-3)
    by (fastforce simp: low_run_def low_floor_def split: option.splits)
  moreover have "stored_time (in_now (the (last (Some inp # ys)))) = low_since inp"
    using ys False assms(2) by (auto simp: low_run_def low_since_def)
  ultimately show ?thesis using ys(1) by (intro exI [of _ "Some inp # ys"] exI [of _ zs]) simp
qed

lemma input_of_simps [simp]:
  "in_down_since (as_input_of env p st n) = st_down_since st"
  "in_down_floor (as_input_of env p st n) = st_down_floor st"
  "in_now (as_input_of env p st n) = ae_now env"
  "in_current (as_input_of env p st n) = n"
  by (simp_all add: as_input_of_def)

text \<open>A saved decision keeps the window in step with the readings.\<close>

lemma window_decision:
  assumes "window_ok p hist st" and "st = state_of (ap_app p) w" and "d = decision_for env p w n susp"
    and "st_down_since st' = stored_time (dc_down_since d)" and "st_down_floor st' = dc_down_floor d"
  shows "window_ok p ((if susp then None else Some (as_input_of env p st (max n 1))) # hist) st'"
proof (cases "susp \<or> dc_down_since d = zero_time")
  case True
  then show ?thesis using assms(3,4)
    by (auto simp: window_ok_def decision_for_def suspended_decision_def)
next
  case False
  let ?inp = "as_input_of env p st (max n 1)"
  have d: "d = decide p ?inp" using False assms(2,3) by (simp add: decision_for_def)
  have "low_reading p ?inp \<and> dc_down_since d = low_since ?inp \<and> dc_down_floor d = low_floor p ?inp"
    using False d by (cases p ?inp rule: decide_cases) auto
  then show ?thesis
    using low_run_extend [of p ?inp st hist] assms(1,4,5) False by (auto simp: window_ok_def)
qed

lemma window_step:
  assumes "window_ok p hist (state_of (ap_app p) w)"
  shows "window_ok p (as_recorded p op w @ hist) (state_of (ap_app p) (as_step p op w))"
proof (cases op)
  case (Op_reconcile env)
  obtain r w' where rec: "as_reconcile env p w = (r, w')" by (metis prod.exhaust)
  from rec have "window_ok p (as_recorded p op w @ hist) (state_of (ap_app p) w')"
  proof (cases rule: as_reconcile_cases)
    case skip
    then have "as_recorded p op w = []" by (auto simp: Op_reconcile Let_def split: option.split)
    with skip assms show ?thesis by simp
  next
    case (held n susp d)
    then have "as_recorded p op w = [if susp then None else Some (as_input_of env p (state_of (ap_app p) w) (max n 1))]"
      by (simp add: Op_reconcile)
    then show ?thesis using window_decision [OF assms refl held(2)] held(8) by simp
  next
    case (moved n susp d)
    then have "as_recorded p op w = [if susp then None else Some (as_input_of env p (state_of (ap_app p) w) (max n 1))]"
      by (simp add: Op_reconcile)
    then show ?thesis using window_decision [OF assms refl moved(2)] moved(8) by simp
  next
    case (failed n susp d e)
    then have "as_recorded p op w = [if susp then None else Some (as_input_of env p (state_of (ap_app p) w) (max n 1))]"
      by (simp add: Op_reconcile)
    then show ?thesis using window_decision [OF assms refl failed(2)] failed(10) by (simp split: if_splits)
  qed
  then show ?thesis by (simp add: Op_reconcile rec)
qed (use assms in simp)

lemma window_run:
  "window_ok p hist (state_of (ap_app p) w) \<Longrightarrow>
     window_ok p (as_history p ops w @ hist) (state_of (ap_app p) (as_run p ops w))"
proof (induction ops arbitrary: w hist)
  case (Cons op ops)
  from Cons.IH [OF window_step [OF Cons.prems, of op]] show ?case by simp
qed simp

text \<open>
  C18: A scale down is confirmed: every reading recorded over at least the stabilization window before it was low, and the new count is not below the count that any of those readings asked for.
\<close>

theorem scale_down_confirmed:
  assumes "st_down_since (state_of (ap_app p) w0) = zero_time" and "as_run p ops w0 = w"
    and "as_change p (Op_reconcile env) w = [(t, up, Ar_scaled_down)]"
    and "replicas_of (ap_app p) (as_step p (Op_reconcile env) w) = Some n"
  shows "\<exists>ys zs. as_recorded p (Op_reconcile env) w @ as_history p ops w0 = ys @ zs \<and>
    low_run p n ys \<and> stabilization p - second < time_sub t (in_now (the (last ys)))"
proof -
  have win: "window_ok p (as_history p ops w0) (state_of (ap_app p) w)"
    using window_run [of p "[]" w0 ops] assms(1,2) by (simp add: window_ok_def)
  have "(t, up, Ar_scaled_down) \<in> set (as_change p (Op_reconcile env) w)" using assms(3) by simp
  then show ?thesis
  proof (cases rule: as_changeE)
    case (1 env' m susp d)
    let ?inp = "as_input_of env p (state_of (ap_app p) w) (max m 1)"
    have env: "env' = env" and t: "t = ae_now env" and d: "d = decide p ?inp" and n: "n = dc_desired d"
      using 1 assms(4) by (auto simp: decision_for_def)
    have rec: "as_recorded p (Op_reconcile env) w = [Some ?inp]" using 1 env by simp
    have low: "low_reading p ?inp" and may: "may_shrink p ?inp" and le: "low_floor p ?inp \<le> n"
      using 1(6) d n by (cases p ?inp rule: decide_cases; auto)+
    from low_run_extend [OF low _ _ win] obtain ys zs where
      ys: "Some ?inp # as_history p ops w0 = ys @ zs" "low_run p (low_floor p ?inp) ys"
      "low_since ?inp \<in> {in_now (the (last ys)), stored_time (in_now (the (last ys)))}" by auto
    have "low_run p n ys" using ys(2) le by (fastforce simp: low_run_def split: option.splits)
    moreover have "stabilization p - second < time_sub t (in_now (the (last ys)))"
      using ys(3) may t time_sub_stored [of t "in_now (the (last ys))"]
      by (auto simp: may_shrink_def second_def)
    moreover have "as_recorded p (Op_reconcile env) w @ as_history p ops w0 = ys @ zs" unfolding rec using ys(1) by simp
    ultimately show ?thesis by blast
  qed
qed


section \<open>A failed replica write\<close>


section \<open>Flaps\<close>

lemma event_order:
  "inj_on ev_at E \<Longrightarrow> strict_total (\<lambda>a b. ev_at a < ev_at b) E"
  by unfold_locales (auto simp: inj_on_def, metis linorder_neqE)

text \<open>
  The number of flaps does not depend on the order in which the events are listed, when no two scale events carry the same time.
\<close>

theorem flaps_any_order:
  assumes "mset es = mset es'" and "inj_on ev_at {e \<in> set es. is_scale e}"
  shows "flaps es now window = flaps es' now window"
proof -
  let ?keep = "\<lambda>e. is_scale e \<and> time_sub now (ev_at e) \<le> window"
  have "set (filter ?keep es) \<subseteq> {e \<in> set es. is_scale e}" by auto
  moreover have "mset (filter ?keep es) = mset (filter ?keep es')" by (simp add: assms(1))
  ultimately have "go_sort (\<lambda>a b. ev_at a < ev_at b) (filter ?keep es) =
    go_sort (\<lambda>a b. ev_at a < ev_at b) (filter ?keep es')"
    by (rule strict_total.go_sort_perm [OF event_order [OF assms(2)]])
  then show ?thesis by (simp add: flaps_def)
qed


section \<open>Witnesses\<close>

definition ex_policy :: as_policy where
  "ex_policy = as_normalize
     \<lparr>ap_app = ''web'', ap_min = 1, ap_max = 10, ap_metric = ''cpu_percent'', ap_target = 50, ap_up_tolerance = 0,
      ap_down_tolerance = 0, ap_up_cooldown = 0, ap_down_cooldown = 0, ap_stabilization = 0, ap_step_up = 0,
      ap_step_down = 0\<rparr>"

definition ex_env :: "gotime \<Rightarrow> rat \<Rightarrow> string option \<Rightarrow> as_env" where
  "ex_env now v set_err =
     \<lparr>ae_now = now * second, ae_ceiling = 20, ae_flap_threshold = 3, ae_metric = (\<lambda>_ _. Inr (v, True)),
      ae_headroom = (\<lambda>_ n. Inr 2), ae_spend = (\<lambda>_. Inr []), ae_recorder = True, ae_app_err = (\<lambda>_. None), ae_policy_write_err = None, ae_policies_err = None,
      ae_policy_err = (\<lambda>_. None), ae_replicas_err = (\<lambda>_. None), ae_state_err = (\<lambda>_. None),
      ae_save_err = (\<lambda>_ _. None), ae_set_err = (\<lambda>_ _. set_err), ae_events_err = (\<lambda>_. None), ae_gauge_err = None\<rparr>"

definition ex_world :: "int \<Rightarrow> as_world" where
  "ex_world n = \<lparr>aw_policies = [ex_policy], aw_replicas = [(''web'', n, False)], aw_states = [], aw_events = [],
     aw_gauges = [], aw_nudges = 0\<rparr>"

definition ex_input :: as_input where
  "ex_input = \<lparr>in_now = 100 * second, in_current = 3, in_value = 90, in_value_known = True, in_ceiling = 20,
     in_last_up = zero_time, in_last_down = zero_time, in_down_since = zero_time, in_down_floor = 0,
     in_spend_blocked = False, in_headroom = Some (\<lambda>_. 2)\<rparr>"

lemma ex_policy_valid: "validate_as_policy ex_policy 20 = None"
  by (simp add: ex_policy_def as_normalize_def zero_or_def validate_as_policy_def validate_target_def outside_def)

lemma ex_decision: "dc_desired (decide ex_policy ex_input) = 5"
  by code_simp

theorem decide_bounds_witness:
  "dc_desired (decide ex_policy ex_input) = 5 \<and>
   dc_desired (decide ex_policy ex_input) \<le> in_current ex_input + 2 \<and> upper_band ex_policy < in_value ex_input"
proof -
  have "fst (high_bound ex_policy ex_input) = 10" and "min (ap_min ex_policy) 10 = 1" and "in_current ex_input = 3"
    by (simp_all add: ex_policy_def as_normalize_def high_bound_def ex_input_def)
  from decide_bounds [OF ex_policy_valid refl this(1,2), of "\<lambda>_. 2" 2] this(3) ex_decision
  show ?thesis by (auto simp: ex_input_def)
qed

definition ex_ups :: "as_op list" where
  "ex_ups = map (\<lambda>t. Op_reconcile (ex_env t 90 None)) [100, 130, 160]"

definition ex_downs :: "as_op list" where
  "ex_downs = map (\<lambda>t. Op_reconcile (ex_env t 10 None)) [1000, 1200]"

lemma ex_times: "op_times ex_ups = [100 * second, 130 * second, 160 * second]"
  by (simp add: ex_ups_def ex_env_def)

lemma ex_changes:
  "as_changes ex_policy ex_ups (ex_world 3) = [(100 * second, True, Ar_scaled_up), (160 * second, True, Ar_scaled_up)]"
  by code_simp


lemma ex_down:
  "as_change ex_policy (Op_reconcile (ex_env 1300 10 None)) (as_run ex_policy ex_downs (ex_world 3)) =
     [(1300 * second, False, Ar_scaled_down)]"
  "replicas_of (ap_app ex_policy) (as_step ex_policy (Op_reconcile (ex_env 1300 10 None))
     (as_run ex_policy ex_downs (ex_world 3))) = Some 2"
  by code_simp+

theorem scale_down_confirmed_witness:
  "\<exists>ys zs. as_recorded ex_policy (Op_reconcile (ex_env 1300 10 None)) (as_run ex_policy ex_downs (ex_world 3)) @
      as_history ex_policy ex_downs (ex_world 3) = ys @ zs \<and>
    low_run ex_policy 2 ys \<and> stabilization ex_policy - second < time_sub (1300 * second) (in_now (the (last ys)))"
  by (rule scale_down_confirmed [OF _ refl ex_down])
    (simp add: state_of_def ex_world_def as_state_zero_def)

lemma ex_failure:
  "fst (as_reconcile (ex_env 100 90 (Some ''locked'')) ex_policy (ex_world 3)) = Some (Ae_set_replicas 5 ''locked'')"
  by code_simp


definition ex_event :: "as_event_kind \<Rightarrow> gotime \<Rightarrow> as_event" where
  "ex_event k t = \<lparr>ev_app = ''web'', ev_kind = k, ev_current = 1, ev_desired = 2, ev_value = 0, ev_reason = Ar_none,
     ev_blocked = Ab_none, ev_at = t * second\<rparr>"

theorem flaps_any_order_witness:
  "flaps [ex_event Ev_scaled_up 1, ex_event Ev_scaled_up 3, ex_event Ev_scaled_down 2] (4 * second) flap_window = 2"
proof -
  have "flaps [ex_event Ev_scaled_up 1, ex_event Ev_scaled_up 3, ex_event Ev_scaled_down 2] (4 * second) flap_window =
      flaps [ex_event Ev_scaled_up 1, ex_event Ev_scaled_down 2, ex_event Ev_scaled_up 3] (4 * second) flap_window"
    by (rule flaps_any_order) (auto simp: inj_on_def ex_event_def second_def add_mset_commute)
  moreover have "flaps [ex_event Ev_scaled_up 1, ex_event Ev_scaled_down 2, ex_event Ev_scaled_up 3] (4 * second)
      flap_window = 2" by code_simp
  ultimately show ?thesis by simp
qed


text \<open>
  The stored times drop the fraction of a second: two scale ups 59.1 seconds apart, under a
  cooldown of 60 seconds.
\<close>

lemma short_gap:
  "up_cooldown ex_policy = 60 * second \<and>
   as_changes ex_policy [Op_reconcile ((ex_env 100 90 None)\<lparr>ae_now := 100 * second + 900 * millisecond\<rparr>),
     Op_reconcile (ex_env 160 90 None)] (ex_world 3) =
   [(100 * second + 900 * millisecond, True, Ar_scaled_up), (160 * second, True, Ar_scaled_up)]"
  by code_simp

section \<open>Saved policies\<close>

definition policies_valid :: "as_world \<Rightarrow> bool" where
  "policies_valid w \<longleftrightarrow> list_all (\<lambda>p. validate_as_policy p 0 = None) (aw_policies w) \<and> distinct (map ap_app (aw_policies w))"

lemma validate_any_ceiling: "validate_as_policy p c = None \<Longrightarrow> validate_as_policy p 0 = None"
  by (auto simp: validate_as_policy_def split: if_splits)

lemma block_policy_valid: "block_policy a app c = Inr p \<Longrightarrow> validate_as_policy p c = None"
  by (auto simp: block_policy_def Let_def split: sum.splits option.splits)

lemma save_policy_valid:
  assumes "policies_valid w" and "validate_as_policy p c = None"
  shows "policies_valid (snd (save_policy env p ev w))"
  using assms validate_any_ceiling [OF assms(2)]
  by (auto simp: save_policy_def policies_valid_def list_all_iff distinct_map inj_on_def split: option.split)

lemma save_frame [simp]: "aw_policies (snd (save_as_state env app st evs w)) = aw_policies w"
  by (simp add: save_as_state_def split: option.split)

lemma set_frame [simp]: "aw_policies (snd (set_replicas env app n w)) = aw_policies w"
  by (auto simp: set_replicas_def split: option.split)

lemma reconcile_policies [simp]: "aw_policies (snd (as_reconcile env p w)) = aw_policies w"
proof -
  have "aw_policies (snd (apply_decision env app prev d w)) = aw_policies w" for app prev d
  proof -
    obtain x w1 where save: "save_as_state env app (next_state env prev d) (decision_events env app prev d) w = (x, w1)"
      by (metis prod.exhaust)
    then have w1: "aw_policies w1 = aw_policies w" using save_frame by (metis snd_conv)
    obtain y w2 where set: "set_replicas env app (dc_desired d) w1 = (y, w2)" by (metis prod.exhaust)
    then have w2: "aw_policies w2 = aw_policies w1" using set_frame by (metis snd_conv)
    show ?thesis
      by (simp add: apply_decision_def Let_def save set w1 w2 undo_scale_def record_gauge_def split: option.split)
  qed
  then show ?thesis by (simp add: as_reconcile_def Let_def split: option.split)
qed

lemma put_autoscale_valid:
  assumes "policies_valid w"
  shows "policies_valid (snd (put_autoscale env name req w))"
proof (cases "validate_as_policy (as_normalize (req\<lparr>ap_app := name\<rparr>)) (ae_ceiling env)")
  case None
  let ?pol = "as_normalize (req\<lparr>ap_app := name\<rparr>)"
  obtain x w1 where save: "save_policy env ?pol (config_event env name Ev_configured) w = (x, w1)"
    by (metis prod.exhaust)
  then have w1: "policies_valid w1" using save_policy_valid [OF assms None] by (metis snd_conv)
  obtain r w2 where rec: "as_reconcile env ?pol w1 = (r, w2)" by (metis prod.exhaust)
  then have "policies_valid w2" using w1 reconcile_policies [of env ?pol w1] by (simp add: policies_valid_def)
  then show ?thesis using None w1 assms by (simp add: put_autoscale_def Let_def save rec split: option.split)
qed (simp add: put_autoscale_def Let_def assms)

lemma delete_autoscale_valid: "policies_valid w \<Longrightarrow> policies_valid (snd (delete_autoscale env name w))"
  by (auto simp: delete_autoscale_def delete_policy_def policies_valid_def list_all_iff distinct_map inj_on_def
      split: option.split)

lemma save_autoscale_valid: "policies_valid w \<Longrightarrow> policies_valid (snd (save_autoscale env blk c name w))"
  using save_policy_valid [OF _ block_policy_valid]
  by (auto simp: save_autoscale_def split: option.split sum.split prod.split) (metis snd_conv)+

lemma tick_valid: "policies_valid w \<Longrightarrow> policies_valid (snd (as_tick env w))"
proof -
  have "aw_policies (snd (as_reconcile_all env ps w)) = aw_policies w" for ps
  proof (induction ps arbitrary: w)
    case (Cons p ps)
    obtain e w1 where rec: "as_reconcile env p w = (e, w1)" by (metis prod.exhaust)
    obtain es w2 where all: "as_reconcile_all env ps w1 = (es, w2)" by (metis prod.exhaust)
    show ?case using Cons.IH [of w1] reconcile_policies [of env p w] by (simp add: rec all)
  qed simp
  then show "policies_valid w \<Longrightarrow> policies_valid (snd (as_tick env w))"
    by (simp add: as_tick_def policies_valid_def split: option.split prod.split) (metis snd_conv)
qed

text \<open>A deploy keeps the count the autoscaler owns, within the bounds of its policy.\<close>

lemma deploy_keeps_count:
  assumes "apply_autoscale_replicas env blk c name spec_n desired w = Inr n"
    and "deploy_policy env blk c name spec_n w = Inr (Some p)" and "policies_valid w"
  shows "ap_min p \<le> n \<and> n \<le> ap_max p \<and>
    (\<forall>m susp. map_of (aw_replicas w) name = Some (m, susp) \<and> ap_min p \<le> m \<and> m \<le> ap_max p \<longrightarrow> n = m)"
proof -
  have "validate_as_policy p 0 = None"
    using assms(2,3) validate_any_ceiling [OF block_policy_valid]
    by (auto simp: deploy_policy_def get_as_policy_def policies_valid_def list_all_iff find_Some_iff
        split: option.splits sum.splits as_error.splits if_splits)
  then have "ap_min p \<le> ap_max p" by (rule valid_policy)
  with assms(1,2) show ?thesis
    by (auto simp: apply_autoscale_replicas_def Let_def split: option.splits)
qed

end
