(* ===== verification/Prompb.thy ===== *)
theory Prompb
  imports Prelude
begin

text \<open>
  The Prometheus remote-read codec, \<open>internal/prompb/prompb.go\<close>: the messages, one \<open>marshal\<close> and
  one \<open>unmarshal\<close> function for each, and the decoding loop they share.

  The \<open>protowire\<close> package is a parameter, the record \<open>wire\<close> of its functions; \<open>wire_ok\<close> states what
  its documentation promises.  A Go string and a \<open>[]byte\<close> are lists of bytes, a \<open>float64\<close> is its bit
  pattern, a 64-bit integer is an \<open>int\<close> that the casts of the code turn into a word and back.
\<close>

type_synonym bytes = "8 word list"

section \<open>Messages\<close>

record pb_label =
  lb_name :: bytes
  lb_value :: bytes

record pb_sample =
  sm_value :: "64 word"
  sm_timestamp :: int

record pb_matcher =
  lm_type :: int
  lm_name :: bytes
  lm_value :: bytes

record pb_query =
  qu_start :: int
  qu_end :: int
  qu_matchers :: "pb_matcher list"

type_synonym read_request = "pb_query list"

record time_series =
  ts_labels :: "pb_label list"
  ts_samples :: "pb_sample list"

type_synonym query_result = "time_series list"
type_synonym read_response = "query_result list"

section \<open>The wire library\<close>

text \<open>
  \<open>AppendTag\<close>, \<open>AppendVarint\<close>, \<open>AppendFixed64\<close> and \<open>AppendBytes\<close> append the given bytes;
  \<open>ConsumeTag\<close>, \<open>ConsumeVarint\<close>, \<open>ConsumeFixed64\<close>, \<open>ConsumeBytes\<close> and \<open>ConsumeFieldValue\<close> return
  what they read and the number of bytes, negative for an error.
\<close>

record wire =
  put_tag :: "int \<Rightarrow> int \<Rightarrow> bytes"
  put_varint :: "64 word \<Rightarrow> bytes"
  put_fixed64 :: "64 word \<Rightarrow> bytes"
  put_bytes :: "bytes \<Rightarrow> bytes"
  get_tag :: "bytes \<Rightarrow> int \<times> int \<times> int"
  get_varint :: "bytes \<Rightarrow> 64 word \<times> int"
  get_fixed64 :: "bytes \<Rightarrow> 64 word \<times> int"
  get_bytes :: "bytes \<Rightarrow> bytes \<times> int"
  skip_value :: "int \<Rightarrow> int \<Rightarrow> bytes \<Rightarrow> int"

definition varint_type :: int where
  "varint_type = 0"

definition fixed64_type :: int where
  "fixed64_type = 1"

definition bytes_type :: int where
  "bytes_type = 2"

text \<open>Go's conversions between \<open>uint64\<close>, \<open>int64\<close> and \<open>int32\<close>.\<close>

definition to_uint64 :: "int \<Rightarrow> 64 word" where
  "to_uint64 x = word_of_int x"

definition to_int64 :: "64 word \<Rightarrow> int" where
  "to_int64 v = sint v"

definition to_int32 :: "64 word \<Rightarrow> int" where
  "to_int32 v = sint (ucast v :: 32 word)"

section \<open>Encoding\<close>

definition append_embedded :: "wire \<Rightarrow> bytes \<Rightarrow> int \<Rightarrow> bytes \<Rightarrow> bytes" where
  "append_embedded w b num sub = (b @ put_tag w num bytes_type) @ put_bytes w sub"

definition marshal_label :: "wire \<Rightarrow> pb_label \<Rightarrow> bytes" where
  "marshal_label w l =
     (let b = put_tag w 1 bytes_type;
          b = b @ put_bytes w (lb_name l);
          b = b @ put_tag w 2 bytes_type
      in b @ put_bytes w (lb_value l))"

definition marshal_sample :: "wire \<Rightarrow> pb_sample \<Rightarrow> bytes" where
  "marshal_sample w s =
     (let b = put_tag w 1 fixed64_type;
          b = b @ put_fixed64 w (sm_value s);
          b = b @ put_tag w 2 varint_type
      in b @ put_varint w (to_uint64 (sm_timestamp s)))"

definition marshal_matcher :: "wire \<Rightarrow> pb_matcher \<Rightarrow> bytes" where
  "marshal_matcher w m =
     (let b = put_tag w 1 varint_type;
          b = b @ put_varint w (to_uint64 (lm_type m));
          b = b @ put_tag w 2 bytes_type;
          b = b @ put_bytes w (lm_name m);
          b = b @ put_tag w 3 bytes_type
      in b @ put_bytes w (lm_value m))"

definition marshal_query :: "wire \<Rightarrow> pb_query \<Rightarrow> bytes" where
  "marshal_query w q =
     (let b = put_tag w 1 varint_type;
          b = b @ put_varint w (to_uint64 (qu_start q));
          b = b @ put_tag w 2 varint_type;
          b = b @ put_varint w (to_uint64 (qu_end q))
      in fold (\<lambda>m b. append_embedded w b 3 (marshal_matcher w m)) (qu_matchers q) b)"

definition marshal_time_series :: "wire \<Rightarrow> time_series \<Rightarrow> bytes" where
  "marshal_time_series w ts =
     (let b = fold (\<lambda>l b. append_embedded w b 1 (marshal_label w l)) (ts_labels ts) []
      in fold (\<lambda>s b. append_embedded w b 2 (marshal_sample w s)) (ts_samples ts) b)"

definition marshal_query_result :: "wire \<Rightarrow> query_result \<Rightarrow> bytes" where
  "marshal_query_result w qr = fold (\<lambda>ts b. append_embedded w b 1 (marshal_time_series w ts)) qr []"

definition marshal_read_request :: "wire \<Rightarrow> read_request \<Rightarrow> bytes" where
  "marshal_read_request w req = fold (\<lambda>q b. append_embedded w b 1 (marshal_query w q)) req []"

definition marshal_read_response :: "wire \<Rightarrow> read_response \<Rightarrow> bytes" where
  "marshal_read_response w resp = fold (\<lambda>r b. append_embedded w b 1 (marshal_query_result w r)) resp []"

section \<open>Decoding\<close>

datatype pb_message =
    Msg_label | Msg_sample | Msg_matcher | Msg_query | Msg_time_series | Msg_query_result | Msg_read_request
  | Msg_read_response

datatype pb_error = Bad_tag pb_message int | Bad_field pb_message int int | Pb_panic

text \<open>
  The result of a decoder: None would be a loop that never ends.  A field handler gets the number,
  the type, the bytes after the tag and the message so far; it returns the message and the bytes
  that are left.  Slicing past the end panics.
\<close>

type_synonym 'a decoded = "(pb_error + 'a) option"

definition take_bytes :: "int \<Rightarrow> bytes \<Rightarrow> 'a \<Rightarrow> ('a \<times> bytes) decoded" where
  "take_bytes n b acc = Some (if n \<le> int (length b) then Inr (acc, drop (nat n) b) else Inl Pb_panic)"

definition decode_one ::
    "wire \<Rightarrow> pb_message \<Rightarrow> (int \<Rightarrow> int \<Rightarrow> bytes \<Rightarrow> 'a \<Rightarrow> ('a \<times> bytes) decoded) \<Rightarrow> bytes \<Rightarrow> 'a \<Rightarrow> ('a \<times> bytes) decoded" where
  "decode_one w msg field b acc =
     (case get_tag w b of
        (num, wt, n) \<Rightarrow>
          if n < 0 then Some (Inl (Bad_tag msg n))
          else (case take_bytes n b acc of
                  Some (Inr (acc, b)) \<Rightarrow> field num wt b acc
                | e \<Rightarrow> e))"

fun decode_loop ::
    "nat \<Rightarrow> wire \<Rightarrow> pb_message \<Rightarrow> (int \<Rightarrow> int \<Rightarrow> bytes \<Rightarrow> 'a \<Rightarrow> ('a \<times> bytes) decoded) \<Rightarrow> bytes \<Rightarrow> 'a \<Rightarrow> 'a decoded" where
  "decode_loop fuel w msg field [] acc = Some (Inr acc)"
| "decode_loop 0 w msg field (x # xs) acc = None"
| "decode_loop (Suc fuel) w msg field (x # xs) acc =
     (case decode_one w msg field (x # xs) acc of
        None \<Rightarrow> None
      | Some (Inl e) \<Rightarrow> Some (Inl e)
      | Some (Inr (acc, b)) \<Rightarrow> decode_loop fuel w msg field b acc)"

text \<open>One field read by a consume function, and an unknown one skipped.\<close>

definition take_field ::
    "pb_message \<Rightarrow> int \<Rightarrow> ('v \<times> int) \<Rightarrow> bytes \<Rightarrow> ('v \<Rightarrow> 'a) \<Rightarrow> ('a \<times> bytes) decoded" where
  "take_field msg num r b f =
     (case r of (v, n) \<Rightarrow> if n < 0 then Some (Inl (Bad_field msg num n)) else take_bytes n b (f v))"

definition skip_field :: "wire \<Rightarrow> pb_message \<Rightarrow> int \<Rightarrow> int \<Rightarrow> bytes \<Rightarrow> 'a \<Rightarrow> ('a \<times> bytes) decoded" where
  "skip_field w msg num wt b acc =
     (let n = skip_value w num wt b
      in if n < 0 then Some (Inl (Bad_field msg num n)) else take_bytes n b acc)"

text \<open>An embedded message: its bytes are decoded before the cursor moves past them.\<close>

definition take_embedded ::
    "pb_message \<Rightarrow> int \<Rightarrow> (bytes \<times> int) \<Rightarrow> (bytes \<Rightarrow> 'm decoded) \<Rightarrow> bytes \<Rightarrow> ('m \<Rightarrow> 'a) \<Rightarrow> ('a \<times> bytes) decoded" where
  "take_embedded msg num r dec b f =
     (case r of
        (sub, n) \<Rightarrow>
          if n < 0 then Some (Inl (Bad_field msg num n))
          else (case dec sub of
                  None \<Rightarrow> None
                | Some (Inl e) \<Rightarrow> Some (Inl e)
                | Some (Inr m) \<Rightarrow> take_bytes n b (f m)))"

definition label_field :: "wire \<Rightarrow> int \<Rightarrow> int \<Rightarrow> bytes \<Rightarrow> pb_label \<Rightarrow> (pb_label \<times> bytes) decoded" where
  "label_field w num wt b l =
     (if num = 1 then take_field Msg_label num (get_bytes w b) b (\<lambda>v. l\<lparr>lb_name := v\<rparr>)
      else if num = 2 then take_field Msg_label num (get_bytes w b) b (\<lambda>v. l\<lparr>lb_value := v\<rparr>)
      else skip_field w Msg_label num wt b l)"

definition unmarshal_label :: "wire \<Rightarrow> bytes \<Rightarrow> pb_label decoded" where
  "unmarshal_label w b = decode_loop (length b) w Msg_label (label_field w) b \<lparr>lb_name = [], lb_value = []\<rparr>"

definition sample_field :: "wire \<Rightarrow> int \<Rightarrow> int \<Rightarrow> bytes \<Rightarrow> pb_sample \<Rightarrow> (pb_sample \<times> bytes) decoded" where
  "sample_field w num wt b s =
     (if num = 1 then take_field Msg_sample num (get_fixed64 w b) b (\<lambda>v. s\<lparr>sm_value := v\<rparr>)
      else if num = 2 then take_field Msg_sample num (get_varint w b) b (\<lambda>v. s\<lparr>sm_timestamp := to_int64 v\<rparr>)
      else skip_field w Msg_sample num wt b s)"

definition unmarshal_sample :: "wire \<Rightarrow> bytes \<Rightarrow> pb_sample decoded" where
  "unmarshal_sample w b = decode_loop (length b) w Msg_sample (sample_field w) b \<lparr>sm_value = 0, sm_timestamp = 0\<rparr>"

definition matcher_field :: "wire \<Rightarrow> int \<Rightarrow> int \<Rightarrow> bytes \<Rightarrow> pb_matcher \<Rightarrow> (pb_matcher \<times> bytes) decoded" where
  "matcher_field w num wt b m =
     (if num = 1 then take_field Msg_matcher num (get_varint w b) b (\<lambda>v. m\<lparr>lm_type := to_int32 v\<rparr>)
      else if num = 2 then take_field Msg_matcher num (get_bytes w b) b (\<lambda>v. m\<lparr>lm_name := v\<rparr>)
      else if num = 3 then take_field Msg_matcher num (get_bytes w b) b (\<lambda>v. m\<lparr>lm_value := v\<rparr>)
      else skip_field w Msg_matcher num wt b m)"

definition unmarshal_matcher :: "wire \<Rightarrow> bytes \<Rightarrow> pb_matcher decoded" where
  "unmarshal_matcher w b =
     decode_loop (length b) w Msg_matcher (matcher_field w) b \<lparr>lm_type = 0, lm_name = [], lm_value = []\<rparr>"

definition query_field :: "wire \<Rightarrow> int \<Rightarrow> int \<Rightarrow> bytes \<Rightarrow> pb_query \<Rightarrow> (pb_query \<times> bytes) decoded" where
  "query_field w num wt b q =
     (if num = 1 then take_field Msg_query num (get_varint w b) b (\<lambda>v. q\<lparr>qu_start := to_int64 v\<rparr>)
      else if num = 2 then take_field Msg_query num (get_varint w b) b (\<lambda>v. q\<lparr>qu_end := to_int64 v\<rparr>)
      else if num = 3
      then take_embedded Msg_query num (get_bytes w b) (unmarshal_matcher w) b
             (\<lambda>m. q\<lparr>qu_matchers := qu_matchers q @ [m]\<rparr>)
      else skip_field w Msg_query num wt b q)"

definition unmarshal_query :: "wire \<Rightarrow> bytes \<Rightarrow> pb_query decoded" where
  "unmarshal_query w b =
     decode_loop (length b) w Msg_query (query_field w) b \<lparr>qu_start = 0, qu_end = 0, qu_matchers = []\<rparr>"

definition time_series_field :: "wire \<Rightarrow> int \<Rightarrow> int \<Rightarrow> bytes \<Rightarrow> time_series \<Rightarrow> (time_series \<times> bytes) decoded" where
  "time_series_field w num wt b ts =
     (if num = 1
      then take_embedded Msg_time_series num (get_bytes w b) (unmarshal_label w) b
             (\<lambda>l. ts\<lparr>ts_labels := ts_labels ts @ [l]\<rparr>)
      else if num = 2
      then take_embedded Msg_time_series num (get_bytes w b) (unmarshal_sample w) b
             (\<lambda>s. ts\<lparr>ts_samples := ts_samples ts @ [s]\<rparr>)
      else skip_field w Msg_time_series num wt b ts)"

definition unmarshal_time_series :: "wire \<Rightarrow> bytes \<Rightarrow> time_series decoded" where
  "unmarshal_time_series w b =
     decode_loop (length b) w Msg_time_series (time_series_field w) b \<lparr>ts_labels = [], ts_samples = []\<rparr>"

text \<open>The three messages with a single repeated field.\<close>

definition repeated_field ::
    "pb_message \<Rightarrow> (wire \<Rightarrow> bytes \<Rightarrow> 'm decoded) \<Rightarrow> wire \<Rightarrow> int \<Rightarrow> int \<Rightarrow> bytes \<Rightarrow> 'm list \<Rightarrow> ('m list \<times> bytes) decoded" where
  "repeated_field msg dec w num wt b ms =
     (if num = 1 then take_embedded msg num (get_bytes w b) (dec w) b (\<lambda>m. ms @ [m])
      else skip_field w msg num wt b ms)"

definition unmarshal_query_result :: "wire \<Rightarrow> bytes \<Rightarrow> query_result decoded" where
  "unmarshal_query_result w b =
     decode_loop (length b) w Msg_query_result (repeated_field Msg_query_result unmarshal_time_series w) b []"

definition unmarshal_read_request :: "wire \<Rightarrow> bytes \<Rightarrow> read_request decoded" where
  "unmarshal_read_request w b =
     decode_loop (length b) w Msg_read_request (repeated_field Msg_read_request unmarshal_query w) b []"

definition unmarshal_read_response :: "wire \<Rightarrow> bytes \<Rightarrow> read_response decoded" where
  "unmarshal_read_response w b =
     decode_loop (length b) w Msg_read_response (repeated_field Msg_read_response unmarshal_query_result w) b []"

section \<open>The read endpoint\<close>

text \<open>
  \<open>internal/api/prometheus.go\<close>: each query of a request is answered from the telemetry store, which
  is a parameter; the HTTP and snappy layers around the two messages are left out.
\<close>

definition bytes_of :: "string \<Rightarrow> bytes" where
  "bytes_of cs = map (\<lambda>c. of_nat (of_char c)) cs"

definition metric_prefix :: bytes where
  "metric_prefix = bytes_of ''levelrail_''"

fun find_metric :: "pb_matcher list \<Rightarrow> bytes \<Rightarrow> bytes \<Rightarrow> (bytes \<times> bytes) option" where
  "find_metric [] metric service = (if metric = [] \<or> service = [] then None else Some (metric, service))"
| "find_metric (m # ms) metric service =
     (if lm_type m \<noteq> 0 then None
      else if lm_name m = bytes_of ''__name__'' then
        (if metric \<noteq> [] \<or> take (length metric_prefix) (lm_value m) \<noteq> metric_prefix then None
         else find_metric ms (drop (length metric_prefix) (lm_value m)) service)
      else if lm_name m = bytes_of ''service'' then
        (if service \<noteq> [] then None else find_metric ms metric (lm_value m))
      else None)"

definition resource_id_for_app :: "bytes \<Rightarrow> bytes" where
  "resource_id_for_app name = bytes_of ''service:'' @ name"

text \<open>The store returns samples, as bit patterns with their time, and whether it failed.\<close>

type_synonym prom_store = "bytes \<Rightarrow> bytes \<Rightarrow> int \<Rightarrow> int \<Rightarrow> (64 word \<times> int) list \<times> bool"

definition answer_query :: "prom_store \<Rightarrow> pb_query \<Rightarrow> query_result" where
  "answer_query store q =
     (case find_metric (qu_matchers q) [] [] of
        None \<Rightarrow> []
      | Some (metric, service) \<Rightarrow>
          (let (samples, failed) = store (resource_id_for_app service) metric (qu_start q) (qu_end q)
           in if failed \<and> samples = [] then []
              else if samples = [] then []
              else [\<lparr>ts_labels = [\<lparr>lb_name = bytes_of ''__name__'', lb_value = metric_prefix @ metric\<rparr>,
                                 \<lparr>lb_name = bytes_of ''service'', lb_value = service\<rparr>],
                     ts_samples = map (\<lambda>(v, t). \<lparr>sm_value = v, sm_timestamp = t\<rparr>) samples\<rparr>]))"

definition prometheus_read :: "wire \<Rightarrow> prom_store \<Rightarrow> bytes \<Rightarrow> bytes decoded" where
  "prometheus_read w store raw =
     (case unmarshal_read_request w raw of
        None \<Rightarrow> None
      | Some (Inl e) \<Rightarrow> Some (Inl e)
      | Some (Inr req) \<Rightarrow> Some (Inr (marshal_read_response w (map (answer_query store) req))))"

section \<open>What the wire library promises\<close>

definition consumed :: "bytes \<Rightarrow> int \<Rightarrow> bool" where
  "consumed b n \<longleftrightarrow> n < 0 \<or> n \<le> int (length b)"

text \<open>A consume function reads nothing past the end, and a tag has at least one byte.\<close>

definition wire_total :: "wire \<Rightarrow> bool" where
  "wire_total w \<longleftrightarrow>
     (\<forall>b. consumed b (snd (snd (get_tag w b))) \<and> snd (snd (get_tag w b)) \<noteq> 0 \<and>
       consumed b (snd (get_varint w b)) \<and> consumed b (snd (get_fixed64 w b)) \<and>
       consumed b (snd (get_bytes w b)) \<and> (\<forall>num wt. consumed b (skip_value w num wt b)))"

text \<open>Reading gives back what was appended, whatever follows; a byte slice is shorter than \<open>2 ^ 63\<close>.\<close>

definition wire_ok :: "wire \<Rightarrow> bool" where
  "wire_ok w \<longleftrightarrow>
     (\<forall>num wt rest. 1 \<le> num \<and> num < 2 ^ 29 \<and> 0 \<le> wt \<and> wt \<le> 5 \<longrightarrow> put_tag w num wt \<noteq> [] \<and>
        get_tag w (put_tag w num wt @ rest) = (num, wt, int (length (put_tag w num wt)))) \<and>
     (\<forall>v rest. get_varint w (put_varint w v @ rest) = (v, int (length (put_varint w v)))) \<and>
     (\<forall>v rest. get_fixed64 w (put_fixed64 w v @ rest) = (v, int (length (put_fixed64 w v)))) \<and>
     (\<forall>s rest. length s < 2 ^ 63 \<longrightarrow> get_bytes w (put_bytes w s @ rest) = (s, int (length (put_bytes w s)))) \<and>
     (\<forall>s. length s \<le> length (put_bytes w s))"

section \<open>Every input is decoded\<close>

definition answered :: "'a decoded \<Rightarrow> bool" where
  "answered r \<longleftrightarrow> r \<noteq> None \<and> r \<noteq> Some (Inl Pb_panic)"

text \<open>A handler that answers and does not give back more bytes than it got.\<close>

definition field_ok :: "(int \<Rightarrow> int \<Rightarrow> bytes \<Rightarrow> 'a \<Rightarrow> ('a \<times> bytes) decoded) \<Rightarrow> bool" where
  "field_ok field \<longleftrightarrow>
     (\<forall>num wt b acc. answered (field num wt b acc) \<and>
       (\<forall>acc' b'. field num wt b acc = Some (Inr (acc', b')) \<longrightarrow> length b' \<le> length b))"

lemma field_okI:
  "(\<And>num wt b acc. answered (field num wt b acc) \<and>
      (\<forall>acc' b'. field num wt b acc = Some (Inr (acc', b')) \<longrightarrow> length b' \<le> length b)) \<Longrightarrow> field_ok field"
  by (simp add: field_ok_def)

definition answers :: "nat \<Rightarrow> ('a \<times> bytes) decoded \<Rightarrow> bool" where
  "answers n r \<longleftrightarrow> answered r \<and> (\<forall>acc b. r = Some (Inr (acc, b)) \<longrightarrow> length b \<le> n)"

lemma field_ok_answers: "field_ok field \<longleftrightarrow> (\<forall>num wt b acc. answers (length b) (field num wt b acc))"
  by (auto simp: field_ok_def answers_def)

lemma answers_take_bytes: "n \<le> int (length b) \<Longrightarrow> answers (length b) (take_bytes n b acc)"
  by (auto simp: answers_def answered_def take_bytes_def)

lemma consumedD:
  assumes "wire_total w"
  shows "consumed b (snd (get_varint w b))" and "consumed b (snd (get_fixed64 w b))" and "consumed b (snd (get_bytes w b))"
    and "consumed b (skip_value w num wt b)"
  using assms by (simp_all add: wire_total_def)

lemma tag_consumed:
  "wire_total w \<Longrightarrow> consumed b (snd (snd (get_tag w b))) \<and> snd (snd (get_tag w b)) \<noteq> 0"
  by (simp add: wire_total_def)

lemma answers_take: "consumed b (snd r) \<Longrightarrow> answers (length b) (take_field msg num r b f)"
  by (cases r) (auto simp: take_field_def consumed_def answers_def answered_def take_bytes_def)

lemma answers_skip: "wire_total w \<Longrightarrow> answers (length b) (skip_field w msg num wt b acc)"
  using consumedD(4) [of w b num wt]
  by (auto simp: skip_field_def Let_def consumed_def answers_def answered_def take_bytes_def)

lemma answers_embedded:
  assumes "consumed b (snd r)" and "answered (dec (fst r))"
  shows "answers (length b) (take_embedded msg num r dec b f)"
  using assms answers_take_bytes [of "snd r" b]
  by (cases r; cases "dec (fst r)")
    (auto simp: take_embedded_def consumed_def answered_def answers_def take_bytes_def split: sum.split)

lemma decode_loop_answers:
  assumes "wire_total w" and "field_ok field" and "length b \<le> fuel"
  shows "answered (decode_loop fuel w msg field b acc)"
  using assms(3)
proof (induction fuel arbitrary: b acc)
  case 0
  then show ?case by (simp add: answered_def)
next
  case (Suc fuel)
  show ?case
  proof (cases b)
    case (Cons x xs)
    obtain num wt n where tag: "get_tag w b = (num, wt, n)" by (metis prod.exhaust)
    have n: "n < 0 \<or> 0 < n \<and> n \<le> int (length b)"
      using tag_consumed [OF assms(1), of b] by (auto simp: tag consumed_def)
    let ?rest = "drop (nat n) b"
    have ans: "answers (length ?rest) (field num wt ?rest acc)" by (rule assms(2) [unfolded field_ok_answers, rule_format])
    have less: "length ?rest \<le> fuel" if "0 < n" using Suc.prems that Cons by auto
    show ?thesis
    proof (cases "n < 0")
      case True
      then show ?thesis using Cons tag by (simp add: decode_one_def answered_def)
    next
      case False
      with n have n': "0 < n" "n \<le> int (length b)" by auto
      then have one: "decode_one w msg field b acc = field num wt ?rest acc"
        by (simp add: decode_one_def tag take_bytes_def)
      then show ?thesis
        using Suc.IH less [OF n'(1)] ans Cons
        by (cases "field num wt ?rest acc") (auto simp: answers_def answered_def split: sum.splits)
    qed
  qed (simp add: answered_def)
qed

lemma unmarshal_answers:
  assumes "wire_total w"
  shows "answered (unmarshal_label w b)" and "answered (unmarshal_sample w b)" and "answered (unmarshal_matcher w b)"
    and "answered (unmarshal_query w b)" and "answered (unmarshal_time_series w b)"
    and "answered (unmarshal_query_result w b)" and "answered (unmarshal_read_request w b)"
    and "answered (unmarshal_read_response w b)"
proof -
  note answers = answers_take [OF consumedD(1) [OF assms]] answers_take [OF consumedD(2) [OF assms]]
    answers_take [OF consumedD(3) [OF assms]] answers_embedded [OF consumedD(3) [OF assms]] answers_skip [OF assms]
  note loop = decode_loop_answers [OF assms _ order_refl]
  have label: "answered (unmarshal_label w b)" for b
    unfolding unmarshal_label_def by (rule loop) (simp add: field_ok_answers label_field_def answers)
  have sample: "answered (unmarshal_sample w b)" for b
    unfolding unmarshal_sample_def by (rule loop) (simp add: field_ok_answers sample_field_def answers)
  have matcher: "answered (unmarshal_matcher w b)" for b
    unfolding unmarshal_matcher_def by (rule loop) (simp add: field_ok_answers matcher_field_def answers)
  have query: "answered (unmarshal_query w b)" for b
    unfolding unmarshal_query_def by (rule loop) (simp add: field_ok_answers query_field_def answers matcher)
  have series: "answered (unmarshal_time_series w b)" for b
    unfolding unmarshal_time_series_def
    by (rule loop) (simp add: field_ok_answers time_series_field_def answers label sample)
  have repeated: "field_ok (repeated_field msg dec w)" if "\<And>b. answered (dec w b)"
    for msg and dec :: "wire \<Rightarrow> bytes \<Rightarrow> 'z decoded"
    by (simp add: field_ok_answers repeated_field_def answers that)
  have result: "answered (unmarshal_query_result w b)" for b
    unfolding unmarshal_query_result_def by (rule loop) (simp add: field_ok_answers repeated_field_def answers series)
  show "answered (unmarshal_label w b)" "answered (unmarshal_sample w b)" "answered (unmarshal_matcher w b)"
    "answered (unmarshal_query w b)" "answered (unmarshal_time_series w b)" "answered (unmarshal_query_result w b)"
    by (fact label sample matcher query series result)+
  show "answered (unmarshal_read_request w b)"
    unfolding unmarshal_read_request_def by (rule loop) (simp add: field_ok_answers repeated_field_def answers query)
  show "answered (unmarshal_read_response w b)"
    unfolding unmarshal_read_response_def by (rule loop) (simp add: field_ok_answers repeated_field_def answers result)
qed


section \<open>Round trips\<close>

text \<open>
  An encoding is a sequence of pieces: each is read by one turn of the loop and does to the message
  what its function says.
\<close>

type_synonym 'a piece = "bytes \<times> ('a \<Rightarrow> 'a)"

definition piece_ok ::
    "wire \<Rightarrow> pb_message \<Rightarrow> (int \<Rightarrow> int \<Rightarrow> bytes \<Rightarrow> 'a \<Rightarrow> ('a \<times> bytes) decoded) \<Rightarrow> 'a piece \<Rightarrow> bool" where
  "piece_ok w msg field p \<longleftrightarrow>
     fst p \<noteq> [] \<and> (\<forall>rest acc. decode_one w msg field (fst p @ rest) acc = Some (Inr (snd p acc, rest)))"

lemma decode_pieces:
  "\<forall>p\<in>set ps. piece_ok w msg field p \<Longrightarrow> length ps \<le> fuel \<Longrightarrow>
     decode_loop fuel w msg field (concat (map fst ps)) acc = Some (Inr (fold snd ps acc))"
proof (induction ps arbitrary: fuel acc)
  case (Cons p ps)
  then obtain k where k: "fuel = Suc k" by (cases fuel) auto
  obtain x xs where x: "fst p = x # xs" using Cons.prems(1) by (cases "fst p") (auto simp: piece_ok_def)
  have "decode_one w msg field (fst p @ concat (map fst ps)) acc = Some (Inr (snd p acc, concat (map fst ps)))"
    using Cons.prems(1) by (simp add: piece_ok_def)
  then show ?case using Cons x k by simp
qed simp

lemma length_pieces: "\<forall>p\<in>set ps. fst p \<noteq> [] \<Longrightarrow> length ps \<le> length (concat (map fst ps))"
proof (induction ps)
  case (Cons p ps)
  then have "1 \<le> length (fst p)" by (cases "fst p") auto
  with Cons show ?case by simp
qed simp

lemma decode_all:
  assumes "\<forall>p\<in>set ps. piece_ok w msg field p" and "b = concat (map fst ps)"
  shows "decode_loop (length b) w msg field b acc = Some (Inr (fold snd ps acc))"
  using decode_pieces [OF assms(1), of "length b" acc] length_pieces [of ps] assms
  by (simp add: piece_ok_def)

lemma wire_okD:
  assumes "wire_ok w"
  shows "1 \<le> num \<Longrightarrow> num < 2 ^ 29 \<Longrightarrow> 0 \<le> wt \<Longrightarrow> wt \<le> 5 \<Longrightarrow>
      put_tag w num wt \<noteq> [] \<and> get_tag w (put_tag w num wt @ rest) = (num, wt, int (length (put_tag w num wt)))"
    and "get_varint w (put_varint w v @ rest) = (v, int (length (put_varint w v)))"
    and "get_fixed64 w (put_fixed64 w v @ rest) = (v, int (length (put_fixed64 w v)))"
    and "length s < 2 ^ 63 \<Longrightarrow> get_bytes w (put_bytes w s @ rest) = (s, int (length (put_bytes w s)))"
    and "length s \<le> length (put_bytes w s)"
  using assms unfolding wire_ok_def by blast+

text \<open>A tag followed by a payload is a piece when the handler reads the payload.\<close>

lemma tagged_piece:
  assumes "wire_ok w" and "1 \<le> num" and "num < 2 ^ 29" and "0 \<le> wt" and "wt \<le> 5"
    and "\<And>rest acc. field num wt (payload @ rest) acc = Some (Inr (f acc, rest))"
  shows "piece_ok w msg field (put_tag w num wt @ payload, f)"
  using wire_okD(1) [OF assms(1-5)] assms(6) by (simp add: piece_ok_def decode_one_def take_bytes_def)

lemma take_field_read:
  "r = (v, int (length p)) \<Longrightarrow> take_field msg num r (p @ rest) f = Some (Inr (f v, rest))"
  by (simp add: take_field_def take_bytes_def)

lemma take_embedded_read:
  "r = (sub, int (length p)) \<Longrightarrow> dec sub = Some (Inr m) \<Longrightarrow>
     take_embedded msg num r dec (p @ rest) f = Some (Inr (f m, rest))"
  by (simp add: take_embedded_def take_bytes_def)

lemma fold_embedded:
  "fold (\<lambda>m b. append_embedded w b k (enc m)) ms b =
     b @ concat (map (\<lambda>m. put_tag w k bytes_type @ put_bytes w (enc m)) ms)"
  by (induction ms arbitrary: b) (simp_all add: append_embedded_def)

lemma embedded_length:
  assumes "wire_ok w" and "m \<in> set ms"
  shows "length (enc m) \<le> length (fold (\<lambda>m b. append_embedded w b k (enc m)) ms b)"
proof -
  have "length (put_bytes w (enc m)) \<le> length (concat (map (\<lambda>m. put_tag w k bytes_type @ put_bytes w (enc m)) ms))"
    using assms(2) by (induction ms) auto
  with wire_okD(5) [OF assms(1), of "enc m"] show ?thesis by (simp add: fold_embedded)
qed

lemma fold_append_one: "fold (\<lambda>m ms. ms @ [f m]) xs acc = acc @ map f xs"
  by (induction xs arbitrary: acc) simp_all

lemma in_i64_cast: "in_i64 x \<Longrightarrow> to_int64 (to_uint64 x) = x"
  using wrap64_sint [of x] by (simp add: to_int64_def to_uint64_def)

definition in_i32 :: "int \<Rightarrow> bool" where
  "in_i32 x \<longleftrightarrow> - (2 ^ 31) \<le> x \<and> x < 2 ^ 31"

lemma in_i32_cast: "in_i32 x \<Longrightarrow> to_int32 (to_uint64 x) = x"
proof -
  assume x: "in_i32 x"
  have "(ucast (word_of_int x :: 64 word) :: 32 word) = word_of_int x"
    by transfer (simp add: take_bit_take_bit)
  with x show ?thesis
    by (simp add: to_int32_def to_uint64_def in_i32_def sint_sbintrunc' signed_take_bit_int_eq_self_iff)
qed

lemma label_roundtrip:
  assumes "wire_ok w" and "length (marshal_label w l) < 2 ^ 63"
  shows "unmarshal_label w (marshal_label w l) = Some (Inr l)"
proof -
  let ?ps = "[(put_tag w 1 2 @ put_bytes w (lb_name l), \<lambda>x. x\<lparr>lb_name := lb_name l\<rparr>),
    (put_tag w 2 2 @ put_bytes w (lb_value l), \<lambda>x. x\<lparr>lb_value := lb_value l\<rparr>)]"
  have b: "marshal_label w l = concat (map fst ?ps)" by (simp add: marshal_label_def bytes_type_def)
  have len: "length (lb_name l) < 2 ^ 63" "length (lb_value l) < 2 ^ 63"
    using assms(2) wire_okD(5) [OF assms(1), of "lb_name l"] wire_okD(5) [OF assms(1), of "lb_value l"]
    by (simp_all add: marshal_label_def)
  have "\<forall>p\<in>set ?ps. piece_ok w Msg_label (label_field w) p"
    using len by (auto simp: label_field_def wire_okD(4) [OF assms(1)]
        intro!: tagged_piece [OF assms(1)] take_field_read)
  from decode_all [OF this b] show ?thesis by (simp add: unmarshal_label_def)
qed


lemma sample_roundtrip:
  assumes "wire_ok w" and "in_i64 (sm_timestamp s)"
  shows "unmarshal_sample w (marshal_sample w s) = Some (Inr s)"
proof -
  let ?ps = "[(put_tag w 1 1 @ put_fixed64 w (sm_value s), \<lambda>x. x\<lparr>sm_value := sm_value s\<rparr>),
    (put_tag w 2 0 @ put_varint w (to_uint64 (sm_timestamp s)), \<lambda>x. x\<lparr>sm_timestamp := sm_timestamp s\<rparr>)]"
  have b: "marshal_sample w s = concat (map fst ?ps)" by (simp add: marshal_sample_def fixed64_type_def varint_type_def)
  have field: "sample_field w 1 1 (put_fixed64 w (sm_value s) @ rest) acc = Some (Inr (acc\<lparr>sm_value := sm_value s\<rparr>, rest))"
    "sample_field w 2 0 (put_varint w (to_uint64 (sm_timestamp s)) @ rest) acc =
       Some (Inr (acc\<lparr>sm_timestamp := sm_timestamp s\<rparr>, rest))" for rest acc
    using assms(2) by (simp_all add: sample_field_def wire_okD(2,3) [OF assms(1)] take_field_def take_bytes_def in_i64_cast)
  have "\<forall>p\<in>set ?ps. piece_ok w Msg_sample (sample_field w) p"
    by (auto simp: field intro!: tagged_piece [OF assms(1)])
  from decode_all [OF this b] show ?thesis by (simp add: unmarshal_sample_def)
qed

lemma matcher_roundtrip:
  assumes "wire_ok w" and "in_i32 (lm_type m)" and "length (marshal_matcher w m) < 2 ^ 63"
  shows "unmarshal_matcher w (marshal_matcher w m) = Some (Inr m)"
proof -
  let ?ps = "[(put_tag w 1 0 @ put_varint w (to_uint64 (lm_type m)), \<lambda>x. x\<lparr>lm_type := lm_type m\<rparr>),
    (put_tag w 2 2 @ put_bytes w (lm_name m), \<lambda>x. x\<lparr>lm_name := lm_name m\<rparr>),
    (put_tag w 3 2 @ put_bytes w (lm_value m), \<lambda>x. x\<lparr>lm_value := lm_value m\<rparr>)]"
  have b: "marshal_matcher w m = concat (map fst ?ps)" by (simp add: marshal_matcher_def bytes_type_def varint_type_def)
  have len: "length (lm_name m) < 2 ^ 63" "length (lm_value m) < 2 ^ 63"
    using assms(3) wire_okD(5) [OF assms(1), of "lm_name m"] wire_okD(5) [OF assms(1), of "lm_value m"]
    by (simp_all add: marshal_matcher_def)
  have field: "matcher_field w 1 0 (put_varint w (to_uint64 (lm_type m)) @ rest) acc =
      Some (Inr (acc\<lparr>lm_type := lm_type m\<rparr>, rest))"
    "matcher_field w 2 2 (put_bytes w (lm_name m) @ rest) acc = Some (Inr (acc\<lparr>lm_name := lm_name m\<rparr>, rest))"
    "matcher_field w 3 2 (put_bytes w (lm_value m) @ rest) acc = Some (Inr (acc\<lparr>lm_value := lm_value m\<rparr>, rest))" for rest acc
    using assms(2) len
    by (simp_all add: matcher_field_def wire_okD(2,4) [OF assms(1)] take_field_def take_bytes_def in_i32_cast)
  have "\<forall>p\<in>set ?ps. piece_ok w Msg_matcher (matcher_field w) p"
    by (auto simp: field intro!: tagged_piece [OF assms(1)])
  from decode_all [OF this b] show ?thesis by (simp add: unmarshal_matcher_def)
qed

text \<open>The pieces of a repeated embedded field.\<close>

lemma embedded_pieces:
  assumes "wire_ok w" and "1 \<le> k" and "k < 2 ^ 29"
    and "\<And>b acc. field k 2 b acc = take_embedded msg k (get_bytes w b) dec b (\<lambda>m. f m acc)"
    and "\<And>m. m \<in> set ms \<Longrightarrow> dec (enc m) = Some (Inr m) \<and> length (enc m) < 2 ^ 63"
  shows "\<forall>p\<in>set (map (\<lambda>m. (put_tag w k 2 @ put_bytes w (enc m), f m)) ms). piece_ok w msg field p"
proof
  fix p
  assume "p \<in> set (map (\<lambda>m. (put_tag w k 2 @ put_bytes w (enc m), f m)) ms)"
  then obtain m where m: "m \<in> set ms" "p = (put_tag w k 2 @ put_bytes w (enc m), f m)" by auto
  have "field k 2 (put_bytes w (enc m) @ rest) acc = Some (Inr (f m acc, rest))" for rest acc
    unfolding assms(4) using assms(5) [OF m(1)] wire_okD(4) [OF assms(1), of "enc m" rest]
    by (intro take_embedded_read) auto
  then show "piece_ok w msg field p" unfolding m(2) by (intro tagged_piece [OF assms(1-3)]) auto
qed

definition query_ok :: "pb_query \<Rightarrow> bool" where
  "query_ok q \<longleftrightarrow> in_i64 (qu_start q) \<and> in_i64 (qu_end q) \<and> list_all (\<lambda>m. in_i32 (lm_type m)) (qu_matchers q)"

definition series_ok :: "time_series \<Rightarrow> bool" where
  "series_ok ts \<longleftrightarrow> list_all (\<lambda>s. in_i64 (sm_timestamp s)) (ts_samples ts)"

lemma fold_matchers: "fold (\<lambda>m q. q\<lparr>qu_matchers := qu_matchers q @ [m]\<rparr>) ms q = q\<lparr>qu_matchers := qu_matchers q @ ms\<rparr>"
  by (induction ms arbitrary: q) simp_all

lemma fold_labels: "fold (\<lambda>l ts. ts\<lparr>ts_labels := ts_labels ts @ [l]\<rparr>) ls ts = ts\<lparr>ts_labels := ts_labels ts @ ls\<rparr>"
  by (induction ls arbitrary: ts) simp_all

lemma fold_samples: "fold (\<lambda>s ts. ts\<lparr>ts_samples := ts_samples ts @ [s]\<rparr>) ss ts = ts\<lparr>ts_samples := ts_samples ts @ ss\<rparr>"
  by (induction ss arbitrary: ts) simp_all

lemma query_roundtrip:
  assumes "wire_ok w" and "query_ok q" and "length (marshal_query w q) < 2 ^ 63"
  shows "unmarshal_query w (marshal_query w q) = Some (Inr q)"
proof -
  let ?es = "map (\<lambda>m. (put_tag w 3 2 @ put_bytes w (marshal_matcher w m), \<lambda>x. x\<lparr>qu_matchers := qu_matchers x @ [m]\<rparr>)) (qu_matchers q)"
  let ?hs = "[(put_tag w 1 0 @ put_varint w (to_uint64 (qu_start q)), \<lambda>x. x\<lparr>qu_start := qu_start q\<rparr>),
    (put_tag w 2 0 @ put_varint w (to_uint64 (qu_end q)), \<lambda>x. x\<lparr>qu_end := qu_end q\<rparr>)]"
  have b: "marshal_query w q = concat (map fst (?hs @ ?es))"
    by (simp add: marshal_query_def fold_embedded bytes_type_def varint_type_def o_def)
  have sub: "unmarshal_matcher w (marshal_matcher w m) = Some (Inr m) \<and> length (marshal_matcher w m) < 2 ^ 63"
    if "m \<in> set (qu_matchers q)" for m
  proof -
    have "length (marshal_matcher w m) < 2 ^ 63"
      using embedded_length [OF assms(1) that] assms(3) unfolding marshal_query_def Let_def by (rule order.strict_trans1)
    then show ?thesis using matcher_roundtrip [OF assms(1)] assms(2) that by (simp add: query_ok_def list_all_iff)
  qed
  have "\<forall>p\<in>set ?es. piece_ok w Msg_query (query_field w) p"
    by (rule embedded_pieces [OF assms(1) _ _ _ sub]) (simp_all add: query_field_def)
  moreover have "query_field w 1 0 (put_varint w (to_uint64 (qu_start q)) @ rest) acc = Some (Inr (acc\<lparr>qu_start := qu_start q\<rparr>, rest))"
    "query_field w 2 0 (put_varint w (to_uint64 (qu_end q)) @ rest) acc = Some (Inr (acc\<lparr>qu_end := qu_end q\<rparr>, rest))" for rest acc
    using assms(2)
    by (simp_all add: query_field_def wire_okD(2) [OF assms(1)] take_field_def take_bytes_def in_i64_cast query_ok_def)
  then have "\<forall>p\<in>set ?hs. piece_ok w Msg_query (query_field w) p"
    by (auto intro!: tagged_piece [OF assms(1)])
  ultimately have ok: "\<forall>p\<in>set (?hs @ ?es). piece_ok w Msg_query (query_field w) p" by auto
  show ?thesis
    using decode_all [OF ok b] by (simp add: unmarshal_query_def fold_map o_def fold_matchers)
qed


lemma time_series_roundtrip:
  assumes "wire_ok w" and "series_ok ts" and "length (marshal_time_series w ts) < 2 ^ 63"
  shows "unmarshal_time_series w (marshal_time_series w ts) = Some (Inr ts)"
proof -
  let ?ls = "map (\<lambda>l. (put_tag w 1 2 @ put_bytes w (marshal_label w l), \<lambda>x. x\<lparr>ts_labels := ts_labels x @ [l]\<rparr>)) (ts_labels ts)"
  let ?ss = "map (\<lambda>s. (put_tag w 2 2 @ put_bytes w (marshal_sample w s), \<lambda>x. x\<lparr>ts_samples := ts_samples x @ [s]\<rparr>)) (ts_samples ts)"
  have b: "marshal_time_series w ts = concat (map fst (?ls @ ?ss))"
    by (simp add: marshal_time_series_def fold_embedded bytes_type_def o_def)
  have whole: "length (fold (\<lambda>s b. append_embedded w b 2 (marshal_sample w s)) (ts_samples ts)
      (fold (\<lambda>l b. append_embedded w b 1 (marshal_label w l)) (ts_labels ts) [])) < 2 ^ 63"
    using assms(3) by (simp add: marshal_time_series_def)
  have label: "unmarshal_label w (marshal_label w l) = Some (Inr l) \<and> length (marshal_label w l) < 2 ^ 63"
    if "l \<in> set (ts_labels ts)" for l
  proof -
    have "length (marshal_label w l) < 2 ^ 63"
      using embedded_length [OF assms(1) that, of "marshal_label w" 1 "[]"] whole by (simp add: fold_embedded)
    then show ?thesis using label_roundtrip [OF assms(1)] by simp
  qed
  have sample: "unmarshal_sample w (marshal_sample w s) = Some (Inr s) \<and> length (marshal_sample w s) < 2 ^ 63"
    if "s \<in> set (ts_samples ts)" for s
    using le_less_trans [OF embedded_length [OF assms(1) that] whole] sample_roundtrip [OF assms(1)] assms(2) that
    by (simp add: series_ok_def list_all_iff)
  have "\<forall>p\<in>set ?ls. piece_ok w Msg_time_series (time_series_field w) p"
    by (rule embedded_pieces [OF assms(1) _ _ _ label]) (simp_all add: time_series_field_def)
  moreover have "\<forall>p\<in>set ?ss. piece_ok w Msg_time_series (time_series_field w) p"
    by (rule embedded_pieces [OF assms(1) _ _ _ sample]) (simp_all add: time_series_field_def)
  ultimately have ok: "\<forall>p\<in>set (?ls @ ?ss). piece_ok w Msg_time_series (time_series_field w) p" by auto
  show ?thesis
    using decode_all [OF ok b] by (simp add: unmarshal_time_series_def fold_map o_def fold_labels fold_samples)
qed

text \<open>A message with one repeated field.\<close>

lemma repeated_roundtrip:
  assumes "wire_ok w" and "b = fold (\<lambda>m b. append_embedded w b 1 (enc m)) ms []" and "length b < 2 ^ 63"
    and "\<And>m. m \<in> set ms \<Longrightarrow> length (enc m) < 2 ^ 63 \<Longrightarrow> dec w (enc m) = Some (Inr m)"
  shows "decode_loop (length b) w msg (repeated_field msg dec w) b [] = Some (Inr ms)"
proof -
  let ?ps = "map (\<lambda>m. (put_tag w 1 2 @ put_bytes w (enc m), \<lambda>ms. ms @ [m])) ms"
  have b: "b = concat (map fst ?ps)" by (simp add: assms(2) fold_embedded bytes_type_def o_def)
  have sub: "dec w (enc m) = Some (Inr m) \<and> length (enc m) < 2 ^ 63" if "m \<in> set ms" for m
    using le_less_trans [OF embedded_length [OF assms(1) that, of enc 1 "[]"]] assms(2-4) that by blast
  have ok: "\<forall>p\<in>set ?ps. piece_ok w msg (repeated_field msg dec w) p"
    by (rule embedded_pieces [OF assms(1) _ _ _ sub]) (simp_all add: repeated_field_def)
  show ?thesis using decode_all [OF ok b] by (simp add: fold_map o_def fold_append_one [where f = "\<lambda>m. m", simplified])
qed

lemma query_result_roundtrip:
  assumes "wire_ok w" and "list_all series_ok qr" and "length (marshal_query_result w qr) < 2 ^ 63"
  shows "unmarshal_query_result w (marshal_query_result w qr) = Some (Inr qr)"
  unfolding unmarshal_query_result_def
  by (rule repeated_roundtrip [OF assms(1) marshal_query_result_def assms(3)])
    (use assms(2) time_series_roundtrip [OF assms(1)] in \<open>auto simp: list_all_iff\<close>)

lemma read_request_roundtrip:
  assumes "wire_ok w" and "list_all query_ok req" and "length (marshal_read_request w req) < 2 ^ 63"
  shows "unmarshal_read_request w (marshal_read_request w req) = Some (Inr req)"
  unfolding unmarshal_read_request_def
  by (rule repeated_roundtrip [OF assms(1) marshal_read_request_def assms(3)])
    (use assms(2) query_roundtrip [OF assms(1)] in \<open>auto simp: list_all_iff\<close>)

text \<open>
  With a wire library that keeps its promises, a read response that fits a byte slice and whose timestamps are 64-bit integers decodes to itself from its encoding: every label, sample and series comes back, in order.
\<close>

theorem read_response_roundtrip:
  assumes "wire_ok w" and "list_all (list_all series_ok) resp" and "length (marshal_read_response w resp) < 2 ^ 63"
  shows "unmarshal_read_response w (marshal_read_response w resp) = Some (Inr resp)"
  unfolding unmarshal_read_response_def
  by (rule repeated_roundtrip [OF assms(1) marshal_read_response_def assms(3)])
    (use assms(2) query_result_roundtrip [OF assms(1)] in \<open>auto simp: list_all_iff\<close>)



text \<open>
  C25: End to end: the endpoint decodes an encoded request, and the body it returns decodes to exactly one result for each query, in the order of the queries, each what the telemetry store answers for it.
\<close>

theorem read_endpoint_answers:
  assumes "wire_ok w" and "list_all query_ok req" and "length (marshal_read_request w req) < 2 ^ 63"
    and "\<forall>a m s e. list_all (\<lambda>(v, t). in_i64 t) (fst (store a m s e))"
    and "length (marshal_read_response w (map (answer_query store) req)) < 2 ^ 63"
  shows "\<exists>body. prometheus_read w store (marshal_read_request w req) = Some (Inr body) \<and>
    unmarshal_read_response w body = Some (Inr (map (answer_query store) req))"
proof -
  have "list_all series_ok (answer_query store q)" for q
  proof -
    have "list_all (\<lambda>(v, t). in_i64 t) (fst (store a m s e))" for a m s e using assms(4) by blast
    then show ?thesis
      by (auto simp: answer_query_def series_ok_def list_all_iff split: option.split prod.splits) (metis case_prodD fst_conv)
  qed
  then have "list_all (list_all series_ok) (map (answer_query store) req)" by (simp add: list_all_iff)
  from read_response_roundtrip [OF assms(1) this assms(5)] read_request_roundtrip [OF assms(1-3)]
  show ?thesis by (simp add: prometheus_read_def)
qed

text \<open>
  A prefix-only metric name counts as none, so a second one is let through, against the comment
  that asks for exactly one matcher of each kind.
\<close>

lemma two_name_matchers:
  "find_metric [\<lparr>lm_type = 0, lm_name = bytes_of ''__name__'', lm_value = bytes_of ''levelrail_''\<rparr>,
     \<lparr>lm_type = 0, lm_name = bytes_of ''__name__'', lm_value = bytes_of ''levelrail_cpu''\<rparr>,
     \<lparr>lm_type = 0, lm_name = bytes_of ''service'', lm_value = bytes_of ''web''\<rparr>] [] [] =
   Some (bytes_of ''cpu'', bytes_of ''web'')"
  by code_simp

section \<open>A wire library\<close>

text \<open>Base 128 varints, little-endian words and length-prefixed bytes.\<close>

fun put_base128 :: "nat \<Rightarrow> bytes" where
  "put_base128 n = (if n < 128 then [of_nat n] else of_nat (n mod 128 + 128) # put_base128 (n div 128))"

declare put_base128.simps [simp del]

fun get_base128 :: "nat \<Rightarrow> bytes \<Rightarrow> (nat \<times> nat) option" where
  "get_base128 k [] = None"
| "get_base128 0 (x # xs) = None"
| "get_base128 (Suc k) (x # xs) =
     (if unat x < 128 then Some (unat x, 1)
      else map_option (\<lambda>(v, n). (unat x - 128 + 128 * v, Suc n)) (get_base128 k xs))"

fun put_le :: "nat \<Rightarrow> nat \<Rightarrow> bytes" where
  "put_le 0 n = []"
| "put_le (Suc k) n = of_nat (n mod 256) # put_le k (n div 256)"

fun get_le :: "bytes \<Rightarrow> nat" where
  "get_le [] = 0"
| "get_le (x # xs) = unat x + 256 * get_le xs"

definition get_sized :: "bytes \<Rightarrow> bytes \<times> int" where
  "get_sized b =
     (case get_base128 10 b of
        None \<Rightarrow> ([], -1)
      | Some (k, n) \<Rightarrow> if n + k \<le> length b then (take k (drop n b), int (n + k)) else ([], -1))"

definition get_varint_wire :: "bytes \<Rightarrow> 64 word \<times> int" where
  "get_varint_wire b = (case get_base128 10 b of None \<Rightarrow> (0, -1) | Some (v, n) \<Rightarrow> (of_nat v, int n))"

definition get_fixed_wire :: "bytes \<Rightarrow> 64 word \<times> int" where
  "get_fixed_wire b = (if length b < 8 then (0, -1) else (of_nat (get_le (take 8 b)), 8))"

definition demo_wire :: wire where
  "demo_wire =
     \<lparr>put_tag = (\<lambda>num wt. put_base128 (nat num * 8 + nat wt)),
      put_varint = (\<lambda>v. put_base128 (unat v)),
      put_fixed64 = (\<lambda>v. put_le 8 (unat v)),
      put_bytes = (\<lambda>s. put_base128 (length s) @ s),
      get_tag = (\<lambda>b. case get_base128 10 b of
                   None \<Rightarrow> (0, 0, -1) | Some (v, n) \<Rightarrow> (int (v div 8), int (v mod 8), int n)),
      get_varint = get_varint_wire, get_fixed64 = get_fixed_wire, get_bytes = get_sized,
      skip_value = (\<lambda>num wt b.
        if wt = 0 then snd (get_varint_wire b) else if wt = 1 then snd (get_fixed_wire b)
        else if wt = 2 then snd (get_sized b) else -1)\<rparr>"

lemma unat_of_nat8: "n < 256 \<Longrightarrow> unat (of_nat n :: 8 word) = n"
  by (simp add: unat_of_nat take_bit_nat_eq_self)

lemma base128_roundtrip:
  "0 < k \<Longrightarrow> n < 128 ^ k \<Longrightarrow> get_base128 k (put_base128 n @ rest) = Some (n, length (put_base128 n))"
proof (induction k arbitrary: n)
  case (Suc k)
  show ?case
  proof (cases "n < 128")
    case True
    then show ?thesis by (simp add: put_base128.simps [of n] unat_of_nat8)
  next
    case False
    then have "0 < k" using Suc.prems(2) by (cases k) auto
    moreover have "n div 128 < 128 ^ k" using Suc.prems(2) by (simp add: div_less_iff_less_mult mult.commute)
    moreover have "n mod 128 + 128 < 256" by (simp add: less_imp_add_positive)
    ultimately show ?thesis using False Suc.IH [of "n div 128"]
      by (simp add: put_base128.simps [of n] unat_of_nat8 del: of_nat_add)
  qed
qed simp

lemma length_base128: "length (put_base128 n) = (if n < 128 then 1 else Suc (length (put_base128 (n div 128))))"
  by (simp add: put_base128.simps [of n])

lemma base128_bound: "get_base128 k b = Some (v, n) \<Longrightarrow> 0 < n \<and> n \<le> length b"
  by (induction k b arbitrary: v n rule: get_base128.induct) (auto split: if_splits)

lemma base128_nonempty: "put_base128 n \<noteq> []"
  by (simp add: put_base128.simps [of n])

lemma length_put_le [simp]: "length (put_le k n) = k"
  by (induction k arbitrary: n) simp_all

lemma le_roundtrip: "n < 256 ^ k \<Longrightarrow> get_le (put_le k n) = n"
proof (induction k arbitrary: n)
  case (Suc k)
  have "n div 256 < 256 ^ k" using Suc.prems by (simp add: div_less_iff_less_mult mult.commute)
  with Suc.IH show ?case by (simp add: unat_of_nat8)
qed simp

lemma base128_64: "n < 2 ^ 64 \<Longrightarrow> get_base128 10 (put_base128 n @ rest) = Some (n, length (put_base128 n))"
  by (rule base128_roundtrip) simp_all

lemma tag_value:
  assumes "1 \<le> num" and "num < 2 ^ 29" and "0 \<le> wt" and "wt \<le> (5::int)"
  shows "nat num * 8 + nat wt < 2 ^ 64" and "int ((nat num * 8 + nat wt) div 8) = num"
    and "int ((nat num * 8 + nat wt) mod 8) = wt"
  using assms by (auto simp: nat_less_iff zdiv_int zmod_int)

lemma unat64 [simp]: "unat (v :: 64 word) < 2 ^ 64"
  using unsigned_less [of v] by simp

lemma demo_wire_ok: "wire_ok demo_wire"
  unfolding wire_ok_def
proof (intro conjI allI impI)
  fix num wt :: int and rest :: bytes
  assume n: "1 \<le> num \<and> num < 2 ^ 29 \<and> 0 \<le> wt \<and> wt \<le> 5"
  show "put_tag demo_wire num wt \<noteq> []" by (simp add: demo_wire_def base128_nonempty)
  show "get_tag demo_wire (put_tag demo_wire num wt @ rest) = (num, wt, int (length (put_tag demo_wire num wt)))"
    using tag_value [of num wt] n base128_64 [of "nat num * 8 + nat wt" rest] by (simp add: demo_wire_def)
next
  fix v :: "64 word" and rest :: bytes
  show "get_varint demo_wire (put_varint demo_wire v @ rest) = (v, int (length (put_varint demo_wire v)))"
    using base128_64 [OF unat64, of v rest] by (simp add: demo_wire_def get_varint_wire_def)
  show "get_fixed64 demo_wire (put_fixed64 demo_wire v @ rest) = (v, int (length (put_fixed64 demo_wire v)))"
    using le_roundtrip [of "unat v" 8] unat64 [of v] by (simp add: demo_wire_def get_fixed_wire_def)
next
  fix s rest :: bytes
  assume "length s < 2 ^ 63"
  then show "get_bytes demo_wire (put_bytes demo_wire s @ rest) = (s, int (length (put_bytes demo_wire s)))"
    using base128_64 [of "length s" "s @ rest"] by (simp add: demo_wire_def get_sized_def)
next
  fix s :: bytes
  show "length s \<le> length (put_bytes demo_wire s)" by (simp add: demo_wire_def)
qed

lemma demo_wire_total: "wire_total demo_wire"
  using base128_bound
  by (fastforce simp: wire_total_def demo_wire_def consumed_def get_sized_def get_varint_wire_def get_fixed_wire_def
      split: option.splits)

section \<open>Witnesses\<close>

definition demo_request :: read_request where
  "demo_request = [\<lparr>qu_start = -5, qu_end = 1700000000000,
     qu_matchers = [\<lparr>lm_type = 0, lm_name = bytes_of ''__name__'', lm_value = bytes_of ''levelrail_cpu''\<rparr>,
       \<lparr>lm_type = 0, lm_name = bytes_of ''service'', lm_value = bytes_of ''web''\<rparr>]\<rparr>]"

definition demo_store :: prom_store where
  "demo_store a m s e = ([(4607182418800017408, 1000), (0, 2000)], False)"

definition demo_answer :: read_response where
  "demo_answer = [[\<lparr>ts_labels = [\<lparr>lb_name = bytes_of ''__name__'', lb_value = bytes_of ''levelrail_cpu''\<rparr>,
       \<lparr>lb_name = bytes_of ''service'', lb_value = bytes_of ''web''\<rparr>],
     ts_samples = [\<lparr>sm_value = 4607182418800017408, sm_timestamp = 1000\<rparr>, \<lparr>sm_value = 0, sm_timestamp = 2000\<rparr>]\<rparr>]]"

lemma demo_answers: "map (answer_query demo_store) demo_request = demo_answer"
  by code_simp

lemma demo_sizes:
  "length (marshal_read_request demo_wire demo_request) < 2 ^ 63"
  "length (marshal_read_response demo_wire demo_answer) < 2 ^ 63"
  by (simp_all add: marshal_read_request_def demo_request_def append_embedded_def marshal_query_def marshal_matcher_def
      demo_wire_def length_base128 bytes_of_def to_uint64_def bytes_type_def varint_type_def fixed64_type_def
      marshal_read_response_def demo_answer_def marshal_query_result_def marshal_time_series_def marshal_label_def
      marshal_sample_def metric_prefix_def)


lemma demo_request_ok: "list_all query_ok demo_request"
  by (simp add: demo_request_def query_ok_def in_i64_def in_i32_def)

theorem read_response_roundtrip_witness:
  "unmarshal_read_response demo_wire (marshal_read_response demo_wire demo_answer) = Some (Inr demo_answer)"
  by (rule read_response_roundtrip [OF demo_wire_ok _ demo_sizes(2)])
    (simp add: demo_answer_def series_ok_def in_i64_def)


theorem read_endpoint_answers_witness:
  "\<exists>body. prometheus_read demo_wire demo_store (marshal_read_request demo_wire demo_request) = Some (Inr body) \<and>
    unmarshal_read_response demo_wire body = Some (Inr demo_answer)"
  using read_endpoint_answers [OF demo_wire_ok demo_request_ok demo_sizes(1), of demo_store] demo_sizes(2)
  by (simp add: demo_answers) (simp add: demo_store_def in_i64_def)

end
