(* ===== verification/Canary.thy ===== *)
theory Canary
  imports Releases Labels
begin

text \<open>
  Staged canary releases: the policy (\<open>internal/canarypolicy\<close>), the judgement of one stage
  (\<open>internal/canary/decide.go\<close>), the reconciler that walks the stages
  (\<open>internal/canary/reconciler.go\<close>), the operator's handlers and the actions behind a decision
  (\<open>internal/api/canary.go\<close>), the store (\<open>internal/store/canary.go\<close>) and the traffic split
  (\<open>internal/reconcile/ingress/canary.go\<close>).

  Counters are 64-bit words, \<open>float64\<close> values exact rationals.  The deploy, the removal of the
  clone, the store's failures and the traffic counters are given by the environment.
\<close>

type_synonym u64 = "64 word"

section \<open>Policy\<close>

record cn_policy =
  cp_stages :: "int list"
  cp_interval :: duration
  cp_max_error :: rat
  cp_max_ratio :: rat

record cn_limits =
  cl_min_requests :: u64
  cl_p95_floor :: rat
  cl_tick :: duration

definition full_stage :: int where
  "full_stage = 100"

definition max_weight :: int where
  "max_weight = 99"

definition max_stages :: nat where
  "max_stages = 10"

datatype stage_error = No_stages | Too_many_stages nat | Stage_range int | Not_ascending | First_full

fun check_stages :: "int \<Rightarrow> int list \<Rightarrow> stage_error option" where
  "check_stages prev [] = None"
| "check_stages prev (s # ss) =
     (if s < 1 \<or> s > full_stage then Some (Stage_range s)
      else if s \<le> prev then Some Not_ascending
      else check_stages s ss)"

definition validate_stages :: "int list \<Rightarrow> stage_error option" where
  "validate_stages ss =
     (if ss = [] then Some No_stages
      else if length ss > max_stages then Some (Too_many_stages (length ss))
      else (case check_stages 0 ss of
              Some e \<Rightarrow> Some e
            | None \<Rightarrow> if hd ss \<ge> full_stage then Some First_full else None))"

datatype cn_policy_error = Pe_stages stage_error | Pe_interval | Pe_error_rate | Pe_ratio | Pe_number string

definition validate_canary :: "cn_policy \<Rightarrow> cn_policy_error option" where
  "validate_canary p =
     (case validate_stages (cp_stages p) of
        Some e \<Rightarrow> Some (Pe_stages e)
      | None \<Rightarrow>
          if cp_interval p < second then Some Pe_interval
          else if cp_max_error p \<le> 0 \<or> cp_max_error p > 1 then Some Pe_error_rate
          else if cp_max_ratio p \<le> 1 then Some Pe_ratio
          else None)"

definition stage_weight :: "cn_policy \<Rightarrow> int \<Rightarrow> int" where
  "stage_weight p i =
     (if i < 0 \<or> i \<ge> int (length (cp_stages p)) then 0 else min (cp_stages p ! nat i) max_weight)"

text \<open>Lists of stages as text.\<close>

definition itoa :: "int \<Rightarrow> string" where
  "itoa n = (if n < 0 then CHR ''-'' # decimal (nat (- n)) else decimal (nat n))"

fun join_parts :: "char \<Rightarrow> string list \<Rightarrow> string" where
  "join_parts sep [] = []"
| "join_parts sep [p] = p"
| "join_parts sep (p # q # ps) = p @ sep # join_parts sep (q # ps)"

fun parse_parts :: "string list \<Rightarrow> cn_policy_error + int list" where
  "parse_parts [] = Inr []"
| "parse_parts (p # ps) =
     (case go_atoi (trim_space p) of
        None \<Rightarrow> Inl (Pe_number (trim_space p))
      | Some n \<Rightarrow> (case parse_parts ps of Inl e \<Rightarrow> Inl e | Inr ns \<Rightarrow> Inr (n # ns)))"

definition parse_stages :: "string \<Rightarrow> cn_policy_error + int list" where
  "parse_stages v =
     (let v = trim_space v
      in if v = [] then Inr []
         else (case parse_parts (go_split CHR '','' v) of
                 Inl e \<Rightarrow> Inl e
               | Inr ns \<Rightarrow> (case validate_stages ns of Some e \<Rightarrow> Inl (Pe_stages e) | None \<Rightarrow> Inr ns)))"

definition join_stages :: "int list \<Rightarrow> string" where
  "join_stages ss = join_parts CHR '','' (map itoa ss)"

definition split_stages :: "string \<Rightarrow> int list" where
  "split_stages v =
     (if v = [] then [] else List.map_filter (\<lambda>p. go_atoi (trim_space p)) (go_split CHR '','' v))"

text \<open>The defaults, overridden by the parsed environment settings.\<close>

record cn_settings =
  se_stages :: string
  se_interval :: "duration option"
  se_max_error :: "rat option"
  se_max_ratio :: "rat option"
  se_min_requests :: "u64 option"
  se_p95_floor :: "rat option"
  se_tick :: "duration option"

definition canary_policy :: "cn_settings \<Rightarrow> cn_policy" where
  "canary_policy s =
     \<lparr>cp_stages = (case parse_stages (se_stages s) of Inr ss \<Rightarrow> if ss \<noteq> [] then ss else [10, 25, 50, 100] | _ \<Rightarrow> [10, 25, 50, 100]),
      cp_interval = (case se_interval s of Some d \<Rightarrow> if d \<ge> second then d else 5 * minute | None \<Rightarrow> 5 * minute),
      cp_max_error = (case se_max_error s of Some f \<Rightarrow> if f > 0 \<and> f \<le> 1 then f else 2 / 100 | None \<Rightarrow> 2 / 100),
      cp_max_ratio = (case se_max_ratio s of Some f \<Rightarrow> if f > 1 then f else 3 / 2 | None \<Rightarrow> 3 / 2)\<rparr>"

definition default_limits :: "cn_settings \<Rightarrow> cn_limits" where
  "default_limits s =
     \<lparr>cl_min_requests = (case se_min_requests s of Some n \<Rightarrow> if n > 0 then n else 30 | None \<Rightarrow> 30),
      cl_p95_floor = (case se_p95_floor s of Some f \<Rightarrow> if f \<ge> 0 then f else 50 | None \<Rightarrow> 50),
      cl_tick = (case se_tick s of Some d \<Rightarrow> if d \<ge> second then d else 15 * second | None \<Rightarrow> 15 * second)\<rparr>"

section \<open>Samples\<close>

record cn_sample =
  sp_requests :: u64
  sp_errors :: u64
  sp_latency :: "u64 list"

definition zero_sample :: cn_sample where
  "zero_sample = \<lparr>sp_requests = 0, sp_errors = 0, sp_latency = replicate 12 0\<rparr>"

definition error_rate :: "cn_sample \<Rightarrow> rat" where
  "error_rate s = (if sp_requests s = 0 then 0 else of_nat (unat (sp_errors s)) / of_nat (unat (sp_requests s)))"

definition latency_buckets :: "rat list" where
  "latency_buckets = [5, 10, 25, 50, 100, 250, 500, 1000, 2500, 5000, 10000]"

fun bucket_scan :: "rat \<Rightarrow> nat \<Rightarrow> rat \<Rightarrow> rat list \<Rightarrow> rat" where
  "bucket_scan rank i cum [] = last latency_buckets"
| "bucket_scan rank i cum (c # cs) =
     (if c \<le> 0 then bucket_scan rank (Suc i) cum cs
      else if cum + c < rank then bucket_scan rank (Suc i) (cum + c) cs
      else if i \<ge> length latency_buckets then last latency_buckets
      else (let lower = (if i > 0 then latency_buckets ! (i - 1) else 0)
            in lower + (latency_buckets ! i - lower) * ((rank - cum) / c)))"

definition percentile_from_buckets :: "rat list \<Rightarrow> rat \<Rightarrow> rat" where
  "percentile_from_buckets counts q =
     (let total = sum_list counts in if total \<le> 0 then 0 else bucket_scan (q * total) 0 0 counts)"

definition sample_p95 :: "cn_sample \<Rightarrow> rat" where
  "sample_p95 s = percentile_from_buckets (map (\<lambda>c. of_nat (unat c)) (sp_latency s)) (95 / 100)"

definition sub_counter :: "u64 \<Rightarrow> u64 \<Rightarrow> u64" where
  "sub_counter a b = (if a < b then 0 else a - b)"

definition sample_sub :: "cn_sample \<Rightarrow> cn_sample \<Rightarrow> cn_sample" where
  "sample_sub s earlier =
     \<lparr>sp_requests = sub_counter (sp_requests s) (sp_requests earlier),
      sp_errors = sub_counter (sp_errors s) (sp_errors earlier),
      sp_latency = map2 sub_counter (sp_latency s) (sp_latency earlier)\<rparr>"

section \<open>The judgement of a stage\<close>

datatype cn_action = Act_hold | Act_advance | Act_promote | Act_rollback

datatype breach_reason = Br_errors rat rat | Br_latency rat rat

record cn_input =
  ci_policy :: cn_policy
  ci_limits :: cn_limits
  ci_stage :: int
  ci_elapsed :: duration
  ci_canary :: cn_sample
  ci_baseline :: cn_sample

definition breach :: "cn_input \<Rightarrow> breach_reason option" where
  "breach inp =
     (if sp_requests (ci_canary inp) < cl_min_requests (ci_limits inp) then None
      else
        (let ce = error_rate (ci_canary inp); be = error_rate (ci_baseline inp)
         in if ce - be > cp_max_error (ci_policy inp) then Some (Br_errors ce be)
            else
              (let cp = sample_p95 (ci_canary inp); bp = sample_p95 (ci_baseline inp)
               in if sp_requests (ci_baseline inp) \<ge> cl_min_requests (ci_limits inp) \<and>
                     cp > cl_p95_floor (ci_limits inp) \<and> cp > bp * cp_max_ratio (ci_policy inp)
                  then Some (Br_latency cp bp) else None)))"

datatype cn_decision = Dec_rollback breach_reason | Dec_observing | Dec_waiting | Dec_promote | Dec_advance

definition action_of :: "cn_decision \<Rightarrow> cn_action" where
  "action_of d =
     (case d of Dec_rollback _ \<Rightarrow> Act_rollback | Dec_promote \<Rightarrow> Act_promote | Dec_advance \<Rightarrow> Act_advance | _ \<Rightarrow> Act_hold)"

definition decide_stage :: "cn_input \<Rightarrow> cn_decision" where
  "decide_stage inp =
     (case breach inp of
        Some why \<Rightarrow> Dec_rollback why
      | None \<Rightarrow>
          if ci_elapsed inp < cp_interval (ci_policy inp) then Dec_observing
          else if sp_requests (ci_canary inp) < cl_min_requests (ci_limits inp) then Dec_waiting
          else
            (let nxt = ci_stage inp + 1
             in if nxt \<ge> int (length (cp_stages (ci_policy inp))) \<or> cp_stages (ci_policy inp) ! nat nxt \<ge> full_stage
                then Dec_promote else Dec_advance))"

section \<open>State\<close>

datatype cn_error =
    Cn_list string | Cn_set string | Cn_load_app string | Cn_app_missing | Cn_refused string | Cn_deploy string
  | Cn_clone string | Cn_delete string

datatype cn_status = Sr_none | Sr_promote_failed cn_error

record cn_release =
  cr_service :: string
  cr_clone :: string
  cr_image :: string
  cr_weight :: int
  cr_stages :: "int list"
  cr_stage :: int
  cr_interval_secs :: int
  cr_max_error :: rat
  cr_max_ratio :: rat
  cr_status :: cn_status

definition staged :: "cn_release \<Rightarrow> bool" where
  "staged r \<longleftrightarrow> cr_stages r \<noteq> []"

definition policy_of :: "cn_release \<Rightarrow> cn_policy" where
  "policy_of r =
     \<lparr>cp_stages = cr_stages r, cp_interval = i64_mul (cr_interval_secs r) second, cp_max_error = cr_max_error r,
      cp_max_ratio = cr_max_ratio r\<rparr>"

record cn_window =
  wn_image :: string
  wn_stage :: int
  wn_pair :: "string \<times> string"
  wn_start :: gotime
  wn_canary :: cn_sample
  wn_stable :: cn_sample

datatype cn_outcome = Oc_promoted bool | Oc_aborted | Oc_rolled_back breach_reason

text \<open>
  The tables of the store (releases, outcomes, saved policies, the image of each app), the
  windows of the reconciler, and the upstream pairs the ingress controller notes.
\<close>

record cn_world =
  cw_releases :: "(string, cn_release) gomap"
  cw_outcomes :: "(string, cn_outcome \<times> string) gomap"
  cw_policies :: "(string, cn_policy) gomap"
  cw_apps :: "(string, string) gomap"
  cw_windows :: "(string, cn_window) gomap"
  cw_dials :: "(string, string \<times> string) gomap"
  cw_nudges :: nat

record cn_env =
  ce_now :: gotime
  ce_totals :: "string \<Rightarrow> cn_sample option"
  ce_limits :: cn_limits
  ce_list_err :: "string option"
  ce_get_err :: "string \<Rightarrow> string option"
  ce_set_err :: "cn_release \<Rightarrow> string option"
  ce_delete_err :: "string \<Rightarrow> string option"
  ce_policy_err :: "string \<Rightarrow> string option"
  ce_outcome_err :: "string option"
  ce_app_err :: "string \<Rightarrow> string option"
  ce_skip :: "string \<Rightarrow> string option"
  ce_deploy_err :: "string \<Rightarrow> string \<Rightarrow> string option"
  ce_clone_err :: "string \<Rightarrow> string option"
  ce_block :: "string \<Rightarrow> string option"
  ce_resolve_err :: "string \<Rightarrow> string option"
  ce_save_err :: "string \<Rightarrow> string option"
  ce_extras_err :: "string \<Rightarrow> string option"
  ce_settings :: cn_settings

section \<open>Store\<close>

definition set_release :: "cn_env \<Rightarrow> cn_release \<Rightarrow> cn_world \<Rightarrow> string option \<times> cn_world" where
  "set_release env r w =
     (case ce_set_err env r of
        Some e \<Rightarrow> (Some e, w)
      | None \<Rightarrow>
          (None, w\<lparr>cw_releases := AList.update (cr_service r) (r\<lparr>cr_stages := split_stages (join_stages (cr_stages r))\<rparr>)
                                   (cw_releases w)\<rparr>))"

definition get_release :: "cn_env \<Rightarrow> string \<Rightarrow> cn_world \<Rightarrow> string + cn_release option" where
  "get_release env name w =
     (case ce_get_err env name of Some e \<Rightarrow> Inl e | None \<Rightarrow> Inr (map_of (cw_releases w) name))"

definition delete_release :: "cn_env \<Rightarrow> string \<Rightarrow> cn_world \<Rightarrow> string option \<times> cn_world" where
  "delete_release env name w =
     (case ce_delete_err env name of
        Some e \<Rightarrow> (Some e, w)
      | None \<Rightarrow> (None, w\<lparr>cw_releases := AList.delete name (cw_releases w)\<rparr>))"

definition record_outcome :: "cn_env \<Rightarrow> cn_release \<Rightarrow> cn_outcome \<Rightarrow> cn_world \<Rightarrow> cn_world" where
  "record_outcome env r oc w =
     (if ce_outcome_err env \<noteq> None then w
      else w\<lparr>cw_outcomes := AList.update (cr_service r) (oc, cr_image r) (cw_outcomes w)\<rparr>)"

definition canary_service_name :: "string \<Rightarrow> string" where
  "canary_service_name name = name @ ''--canary''"

definition is_canary_service :: "string \<Rightarrow> bool" where
  "is_canary_service name \<longleftrightarrow>
     length ''--canary'' \<le> length name \<and> drop (length name - length ''--canary'') name = ''--canary''"

section \<open>Actions\<close>

definition remove_canary :: "cn_env \<Rightarrow> string \<Rightarrow> cn_world \<Rightarrow> cn_error option \<times> cn_world" where
  "remove_canary env name w =
     (case ce_clone_err env (canary_service_name name) of
        Some e \<Rightarrow> (Some (Cn_clone e), w)
      | None \<Rightarrow>
          (let w = w\<lparr>cw_apps := AList.delete (canary_service_name name) (cw_apps w)\<rparr>
           in case delete_release env name w of
                (Some e, w) \<Rightarrow> (Some (Cn_delete e), w)
              | (None, w) \<Rightarrow> (None, w\<lparr>cw_nudges := cw_nudges w + 1\<rparr>)))"

definition promote_canary :: "cn_env \<Rightarrow> cn_release \<Rightarrow> bool \<Rightarrow> cn_world \<Rightarrow> cn_error option \<times> cn_world" where
  "promote_canary env r auto w =
     (let name = cr_service r;
          finish = (\<lambda>w. remove_canary env name (record_outcome env r (Oc_promoted auto) w))
      in case (ce_app_err env name, map_of (cw_apps w) name) of
           (Some e, _) \<Rightarrow> (Some (Cn_load_app e), w)
         | (None, None) \<Rightarrow> (Some Cn_app_missing, w)
         | (None, Some img) \<Rightarrow>
             if img = cr_image r then finish w
             else (case ce_skip env name of
                     Some why \<Rightarrow> (Some (Cn_refused why), w)
                   | None \<Rightarrow>
                       (case ce_deploy_err env name (cr_image r) of
                          Some e \<Rightarrow> (Some (Cn_deploy e), w)
                        | None \<Rightarrow> finish (w\<lparr>cw_apps := AList.update name (cr_image r) (cw_apps w)\<rparr>))))"

definition rollback_canary :: "cn_env \<Rightarrow> cn_release \<Rightarrow> breach_reason \<Rightarrow> cn_world \<Rightarrow> cn_error option \<times> cn_world" where
  "rollback_canary env r why w = remove_canary env (cr_service r) (record_outcome env r (Oc_rolled_back why) w)"

section \<open>The reconciler\<close>

definition drop_window :: "string \<Rightarrow> cn_world \<Rightarrow> cn_world" where
  "drop_window app w = w\<lparr>cw_windows := AList.delete app (cw_windows w)\<rparr>"

definition total_of :: "(string \<Rightarrow> cn_sample option) \<Rightarrow> string \<Rightarrow> cn_sample" where
  "total_of totals dial = (case totals dial of Some s \<Rightarrow> s | None \<Rightarrow> zero_sample)"

definition window_for :: "cn_env \<Rightarrow> cn_release \<Rightarrow> string \<times> string \<Rightarrow> cn_world \<Rightarrow> cn_window \<times> cn_world" where
  "window_for env r pair w =
     (let fresh = \<lparr>wn_image = cr_image r, wn_stage = cr_stage r, wn_pair = pair, wn_start = ce_now env,
                   wn_canary = total_of (ce_totals env) (snd pair), wn_stable = total_of (ce_totals env) (fst pair)\<rparr>;
          new = (fresh, w\<lparr>cw_windows := AList.update (cr_service r) fresh (cw_windows w)\<rparr>)
      in case map_of (cw_windows w) (cr_service r) of
           None \<Rightarrow> new
         | Some v \<Rightarrow>
             if wn_image v \<noteq> cr_image r \<or> wn_stage v \<noteq> cr_stage r \<or> wn_pair v \<noteq> pair then new else (v, w))"

definition stage_input :: "cn_env \<Rightarrow> cn_release \<Rightarrow> cn_window \<Rightarrow> cn_input" where
  "stage_input env r v =
     \<lparr>ci_policy = policy_of r, ci_limits = ce_limits env, ci_stage = cr_stage r,
      ci_elapsed = time_sub (ce_now env) (wn_start v),
      ci_canary = sample_sub (total_of (ce_totals env) (snd (wn_pair v))) (wn_canary v),
      ci_baseline = sample_sub (total_of (ce_totals env) (fst (wn_pair v))) (wn_stable v)\<rparr>"

definition apply_stage :: "cn_env \<Rightarrow> cn_release \<Rightarrow> cn_decision \<Rightarrow> cn_world \<Rightarrow> cn_error option \<times> cn_world" where
  "apply_stage env r d w =
     (case d of
        Dec_advance \<Rightarrow>
          (let nxt = cr_stage r + 1;
               r' = r\<lparr>cr_stage := nxt, cr_weight := stage_weight (policy_of r) nxt, cr_status := Sr_none\<rparr>
           in case set_release env r' w of
                (Some e, w) \<Rightarrow> (Some (Cn_set e), w)
              | (None, w) \<Rightarrow> (None, drop_window (cr_service r) w))
      | Dec_promote \<Rightarrow>
          (case promote_canary env r True w of
             (Some e, w) \<Rightarrow>
               (let (_, w) = set_release env (r\<lparr>cr_status := Sr_promote_failed e\<rparr>) w
                in (Some e, drop_window (cr_service r) w))
           | (None, w) \<Rightarrow> (None, drop_window (cr_service r) w))
      | Dec_rollback why \<Rightarrow>
          (case rollback_canary env r why w of
             (Some e, w) \<Rightarrow> (Some e, w)
           | (None, w) \<Rightarrow> (None, drop_window (cr_service r) w))
      | _ \<Rightarrow> (None, w))"

definition reconcile_one :: "cn_env \<Rightarrow> cn_release \<Rightarrow> cn_world \<Rightarrow> cn_error option \<times> cn_world" where
  "reconcile_one env r w =
     (case map_of (cw_dials w) (cr_service r) of
        None \<Rightarrow> (None, drop_window (cr_service r) w)
      | Some pair \<Rightarrow>
          if cr_weight r \<le> 0 then (None, drop_window (cr_service r) w)
          else (let (v, w) = window_for env r pair w in apply_stage env r (decide_stage (stage_input env r v)) w))"

fun reconcile_releases :: "cn_env \<Rightarrow> cn_release list \<Rightarrow> cn_world \<Rightarrow> cn_error option \<times> cn_world" where
  "reconcile_releases env [] w = (None, w)"
| "reconcile_releases env (r # rs) w =
     (if \<not> staged r then reconcile_releases env rs w
      else (let (e, w) = reconcile_one env r w;
                (es, w) = reconcile_releases env rs w
            in ((case e of Some x \<Rightarrow> Some x | None \<Rightarrow> es), w)))"

definition list_releases :: "cn_world \<Rightarrow> cn_release list" where
  "list_releases w = map snd (sort_key fst (cw_releases w))"

definition cn_reconcile :: "cn_env \<Rightarrow> cn_world \<Rightarrow> cn_error option \<times> cn_world" where
  "cn_reconcile env w =
     (case ce_list_err env of
        Some e \<Rightarrow> (Some (Cn_list e), w)
      | None \<Rightarrow>
          (let rs = list_releases w;
               live = set (map cr_service (filter staged rs));
               (e, w) = reconcile_releases env rs w
           in (e, w\<lparr>cw_windows := gm_retain (\<lambda>app. app \<in> live) (cw_windows w)\<rparr>)))"

text \<open>The live view of a staged canary.\<close>

record cn_progress =
  pg_stage :: int
  pg_stage_count :: nat
  pg_elapsed_secs :: int
  pg_interval_secs :: int
  pg_canary :: "u64 \<times> rat \<times> rat"
  pg_stable :: "u64 \<times> rat \<times> rat"
  pg_next :: cn_decision
  pg_breaching :: bool

definition canary_progress :: "cn_env \<Rightarrow> cn_release \<Rightarrow> cn_world \<Rightarrow> cn_progress option" where
  "canary_progress env r w =
     (if \<not> staged r then None
      else (case map_of (cw_windows w) (cr_service r) of
              None \<Rightarrow> None
            | Some v \<Rightarrow>
                if wn_stage v \<noteq> cr_stage r \<or> wn_image v \<noteq> cr_image r then None
                else
                  (let inp = stage_input env r v;
                       d = decide_stage inp;
                       view = (\<lambda>s. (sp_requests s, error_rate s, sample_p95 s))
                   in Some \<lparr>pg_stage = cr_stage r + 1, pg_stage_count = length (cr_stages r),
                            pg_elapsed_secs = i64_div (ci_elapsed inp) second, pg_interval_secs = cr_interval_secs r,
                            pg_canary = view (ci_canary inp), pg_stable = view (ci_baseline inp), pg_next = d,
                            pg_breaching = (action_of d = Act_rollback)\<rparr>)))"

section \<open>The operator's handlers\<close>

record cn_request =
  rq_image :: string
  rq_weight :: "int option"
  rq_staged :: "bool option"
  rq_stages :: "int list"
  rq_interval :: "duration option option"
  rq_max_error :: rat
  rq_max_ratio :: rat

datatype cn_refusal =
    Cr_image_missing | Cr_policy_read string | Cr_interval | Cr_policy cn_policy_error | Cr_weight_staged | Cr_weight
  | Cr_nested | Cr_no_app | Cr_app_error string | Cr_blocked string | Cr_get_error string | Cr_exists | Cr_resolve string
  | Cr_save string | Cr_extras string | Cr_record string | Cr_none_running | Cr_action cn_error

text \<open>The duration text of a request: absent, unreadable, or its value.\<close>

definition resolve_canary_policy :: "cn_env \<Rightarrow> string \<Rightarrow> cn_request \<Rightarrow> cn_world \<Rightarrow> cn_refusal + cn_policy \<times> bool" where
  "resolve_canary_policy env name req w =
     (case ce_policy_err env name of
        Some e \<Rightarrow> Inl (Cr_policy_read e)
      | None \<Rightarrow>
          (let saved = map_of (cw_policies w) name;
               pol = (case saved of Some p \<Rightarrow> p | None \<Rightarrow> canary_policy (ce_settings env));
               is_staged = (rq_stages req \<noteq> [] \<or> rq_staged req = Some True \<or>
                            rq_staged req = None \<and> rq_weight req = None \<and> saved \<noteq> None)
           in if \<not> is_staged then Inr (pol, False)
              else
                (let pol = (if rq_stages req \<noteq> [] then pol\<lparr>cp_stages := rq_stages req\<rparr> else pol);
                     bad = (case rq_interval req of None \<Rightarrow> False | Some None \<Rightarrow> True | Some (Some d) \<Rightarrow> d < second);
                     pol = (case rq_interval req of Some (Some d) \<Rightarrow> pol\<lparr>cp_interval := d\<rparr> | _ \<Rightarrow> pol);
                     pol = (if rq_max_error req \<noteq> 0 then pol\<lparr>cp_max_error := rq_max_error req\<rparr> else pol);
                     pol = (if rq_max_ratio req \<noteq> 0 then pol\<lparr>cp_max_ratio := rq_max_ratio req\<rparr> else pol)
                 in if bad then Inl Cr_interval
                    else (case validate_canary pol of Some e \<Rightarrow> Inl (Cr_policy e) | None \<Rightarrow> Inr (pol, True)))))"

definition rollback_clone :: "cn_env \<Rightarrow> string \<Rightarrow> cn_world \<Rightarrow> cn_world" where
  "rollback_clone env clone w =
     (if ce_clone_err env clone \<noteq> None then w else w\<lparr>cw_apps := AList.delete clone (cw_apps w)\<rparr>)"

definition new_release :: "string \<Rightarrow> string \<Rightarrow> int \<Rightarrow> cn_policy option \<Rightarrow> cn_release" where
  "new_release name img weight pol =
     \<lparr>cr_service = name, cr_clone = canary_service_name name, cr_image = img, cr_weight = weight,
      cr_stages = (case pol of Some p \<Rightarrow> cp_stages p | None \<Rightarrow> []), cr_stage = 0,
      cr_interval_secs = (case pol of Some p \<Rightarrow> i64_div (cp_interval p) second | None \<Rightarrow> 0),
      cr_max_error = (case pol of Some p \<Rightarrow> cp_max_error p | None \<Rightarrow> 0),
      cr_max_ratio = (case pol of Some p \<Rightarrow> cp_max_ratio p | None \<Rightarrow> 0), cr_status = Sr_none\<rparr>"

definition launch_canary :: "cn_env \<Rightarrow> cn_release \<Rightarrow> cn_world \<Rightarrow> cn_refusal option \<times> cn_world" where
  "launch_canary env r w =
     (case ce_save_err env (cr_clone r) of
        Some e \<Rightarrow> (Some (Cr_save e), w)
      | None \<Rightarrow>
          (let w = w\<lparr>cw_apps := AList.update (cr_clone r) (cr_image r) (cw_apps w)\<rparr>
           in case ce_extras_err env (cr_clone r) of
                Some e \<Rightarrow> (Some (Cr_extras e), rollback_clone env (cr_clone r) w)
              | None \<Rightarrow>
                  (case set_release env r w of
                     (Some e, w) \<Rightarrow> (Some (Cr_record e), rollback_clone env (cr_clone r) w)
                   | (None, w) \<Rightarrow> (None, w\<lparr>cw_nudges := cw_nudges w + 1\<rparr>))))"

definition start_canary :: "cn_env \<Rightarrow> string \<Rightarrow> cn_request \<Rightarrow> cn_world \<Rightarrow> cn_refusal option \<times> cn_world" where
  "start_canary env name req w =
     (let img = trim_space (rq_image req); weight = (case rq_weight req of Some n \<Rightarrow> n | None \<Rightarrow> 10)
      in if img = [] then (Some Cr_image_missing, w)
         else
           (case resolve_canary_policy env name req w of
              Inl e \<Rightarrow> (Some e, w)
            | Inr (pol, is_staged) \<Rightarrow>
                (let weight = (if is_staged then stage_weight pol 0 else weight)
                 in if is_staged \<and> rq_weight req \<noteq> None then (Some Cr_weight_staged, w)
                    else if weight < 1 \<or> weight > max_weight then (Some Cr_weight, w)
                    else if is_canary_service name then (Some Cr_nested, w)
                    else if ce_app_err env name \<noteq> None then (Some (Cr_app_error (the (ce_app_err env name))), w)
                    else if map_of (cw_apps w) name = None then (Some Cr_no_app, w)
                    else if ce_block env name \<noteq> None then (Some (Cr_blocked (the (ce_block env name))), w)
                    else
                      (case get_release env name w of
                         Inl e \<Rightarrow> (Some (Cr_get_error e), w)
                       | Inr (Some _) \<Rightarrow> (Some Cr_exists, w)
                       | Inr None \<Rightarrow>
                           if ce_resolve_err env img \<noteq> None then (Some (Cr_resolve (the (ce_resolve_err env img))), w)
                           else launch_canary env (new_release name img weight (if is_staged then Some pol else None)) w))))"

definition set_canary_weight :: "cn_env \<Rightarrow> string \<Rightarrow> int option \<Rightarrow> cn_world \<Rightarrow> cn_refusal option \<times> cn_world" where
  "set_canary_weight env name weight w =
     (case weight of
        None \<Rightarrow> (Some Cr_weight, w)
      | Some n \<Rightarrow>
          if n < 0 \<or> n > max_weight then (Some Cr_weight, w)
          else
            (case get_release env name w of
               Inl e \<Rightarrow> (Some (Cr_get_error e), w)
             | Inr None \<Rightarrow> (Some Cr_none_running, w)
             | Inr (Some r) \<Rightarrow>
                 (case set_release env (r\<lparr>cr_weight := n\<rparr>) w of
                    (Some e, w) \<Rightarrow> (Some (Cr_record e), w)
                  | (None, w) \<Rightarrow> (None, w\<lparr>cw_nudges := cw_nudges w + 1\<rparr>))))"

definition abort_canary :: "cn_env \<Rightarrow> string \<Rightarrow> cn_world \<Rightarrow> cn_refusal option \<times> cn_world" where
  "abort_canary env name w =
     (case get_release env name w of
        Inl e \<Rightarrow> (Some (Cr_get_error e), w)
      | Inr None \<Rightarrow> (Some Cr_none_running, w)
      | Inr (Some r) \<Rightarrow>
          (let (e, w) = remove_canary env name (record_outcome env r Oc_aborted w) in (map_option Cr_action e, w)))"

definition promote_by_hand :: "cn_env \<Rightarrow> string \<Rightarrow> cn_world \<Rightarrow> cn_refusal option \<times> cn_world" where
  "promote_by_hand env name w =
     (case get_release env name w of
        Inl e \<Rightarrow> (Some (Cr_get_error e), w)
      | Inr None \<Rightarrow> (Some Cr_none_running, w)
      | Inr (Some r) \<Rightarrow> (let (e, w) = promote_canary env r False w in (map_option Cr_action e, w)))"

section \<open>The traffic split\<close>

record lb_route =
  lr_upstreams :: "string list"
  lr_weights :: "int list"

definition note_dials :: "string \<Rightarrow> (string \<times> string) option \<Rightarrow> cn_world \<Rightarrow> cn_world" where
  "note_dials app pair w =
     (case pair of
        None \<Rightarrow> w\<lparr>cw_dials := AList.delete app (cw_dials w)\<rparr>
      | Some p \<Rightarrow> w\<lparr>cw_dials := AList.update app p (cw_dials w)\<rparr>)"

text \<open>The plan is the release of the app, if its clone is a desired service; the canary's dial is
  there once the clone is ready.\<close>

definition canary_plan :: "string \<Rightarrow> cn_world \<Rightarrow> cn_release option" where
  "canary_plan app w =
     (case map_of (cw_releases w) app of
        None \<Rightarrow> None
      | Some r \<Rightarrow> if map_of (cw_apps w) (cr_clone r) = None then None else Some r)"

definition canary_route ::
    "string \<Rightarrow> cn_release option \<Rightarrow> (string \<Rightarrow> string option) \<Rightarrow> cn_world \<Rightarrow> lb_route option \<times> cn_world" where
  "canary_route stable_dial plan dial_for w =
     (case plan of
        None \<Rightarrow> (None, note_dials [] None w)
      | Some r \<Rightarrow>
          if cr_weight r \<le> 0 then (None, note_dials (cr_service r) None w)
          else
            (case dial_for (cr_clone r) of
               None \<Rightarrow> (None, note_dials (cr_service r) None w)
             | Some dial \<Rightarrow>
                 (let weight = min (cr_weight r) 99
                  in (Some \<lparr>lr_upstreams = [stable_dial, dial], lr_weights = [100 - weight, weight]\<rparr>,
                      note_dials (cr_service r) (Some (stable_dial, dial)) w))))"

section \<open>Stages as text\<close>

lemma split_join:
  "ps \<noteq> [] \<Longrightarrow> \<forall>p\<in>set ps. sep \<notin> set p \<Longrightarrow> go_split sep (join_parts sep ps) = ps"
proof (induction sep ps rule: join_parts.induct)
  case (2 sep p)
  then have "sep \<notin> set p" by simp
  then show ?case by (induction p) auto
next
  case (3 sep p q ps)
  then have IH: "go_split sep (join_parts sep (q # ps)) = q # ps" and "sep \<notin> set p" by simp_all
  then show ?case
  proof (induction p)
    case (Cons c cs)
    then show ?case by auto
  qed simp
qed simp

lemma decimal_plain:
  "CHR '','' \<notin> set (decimal n)" "trim_space (decimal n) = decimal n" "decimal n \<noteq> []"
proof -
  have d: "decimal n \<noteq> []" "\<forall>c\<in>set (decimal n). is_digit c"
    using decimal_digits [of n] by (simp_all add: list_all_iff)
  have plain: "c \<noteq> CHR '','' \<and> \<not> is_space c" if "is_digit c" for c
    using that by (auto simp: is_digit_def is_space_def less_eq_char_def)
  show "decimal n \<noteq> []" by (fact d(1))
  show "CHR '','' \<notin> set (decimal n)" using d(2) plain by auto
  show "trim_space (decimal n) = decimal n"
    using d plain by (intro trim_space_id) (simp_all add: hd_in_set last_in_set)
qed

lemma join_ne: "ps \<noteq> [] \<Longrightarrow> \<forall>p\<in>set ps. p \<noteq> [] \<Longrightarrow> join_parts sep ps \<noteq> []"
  by (cases "(sep, ps)" rule: join_parts.cases) auto

lemma stages_roundtrip:
  assumes "\<forall>n\<in>set ss. 0 \<le> n \<and> in_i64 n"
  shows "split_stages (join_stages ss) = ss"
proof (cases "ss = []")
  case False
  have itoa: "itoa n = decimal (nat n)" if "n \<in> set ss" for n using assms that by (auto simp: itoa_def)
  then have eq: "map itoa ss = map (\<lambda>n. decimal (nat n)) ss" by simp
  have split: "go_split CHR '','' (join_stages ss) = map (\<lambda>n. decimal (nat n)) ss"
    unfolding join_stages_def eq using False decimal_plain(1) by (intro split_join) auto
  have "join_stages ss \<noteq> []"
    unfolding join_stages_def eq using False decimal_plain(3) by (intro join_ne) auto
  moreover have "List.map_filter (\<lambda>p. go_atoi (trim_space p)) (map (\<lambda>n. decimal (nat n)) ns) = ns"
    if "\<forall>n\<in>set ns. 0 \<le> n \<and> in_i64 n" for ns
    using that by (induction ns) (simp_all add: List.map_filter_def decimal_plain(2) go_atoi_decimal(1))
  ultimately show ?thesis using assms by (simp add: split_stages_def split)
qed (simp add: join_stages_def split_stages_def)

lemma check_stages_range: "check_stages prev ss = None \<Longrightarrow> \<forall>n\<in>set ss. 1 \<le> n \<and> n \<le> 100"
  by (induction prev ss rule: check_stages.induct) (auto simp: full_stage_def split: if_splits)

lemma valid_stages:
  assumes "validate_stages ss = None"
  shows "ss \<noteq> []" and "\<forall>n\<in>set ss. 1 \<le> n \<and> n \<le> 100" and "split_stages (join_stages ss) = ss" and "hd ss < 100"
proof -
  show ne: "ss \<noteq> []" and range: "\<forall>n\<in>set ss. 1 \<le> n \<and> n \<le> 100" and "hd ss < 100"
    using assms check_stages_range [of 0 ss]
    by (auto simp: validate_stages_def full_stage_def split: if_splits option.splits)
  then show "split_stages (join_stages ss) = ss" by (intro stages_roundtrip) (auto simp: in_i64_def)
qed

section \<open>The percentile\<close>

definition bucket_floor :: "nat \<Rightarrow> rat" where
  "bucket_floor i = (if i = 0 then 0 else latency_buckets ! (i - 1))"

lemma bucket_scan_in:
  assumes "\<forall>c\<in>set cs. 0 \<le> c" and "cum < rank" and "rank \<le> cum + sum_list cs"
  shows "\<exists>k<length cs. 0 < cs ! k \<and> cum + sum_list (take k cs) < rank \<and> rank \<le> cum + sum_list (take (Suc k) cs) \<and>
    bucket_scan rank i cum cs =
      (if i + k \<ge> length latency_buckets then last latency_buckets
       else bucket_floor (i + k) + (latency_buckets ! (i + k) - bucket_floor (i + k)) *
         ((rank - (cum + sum_list (take k cs))) / cs ! k))"
  using assms
proof (induction cs arbitrary: i cum)
  case (Cons c cs)
  show ?case
  proof (cases "c \<le> 0 \<or> cum + c < rank")
    case True
    with Cons.prems(1,2) have le: "cum + c < rank" by auto
    have "bucket_scan rank i cum (c # cs) = bucket_scan rank (Suc i) (cum + c) cs"
      using True Cons.prems(1) by auto
    moreover obtain k where "k < length cs" "0 < cs ! k" "cum + c + sum_list (take k cs) < rank"
      "rank \<le> cum + c + sum_list (take (Suc k) cs)" "bucket_scan rank (Suc i) (cum + c) cs =
      (if Suc i + k \<ge> length latency_buckets then last latency_buckets
       else bucket_floor (Suc i + k) + (latency_buckets ! (Suc i + k) - bucket_floor (Suc i + k)) *
         ((rank - (cum + c + sum_list (take k cs))) / cs ! k))"
      using Cons.IH [of "cum + c" "Suc i"] Cons.prems le by (auto simp: add.assoc)
    ultimately show ?thesis by (intro exI [of _ "Suc k"]) (simp add: add.assoc)
  next
    case False
    then show ?thesis using Cons.prems(2)
      by (intro exI [of _ 0]) (auto simp: Let_def bucket_floor_def)
  qed
qed simp


lemma interpolate:
  fixes l u x :: rat
  assumes "l < u" and "0 < x" and "x \<le> 1"
  shows "l < l + (u - l) * x \<and> l + (u - l) * x \<le> u"
  using mult_pos_pos [of "u - l" x] mult_left_mono [OF assms(3), of "u - l"] assms by (simp add: algebra_simps)

lemma bucket_floor_less: "i < length latency_buckets \<Longrightarrow> bucket_floor i < latency_buckets ! i"
proof -
  have "list_all (\<lambda>i. bucket_floor i < latency_buckets ! i) [0..<length latency_buckets]"
    by (simp add: upt_rec bucket_floor_def latency_buckets_def)
  then show "i < length latency_buckets \<Longrightarrow> ?thesis" by (simp add: list_all_iff)
qed

text \<open>
  The latency percentile of a histogram is an interpolation inside the one bucket the rank falls in: above the lower bound of that bucket and at most its upper bound, and exactly the last finite bound when the rank falls in the overflow.
\<close>

theorem percentile_in_bucket:
  assumes "\<forall>c\<in>set counts. 0 \<le> c" and "0 < q" and "q \<le> 1" and "0 < sum_list counts"
    and "percentile_from_buckets counts q = ms"
  shows "\<exists>k<length counts. 0 < counts ! k \<and>
    sum_list (take k counts) < q * sum_list counts \<and> q * sum_list counts \<le> sum_list (take (Suc k) counts) \<and>
    (if k < length latency_buckets then bucket_floor k < ms \<and> ms \<le> latency_buckets ! k else ms = 10000)"
proof -
  let ?rank = "q * sum_list counts"
  have "0 < ?rank" and "?rank \<le> sum_list counts"
    using assms(2-4) mult_right_mono [OF assms(3), of "sum_list counts"] by simp_all
  then obtain k where k: "k < length counts" "0 < counts ! k" "sum_list (take k counts) < ?rank"
    "?rank \<le> sum_list (take (Suc k) counts)"
    and ms: "bucket_scan ?rank 0 0 counts =
      (if k \<ge> length latency_buckets then last latency_buckets
       else bucket_floor k + (latency_buckets ! k - bucket_floor k) * ((?rank - sum_list (take k counts)) / counts ! k))"
    using bucket_scan_in [OF assms(1), of 0 ?rank 0] by auto
  have "sum_list (take (Suc k) counts) = sum_list (take k counts) + counts ! k"
    using k(1) by (simp add: take_Suc_conv_app_nth)
  moreover define x where "x = (?rank - sum_list (take k counts)) / counts ! k"
  ultimately have x: "0 < x" "x \<le> 1" using k by (simp_all add: divide_le_eq)
  have val: "ms = (if k \<ge> length latency_buckets then last latency_buckets
      else bucket_floor k + (latency_buckets ! k - bucket_floor k) * x)"
    using ms assms(4,5) unfolding x_def by (simp add: percentile_from_buckets_def)
  have "if k < length latency_buckets then bucket_floor k < ms \<and> ms \<le> latency_buckets ! k else ms = 10000"
  proof (cases "k < length latency_buckets")
    case True
    with val interpolate [OF bucket_floor_less [OF True] x] show ?thesis by simp
  next
    case False
    with val show ?thesis by (simp add: latency_buckets_def)
  qed
  with k show ?thesis by blast
qed

section \<open>What the operations keep\<close>

lemma drop_window_simps [simp]:
  "cw_releases (drop_window app w) = cw_releases w" "cw_dials (drop_window app w) = cw_dials w"
  "cw_apps (drop_window app w) = cw_apps w" "cw_outcomes (drop_window app w) = cw_outcomes w"
  "map_of (cw_windows (drop_window app w)) = (map_of (cw_windows w))(app := None)"
  by (simp_all add: drop_window_def)

lemma record_outcome_simps [simp]:
  "cw_releases (record_outcome env r oc w) = cw_releases w" "cw_dials (record_outcome env r oc w) = cw_dials w"
  "cw_apps (record_outcome env r oc w) = cw_apps w" "cw_windows (record_outcome env r oc w) = cw_windows w"
  by (simp_all add: record_outcome_def)

lemma set_release_Some: "set_release env r w = (Some e, w') \<Longrightarrow> w' = w"
  by (simp add: set_release_def split: option.splits)

lemma set_release_None:
  "set_release env r w = (None, w') \<Longrightarrow>
     w' = w\<lparr>cw_releases := AList.update (cr_service r) (r\<lparr>cr_stages := split_stages (join_stages (cr_stages r))\<rparr>) (cw_releases w)\<rparr>"
  by (auto simp: set_release_def split: option.splits)

lemma remove_canary_cases:
  assumes "remove_canary env name w = (e, w')"
  shows "cw_dials w' = cw_dials w \<and> cw_windows w' = cw_windows w \<and> cw_outcomes w' = cw_outcomes w \<and>
    (if e = None then cw_releases w' = AList.delete name (cw_releases w) else cw_releases w' = cw_releases w) \<and>
    (\<forall>x. map_of (cw_apps w') x = map_of (cw_apps w) x \<or> x = canary_service_name name \<and> map_of (cw_apps w') x = None)"
  using assms by (auto simp: remove_canary_def delete_release_def Let_def split: option.splits if_splits)

text \<open>A promotion either changes nothing but what cleaning up changes, or first puts the image in place.\<close>

lemma promote_canary_cases:
  assumes "promote_canary env r auto w = (e, w')"
  shows "cw_dials w' = cw_dials w \<and> cw_windows w' = cw_windows w \<and>
    (if e = None then cw_releases w' = AList.delete (cr_service r) (cw_releases w) else cw_releases w' = cw_releases w) \<and>
    (\<forall>x. map_of (cw_apps w') x = map_of (cw_apps w) x \<or>
      x = canary_service_name (cr_service r) \<and> map_of (cw_apps w') x = None \<or>
      x = cr_service r \<and> map_of (cw_apps w') x = Some (cr_image r))"
proof -
  let ?finish = "\<lambda>w. remove_canary env (cr_service r) (record_outcome env r (Oc_promoted auto) w)"
  consider "w' = w" "e \<noteq> None" | "?finish w = (e, w')"
    | "?finish (w\<lparr>cw_apps := AList.update (cr_service r) (cr_image r) (cw_apps w)\<rparr>) = (e, w')"
    using assms by (auto simp: promote_canary_def Let_def split: option.splits if_splits)
  then show ?thesis
  proof cases
    case 1
    then show ?thesis by auto
  next
    case 2
    from remove_canary_cases [OF 2] show ?thesis by (simp, metis)
  next
    case 3
    from remove_canary_cases [OF 3] show ?thesis by (simp, metis)
  qed
qed


text \<open>The observation a pass over a release judges.\<close>

definition observed :: "cn_env \<Rightarrow> cn_release \<Rightarrow> cn_world \<Rightarrow> cn_input option" where
  "observed env r w =
     (case map_of (cw_dials w) (cr_service r) of
        None \<Rightarrow> None
      | Some pair \<Rightarrow> if cr_weight r \<le> 0 then None else Some (stage_input env r (fst (window_for env r pair w))))"

definition advanced :: "cn_release \<Rightarrow> cn_release" where
  "advanced r = r\<lparr>cr_stage := cr_stage r + 1, cr_weight := stage_weight (policy_of r) (cr_stage r + 1), cr_status := Sr_none\<rparr>"

text \<open>What becomes of the release of a pass, and of the apps, given the judgement.\<close>

definition pass_effect :: "cn_release \<Rightarrow> cn_decision option \<Rightarrow> cn_world \<Rightarrow> cn_world \<Rightarrow> bool" where
  "pass_effect r d w w' \<longleftrightarrow>
     cw_dials w' = cw_dials w \<and>
     (\<forall>app. app \<noteq> cr_service r \<longrightarrow> map_of (cw_releases w') app = map_of (cw_releases w) app \<and>
        map_of (cw_windows w') app = map_of (cw_windows w) app) \<and>
     (map_of (cw_releases w') (cr_service r) = None \<or>
      (\<exists>st. map_of (cw_releases w') (cr_service r) = Some (r\<lparr>cr_status := st\<rparr>)) \<or>
      d = Some Dec_advance \<and> map_of (cw_releases w') (cr_service r) = Some (advanced r)) \<and>
     (\<forall>x. map_of (cw_apps w') x = map_of (cw_apps w) x \<or> map_of (cw_apps w') x = None \<or>
        d = Some Dec_promote \<and> x = cr_service r \<and> map_of (cw_apps w') x = Some (cr_image r))"

definition kept_app :: "string \<Rightarrow> cn_world \<Rightarrow> cn_world \<Rightarrow> bool" where
  "kept_app app w w' \<longleftrightarrow> map_of (cw_apps w') app = map_of (cw_apps w) app \<or> map_of (cw_apps w') app = None"

lemma kept_app_trans: "kept_app app w w1 \<Longrightarrow> kept_app app w1 w' \<Longrightarrow> kept_app app w w'"
  by (auto simp: kept_app_def)

lemma pass_effect_other:
  assumes "pass_effect r d w w'" and "app \<noteq> cr_service r"
  shows "map_of (cw_releases w') app = map_of (cw_releases w) app"
    and "map_of (cw_windows w') app = map_of (cw_windows w) app" and "cw_dials w' = cw_dials w"
    and "kept_app app w w'"
proof -
  note effect = assms(1) [unfolded pass_effect_def]
  show "map_of (cw_releases w') app = map_of (cw_releases w) app" "map_of (cw_windows w') app = map_of (cw_windows w) app"
    using effect [THEN conjunct2, THEN conjunct1] assms(2) by simp_all
  show "cw_dials w' = cw_dials w" by (rule effect [THEN conjunct1])
  from effect [THEN conjunct2, THEN conjunct2, THEN conjunct2, THEN spec, of app] assms(2)
  show "kept_app app w w'" unfolding kept_app_def by auto
qed

lemma pass_effect_same:
  "map_of (cw_releases w) (cr_service r) = Some r \<Longrightarrow> pass_effect r d w (drop_window (cr_service r) w)"
  "map_of (cw_releases w) (cr_service r) = Some r \<Longrightarrow> pass_effect r d w w"
  by (auto simp: pass_effect_def intro: exI [of _ "cr_status r"])

lemma apply_stage_effect:
  assumes "map_of (cw_releases w) (cr_service r) = Some r" and "split_stages (join_stages (cr_stages r)) = cr_stages r"
    and "apply_stage env r d w = (e, w')"
  shows "pass_effect r (Some d) w w'"
proof (cases d)
  case Dec_advance
  obtain e2 w2 where set: "set_release env (advanced r) w = (e2, w2)" by (metis prod.exhaust)
  have w': "w' = (if e2 = None then drop_window (cr_service r) w2 else w2)"
    using assms(3) set by (auto simp: Dec_advance apply_stage_def Let_def advanced_def split: option.splits)
  show ?thesis
  proof (cases e2)
    case None
    from set_release_None [OF set [unfolded None]] w' None Dec_advance assms(2) show ?thesis
      by (auto simp: pass_effect_def advanced_def)
  next
    case (Some x)
    then have "w2 = w" using set set_release_Some by blast
    with w' Some pass_effect_same(2) [OF assms(1)] show ?thesis by simp
  qed
next
  case Dec_promote
  obtain e2 w2 where prom: "promote_canary env r True w = (e2, w2)" by (metis prod.exhaust)
  note eff = promote_canary_cases [OF prom]
  show ?thesis
  proof (cases e2)
    case None
    then have "w' = drop_window (cr_service r) w2" using assms(3) prom by (simp add: Dec_promote apply_stage_def)
    with eff None show ?thesis by (auto simp: pass_effect_def Dec_promote)
  next
    case (Some x)
    obtain e3 w3 where set: "set_release env (r\<lparr>cr_status := Sr_promote_failed x\<rparr>) w2 = (e3, w3)" by (metis prod.exhaust)
    then have w': "w' = drop_window (cr_service r) w3"
      using assms(3) prom Some by (simp add: Dec_promote apply_stage_def Let_def)
    have "w3 = w2 \<or> w3 = w2\<lparr>cw_releases := AList.update (cr_service r) (r\<lparr>cr_status := Sr_promote_failed x\<rparr>) (cw_releases w2)\<rparr>"
    proof (cases e3)
      case None
      from set_release_None [OF set [unfolded None]] assms(2) show ?thesis by simp
    next
      case (Some y)
      from set_release_Some [OF set [unfolded Some]] show ?thesis by simp
    qed
    then show ?thesis
      using eff Some w' assms(1) by (elim disjE) (auto simp: pass_effect_def Dec_promote intro: exI [of _ "cr_status r"])
  qed
next
  case (Dec_rollback why)
  obtain e2 w2 where rb: "remove_canary env (cr_service r) (record_outcome env r (Oc_rolled_back why) w) = (e2, w2)"
    by (metis prod.exhaust)
  then have w': "w' = (if e2 = None then drop_window (cr_service r) w2 else w2)"
    using assms(3) by (auto simp: Dec_rollback apply_stage_def rollback_canary_def split: option.splits)
  from remove_canary_cases [OF rb] w' assms(1) show ?thesis
    by (auto simp: pass_effect_def intro: exI [of _ "cr_status r"])
qed (use assms pass_effect_same in \<open>auto simp: apply_stage_def\<close>)


lemma window_for_frame:
  assumes "window_for env r pair w = (v, w')"
  shows "cw_releases w' = cw_releases w" and "cw_dials w' = cw_dials w" and "cw_apps w' = cw_apps w"
    and "app \<noteq> cr_service r \<Longrightarrow> map_of (cw_windows w') app = map_of (cw_windows w) app"
  using assms by (auto simp: window_for_def Let_def split: option.splits if_splits)

lemma reconcile_one_effect:
  assumes "map_of (cw_releases w) (cr_service r) = Some r" and "split_stages (join_stages (cr_stages r)) = cr_stages r"
    and "reconcile_one env r w = (e, w')"
  shows "pass_effect r (map_option decide_stage (observed env r w)) w w'"
proof (cases "map_of (cw_dials w) (cr_service r)")
  case None
  with assms(3) pass_effect_same(1) [OF assms(1)] show ?thesis by (auto simp: reconcile_one_def)
next
  case (Some pair)
  show ?thesis
  proof (cases "cr_weight r \<le> 0")
    case True
    with Some assms(3) pass_effect_same(1) [OF assms(1)] show ?thesis by (auto simp: reconcile_one_def)
  next
    case False
    obtain v w1 where win: "window_for env r pair w = (v, w1)" by (metis prod.exhaust)
    note frame = window_for_frame [OF win]
    have obs: "observed env r w = Some (stage_input env r v)" using Some False win by (simp add: observed_def)
    have "apply_stage env r (decide_stage (stage_input env r v)) w1 = (e, w')"
      using assms(3) Some False win by (simp add: reconcile_one_def)
    from apply_stage_effect [OF _ assms(2) this] assms(1) frame obs show ?thesis by (simp add: pass_effect_def)
  qed
qed

definition release_ok :: "string \<Rightarrow> cn_release \<Rightarrow> bool" where
  "release_ok app r \<longleftrightarrow>
     cr_service r = app \<and>
     (staged r \<longrightarrow> validate_stages (cr_stages r) = None \<and> 0 \<le> cr_stage r \<and> cr_stage r < int (length (cr_stages r)))"

definition releases_ok :: "cn_world \<Rightarrow> bool" where
  "releases_ok w \<longleftrightarrow> (\<forall>app r. map_of (cw_releases w) app = Some r \<longrightarrow> release_ok app r)"

lemma stages_kept: "release_ok app r \<Longrightarrow> split_stages (join_stages (cr_stages r)) = cr_stages r"
  using valid_stages(3) by (cases "cr_stages r = []") (auto simp: release_ok_def staged_def join_stages_def split_stages_def)

lemma observed_input:
  assumes "observed env r w = Some inp"
  shows "ci_policy inp = policy_of r" and "ci_stage inp = cr_stage r" and "ci_limits inp = ce_limits env"
  using assms by (auto simp: observed_def stage_input_def split: option.splits if_splits)

lemma advance_in_range:
  assumes "release_ok app r" and "observed env r w = Some inp" and "decide_stage inp = Dec_advance" and "staged r"
  shows "release_ok app (advanced r)"
  using assms observed_input [OF assms(2)]
  by (auto simp: release_ok_def advanced_def staged_def decide_stage_def Let_def policy_of_def split: option.splits if_splits)

lemma pass_releases_ok:
  assumes "releases_ok w" and "map_of (cw_releases w) (cr_service r) = Some r" and "staged r"
    and "pass_effect r (map_option decide_stage (observed env r w)) w w'"
  shows "releases_ok w'"
proof -
  have r: "release_ok (cr_service r) r" using assms(1,2) by (simp add: releases_ok_def)
  then have "release_ok (cr_service r) (r\<lparr>cr_status := st\<rparr>)" for st by (simp add: release_ok_def staged_def)
  moreover have "release_ok (cr_service r) (advanced r)" if "map_option decide_stage (observed env r w) = Some Dec_advance"
    using advance_in_range [OF r] that assms(3) by auto
  ultimately show ?thesis
    using assms(1,4) unfolding releases_ok_def pass_effect_def
    by (metis option.inject option.distinct(1))
qed

text \<open>A whole pass, seen from one app.\<close>

definition same_view :: "string \<Rightarrow> cn_world \<Rightarrow> cn_world \<Rightarrow> bool" where
  "same_view app w w' \<longleftrightarrow>
     map_of (cw_releases w') app = map_of (cw_releases w) app \<and>
     map_of (cw_windows w') app = map_of (cw_windows w) app \<and> cw_dials w' = cw_dials w"

lemma same_view_observed: "same_view (cr_service r) w w' \<Longrightarrow> observed env r w' = observed env r w"
  by (auto simp: same_view_def observed_def window_for_def Let_def split: option.splits)

definition app_effect :: "cn_env \<Rightarrow> string \<Rightarrow> cn_release option \<Rightarrow> cn_input option \<Rightarrow> cn_world \<Rightarrow> cn_world \<Rightarrow> bool" where
  "app_effect env app r obs w w' \<longleftrightarrow>
     (case r of
        None \<Rightarrow> map_of (cw_releases w') app = None \<and>
          kept_app app w w'
      | Some r \<Rightarrow>
          (map_of (cw_releases w') app = None \<or> (\<exists>st. map_of (cw_releases w') app = Some (r\<lparr>cr_status := st\<rparr>)) \<or>
           map_option decide_stage obs = Some Dec_advance \<and> staged r \<and> map_of (cw_releases w') app = Some (advanced r)) \<and>
          (kept_app app w w' \<or> map_option decide_stage obs = Some Dec_promote \<and> staged r \<and> map_of (cw_apps w') app = Some (cr_image r)))"

lemma pass_keeps_others:
  assumes "pass_effect r d w w1" and "\<forall>r'\<in>set (r # rs). map_of (cw_releases w) (cr_service r') = Some r'"
    and "distinct (map cr_service (r # rs))"
  shows "\<forall>r'\<in>set rs. map_of (cw_releases w1) (cr_service r') = Some r'"
proof
  fix r'
  assume r': "r' \<in> set rs"
  then have "cr_service r' \<noteq> cr_service r" using assms(3) by (metis distinct.simps(2) image_eqI list.map(2) list.set_map)
  from pass_effect_other(1) [OF assms(1) this] assms(2) r' show "map_of (cw_releases w1) (cr_service r') = Some r'"
    by simp
qed

lemma app_effect_pass:
  assumes "pass_effect r (map_option decide_stage obs) w w'" and "staged r"
  shows "app_effect env (cr_service r) (Some r) obs w w'" and "cw_dials w' = cw_dials w"
proof -
  note effect = assms(1) [unfolded pass_effect_def]
  show "cw_dials w' = cw_dials w" by (rule effect [THEN conjunct1])
  from effect [THEN conjunct2, THEN conjunct2, THEN conjunct1]
    effect [THEN conjunct2, THEN conjunct2, THEN conjunct2, THEN spec, of "cr_service r"] assms(2)
  show "app_effect env (cr_service r) (Some r) obs w w'" unfolding app_effect_def kept_app_def by simp
qed

lemma app_effect_same:
  "map_of (cw_releases w') app = map_of (cw_releases w) app \<Longrightarrow>
     kept_app app w w' \<Longrightarrow> app_effect env app (map_of (cw_releases w) app) obs w w'"
  by (cases "map_of (cw_releases w) app") (auto simp: app_effect_def intro: exI [of _ "cr_status (the (map_of (cw_releases w) app))"])

lemma same_view_trans: "same_view app w w1 \<Longrightarrow> same_view app w1 w' \<Longrightarrow> same_view app w w'"
  by (simp add: same_view_def)

lemma app_effect_before:
  "same_view app w w1 \<Longrightarrow> kept_app app w w1 \<Longrightarrow> app_effect env app r obs w1 w' \<Longrightarrow> app_effect env app r obs w w'"
  using kept_app_trans by (cases r) (auto simp: app_effect_def)

lemma app_effect_after:
  "app_effect env app r obs w w1 \<Longrightarrow> same_view app w1 w' \<Longrightarrow> kept_app app w1 w' \<Longrightarrow> app_effect env app r obs w w'"
  using kept_app_trans [of app w w1 w'] by (cases r) (auto simp: app_effect_def same_view_def kept_app_def)

lemma reconcile_others:
  assumes "releases_ok w" and "\<forall>r\<in>set rs. map_of (cw_releases w) (cr_service r) = Some r"
    and "distinct (map cr_service rs)" and "app \<notin> cr_service ` set rs" and "reconcile_releases env rs w = (e, w')"
  shows "releases_ok w' \<and> same_view app w w' \<and> kept_app app w w'"
  using assms
proof (induction rs arbitrary: w e)
  case Nil
  then show ?case by (simp add: same_view_def kept_app_def)
next
  case (Cons r rs)
  show ?case
  proof (cases "staged r")
    case False
    with Cons show ?thesis by simp
  next
    case True
    obtain e1 w1 where one: "reconcile_one env r w = (e1, w1)" by (metis prod.exhaust)
    have rel: "map_of (cw_releases w) (cr_service r) = Some r" using Cons.prems(2) by simp
    then have "split_stages (join_stages (cr_stages r)) = cr_stages r"
      using Cons.prems(1) stages_kept by (auto simp: releases_ok_def)
    note eff = reconcile_one_effect [OF rel this one]
    have ok: "releases_ok w1" by (rule pass_releases_ok [OF Cons.prems(1) rel True eff])
    have others: "\<forall>r'\<in>set rs. map_of (cw_releases w1) (cr_service r') = Some r'"
      by (rule pass_keeps_others [OF eff Cons.prems(2,3)])
    obtain e2 where "reconcile_releases env rs w1 = (e2, w')"
      using Cons.prems(5) True one by (auto split: prod.splits)
    from Cons.IH [OF ok others _ _ this] Cons.prems(3,4)
    have res: "releases_ok w'" "same_view app w1 w'" "kept_app app w1 w'" by simp_all
    have ne: "app \<noteq> cr_service r" using Cons.prems(4) by auto
    have "same_view app w w1" using pass_effect_other(1-3) [OF eff ne] by (simp add: same_view_def)
    with res same_view_trans kept_app_trans [OF pass_effect_other(4) [OF eff ne]] show ?thesis by blast
  qed
qed


lemma reconcile_all:
  assumes "releases_ok w" and "\<forall>r\<in>set rs. map_of (cw_releases w) (cr_service r) = Some r"
    and "distinct (map cr_service rs)" and "reconcile_releases env rs w = (e, w')"
    and "r \<in> set rs"
  shows "releases_ok w' \<and> cw_dials w' = cw_dials w \<and> app_effect env (cr_service r) (Some r) (observed env r w) w w'"
  using assms
proof (induction rs arbitrary: w e)
  case (Cons q rs)
  have rel: "map_of (cw_releases w) (cr_service q) = Some q" using Cons.prems(2) by simp
  show ?case
  proof (cases "staged q")
    case False
    show ?thesis
    proof (cases "r = q")
      case True
      have "reconcile_releases env rs w = (e, w')" using Cons.prems(4) False by simp
      from reconcile_others [OF Cons.prems(1) _ _ _ this, of "cr_service q"] Cons.prems(2,3) rel True show ?thesis
        using app_effect_same [of w' "cr_service q" w env "observed env q w"] by (simp add: same_view_def)
    next
      case other: False
      with Cons False show ?thesis by simp
    qed
  next
    case True
    obtain e1 w1 where one: "reconcile_one env q w = (e1, w1)" by (metis prod.exhaust)
    obtain e2 where rest: "reconcile_releases env rs w1 = (e2, w')"
      using Cons.prems(4) True one by (auto split: prod.splits)
    have "split_stages (join_stages (cr_stages q)) = cr_stages q"
      using Cons.prems(1) rel stages_kept by (auto simp: releases_ok_def)
    note eff = reconcile_one_effect [OF rel this one]
    have ok: "releases_ok w1" by (rule pass_releases_ok [OF Cons.prems(1) rel True eff])
    have others: "\<forall>r'\<in>set rs. map_of (cw_releases w1) (cr_service r') = Some r'"
      by (rule pass_keeps_others [OF eff Cons.prems(2,3)])
    show ?thesis
    proof (cases "r = q")
      case same: True
      from reconcile_others [OF ok others _ _ rest, of "cr_service q"] Cons.prems(3)
      have "releases_ok w'" "same_view (cr_service q) w1 w'" "kept_app (cr_service q) w1 w'" by simp_all
      with app_effect_after [OF app_effect_pass(1) [OF eff True]] app_effect_pass(2) [OF eff True] show ?thesis
        unfolding same by (simp add: same_view_def)
    next
      case False
      then have mem: "r \<in> set rs" using Cons.prems(5) by simp
      then have ne: "cr_service r \<noteq> cr_service q"
        using Cons.prems(3) by (metis distinct.simps(2) image_eqI list.map(2) list.set_map)
      have view: "same_view (cr_service r) w w1" and apps: "kept_app (cr_service r) w w1"
        using pass_effect_other [OF eff ne] by (auto simp: same_view_def)
      have "releases_ok w' \<and> cw_dials w' = cw_dials w1 \<and>
          app_effect env (cr_service r) (Some r) (observed env r w1) w1 w'"
        using Cons.IH [OF ok others _ rest mem] Cons.prems(3) by simp
      with app_effect_before [OF view apps] view show ?thesis
        unfolding same_view_observed [OF view] by (simp add: same_view_def)
    qed
  qed
qed simp

lemma reconcile_none:
  assumes "releases_ok w" and "\<forall>r\<in>set rs. map_of (cw_releases w) (cr_service r) = Some r"
    and "distinct (map cr_service rs)" and "reconcile_releases env rs w = (e, w')" and "app \<notin> cr_service ` set rs"
    and "map_of (cw_releases w) app = None"
  shows "releases_ok w' \<and> app_effect env app None obs w w'"
  using reconcile_others [OF assms(1-3,5,4)] assms(6) by (auto simp: app_effect_def same_view_def)

text \<open>The pass over everything.\<close>

lemma app_effect_windows [simp]:
  "app_effect env app r obs w (w1\<lparr>cw_windows := x\<rparr>) = app_effect env app r obs w w1"
  by (simp add: app_effect_def kept_app_def split: option.splits)

lemma releases_ok_windows [simp]: "releases_ok (w\<lparr>cw_windows := x\<rparr>) = releases_ok w"
  by (simp add: releases_ok_def)

lemma cn_reconcile_effect:
  assumes "releases_ok w" and "gm_ok (cw_releases w)"
  shows "releases_ok (snd (cn_reconcile env w)) \<and>
    app_effect env app (map_of (cw_releases w) app)
      (case map_of (cw_releases w) app of Some r \<Rightarrow> observed env r w | None \<Rightarrow> None) w (snd (cn_reconcile env w))"
proof (cases "ce_list_err env")
  case (Some e)
  then show ?thesis using assms(1)
    by (simp add: cn_reconcile_def app_effect_same kept_app_def)
next
  case None
  let ?rs = "list_releases w"
  obtain e w1 where rec: "reconcile_releases env ?rs w = (e, w1)" by (metis prod.exhaust)
  have key: "cr_service r = a" if "map_of (cw_releases w) a = Some r" for a r
    using assms(1) that by (auto simp: releases_ok_def release_ok_def)
  have mem: "r \<in> set ?rs \<longleftrightarrow> map_of (cw_releases w) (cr_service r) = Some r" for r
  proof -
    have "r \<in> set ?rs \<longleftrightarrow> (\<exists>a. (a, r) \<in> set (cw_releases w))" by (force simp: list_releases_def)
    also have "\<dots> \<longleftrightarrow> (\<exists>a. map_of (cw_releases w) a = Some r)"
      using assms(2) by (simp add: gm_ok_def map_of_eq_Some_iff)
    finally show ?thesis using key by blast
  qed
  have "map cr_service ?rs = map fst (sort_key fst (cw_releases w))"
    using assms(2) key by (auto simp: list_releases_def gm_ok_def intro!: map_cong)
  then have dist: "distinct (map cr_service ?rs)"
    using assms(2) by (simp add: gm_ok_def distinct_map)
  have all: "\<forall>r\<in>set ?rs. map_of (cw_releases w) (cr_service r) = Some r" using mem by blast
  have res: "releases_ok w1 \<and> app_effect env app (map_of (cw_releases w) app)
      (case map_of (cw_releases w) app of Some r \<Rightarrow> observed env r w | None \<Rightarrow> None) w w1"
  proof (cases "map_of (cw_releases w) app")
    case None
    then have "app \<notin> cr_service ` set ?rs" using mem by auto
    from reconcile_none [OF assms(1) all dist rec this None] None show ?thesis by simp
  next
    case (Some r)
    with key mem have "r \<in> set ?rs" and "cr_service r = app" by auto
    with reconcile_all [OF assms(1) all dist rec, of r] Some show ?thesis by simp
  qed
  have "snd (cn_reconcile env w) = w1\<lparr>cw_windows := gm_retain (\<lambda>app. app \<in> set (map cr_service (filter staged ?rs))) (cw_windows w1)\<rparr>"
    using None rec by (simp add: cn_reconcile_def Let_def)
  then show ?thesis using res by simp
qed


section \<open>Runs\<close>

text \<open>
  What may happen to the world: passes of the reconciler, the operator's handlers, new upstream
  pairs, and anything that changes the apps.
\<close>

datatype cn_op =
    Op_pass cn_env | Op_start cn_env string cn_request | Op_weight cn_env string "int option" | Op_abort cn_env string
  | Op_promote cn_env string | Op_dials "(string, string \<times> string) gomap" | Op_apps "(string, string) gomap"

fun cn_step :: "cn_op \<Rightarrow> cn_world \<Rightarrow> cn_world" where
  "cn_step (Op_pass env) w = snd (cn_reconcile env w)"
| "cn_step (Op_start env name req) w = snd (start_canary env name req w)"
| "cn_step (Op_weight env name n) w = snd (set_canary_weight env name n w)"
| "cn_step (Op_abort env name) w = snd (abort_canary env name w)"
| "cn_step (Op_promote env name) w = snd (promote_by_hand env name w)"
| "cn_step (Op_dials m) w = w\<lparr>cw_dials := m\<rparr>"
| "cn_step (Op_apps m) w = w\<lparr>cw_apps := m\<rparr>"

text \<open>What the current release of an app has been advanced on: the observation of each pass that
  moved its stage.\<close>

fun cn_log :: "string \<Rightarrow> cn_op \<Rightarrow> cn_world \<Rightarrow> cn_input list \<Rightarrow> cn_input list" where
  "cn_log app (Op_pass env) w lg =
     (case (map_of (cw_releases w) app, map_of (cw_releases (cn_step (Op_pass env) w)) app) of
        (Some r, Some r') \<Rightarrow>
          if cr_stage r' = cr_stage r then lg else lg @ (case observed env r w of Some inp \<Rightarrow> [inp] | None \<Rightarrow> [])
      | _ \<Rightarrow> [])"
| "cn_log app op w lg = (if map_of (cw_releases w) app = None then [] else lg)"

fun cn_run :: "string \<Rightarrow> cn_op list \<Rightarrow> cn_world \<Rightarrow> cn_input list \<Rightarrow> cn_world \<times> cn_input list" where
  "cn_run app [] w lg = (w, lg)"
| "cn_run app (op # ops) w lg = cn_run app ops (cn_step op w) (cn_log app op w lg)"

text \<open>A stage is passed by an observation over the whole interval with enough requests and no breach.\<close>

definition stage_passed :: "cn_input \<Rightarrow> bool" where
  "stage_passed inp \<longleftrightarrow>
     breach inp = None \<and> cp_interval (ci_policy inp) \<le> ci_elapsed inp \<and>
     cl_min_requests (ci_limits inp) \<le> sp_requests (ci_canary inp)"

lemma decided_passed: "decide_stage inp \<in> {Dec_advance, Dec_promote} \<Longrightarrow> stage_passed inp"
  by (auto simp: decide_stage_def stage_passed_def Let_def not_less split: option.splits if_splits)

definition log_ok :: "string \<Rightarrow> cn_world \<Rightarrow> cn_input list \<Rightarrow> bool" where
  "log_ok app w lg \<longleftrightarrow>
     (case map_of (cw_releases w) app of
        None \<Rightarrow> True
      | Some r \<Rightarrow> staged r \<longrightarrow>
          map ci_stage lg = map int [0..<nat (cr_stage r)] \<and>
          (\<forall>inp\<in>set lg. stage_passed inp \<and> ci_policy inp = policy_of r))"

text \<open>What an operation other than a pass does to a release: nothing, remove it, change its weight
  or start it.\<close>

definition hand_effect :: "cn_world \<Rightarrow> cn_world \<Rightarrow> bool" where
  "hand_effect w w' \<longleftrightarrow>
     (gm_ok (cw_releases w) \<longrightarrow> gm_ok (cw_releases w')) \<and>
     (\<forall>app. map_of (cw_releases w') app = map_of (cw_releases w) app \<or> map_of (cw_releases w') app = None \<or>
        (\<exists>r n. map_of (cw_releases w) app = Some r \<and> map_of (cw_releases w') app = Some (r\<lparr>cr_weight := n\<rparr>)) \<or>
        (\<exists>r. map_of (cw_releases w) app = None \<and> map_of (cw_releases w') app = Some r \<and> release_ok app r \<and> cr_stage r = 0))"

lemma hand_effect_same: "cw_releases w' = cw_releases w \<Longrightarrow> hand_effect w w'"
  by (simp add: hand_effect_def)

lemma hand_effect_delete: "cw_releases w' = AList.delete name (cw_releases w) \<Longrightarrow> hand_effect w w'"
  by (auto simp: hand_effect_def)

lemma gm_ok_set_release: "gm_ok (cw_releases w) \<Longrightarrow> gm_ok (cw_releases (snd (set_release env r w)))"
  by (simp add: set_release_def split: option.splits)

lemma gm_ok_apply: "gm_ok (cw_releases w) \<Longrightarrow> gm_ok (cw_releases (snd (apply_stage env r d w)))"
proof (cases d)
  case (Dec_rollback why)
  obtain e2 w2 where "remove_canary env (cr_service r) (record_outcome env r (Oc_rolled_back why) w) = (e2, w2)"
    by (metis prod.exhaust)
  with remove_canary_cases [OF this] show "gm_ok (cw_releases w) \<Longrightarrow> ?thesis"
    by (auto simp: Dec_rollback apply_stage_def rollback_canary_def split: option.splits if_splits)
next
  case Dec_promote
  assume ok: "gm_ok (cw_releases w)"
  obtain e2 w2 where prom: "promote_canary env r True w = (e2, w2)" by (metis prod.exhaust)
  have "gm_ok (cw_releases w2)" using promote_canary_cases [OF prom] ok by (auto split: if_splits)
  with gm_ok_set_release show ?thesis
    by (simp add: Dec_promote apply_stage_def prom split: option.splits prod.splits) (metis snd_conv)
next
  case Dec_advance
  assume "gm_ok (cw_releases w)"
  with gm_ok_set_release show ?thesis
    by (simp add: Dec_advance apply_stage_def Let_def split: option.splits prod.splits) (metis snd_conv)
qed (simp_all add: apply_stage_def)

lemma gm_ok_one: "gm_ok (cw_releases w) \<Longrightarrow> gm_ok (cw_releases (snd (reconcile_one env r w)))"
  using window_for_frame(1) [of env r _ w]
  by (auto simp: reconcile_one_def split: option.splits prod.splits intro!: gm_ok_apply)

lemma gm_ok_releases: "gm_ok (cw_releases w) \<Longrightarrow> gm_ok (cw_releases (snd (reconcile_releases env rs w)))"
proof (induction rs arbitrary: w)
  case (Cons r rs)
  then show ?case using gm_ok_one [of w env r] by (simp split: prod.splits) (metis snd_conv)
qed simp

lemma gm_ok_pass: "gm_ok (cw_releases w) \<Longrightarrow> gm_ok (cw_releases (snd (cn_reconcile env w)))"
  using gm_ok_releases [of w env "list_releases w"]
  by (auto simp: cn_reconcile_def Let_def split: option.splits prod.splits)

lemma hand_abort: "hand_effect w (snd (abort_canary env name w))"
proof (cases "get_release env name w")
  case (Inr r)
  show ?thesis
  proof (cases r)
    case (Some q)
    obtain e2 w2 where rm: "remove_canary env name (record_outcome env q Oc_aborted w) = (e2, w2)" by (metis prod.exhaust)
    with Inr Some have "snd (abort_canary env name w) = w2" by (simp add: abort_canary_def)
    with remove_canary_cases [OF rm] hand_effect_same hand_effect_delete show ?thesis by (auto split: if_splits)
  qed (use Inr in \<open>simp add: abort_canary_def hand_effect_same\<close>)
qed (simp add: abort_canary_def hand_effect_same)

lemma hand_promote:
  "hand_effect w (snd (promote_by_hand env name w))"
proof (cases "get_release env name w")
  case (Inr r)
  show ?thesis
  proof (cases r)
    case (Some q)
    obtain e2 w2 where rm: "promote_canary env q False w = (e2, w2)" by (metis prod.exhaust)
    with Inr Some have "snd (promote_by_hand env name w) = w2" by (simp add: promote_by_hand_def)
    with promote_canary_cases [OF rm] hand_effect_same hand_effect_delete show ?thesis by (auto split: if_splits)
  qed (use Inr in \<open>simp add: promote_by_hand_def hand_effect_same\<close>)
qed (simp add: promote_by_hand_def hand_effect_same)

lemma get_release_Inr: "get_release env name w = Inr r \<Longrightarrow> map_of (cw_releases w) name = r"
  by (simp add: get_release_def split: option.splits)

lemma hand_weight:
  assumes "releases_ok w"
  shows "hand_effect w (snd (set_canary_weight env name n w))"
proof (cases "\<exists>r k. get_release env name w = Inr (Some r) \<and> n = Some k \<and> \<not> k < 0 \<and> \<not> max_weight < k")
  case False
  then show ?thesis
    by (auto simp: set_canary_weight_def intro: hand_effect_same split: option.splits sum.splits)
next
  case True
  then obtain r k where r: "get_release env name w = Inr (Some r)" and k: "n = Some k" "\<not> k < 0" "\<not> max_weight < k" by blast
  have rel: "map_of (cw_releases w) name = Some r" using get_release_Inr [OF r] .
  with assms have ok: "release_ok name r" by (simp add: releases_ok_def)
  obtain e2 w2 where set: "set_release env (r\<lparr>cr_weight := k\<rparr>) w = (e2, w2)" by (metis prod.exhaust)
  with r k have res: "cw_releases (snd (set_canary_weight env name n w)) = cw_releases w2"
    by (simp add: set_canary_weight_def split: option.splits)
  show ?thesis
  proof (cases e2)
    case None
    from set_release_None [OF set [unfolded None]] stages_kept [OF ok] ok
    have "cw_releases w2 = AList.update name (r\<lparr>cr_weight := k\<rparr>) (cw_releases w)" by (simp add: release_ok_def)
    with res rel show ?thesis by (auto simp: hand_effect_def)
  next
    case (Some e)
    with set set_release_Some res show ?thesis by (metis hand_effect_same)
  qed
qed

lemma resolved_valid:
  "resolve_canary_policy env name req w = Inr (pol, True) \<Longrightarrow> validate_canary pol = None"
  by (auto simp: resolve_canary_policy_def Let_def split: option.splits if_splits)

lemma new_release_ok:
  assumes "\<forall>p. pol = Some p \<longrightarrow> validate_canary p = None"
  shows "release_ok name (new_release name img weight pol)"
proof (cases pol)
  case (Some p)
  with assms have "validate_stages (cp_stages p) = None" by (auto simp: validate_canary_def split: option.splits)
  with Some valid_stages(1) show ?thesis by (auto simp: release_ok_def new_release_def)
qed (simp add: release_ok_def new_release_def staged_def)

lemma hand_launch:
  assumes "release_ok name r" and "map_of (cw_releases w) name = None" and "cr_stage r = 0"
  shows "hand_effect w (snd (launch_canary env r w))"
proof -
  have name: "cr_service r = name" using assms(1) by (simp add: release_ok_def)
  have same: "r\<lparr>cr_stages := split_stages (join_stages (cr_stages r))\<rparr> = r" using stages_kept [OF assms(1)] by simp
  have "cw_releases (snd (launch_canary env r w)) = cw_releases w \<or>
      cw_releases (snd (launch_canary env r w)) = AList.update name r (cw_releases w)"
    using name same
    by (auto simp: launch_canary_def Let_def rollback_clone_def set_release_def split: option.splits prod.splits)
  then show ?thesis using assms by (auto simp: hand_effect_def split: if_splits)
qed

lemma start_canary_cases:
  obtains "snd (start_canary env name req w) = w"
  | img weight pol st where
      "resolve_canary_policy env name req w = Inr (pol, st)" "get_release env name w = Inr None"
      "snd (start_canary env name req w) =
         snd (launch_canary env (new_release name img weight (if st then Some pol else None)) w)"
proof (cases "resolve_canary_policy env name req w")
  case (Inl e)
  then show ?thesis by (intro that(1)) (simp add: start_canary_def Let_def)
next
  case (Inr p)
  obtain pol st where p: "p = (pol, st)" by (cases p)
  show ?thesis
  proof (cases "get_release env name w = Inr None")
    case True
    let ?weight = "if st then stage_weight pol 0 else case rq_weight req of Some n \<Rightarrow> n | None \<Rightarrow> 10"
    have "snd (start_canary env name req w) = w \<or>
      snd (start_canary env name req w) =
        snd (launch_canary env (new_release name (trim_space (rq_image req)) ?weight (if st then Some pol else None)) w)"
      by (simp add: start_canary_def Let_def Inr p True)
    then show ?thesis using that(1) that(2) [OF Inr [unfolded p] True] by blast
  next
    case False
    then obtain r where "(\<exists>e. get_release env name w = Inl e) \<or> get_release env name w = Inr (Some r)"
      by (cases "get_release env name w") auto
    then show ?thesis by (intro that(1)) (auto simp: start_canary_def Let_def Inr p)
  qed
qed

lemma hand_start: "hand_effect w (snd (start_canary env name req w))"
proof (rule start_canary_cases)
  assume "snd (start_canary env name req w) = w"
  then show ?thesis by (simp add: hand_effect_def)
next
  fix img weight pol st
  assume res: "resolve_canary_policy env name req w = Inr (pol, st)" "get_release env name w = Inr None"
    and eq: "snd (start_canary env name req w) =
      snd (launch_canary env (new_release name img weight (if st then Some pol else None)) w)"
  have "map_of (cw_releases w) name = None" using res(2) by (rule get_release_Inr)
  moreover have "\<forall>p. (if st then Some pol else None) = Some p \<longrightarrow> validate_canary p = None"
    using resolved_valid res(1) by auto
  ultimately show ?thesis
    unfolding eq using hand_launch [OF new_release_ok] by (simp add: new_release_def)
qed

lemma hand_step: "releases_ok w \<Longrightarrow> \<forall>env. op \<noteq> Op_pass env \<Longrightarrow> hand_effect w (cn_step op w)"
  by (cases op) (simp_all add: hand_start hand_abort hand_promote hand_weight hand_effect_same)

lemma policy_of_simps [simp]:
  "policy_of (r\<lparr>cr_status := st\<rparr>) = policy_of r" "policy_of (r\<lparr>cr_weight := n\<rparr>) = policy_of r"
  "policy_of (advanced r) = policy_of r" "staged (r\<lparr>cr_status := st\<rparr>) = staged r"
  "staged (r\<lparr>cr_weight := n\<rparr>) = staged r" "staged (advanced r) = staged r" "cr_stage (advanced r) = cr_stage r + 1"
  by (simp_all add: policy_of_def staged_def advanced_def)

definition run_ok :: "string \<Rightarrow> cn_world \<Rightarrow> cn_input list \<Rightarrow> bool" where
  "run_ok app w lg \<longleftrightarrow> releases_ok w \<and> gm_ok (cw_releases w) \<and> log_ok app w lg"

lemma hand_releases_ok:
  assumes "hand_effect w w'" and "releases_ok w"
  shows "releases_ok w'"
  unfolding releases_ok_def
proof (intro allI impI)
  fix app r
  assume r: "map_of (cw_releases w') app = Some r"
  from assms(1) have "map_of (cw_releases w') app = map_of (cw_releases w) app \<or> map_of (cw_releases w') app = None \<or>
      (\<exists>r n. map_of (cw_releases w) app = Some r \<and> map_of (cw_releases w') app = Some (r\<lparr>cr_weight := n\<rparr>)) \<or>
      (\<exists>r. map_of (cw_releases w) app = None \<and> map_of (cw_releases w') app = Some r \<and> release_ok app r \<and> cr_stage r = 0)"
    unfolding hand_effect_def by blast
  then show "release_ok app r"
    using r assms(2) by (elim disjE) (auto simp: releases_ok_def release_ok_def staged_def)
qed

lemma hand_log_ok:
  assumes "hand_effect w w'" and "log_ok app w lg"
  shows "log_ok app w' (if map_of (cw_releases w) app = None then [] else lg)"
proof -
  from assms(1) have "map_of (cw_releases w') app = map_of (cw_releases w) app \<or> map_of (cw_releases w') app = None \<or>
      (\<exists>r n. map_of (cw_releases w) app = Some r \<and> map_of (cw_releases w') app = Some (r\<lparr>cr_weight := n\<rparr>)) \<or>
      (\<exists>r. map_of (cw_releases w) app = None \<and> map_of (cw_releases w') app = Some r \<and> release_ok app r \<and> cr_stage r = 0)"
    unfolding hand_effect_def by blast
  then show ?thesis
    using assms(2) by (elim disjE) (auto simp: log_ok_def)
qed

lemma cn_log_hand:
  "\<forall>env. op \<noteq> Op_pass env \<Longrightarrow> cn_log app op w lg = (if map_of (cw_releases w) app = None then [] else lg)"
  by (cases op) simp_all

lemma upt_snoc_int: "0 \<le> k \<Longrightarrow> map int [0..<nat (k + 1)] = map int [0..<nat k] @ [k]"
  by (simp add: nat_add_distrib)

lemma pass_log_ok:
  assumes "releases_ok w" and "gm_ok (cw_releases w)" and "log_ok app w lg"
  shows "log_ok app (cn_step (Op_pass env) w) (cn_log app (Op_pass env) w lg)"
proof (cases "map_of (cw_releases w) app")
  case None
  with cn_reconcile_effect [OF assms(1,2), of env app] show ?thesis by (simp add: log_ok_def app_effect_def)
next
  case (Some r)
  let ?w' = "snd (cn_reconcile env w)"
  have ok: "release_ok app r" using assms(1) Some by (simp add: releases_ok_def)
  from cn_reconcile_effect [OF assms(1,2), of env app] Some
  have "map_of (cw_releases ?w') app = None \<or> (\<exists>st. map_of (cw_releases ?w') app = Some (r\<lparr>cr_status := st\<rparr>)) \<or>
      map_option decide_stage (observed env r w) = Some Dec_advance \<and> staged r \<and>
      map_of (cw_releases ?w') app = Some (advanced r)"
    by (simp add: app_effect_def)
  then consider "map_of (cw_releases ?w') app = None" | st where "map_of (cw_releases ?w') app = Some (r\<lparr>cr_status := st\<rparr>)"
    | inp where "observed env r w = Some inp" "decide_stage inp = Dec_advance" "staged r"
        "map_of (cw_releases ?w') app = Some (advanced r)"
    by auto
  then show ?thesis
  proof cases
    case 1
    then show ?thesis by (simp add: log_ok_def)
  next
    case (2 st)
    with Some assms(3) show ?thesis by (simp add: log_ok_def)
  next
    case (3 inp)
    have "stage_passed inp" using decided_passed 3(2) by simp
    moreover have "0 \<le> cr_stage r" using ok 3(3) by (simp add: release_ok_def)
    ultimately show ?thesis
      using 3 Some assms(3) observed_input [OF 3(1)] by (simp add: log_ok_def upt_snoc_int)
  qed
qed

lemma run_ok_step:
  assumes "run_ok app w lg"
  shows "run_ok app (cn_step op w) (cn_log app op w lg)"
proof (cases "\<exists>env. op = Op_pass env")
  case True
  then obtain env where op: "op = Op_pass env" by blast
  from assms cn_reconcile_effect [of w env app] gm_ok_pass [of w env] pass_log_ok [of w app lg env] show ?thesis
    by (simp add: run_ok_def op)
next
  case False
  from assms have ok: "releases_ok w" "gm_ok (cw_releases w)" "log_ok app w lg" by (simp_all add: run_ok_def)
  from False hand_step [OF ok(1)] have eff: "hand_effect w (cn_step op w)" by blast
  from eff ok(2) have "gm_ok (cw_releases (cn_step op w))" by (simp add: hand_effect_def)
  with hand_releases_ok [OF eff ok(1)] hand_log_ok [OF eff ok(3)] False show ?thesis
    by (simp add: run_ok_def cn_log_hand)
qed

lemma run_ok_run: "run_ok app w lg \<Longrightarrow> cn_run app ops w lg = (w', lg') \<Longrightarrow> run_ok app w' lg'"
  by (induction ops arbitrary: w lg) (simp, metis cn_run.simps(2) run_ok_step)


definition demo_canary_env :: "int \<Rightarrow> u64 \<Rightarrow> cn_env" where
  "demo_canary_env now n =
     \<lparr>ce_now = now * second, ce_totals = (\<lambda>d. Some \<lparr>sp_requests = n, sp_errors = 0, sp_latency = [n, 0, 0]\<rparr>),
      ce_limits = \<lparr>cl_min_requests = 30, cl_p95_floor = 50, cl_tick = 15 * second\<rparr>, ce_list_err = None,
      ce_get_err = (\<lambda>_. None), ce_set_err = (\<lambda>_. None), ce_delete_err = (\<lambda>_. None), ce_policy_err = (\<lambda>_. None),
      ce_outcome_err = None, ce_app_err = (\<lambda>_. None), ce_skip = (\<lambda>_. None), ce_deploy_err = (\<lambda>_ _. None),
      ce_clone_err = (\<lambda>_. None), ce_block = (\<lambda>_. None), ce_resolve_err = (\<lambda>_. None), ce_save_err = (\<lambda>_. None),
      ce_extras_err = (\<lambda>_. None),
      ce_settings = \<lparr>se_stages = [], se_interval = None, se_max_error = None, se_max_ratio = None, se_min_requests = None,
        se_p95_floor = None, se_tick = None\<rparr>\<rparr>"

definition demo_canary_world :: cn_world where
  "demo_canary_world =
     \<lparr>cw_releases = [], cw_outcomes = [], cw_policies = [], cw_apps = [(''web'', ''v1'')], cw_windows = [], cw_dials = [],
      cw_nudges = 0\<rparr>"

definition demo_canary_ops :: "cn_op list" where
  "demo_canary_ops =
     [Op_start (demo_canary_env 0 0) ''web''
        \<lparr>rq_image = ''v2'', rq_weight = None, rq_staged = Some True, rq_stages = [10, 50, 100],
         rq_interval = Some (Some (60 * second)), rq_max_error = 0, rq_max_ratio = 0\<rparr>,
      Op_dials [(''web'', (''a:80'', ''b:80''))], Op_pass (demo_canary_env 15 100), Op_pass (demo_canary_env 90 200),
      Op_pass (demo_canary_env 105 300)]"

definition demo_last_pass :: cn_world where
  "demo_last_pass = snd (cn_reconcile (demo_canary_env 180 400) (fst (cn_run ''web'' demo_canary_ops demo_canary_world [])))"

lemma demo_before: "map_of (cw_apps (fst (cn_run ''web'' demo_canary_ops demo_canary_world []))) ''web'' = Some ''v1''"
  by code_simp

lemma demo_after: "map_of (cw_apps (snd (cn_reconcile (demo_canary_env 180 400) (fst (cn_run ''web'' demo_canary_ops demo_canary_world []))))) ''web'' = Some ''v2''"
  by code_simp


definition demo_buckets :: "rat list" where
  "demo_buckets = [0, 10, 0, 90]"

lemma percentile_in_bucket_witness:
  "\<exists>k<length demo_buckets. 0 < demo_buckets ! k \<and>
    sum_list (take k demo_buckets) < 95 / 100 * sum_list demo_buckets \<and>
    95 / 100 * sum_list demo_buckets \<le> sum_list (take (Suc k) demo_buckets) \<and>
    (if k < length latency_buckets
     then bucket_floor k < percentile_from_buckets demo_buckets (95 / 100) \<and>
       percentile_from_buckets demo_buckets (95 / 100) \<le> latency_buckets ! k
     else percentile_from_buckets demo_buckets (95 / 100) = 10000)"
  by (rule percentile_in_bucket [OF _ _ _ _ refl]) (simp_all add: demo_buckets_def)

text \<open>A breach seen by a pass takes the canary out and leaves the stable release alone.\<close>

lemma breach_rolls_back:
  assumes "map_of (cw_dials w) app = Some pair" and "cr_service r = app" and "0 < cr_weight r"
    and "breach (stage_input env r (fst (window_for env r pair w))) = Some why"
    and "ce_clone_err env (canary_service_name app) = None" and "ce_delete_err env app = None"
    and "reconcile_one env r w = (e, w')"
  shows "e = None" and "map_of (cw_releases w') app = None" and "map_of (cw_windows w') app = None"
    and "map_of (cw_apps w') (canary_service_name app) = None"
    and "map_of (cw_apps w') app = map_of (cw_apps w) app"
    and "ce_outcome_err env = None \<Longrightarrow> map_of (cw_outcomes w') app = Some (Oc_rolled_back why, cr_image r)"
proof -
  obtain v w1 where win: "window_for env r pair w = (v, w1)" by (metis prod.exhaust)
  have "decide_stage (stage_input env r v) = Dec_rollback why"
    using assms(4) win by (simp add: decide_stage_def)
  then have run: "(e, w') = apply_stage env r (Dec_rollback why) w1"
    using assms(1,2,3,7) win by (simp add: reconcile_one_def)
  note frame = window_for_frame(3) [OF win]
  have ne: "app \<noteq> canary_service_name app" by (simp add: canary_service_name_def)
  have res: "e = None \<and> map_of (cw_releases w') app = None \<and> map_of (cw_windows w') app = None \<and>
      map_of (cw_apps w') (canary_service_name app) = None \<and> map_of (cw_apps w') app = map_of (cw_apps w) app \<and>
      (ce_outcome_err env = None \<longrightarrow> map_of (cw_outcomes w') app = Some (Oc_rolled_back why, cr_image r))"
    using run assms(2,5,6) ne frame
    by (simp add: apply_stage_def rollback_canary_def remove_canary_def delete_release_def record_outcome_def drop_window_def
        Let_def delete_conv update_conv')
  then show "e = None" "map_of (cw_releases w') app = None" "map_of (cw_windows w') app = None"
    "map_of (cw_apps w') (canary_service_name app) = None" "map_of (cw_apps w') app = map_of (cw_apps w) app"
    "ce_outcome_err env = None \<Longrightarrow> map_of (cw_outcomes w') app = Some (Oc_rolled_back why, cr_image r)" by simp_all
qed

text \<open>
  A window is identified by image, stage and upstream pair, not by the release: a canary aborted and
  started again with the same image between two passes is judged on the window of the first one.
\<close>

lemma restarted_canary_keeps_window:
  assumes "map_of (cw_windows w) (cr_service r) = Some v" and "wn_image v = cr_image r" and "wn_stage v = cr_stage r"
    and "wn_pair v = pair"
  shows "window_for env r pair w = (v, w)"
  using assms by (simp add: window_for_def Let_def)

definition demo_restart_ops :: "cn_op list" where
  "demo_restart_ops =
     take 3 demo_canary_ops @
     [Op_abort (demo_canary_env 80 150) ''web'',
      Op_start (demo_canary_env 85 150) ''web''
        \<lparr>rq_image = ''v2'', rq_weight = None, rq_staged = Some True, rq_stages = [10, 50, 100],
         rq_interval = Some (Some (60 * second)), rq_max_error = 0, rq_max_ratio = 0\<rparr>,
      Op_pass (demo_canary_env 90 200)]"

lemma restarted_canary_advances_early:
  "map_option cr_stage (map_of (cw_releases (fst (cn_run ''web'' demo_restart_ops demo_canary_world []))) ''web'') = Some 1"
  by code_simp

text \<open>The traffic split.\<close>

lemma canary_route_split:
  assumes "canary_route stable_dial (Some r) dial_for w = (Some lb, w')"
  shows "length (lr_weights lb) = length (lr_upstreams lb)" and "sum_list (lr_weights lb) = 100"
    and "list_all (\<lambda>n. 1 \<le> n \<and> n \<le> 99) (lr_weights lb)"
    and "map_of (cw_dials w') (cr_service r) = Some (lr_upstreams lb ! 0, lr_upstreams lb ! 1)"
  using assms by (auto simp: canary_route_def note_dials_def Let_def split: option.splits if_splits)

end
