(* ===== verification/Abuse.thy ===== *)
theory Abuse
  imports Netip Ratelimit
begin

text \<open>
  The per-app abuse defense of the ingress, \<open>internal/abuse\<close>: which address a request came from
  (\<open>clientip.go\<close>), the policy and its limits (\<open>policy.go\<close>, \<open>limits.go\<close>), the compiled engine
  (\<open>engine.go\<close>), the sharded token buckets (\<open>limiter.go\<close>), the counters (\<open>counters.go\<close>), the state
  that survives a reload (\<open>state.go\<close>) and the replay of past traffic (\<open>replay.go\<close>).

  \<open>float64\<close> rates and tokens are exact rationals, the monotonic clock an unbounded integer of
  nanoseconds.  Each shard's lock covers a whole operation, so operations are functions of the
  limiter.  Which bucket a full shard drops is the choice of Go's map iteration: an argument.
  Case folding is that of ASCII.
\<close>

type_synonym u64 = "64 word"

section \<open>Limits and policy\<close>

record ab_limits =
  al_max_rps :: rat
  al_max_burst :: int
  al_max_deny :: int
  al_max_agents :: int
  al_default_rps :: rat
  al_default_burst :: int
  al_max_clients :: int
  al_shards :: int
  al_idle :: duration
  al_max_retry :: duration
  al_dry_default :: duration
  al_dry_max :: duration
  al_dry_top :: int
  al_share :: rat
  al_burst_secs :: rat

definition ab_default_limits :: ab_limits where
  "ab_default_limits =
     \<lparr>al_max_rps = 10000, al_max_burst = 100000, al_max_deny = 256, al_max_agents = 64,
      al_default_rps = 20, al_default_burst = 40, al_max_clients = 100000, al_shards = 64,
      al_idle = 5 * minute, al_max_retry = minute, al_dry_default = 15 * minute, al_dry_max = hour,
      al_dry_top = 10, al_share = 1 / 4, al_burst_secs = 2\<rparr>"

text \<open>The environment as the parsed values of its variables.\<close>

record ab_env =
  ae_max_rps :: "rat option"
  ae_max_burst :: "int option"
  ae_max_deny :: "int option"
  ae_max_agents :: "int option"
  ae_default_rps :: "rat option"
  ae_default_burst :: "int option"
  ae_max_clients :: "int option"
  ae_shards :: "int option"
  ae_idle :: "duration option"
  ae_max_retry :: "duration option"
  ae_dry_default :: "duration option"
  ae_dry_max :: "duration option"
  ae_dry_top :: "int option"
  ae_share :: "rat option"
  ae_burst_secs :: "rat option"

definition env_pos :: "'a::{zero,linorder} option \<Rightarrow> 'a \<Rightarrow> 'a" where
  "env_pos v d = (case v of None \<Rightarrow> d | Some x \<Rightarrow> if x \<le> 0 then d else x)"

definition limits_from_env :: "ab_env \<Rightarrow> ab_limits" where
  "limits_from_env e =
     (let l = ab_default_limits
      in \<lparr>al_max_rps = env_pos (ae_max_rps e) (al_max_rps l), al_max_burst = env_pos (ae_max_burst e) (al_max_burst l),
          al_max_deny = env_pos (ae_max_deny e) (al_max_deny l), al_max_agents = env_pos (ae_max_agents e) (al_max_agents l),
          al_default_rps = env_pos (ae_default_rps e) (al_default_rps l),
          al_default_burst = env_pos (ae_default_burst e) (al_default_burst l),
          al_max_clients = env_pos (ae_max_clients e) (al_max_clients l), al_shards = env_pos (ae_shards e) (al_shards l),
          al_idle = env_pos (ae_idle e) (al_idle l), al_max_retry = env_pos (ae_max_retry e) (al_max_retry l),
          al_dry_default = env_pos (ae_dry_default e) (al_dry_default l), al_dry_max = env_pos (ae_dry_max e) (al_dry_max l),
          al_dry_top = env_pos (ae_dry_top e) (al_dry_top l), al_share = env_pos (ae_share e) (al_share l),
          al_burst_secs = env_pos (ae_burst_secs e) (al_burst_secs l)\<rparr>)"

record ab_policy =
  ap_mode :: string
  ap_rps :: rat
  ap_burst :: int
  ap_cidrs :: "string list"
  ap_agents :: "string list"
  ap_require :: bool

definition mode_valid :: "string \<Rightarrow> bool" where
  "mode_valid m \<longleftrightarrow> m \<in> {''off'', ''log_only'', ''enforce''}"

definition policy_active :: "ab_policy \<Rightarrow> bool" where
  "policy_active p \<longleftrightarrow> ap_mode p = ''log_only'' \<or> ap_mode p = ''enforce''"

text \<open>The conversion of a \<open>float64\<close> to an \<open>int\<close> truncates.\<close>

definition to_int :: "rat \<Rightarrow> int" where
  "to_int x = (if x < 0 then - \<lfloor>- x\<rfloor> else \<lfloor>x\<rfloor>)"

definition trim_list :: "string list \<Rightarrow> string list" where
  "trim_list xs = filter (\<lambda>s. s \<noteq> []) (map trim_space xs)"

definition ab_normalize :: "ab_limits \<Rightarrow> ab_policy \<Rightarrow> ab_policy" where
  "ab_normalize l p =
     (let p = (if ap_mode p = [] then p\<lparr>ap_mode := ''off''\<rparr> else p);
          p = (if ap_rps p > 0 \<and> ap_burst p \<le> 0 then p\<lparr>ap_burst := max 1 (to_int (ap_rps p * al_burst_secs l))\<rparr> else p)
      in p\<lparr>ap_cidrs := trim_list (ap_cidrs p), ap_agents := trim_list (ap_agents p)\<rparr>)"

text \<open>An IPv4-mapped range is turned into the IPv4 range.\<close>

definition normalize_prefix :: "prefix \<Rightarrow> prefix" where
  "normalize_prefix p =
     (if is_4in6 (px_addr p) \<and> px_bits p \<ge> 96
      then masked_prefix (prefix_from (unmap_addr (px_addr p)) (px_bits p - 96))
      else masked_prefix p)"

definition parse_deny_entry :: "string \<Rightarrow> prefix option" where
  "parse_deny_entry s =
     (let s = trim_space s
      in if CHR ''/'' \<in> set s then map_option normalize_prefix (parse_prefix s)
         else map_option (\<lambda>a. prefix_from (unmap_addr a) (bit_len (unmap_addr a))) (parse_addr s))"

datatype field_error =
    Fe_mode | Fe_rps_negative | Fe_rps_max rat | Fe_burst_negative | Fe_burst_max int | Fe_burst_needs_rps
  | Fe_cidr_count int | Fe_cidr nat | Fe_agent_count int | Fe_agent nat | Fe_nothing_on

definition printable :: "string \<Rightarrow> bool" where
  "printable s \<longleftrightarrow> list_all (\<lambda>c. \<not> (of_char c < (0x20::nat) \<or> of_char c > (0x7e::nat))) s"

definition ab_validate :: "ab_limits \<Rightarrow> ab_policy \<Rightarrow> field_error list" where
  "ab_validate l p =
     (if mode_valid (ap_mode p) then [] else [Fe_mode]) @
     (if ap_rps p < 0 then [Fe_rps_negative] else if ap_rps p > al_max_rps l then [Fe_rps_max (al_max_rps l)] else []) @
     (if ap_burst p < 0 then [Fe_burst_negative] else []) @
     (if ap_burst p > al_max_burst l then [Fe_burst_max (al_max_burst l)] else []) @
     (if ap_burst p > 0 \<and> ap_rps p = 0 then [Fe_burst_needs_rps] else []) @
     (if int (length (ap_cidrs p)) > al_max_deny l then [Fe_cidr_count (al_max_deny l)] else []) @
     List.map_filter (\<lambda>(i, e). if parse_deny_entry e = None then Some (Fe_cidr i) else None)
       (zip [0..<length (ap_cidrs p)] (ap_cidrs p)) @
     (if int (length (ap_agents p)) > al_max_agents l then [Fe_agent_count (al_max_agents l)] else []) @
     List.map_filter (\<lambda>(i, e). if trim_space e = [] \<or> length e > 128 \<or> \<not> printable e then Some (Fe_agent i) else None)
       (zip [0..<length (ap_agents p)] (ap_agents p)) @
     (if policy_active p \<and> ap_rps p = 0 \<and> ap_cidrs p = [] \<and> ap_agents p = [] \<and> \<not> ap_require p
      then [Fe_nothing_on] else [])"

section \<open>The address of the client\<close>

definition private_ranges :: "prefix list" where
  "private_ranges =
     [prefix_from (V4 0x7f000000) 8, prefix_from (V4 0x0a000000) 8, prefix_from (V4 0xac100000) 12,
      prefix_from (V4 0xc0a80000) 16, prefix_from (V4 0xa9fe0000) 16, prefix_from (V6 1 []) 128,
      prefix_from (V6 0xfc000000000000000000000000000000 []) 7, prefix_from (V6 0xfe800000000000000000000000000000 []) 10]"

fun parse_trusted_fields :: "string list \<Rightarrow> string + prefix list" where
  "parse_trusted_fields [] = Inr []"
| "parse_trusted_fields (f # fs) =
     (if to_lower f = ''private_ranges''
      then (case parse_trusted_fields fs of Inl e \<Rightarrow> Inl e | Inr ps \<Rightarrow> Inr (private_ranges @ ps))
      else (case parse_deny_entry f of
              None \<Rightarrow> Inl f
            | Some p \<Rightarrow> (case parse_trusted_fields fs of Inl e \<Rightarrow> Inl e | Inr ps \<Rightarrow> Inr (p # ps))))"

definition parse_trusted :: "string \<Rightarrow> string + prefix list" where
  "parse_trusted raw =
     parse_trusted_fields
       (fields_func (\<lambda>c. c = CHR '','' \<or> c = CHR '' '' \<or> c = CHR 0x0A \<or> c = CHR 0x09) [] raw)"

definition in_ranges :: "addr \<Rightarrow> prefix list \<Rightarrow> bool" where
  "in_ranges a ranges \<longleftrightarrow> list_ex (\<lambda>p. prefix_contains p a) ranges"

definition last_hop :: "string \<Rightarrow> string \<times> string" where
  "last_hop s = (case cut_last CHR '','' s of Some (rest, hop) \<Rightarrow> (hop, rest) | None \<Rightarrow> (s, []))"

lemma go_cut_length: "go_cut sep s = Some (a, b) \<Longrightarrow> length a < length s \<and> length b < length s"
  by (induction s arbitrary: a) (auto split: if_splits)

lemma last_hop_shorter: "s \<noteq> [] \<Longrightarrow> last_hop s = (hop, rest) \<Longrightarrow> length rest < length s"
  by (auto simp: last_hop_def cut_last_def split: option.splits dest!: go_cut_length)

text \<open>The walk over one header from its right end: the client so far, and whether the search is
  over.\<close>

function walk_list :: "prefix list \<Rightarrow> string \<Rightarrow> addr \<Rightarrow> addr \<times> bool" where
  "walk_list trusted s client =
     (if s = [] then (client, False)
      else (case last_hop s of
              (hop, rest) \<Rightarrow>
                (case parse_addr (trim_space hop) of
                   None \<Rightarrow> (client, True)
                 | Some a \<Rightarrow>
                     if \<not> in_ranges (unmap_addr a) trusted then (unmap_addr a, True)
                     else walk_list trusted rest (unmap_addr a))))"
  by pat_completeness auto

termination
  by (relation "measure (\<lambda>(_, s, _). length s)") (auto dest: last_hop_shorter [OF _ sym])

declare walk_list.simps [simp del]

text \<open>The headers, last one first.\<close>

fun walk_headers :: "prefix list \<Rightarrow> string list \<Rightarrow> addr \<Rightarrow> addr" where
  "walk_headers trusted [] client = client"
| "walk_headers trusted (h # hs) client =
     (case walk_list trusted h client of (c, fin) \<Rightarrow> if fin then c else walk_headers trusted hs c)"

definition resolve_client :: "string \<Rightarrow> string list \<Rightarrow> prefix list \<Rightarrow> addr" where
  "resolve_client remote forwarded trusted =
     (let host = (case split_host_port remote of Some (h, _) \<Rightarrow> h | None \<Rightarrow> remote)
      in case parse_addr host of
           None \<Rightarrow> No_addr
         | Some a \<Rightarrow>
             (let peer = unmap_addr a
              in if trusted = [] \<or> forwarded = [] \<or> \<not> in_ranges peer trusted then peer
                 else walk_headers trusted (rev forwarded) peer))"

section \<open>Token buckets\<close>

record client_bucket =
  cb_tokens :: rat
  cb_last :: int

record shard =
  sh_clients :: "(addr, client_bucket) gomap"
  sh_last_sweep :: int

record limiter =
  lm_shards :: "shard list"
  lm_mask :: u64
  lm_per_shard :: int
  lm_idle :: int
  lm_sweep :: int
  lm_evicted :: u64

function round_pow2 :: "int \<Rightarrow> int \<Rightarrow> int" where
  "round_pow2 n m = (if 0 < n \<and> n < m then round_pow2 (2 * n) m else n)"
  by pat_completeness auto

termination
  by (relation "measure (\<lambda>(n, m). nat (m - n))") auto

declare round_pow2.simps [simp del]

definition new_limiter :: "int \<Rightarrow> int \<Rightarrow> duration \<Rightarrow> limiter" where
  "new_limiter max_clients shards idle =
     (let n = round_pow2 1 (max shards 1)
      in \<lparr>lm_shards = replicate (nat n) \<lparr>sh_clients = [], sh_last_sweep = 0\<rparr>, lm_mask = word_of_int (n - 1),
          lm_per_shard = max (max_clients sdiv n) 1, lm_idle = idle, lm_sweep = idle sdiv 4, lm_evicted = 0\<rparr>)"

text \<open>A little-endian reading of eight bytes.\<close>

definition byte_rev :: "u64 \<Rightarrow> u64" where
  "byte_rev v = fold (\<lambda>k w. push_bit 8 w OR (drop_bit (8 * k) v AND 0xff)) [0..<8] 0"

definition hash_addr :: "addr \<Rightarrow> u64" where
  "hash_addr a =
     (let lo = byte_rev (ucast (drop_bit 64 (as16 a))); hi = byte_rev (ucast (as16 a));
          h = lo XOR (hi * 0x9e3779b97f4a7c15);
          h = h XOR drop_bit 32 h; h = h * 0xd6e8feb86659fd93;
          h = h XOR drop_bit 32 h; h = h * 0xd6e8feb86659fd93
      in h XOR drop_bit 32 h)"

definition shard_index :: "limiter \<Rightarrow> addr \<Rightarrow> nat" where
  "shard_index lm a = unat (hash_addr a AND lm_mask lm)"

definition sweep_shard :: "int \<Rightarrow> int \<Rightarrow> shard \<Rightarrow> shard" where
  "sweep_shard idle now sh =
     \<lparr>sh_clients = filter (\<lambda>(k, b). \<not> now - cb_last b > idle) (sh_clients sh), sh_last_sweep = now\<rparr>"

definition evict_shard :: "nat \<Rightarrow> shard \<Rightarrow> shard" where
  "evict_shard pick sh =
     (if sh_clients sh = [] then sh
      else sh\<lparr>sh_clients := AList.delete (fst (sh_clients sh ! (pick mod length (sh_clients sh)))) (sh_clients sh)\<rparr>)"

definition refill_client :: "int \<Rightarrow> rat \<Rightarrow> int \<Rightarrow> client_bucket option \<Rightarrow> client_bucket" where
  "refill_client now rps burst b =
     (case b of
        None \<Rightarrow> \<lparr>cb_tokens = of_int burst, cb_last = now\<rparr>
      | Some b \<Rightarrow> \<lparr>cb_tokens = min (cb_tokens b + of_int (now - cb_last b) * rps / of_int second) (of_int burst), cb_last = now\<rparr>)"

definition allow :: "nat \<Rightarrow> int \<Rightarrow> addr \<Rightarrow> rat \<Rightarrow> int \<Rightarrow> limiter \<Rightarrow> (bool \<times> duration) \<times> limiter" where
  "allow pick now a rps burst lm =
     (let i = shard_index lm a;
          sh = lm_shards lm ! i;
          sh = (if now - sh_last_sweep sh > lm_sweep lm then sweep_shard (lm_idle lm) now sh else sh);
          full = (map_of (sh_clients sh) a = None \<and> int (length (sh_clients sh)) \<ge> lm_per_shard lm);
          evicted = (if full \<and> sh_clients sh \<noteq> [] then lm_evicted lm + 1 else lm_evicted lm);
          sh = (if full then evict_shard pick sh else sh);
          b = refill_client now rps burst (map_of (sh_clients sh) a);
          ok = cb_tokens b \<ge> 1;
          wait = (if ok then 0 else to_int ((1 - cb_tokens b) / rps * of_int second));
          b = (if ok then b\<lparr>cb_tokens := cb_tokens b - 1\<rparr> else b);
          sh = sh\<lparr>sh_clients := AList.update a b (sh_clients sh)\<rparr>
      in ((ok, wait), lm\<lparr>lm_shards := (lm_shards lm)[i := sh], lm_evicted := evicted\<rparr>))"

definition tracked_clients :: "limiter \<Rightarrow> nat" where
  "tracked_clients lm = sum_list (map (\<lambda>sh. length (sh_clients sh)) (lm_shards lm))"

section \<open>Counters\<close>

datatype block_reason = Vr_rate | Vr_cidr | Vr_agent | Vr_missing

definition reason_index :: "block_reason \<Rightarrow> nat" where
  "reason_index r = (case r of Vr_rate \<Rightarrow> 0 | Vr_cidr \<Rightarrow> 1 | Vr_agent \<Rightarrow> 2 | Vr_missing \<Rightarrow> 3)"

definition reason_names :: "string list" where
  "reason_names = [''rate_limit'', ''deny_cidr'', ''deny_user_agent'', ''missing_user_agent'']"

text \<open>A stripe of the counters, and what draining them gives.\<close>

record tallies =
  ta_allowed :: u64
  ta_would :: "u64 list"
  ta_blocked :: "u64 list"
  ta_fail_open :: u64

definition zero_tallies :: tallies where
  "zero_tallies = \<lparr>ta_allowed = 0, ta_would = replicate 4 0, ta_blocked = replicate 4 0, ta_fail_open = 0\<rparr>"

definition tallies_add :: "tallies \<Rightarrow> tallies \<Rightarrow> tallies" where
  "tallies_add s t =
     \<lparr>ta_allowed = ta_allowed s + ta_allowed t, ta_would = map2 (+) (ta_would s) (ta_would t),
      ta_blocked = map2 (+) (ta_blocked s) (ta_blocked t), ta_fail_open = ta_fail_open s + ta_fail_open t\<rparr>"

type_synonym counters = "tallies list"

definition new_counters :: counters where
  "new_counters = replicate 16 zero_tallies"

definition count_at :: "u64 \<Rightarrow> (tallies \<Rightarrow> tallies) \<Rightarrow> counters \<Rightarrow> counters" where
  "count_at h f cs = cs[unat (h AND 15) := f (cs ! unat (h AND 15))]"

definition note_fail_open :: "counters \<Rightarrow> counters" where
  "note_fail_open cs = cs[0 := (cs ! 0)\<lparr>ta_fail_open := ta_fail_open (cs ! 0) + 1\<rparr>]"

definition drain :: "counters \<Rightarrow> tallies \<times> counters" where
  "drain cs = (foldl tallies_add zero_tallies cs, map (\<lambda>_. zero_tallies) cs)"

section \<open>The engine\<close>

record ab_engine =
  en_mode :: string
  en_rps :: rat
  en_burst :: int
  en_exact :: "addr list"
  en_v4 :: "(32 word \<times> 32 word) list"
  en_v6 :: "prefix list"
  en_agents :: "string list"
  en_require :: bool
  en_max_retry :: int
  en_check :: bool

datatype ab_error = Policy_invalid "field_error list" | Bad_entry string

definition v4_net :: "prefix \<Rightarrow> 32 word \<times> 32 word" where
  "v4_net p =
     (let m = push_bit (nat (32 - px_bits p)) (NOT 0); net = (case px_addr p of V4 v \<Rightarrow> v | _ \<Rightarrow> 0)
      in (net AND m, m))"

fun compile_denies :: "string list \<Rightarrow> ab_engine \<Rightarrow> ab_error + ab_engine" where
  "compile_denies [] e = Inr e"
| "compile_denies (s # ss) e =
     (case parse_deny_entry s of
        None \<Rightarrow> Inl (Bad_entry s)
      | Some p \<Rightarrow>
          compile_denies ss
            (if is_single_ip p then e\<lparr>en_exact := px_addr p # en_exact e\<rparr>
             else (case px_addr p of
                     V4 _ \<Rightarrow> e\<lparr>en_v4 := en_v4 e @ [v4_net p]\<rparr>
                   | _ \<Rightarrow> e\<lparr>en_v6 := en_v6 e @ [p]\<rparr>)))"

definition ab_new_engine :: "ab_limits \<Rightarrow> ab_policy \<Rightarrow> ab_error + ab_engine" where
  "ab_new_engine l p =
     (let p = ab_normalize l p
      in if ab_validate l p \<noteq> [] then Inl (Policy_invalid (ab_validate l p))
         else (case compile_denies (ap_cidrs p)
                      \<lparr>en_mode = ap_mode p, en_rps = ap_rps p, en_burst = ap_burst p, en_exact = [], en_v4 = [], en_v6 = [],
                       en_agents = [], en_require = ap_require p,
                       en_max_retry = max (i64_div (al_max_retry l) second) 1, en_check = False\<rparr> of
                 Inl e \<Rightarrow> Inl e
               | Inr e \<Rightarrow>
                   Inr (e\<lparr>en_agents := map to_lower (ap_agents p),
                          en_check := (en_exact e \<noteq> [] \<or> en_v4 e \<noteq> [] \<or> en_v6 e \<noteq> [])\<rparr>)))"

definition denied :: "ab_engine \<Rightarrow> addr \<Rightarrow> bool" where
  "denied e a \<longleftrightarrow>
     a \<in> set (en_exact e) \<or>
     (case a of
        V4 v \<Rightarrow> list_ex (\<lambda>(net, m). v AND m = net) (en_v4 e)
      | _ \<Rightarrow> list_ex (\<lambda>p. prefix_contains p a) (en_v6 e))"

fun starts_fold :: "string \<Rightarrow> string \<Rightarrow> bool" where
  "starts_fold [] s = True"
| "starts_fold (x # xs) [] = False"
| "starts_fold (x # xs) (c # cs) = (lower_char c = x \<and> starts_fold xs cs)"

fun contains_fold :: "string \<Rightarrow> string \<Rightarrow> bool" where
  "contains_fold [] sub = (sub = [])"
| "contains_fold (c # cs) sub = (starts_fold sub (c # cs) \<or> contains_fold cs sub)"

definition contains_sub :: "string \<Rightarrow> string \<Rightarrow> bool" where
  "contains_sub s sub \<longleftrightarrow> list_ex (\<lambda>i. take (length sub) (drop i s) = sub) [0..<Suc (length s)]"

definition agent_denied :: "ab_engine \<Rightarrow> string \<Rightarrow> bool" where
  "agent_denied e ua =
     (if length ua > 512 then list_ex (contains_fold ua) (en_agents e)
      else list_ex (contains_sub (map lower_char ua)) (en_agents e))"

definition violation ::
    "ab_engine \<Rightarrow> nat \<Rightarrow> int \<Rightarrow> addr \<Rightarrow> string \<Rightarrow> limiter \<Rightarrow> (block_reason \<times> int) option \<times> limiter" where
  "violation e pick now client ua lm =
     (if addr_valid client \<and> en_check e \<and> denied e client then (Some (Vr_cidr, 0), lm)
      else if en_require e \<and> ua = [] then (Some (Vr_missing, 0), lm)
      else if ua \<noteq> [] \<and> en_agents e \<noteq> [] \<and> agent_denied e ua then (Some (Vr_agent, 0), lm)
      else if addr_valid client \<and> en_rps e > 0 then
        (case allow pick now client (en_rps e) (en_burst e) lm of
           ((True, _), lm) \<Rightarrow> (None, lm)
         | ((False, wait), lm) \<Rightarrow>
             (Some (Vr_rate, min (max ((wait + second - 1) sdiv second) 1) (en_max_retry e)), lm))
      else (None, lm))"

datatype ab_decision = Let_through | Would_block block_reason | Blocked block_reason int

definition ab_decide ::
    "ab_engine \<Rightarrow> nat \<Rightarrow> int \<Rightarrow> addr \<Rightarrow> string \<Rightarrow> limiter \<times> counters \<Rightarrow> ab_decision \<times> limiter \<times> counters" where
  "ab_decide e pick now client ua st =
     (if en_mode e \<noteq> ''log_only'' \<and> en_mode e \<noteq> ''enforce'' then (Let_through, st)
      else
        (let (lm, cs) = st;
             h = (if addr_valid client then hash_addr client else 0);
             (v, lm) = violation e pick now client ua lm
         in case v of
              None \<Rightarrow> (Let_through, lm, count_at h (\<lambda>t. t\<lparr>ta_allowed := ta_allowed t + 1\<rparr>) cs)
            | Some (r, retry) \<Rightarrow>
                (let i = reason_index r
                 in if en_mode e = ''log_only''
                    then (Would_block r, lm, count_at h (\<lambda>t. t\<lparr>ta_would := (ta_would t)[i := ta_would t ! i + 1]\<rparr>) cs)
                    else (Blocked r retry, lm,
                          count_at h (\<lambda>t. t\<lparr>ta_blocked := (ta_blocked t)[i := ta_blocked t ! i + 1]\<rparr>) cs))))"

section \<open>What survives a reload\<close>

type_synonym registry = "(string, limiter \<times> counters) gomap"

definition registry_for :: "string \<Rightarrow> ab_limits \<Rightarrow> registry \<Rightarrow> (limiter \<times> counters) \<times> registry" where
  "registry_for app l reg =
     (case map_of reg app of
        Some st \<Rightarrow> (st, reg)
      | None \<Rightarrow>
          (let st = (new_limiter (al_max_clients l) (al_shards l) (al_idle l), new_counters)
           in (st, AList.update app st reg)))"

definition registry_forget :: "string \<Rightarrow> registry \<Rightarrow> registry" where
  "registry_forget app reg = AList.delete app reg"

definition drain_all :: "registry \<Rightarrow> (string, tallies) gomap \<times> registry" where
  "drain_all reg =
     (filter (\<lambda>(_, s). s \<noteq> zero_tallies) (map (\<lambda>(app, lm, cs). (app, fst (drain cs))) reg),
      map (\<lambda>(app, lm, cs). (app, lm, snd (drain cs))) reg)"

definition registry_fail_open :: "string \<Rightarrow> ab_limits \<Rightarrow> registry \<Rightarrow> registry" where
  "registry_fail_open app l reg =
     (let ((lm, cs), reg) = registry_for app l reg in AList.update app (lm, note_fail_open cs) reg)"

definition registry_tracked :: "string \<Rightarrow> registry \<Rightarrow> nat" where
  "registry_tracked app reg = (case map_of reg app of None \<Rightarrow> 0 | Some (lm, _) \<Rightarrow> tracked_clients lm)"

section \<open>Replay\<close>

record observation =
  ob_time :: gotime
  ob_client :: addr
  ob_agent :: string

record client_tally =
  ct_requests :: nat
  ct_blocked :: nat
  ct_reasons :: "nat list"

record client_impact =
  im_client :: string
  im_requests :: nat
  im_would_block :: nat
  im_top :: string

record replay_result =
  rr_requests :: nat
  rr_would_block :: nat
  rr_percent :: rat
  rr_by_reason :: "(string \<times> nat) list"
  rr_top :: "client_impact list"
  rr_from :: gotime
  rr_to :: gotime

record replay_state =
  rs_limits :: "limiter \<times> counters"
  rs_base :: gotime
  rs_from :: gotime
  rs_to :: gotime
  rs_requests :: nat
  rs_would_block :: nat
  rs_reasons :: "nat list"
  rs_clients :: "(addr, client_tally) gomap"

definition bump :: "nat \<Rightarrow> nat list \<Rightarrow> nat list" where
  "bump i ns = ns[i := ns ! i + 1]"

definition zero_tally :: client_tally where
  "zero_tally = \<lparr>ct_requests = 0, ct_blocked = 0, ct_reasons = replicate 4 0\<rparr>"

definition replay_step :: "ab_engine \<Rightarrow> nat \<Rightarrow> observation \<Rightarrow> replay_state \<Rightarrow> replay_state" where
  "replay_step e pick ob s =
     (let s = (if rs_base s = zero_time then s\<lparr>rs_base := ob_time ob, rs_from := ob_time ob\<rparr> else s);
          s = s\<lparr>rs_to := ob_time ob, rs_requests := rs_requests s + 1\<rparr>;
          client = ob_client ob;
          tally = (case map_of (rs_clients s) client of
                     Some t \<Rightarrow> Some t | None \<Rightarrow> if addr_valid client then Some zero_tally else None);
          tally = map_option (\<lambda>t. t\<lparr>ct_requests := ct_requests t + 1\<rparr>) tally;
          (d, st) = ab_decide e pick (time_sub (ob_time ob) (rs_base s)) client (ob_agent ob) (rs_limits s);
          s = s\<lparr>rs_limits := st\<rparr>;
          put = (\<lambda>t s. case t of None \<Rightarrow> s | Some t \<Rightarrow> s\<lparr>rs_clients := AList.update client t (rs_clients s)\<rparr>)
      in case d of
           Would_block r \<Rightarrow>
             put (map_option (\<lambda>t. t\<lparr>ct_blocked := ct_blocked t + 1, ct_reasons := bump (reason_index r) (ct_reasons t)\<rparr>) tally)
               (s\<lparr>rs_would_block := rs_would_block s + 1, rs_reasons := bump (reason_index r) (rs_reasons s)\<rparr>)
         | _ \<Rightarrow> put tally s)"

fun replay_loop :: "ab_engine \<Rightarrow> nat list \<Rightarrow> observation list \<Rightarrow> replay_state \<Rightarrow> replay_state" where
  "replay_loop e picks [] s = s"
| "replay_loop e picks (ob # obs) s =
     replay_loop e (tl picks) obs (replay_step e (case picks of [] \<Rightarrow> 0 | p # _ \<Rightarrow> p) ob s)"

definition top_reason :: "nat list \<Rightarrow> nat" where
  "top_reason ns = foldl (\<lambda>best r. if ns ! r > ns ! best then r else best) 0 [1, 2, 3]"

definition impact_before :: "client_impact \<Rightarrow> client_impact \<Rightarrow> bool" where
  "impact_before a b =
     (if im_would_block a \<noteq> im_would_block b then im_would_block a > im_would_block b
      else if im_requests a \<noteq> im_requests b then im_requests a > im_requests b
      else im_client a < im_client b)"

definition replay :: "ab_limits \<Rightarrow> nat list \<Rightarrow> ab_policy \<Rightarrow> observation list \<Rightarrow> int \<Rightarrow> ab_error + replay_result" where
  "replay l picks p obs shown =
     (case ab_new_engine l (p\<lparr>ap_mode := ''log_only''\<rparr>) of
        Inl e \<Rightarrow> Inl e
      | Inr e \<Rightarrow>
          (let s = replay_loop e picks obs
                     \<lparr>rs_limits = (new_limiter (al_max_clients l) (al_shards l) (al_idle l), new_counters),
                      rs_base = zero_time, rs_from = zero_time, rs_to = zero_time, rs_requests = 0, rs_would_block = 0,
                      rs_reasons = replicate 4 0, rs_clients = []\<rparr>;
               impacts = go_sort impact_before
                 (map (\<lambda>(a, t). \<lparr>im_client = addr_string a, im_requests = ct_requests t, im_would_block = ct_blocked t,
                                 im_top = reason_names ! top_reason (ct_reasons t)\<rparr>)
                   (filter (\<lambda>(a, t). ct_blocked t \<noteq> 0) (rs_clients s)))
           in Inr \<lparr>rr_requests = rs_requests s, rr_would_block = rs_would_block s,
                   rr_percent = (if rs_requests s > 0 then of_nat (rs_would_block s) / of_nat (rs_requests s) * 100 else 0),
                   rr_by_reason = zip reason_names (rs_reasons s),
                   rr_top = (if shown > 0 \<and> int (length impacts) > shown then take (nat shown) impacts else impacts),
                   rr_from = rs_from s, rr_to = rs_to s\<rparr>))"

record suggestion =
  sg_peak :: rat
  sg_rps :: rat
  sg_burst :: int
  sg_from_traffic :: bool

definition suggest :: "rat \<Rightarrow> ab_limits \<Rightarrow> suggestion" where
  "suggest peak l =
     (if peak \<le> 0
      then \<lparr>sg_peak = peak, sg_rps = al_default_rps l, sg_burst = al_default_burst l, sg_from_traffic = False\<rparr>
      else
        (let rps = peak * al_share l;
             rps = (if rps < al_default_rps l then al_default_rps l else rps);
             rps = (if rps > al_max_rps l then al_max_rps l else rps);
             rps = of_int (to_int (rps + 1 / 2))
         in \<lparr>sg_peak = peak, sg_rps = rps,
             sg_burst = min (max (to_int (rps * al_burst_secs l)) 1) (al_max_burst l), sg_from_traffic = True\<rparr>))"

section \<open>The compiled deny list\<close>

lemma parse_addr_cases: "parse_addr s = Some a \<Longrightarrow> (\<exists>v. a = V4 v) \<or> (\<exists>v z. a = V6 v z)"
  by (auto simp: parse_addr_def parse_v4_def parse_v6_def Let_def split: option.splits if_splits prod.splits list.splits)

lemma unmap_cases: "(\<exists>v. a = V4 v) \<or> (\<exists>v z. a = V6 v z) \<Longrightarrow> (\<exists>v. unmap_addr a = V4 v) \<or> (\<exists>v z. unmap_addr a = V6 v z)"
  by (cases a) (auto simp: unmap_addr_def)

definition deny_ok :: "prefix \<Rightarrow> bool" where
  "deny_ok p \<longleftrightarrow> prefix_valid p \<and> px_bits p \<le> bit_len (px_addr p) \<and> ((\<exists>v. px_addr p = V4 v) \<or> (\<exists>v. px_addr p = V6 v []))"

lemma prefix_from_ok:
  "(\<exists>v. a = V4 v) \<or> (\<exists>v z. a = V6 v z) \<Longrightarrow> 0 \<le> n \<Longrightarrow> n \<le> bit_len a \<Longrightarrow> deny_ok (prefix_from a n)"
  by (auto simp: deny_ok_def prefix_from_def prefix_valid_def addr_valid_def without_zone_def bit_len_def)

lemma masked_ok: "deny_ok p \<Longrightarrow> deny_ok (masked_prefix p)"
  by (auto simp: deny_ok_def masked_prefix_def masked_addr_def prefix_from_def prefix_valid_def addr_valid_def
      without_zone_def bit_len_def)

lemma parse_prefix_ok: "parse_prefix s = Some p \<Longrightarrow> deny_ok p"
  by (auto simp: parse_prefix_def split: option.splits prod.splits if_splits dest!: parse_addr_cases intro!: prefix_from_ok)

lemma normalize_ok:
  assumes "deny_ok p"
  shows "deny_ok (normalize_prefix p)"
proof (cases "is_4in6 (px_addr p) \<and> px_bits p \<ge> 96")
  case True
  with assms have "deny_ok (prefix_from (unmap_addr (px_addr p)) (px_bits p - 96))"
    by (intro prefix_from_ok) (auto simp: deny_ok_def is_4in6_def unmap_addr_def bit_len_def)
  with True masked_ok show ?thesis by (simp add: normalize_prefix_def)
next
  case False
  then have "normalize_prefix p = masked_prefix p" by (auto simp: normalize_prefix_def)
  with assms masked_ok show ?thesis by simp
qed

lemma deny_entry_ok:
  assumes "parse_deny_entry s = Some p"
  shows "deny_ok p"
proof (cases "CHR ''/'' \<in> set (trim_space s)")
  case True
  with assms normalize_ok parse_prefix_ok show ?thesis by (auto simp: parse_deny_entry_def Let_def)
next
  case False
  with assms obtain a where a: "parse_addr (trim_space s) = Some a" "p = prefix_from (unmap_addr a) (bit_len (unmap_addr a))"
    by (auto simp: parse_deny_entry_def Let_def)
  from unmap_cases [OF parse_addr_cases [OF a(1)]] a(2) show ?thesis
    using prefix_from_ok [of "unmap_addr a" "bit_len (unmap_addr a)"] by (auto simp: bit_len_def)
qed

lemma single_contains:
  assumes "deny_ok p" and "is_single_ip p"
  shows "prefix_contains p a \<longleftrightarrow> a = px_addr p"
  using assms by (auto simp: deny_ok_def is_single_ip_def prefix_contains_def bit_len_def mask4_def mask6_def split: addr.splits)

lemma shifted_ones: "push_bit n (NOT 0) = (NOT (mask n) :: 32 word)"
  by (simp add: push_bit_minus_one_eq_not_mask)

lemma v4_net_contains:
  assumes "deny_ok p" and "px_addr p = V4 b"
  shows "prefix_contains p (V4 v) \<longleftrightarrow> (case v4_net p of (net, m) \<Rightarrow> v AND m = net)"
  using assms shifted_ones [of "nat (32 - px_bits p)"]
  by (simp add: deny_ok_def prefix_contains_def v4_net_def Let_def mask4_def)

lemma denied_entry:
  assumes "deny_ok p"
  shows "denied (if is_single_ip p then e\<lparr>en_exact := px_addr p # en_exact e\<rparr>
             else (case px_addr p of V4 _ \<Rightarrow> e\<lparr>en_v4 := en_v4 e @ [v4_net p]\<rparr> | _ \<Rightarrow> e\<lparr>en_v6 := en_v6 e @ [p]\<rparr>)) a
    \<longleftrightarrow> denied e a \<or> prefix_contains p a"
proof (cases "is_single_ip p")
  case True
  with single_contains [OF assms True] show ?thesis by (cases a) (auto simp: denied_def)
next
  case False
  show ?thesis
  proof (cases "px_addr p")
    case No_addr
    with assms show ?thesis by (simp add: deny_ok_def)
  next
    case (V4 b)
    show ?thesis
    proof (cases a)
      case (V4 v)
      with False \<open>px_addr p = V4 b\<close> v4_net_contains [OF assms \<open>px_addr p = V4 b\<close>, of v] show ?thesis
        by (simp add: denied_def case_prod_beta)
    qed (use False V4 in \<open>simp_all add: denied_def prefix_contains_def\<close>)
  next
    case (V6 b z)
    then show ?thesis
      by (cases a) (use False in \<open>simp_all add: denied_def prefix_contains_def\<close>)
  qed
qed

lemma compile_denies_denied:
  assumes "compile_denies ss e = Inr e'"
  shows "denied e' a \<longleftrightarrow> denied e a \<or> (\<exists>s\<in>set ss. \<exists>p. parse_deny_entry s = Some p \<and> prefix_contains p a)"
  using assms
proof (induction ss arbitrary: e)
  case (Cons s ss)
  then obtain p where p: "parse_deny_entry s = Some p" by (auto split: option.splits)
  note ok = deny_entry_ok [OF p]
  let ?e = "if is_single_ip p then e\<lparr>en_exact := px_addr p # en_exact e\<rparr>
             else (case px_addr p of V4 _ \<Rightarrow> e\<lparr>en_v4 := en_v4 e @ [v4_net p]\<rparr> | _ \<Rightarrow> e\<lparr>en_v6 := en_v6 e @ [p]\<rparr>)"
  have "denied ?e a \<longleftrightarrow> denied e a \<or> prefix_contains p a" by (rule denied_entry [OF ok])
  with Cons p show ?case by auto
qed simp

text \<open>
  C36: The compiled deny list is the one that was written: a request with a known address is turned away by address exactly when that address lies in one of the non-empty entries of the policy, whether the entry was compiled to a single address, to an IPv4 network as integers or to an IPv6 range.
\<close>

theorem compiled_denies:
  assumes "ab_new_engine l p = Inr e"
  shows "(addr_valid a \<and> en_check e \<and> denied e a) \<longleftrightarrow>
    (\<exists>s\<in>set (ap_cidrs p). \<exists>px. trim_space s \<noteq> [] \<and> parse_deny_entry (trim_space s) = Some px \<and> prefix_contains px a)"
proof -
  let ?e0 = "\<lparr>en_mode = ap_mode (ab_normalize l p), en_rps = ap_rps (ab_normalize l p), en_burst = ap_burst (ab_normalize l p),
    en_exact = [], en_v4 = [], en_v6 = [], en_agents = [], en_require = ap_require (ab_normalize l p),
    en_max_retry = max (i64_div (al_max_retry l) second) 1, en_check = False\<rparr>"
  from assms obtain e1 where c: "compile_denies (ap_cidrs (ab_normalize l p)) ?e0 = Inr e1"
    and e: "e = e1\<lparr>en_agents := map to_lower (ap_agents (ab_normalize l p)),
      en_check := (en_exact e1 \<noteq> [] \<or> en_v4 e1 \<noteq> [] \<or> en_v6 e1 \<noteq> [])\<rparr>"
    by (auto simp: ab_new_engine_def Let_def split: if_splits sum.splits)
  have cidrs: "ap_cidrs (ab_normalize l p) = trim_list (ap_cidrs p)" by (simp add: ab_normalize_def Let_def)
  have "denied e a = denied e1 a" and "en_check e \<or> \<not> denied e1 a"
    unfolding e by (auto simp: denied_def split: addr.splits)
  moreover have "addr_valid a" if "prefix_contains px a" for px
    using that by (auto simp: prefix_contains_def addr_valid_def split: addr.splits)
  moreover have "denied ?e0 a = False" by (simp add: denied_def split: addr.splits)
  moreover note compile_denies_denied [OF c, of a]
  ultimately show ?thesis unfolding cidrs trim_list_def by auto
qed

section \<open>The client behind proxies\<close>

lemma go_cut_append:
  "go_cut c xs = Some (a, b) \<Longrightarrow> go_cut c (xs @ ys) = Some (a, b @ ys)"
  by (induction xs arbitrary: a) (auto split: if_splits)

lemma go_cut_None: "go_cut c xs = None \<longleftrightarrow> c \<notin> set xs"
  by (induction xs) auto

lemma last_hop_append:
  "last_hop (junk @ CHR '','' # s) =
     (if CHR '','' \<in> set s then (fst (last_hop s), junk @ CHR '','' # snd (last_hop s)) else (s, junk))"
proof (cases "CHR '','' \<in> set s")
  case True
  then obtain a b where cut: "go_cut CHR '','' (rev s) = Some (a, b)"
    using go_cut_None [of "CHR '',''" "rev s"] by auto
  from go_cut_append [OF cut, of "CHR '','' # rev junk"] cut True show ?thesis
    by (simp add: last_hop_def cut_last_def)
next
  case False
  with go_cut_join [of "CHR '',''" "rev s" "rev junk"] show ?thesis
    by (simp add: last_hop_def cut_last_def)
qed

lemma last_hop_plain: "CHR '','' \<notin> set s \<Longrightarrow> last_hop s = (s, [])"
  using go_cut_None [of "CHR '',''" "rev s"] by (simp add: last_hop_def cut_last_def)

lemma walk_list_Nil [simp]: "walk_list trusted [] c = (c, False)"
  by (simp add: walk_list.simps)

lemma walk_list_step:
  "s \<noteq> [] \<Longrightarrow> last_hop s = (hop, rest) \<Longrightarrow> walk_list trusted s c =
     (case parse_addr (trim_space hop) of
        None \<Rightarrow> (c, True)
      | Some a \<Rightarrow> if \<not> in_ranges (unmap_addr a) trusted then (unmap_addr a, True)
                  else walk_list trusted rest (unmap_addr a))"
  by (subst walk_list.simps) simp

lemma walk_list_junk:
  "walk_list trusted s c = (c', True) \<Longrightarrow> walk_list trusted (junk @ CHR '','' # s) c = (c', True)"
proof (induction "length s" arbitrary: s c rule: less_induct)
  case less
  then have ne: "s \<noteq> []" by auto
  obtain hop rest where hop: "last_hop s = (hop, rest)" by (metis prod.exhaust)
  note short = last_hop_shorter [OF ne hop]
  show ?case
  proof (cases "CHR '','' \<in> set s")
    case True
    then have "last_hop (junk @ CHR '','' # s) = (hop, junk @ CHR '','' # rest)"
      using hop by (simp add: last_hop_append)
    then show ?thesis
      using less(1) [OF short] less(2)
      by (cases "parse_addr (trim_space hop)")
        (auto simp: walk_list_step [OF ne hop] walk_list_step [of "junk @ CHR '','' # s"] split: if_splits)
  next
    case False
    then have "last_hop (junk @ CHR '','' # s) = (hop, junk)" "rest = []"
      using hop last_hop_plain by (auto simp: last_hop_append)
    then show ?thesis
      using less(2)
      by (cases "parse_addr (trim_space hop)")
        (auto simp: walk_list_step [OF ne hop] walk_list_step [of "junk @ CHR '','' # s"] split: if_splits)
  qed
qed

text \<open>A walk that is not over has met trusted hops only.\<close>

lemma walk_list_trusted:
  "walk_list trusted s c = (c', fin) \<Longrightarrow> in_ranges c trusted \<Longrightarrow> \<not> in_ranges c' trusted \<Longrightarrow> fin"
proof (induction "length s" arbitrary: s c rule: less_induct)
  case less
  then have ne: "s \<noteq> []" by auto
  obtain hop rest where hop: "last_hop s = (hop, rest)" by (metis prod.exhaust)
  from less(1) [OF last_hop_shorter [OF ne hop]] less(2-4) show ?case
    by (simp add: walk_list_step [OF ne hop] split: option.splits if_splits)
qed

lemma walk_headers_more:
  assumes "\<not> in_ranges (walk_headers trusted hs c) trusted" and "in_ranges c trusted"
  shows "walk_headers trusted (hs @ extra) c = walk_headers trusted hs c"
  using assms
proof (induction hs arbitrary: c)
  case (Cons h hs)
  obtain c1 fin where walk: "walk_list trusted h c = (c1, fin)" by (metis prod.exhaust)
  with Cons walk_list_trusted [OF walk] show ?case by (cases fin; cases "in_ranges c1 trusted") auto
qed simp

lemma walk_headers_junk:
  assumes "\<not> in_ranges (walk_headers trusted (hs @ [h]) c) trusted" and "in_ranges c trusted"
  shows "walk_headers trusted (hs @ [junk @ CHR '','' # h]) c = walk_headers trusted (hs @ [h]) c"
  using assms
proof (induction hs arbitrary: c)
  case Nil
  obtain c1 fin where walk: "walk_list trusted h c = (c1, fin)" by (metis prod.exhaust)
  then have "\<not> in_ranges c1 trusted" using Nil(1) by (cases fin) simp_all
  with walk_list_trusted [OF walk Nil(2)] walk have "walk_list trusted h c = (c1, True)" by simp
  from walk_list_junk [OF this, of junk] walk show ?case by simp
next
  case (Cons g hs)
  obtain c1 fin where walk: "walk_list trusted g c = (c1, fin)" by (metis prod.exhaust)
  with Cons walk_list_trusted [OF walk] show ?case by (cases fin; cases "in_ranges c1 trusted") auto
qed

text \<open>
  C34: Whatever a client puts at the front of the forwarding chain, in headers before the ones the proxies added or in front of the first of them, the address the request is judged under stays the same once the chain leads to an address that is no trusted proxy.
\<close>

theorem spoofed_hops_ignored:
  assumes "resolve_client remote (hdr # forwarded) trusted = c" and "\<not> in_ranges c trusted"
  shows "resolve_client remote (spoofed @ hdr # forwarded) trusted = c \<and>
    resolve_client remote ((junk @ CHR '','' # hdr) # forwarded) trusted = c"
proof -
  let ?host = "case split_host_port remote of Some (h, _) \<Rightarrow> h | None \<Rightarrow> remote"
  show ?thesis
  proof (cases "parse_addr ?host")
    case None
    with assms show ?thesis by (auto simp: resolve_client_def Let_def)
  next
    case (Some a)
    let ?peer = "unmap_addr a"
    show ?thesis
    proof (cases "trusted = [] \<or> \<not> in_ranges ?peer trusted")
      case True
      with Some assms(1) show ?thesis by (auto simp: resolve_client_def)
    next
      case False
      then have c: "c = walk_headers trusted (rev forwarded @ [hdr]) ?peer" and peer: "in_ranges ?peer trusted"
        using Some assms(1) by (auto simp: resolve_client_def)
      have "walk_headers trusted ((rev forwarded @ [hdr]) @ rev spoofed) ?peer = c"
        using walk_headers_more [OF _ peer, of "rev forwarded @ [hdr]" "rev spoofed"] assms(2) c by simp
      moreover have "walk_headers trusted (rev forwarded @ [junk @ CHR '','' # hdr]) ?peer = c"
        using walk_headers_junk [OF _ peer] assms(2) c by simp
      ultimately show ?thesis using Some False by (simp add: resolve_client_def)
    qed
  qed
qed

section \<open>The user agent\<close>

lemma starts_fold_take: "starts_fold sub s \<longleftrightarrow> take (length sub) (map lower_char s) = sub"
  by (induction sub s rule: starts_fold.induct) auto

lemma contains_sub_Cons:
  "contains_sub (c # s) sub \<longleftrightarrow> take (length sub) (c # s) = sub \<or> contains_sub s sub"
proof -
  have iff: "contains_sub s sub \<longleftrightarrow> (\<exists>i<Suc (length s). take (length sub) (drop i s) = sub)" for s :: string
    unfolding contains_sub_def list_ex_iff by (simp only: set_upt) auto
  show ?thesis unfolding iff [of "c # s"] iff [of s] by (simp only: list.size(4) add_Suc_right add_0_right Ex_less_Suc2) simp
qed

text \<open>The slow path for long headers and the fast path are the same test.\<close>

lemma contains_fold_sub: "contains_fold s sub \<longleftrightarrow> contains_sub (map lower_char s) sub"
proof (induction s)
  case Nil
  then show ?case by (auto simp: contains_sub_def)
next
  case (Cons c s)
  with starts_fold_take [of sub "c # s"] show ?case by (simp add: contains_sub_Cons)
qed

lemma agent_denied_iff: "agent_denied e ua \<longleftrightarrow> (\<exists>a\<in>set (en_agents e). contains_sub (to_lower ua) a)"
  by (auto simp: agent_denied_def contains_fold_sub to_lower_def list_ex_iff)

section \<open>One client's bucket\<close>

text \<open>
  The bound on what one client is granted.  It is stated for a fixed set of clients that share the
  limiter without filling a shard, and for a burst that refills within the idle time, so that a
  swept bucket was full again.
\<close>

definition bucket_of :: "limiter \<Rightarrow> addr \<Rightarrow> client_bucket option" where
  "bucket_of lm a = map_of (sh_clients (lm_shards lm ! shard_index lm a)) a"

definition client_level :: "rat \<Rightarrow> int \<Rightarrow> addr \<Rightarrow> int \<Rightarrow> limiter \<Rightarrow> rat" where
  "client_level rps burst c t lm = cb_tokens (refill_client t rps burst (bucket_of lm c))"

definition bucket_ok :: "int \<Rightarrow> int \<Rightarrow> client_bucket \<Rightarrow> bool" where
  "bucket_ok burst t b \<longleftrightarrow> 0 \<le> cb_tokens b \<and> cb_tokens b \<le> of_int burst \<and> cb_last b \<le> t"

definition shard_clients :: "limiter \<Rightarrow> addr list \<Rightarrow> nat \<Rightarrow> addr set" where
  "shard_clients lm as i = {a \<in> set as. shard_index lm a = i}"

definition shard_ok :: "int \<Rightarrow> int \<Rightarrow> addr set \<Rightarrow> shard \<Rightarrow> bool" where
  "shard_ok burst t keys sh \<longleftrightarrow>
     gm_ok (sh_clients sh) \<and> gm_keys (sh_clients sh) \<subseteq> keys \<and>
     (\<forall>a b. map_of (sh_clients sh) a = Some b \<longrightarrow> bucket_ok burst t b)"

definition limiter_ok :: "rat \<Rightarrow> int \<Rightarrow> addr list \<Rightarrow> int \<Rightarrow> limiter \<Rightarrow> bool" where
  "limiter_ok rps burst as t lm \<longleftrightarrow>
     0 < rps \<and> 0 \<le> burst \<and> of_int burst \<le> rps * seconds (lm_idle lm) \<and>
     (\<forall>a. shard_index lm a < length (lm_shards lm)) \<and>
     (\<forall>i. int (card (shard_clients lm as i)) \<le> lm_per_shard lm) \<and>
     (\<forall>i<length (lm_shards lm). shard_ok burst t (shard_clients lm as i) (lm_shards lm ! i))"

lemma refill_some: "refill_client t rps burst (Some b) =
    \<lparr>cb_tokens = min (cb_tokens b + rps * seconds (t - cb_last b)) (of_int burst), cb_last = t\<rparr>"
  by (simp add: refill_client_def seconds_def second_def mult.commute)

lemma refill_later:
  assumes "t \<le> u" and "0 \<le> rps"
  shows "cb_tokens (refill_client u rps burst b) \<le> cb_tokens (refill_client t rps burst b) + rps * seconds (u - t)"
proof -
  have nn: "0 \<le> rps * seconds (u - t)" using assms by (simp add: seconds_nonneg)
  show ?thesis
  proof (cases b)
    case None
    then show ?thesis using nn by (simp add: refill_client_def)
  next
    case (Some b')
    have "rps * seconds (u - cb_last b') = rps * seconds (t - cb_last b') + rps * seconds (u - t)"
      using seconds_diff [of u t "cb_last b'"] by (simp add: algebra_simps flip: distrib_left)
    with nn show ?thesis by (auto simp: Some refill_some min_def)
  qed
qed

text \<open>A sweep is not visible in the levels.\<close>

lemma gm_lookup_filter:
  "gm_ok m \<Longrightarrow> map_of (filter (\<lambda>(k, b). P b) m) k = (case map_of m k of Some b \<Rightarrow> if P b then Some b else None | None \<Rightarrow> None)"
proof (induction m)
  case (Cons x m)
  obtain k' b where x: "x = (k', b)" by (cases x)
  from Cons.prems x have "gm_ok m" "k' \<notin> gm_keys m" by (auto simp: gm_ok_def)
  moreover from this(2) have "map_of m k' = None" by (simp add: map_of_eq_None_iff)
  ultimately show ?case using Cons.IH x by (auto split: option.splits)
qed simp

lemma sweep_props:
  assumes "gm_ok (sh_clients sh)"
  shows "gm_ok (sh_clients (sweep_shard idle t sh))"
    and "gm_keys (sh_clients (sweep_shard idle t sh)) \<subseteq> gm_keys (sh_clients sh)"
    and "map_of (sh_clients (sweep_shard idle t sh)) a =
      (case map_of (sh_clients sh) a of Some b \<Rightarrow> if t - cb_last b > idle then None else Some b | None \<Rightarrow> None)"
proof -
  have eq: "sh_clients (sweep_shard idle t sh) = filter (\<lambda>(k, b). \<not> t - cb_last b > idle) (sh_clients sh)"
    by (simp add: sweep_shard_def)
  show "gm_keys (sh_clients (sweep_shard idle t sh)) \<subseteq> gm_keys (sh_clients sh)" unfolding eq by auto
  show "gm_ok (sh_clients (sweep_shard idle t sh))"
    using assms unfolding eq gm_ok_def by (induction "sh_clients sh" arbitrary: sh rule: list.induct) (auto simp: distinct_map_filter)
  show "map_of (sh_clients (sweep_shard idle t sh)) a =
      (case map_of (sh_clients sh) a of Some b \<Rightarrow> if t - cb_last b > idle then None else Some b | None \<Rightarrow> None)"
    unfolding eq gm_lookup_filter [OF assms, of "\<lambda>b. \<not> t - cb_last b > idle"] by (simp split: option.splits)
qed

lemma swept_full:
  assumes "bucket_ok burst t b" and "0 < rps" and "of_int burst \<le> rps * seconds idle" and "t - cb_last b > idle"
  shows "cb_tokens (refill_client t rps burst (Some b)) = of_int burst"
proof -
  have "seconds idle \<le> seconds (t - cb_last b)" using assms(4) by (intro seconds_mono) simp
  then have "rps * seconds idle \<le> rps * seconds (t - cb_last b)" using assms(2) by (simp add: mult_left_mono)
  with assms(1,3) show ?thesis by (simp add: refill_some bucket_ok_def)
qed

text \<open>What one request does to the limiter when its shard has room.\<close>

lemma allow_effect:
  assumes ok: "limiter_ok rps burst as t lm" and a: "a \<in> set as" and run: "allow pick t a rps burst lm = ((granted, wait), lm')"
  shows "limiter_ok rps burst as t lm'"
    and "c \<noteq> a \<Longrightarrow> client_level rps burst c t lm' = client_level rps burst c t lm"
    and "client_level rps burst a t lm' = client_level rps burst a t lm - (if granted then 1 else 0)"
    and "granted \<longleftrightarrow> 1 \<le> client_level rps burst a t lm"
proof -
  let ?i = "shard_index lm a"
  let ?sh0 = "lm_shards lm ! ?i"
  define sh where "sh = (if t - sh_last_sweep ?sh0 > lm_sweep lm then sweep_shard (lm_idle lm) t ?sh0 else ?sh0)"
  have rps: "0 < rps" "0 \<le> burst" "of_int burst \<le> rps * seconds (lm_idle lm)" and i: "?i < length (lm_shards lm)"
    and cap: "int (card (shard_clients lm as ?i)) \<le> lm_per_shard lm"
    and shards: "\<And>j. j < length (lm_shards lm) \<Longrightarrow> shard_ok burst t (shard_clients lm as j) (lm_shards lm ! j)"
    using ok unfolding limiter_ok_def by blast+
  note sh_i = shards [OF i, unfolded shard_ok_def]
  note sh0 = sh_i [THEN conjunct1] sh_i [THEN conjunct2, THEN conjunct1] sh_i [THEN conjunct2, THEN conjunct2]
  have sh_ok: "gm_ok (sh_clients sh)" "gm_keys (sh_clients sh) \<subseteq> shard_clients lm as ?i"
    using sh0 sweep_props(1) [OF sh0(1), of "lm_idle lm" t] order_trans [OF sweep_props(2) [OF sh0(1), of "lm_idle lm" t] sh0(2)]
    unfolding sh_def by simp_all
  have look: "map_of (sh_clients sh) x = map_of (sh_clients ?sh0) x \<or>
      map_of (sh_clients sh) x = None \<and> (\<exists>b. map_of (sh_clients ?sh0) x = Some b \<and> t - cb_last b > lm_idle lm)" for x
    using sweep_props(3) [OF sh0(1), of "lm_idle lm" t x] unfolding sh_def by (auto split: option.splits)
  have same: "cb_tokens (refill_client t rps burst (map_of (sh_clients sh) x)) = cb_tokens (refill_client t rps burst (map_of (sh_clients ?sh0) x))" for x
    using look [of x] swept_full [OF _ rps(1,3)] sh0(3) by (auto simp: refill_client_def)
  have room: "\<not> (map_of (sh_clients sh) a = None \<and> int (length (sh_clients sh)) \<ge> lm_per_shard lm)"
  proof
    assume full: "map_of (sh_clients sh) a = None \<and> int (length (sh_clients sh)) \<ge> lm_per_shard lm"
    then have "a \<notin> gm_keys (sh_clients sh)" by (simp add: map_of_eq_None_iff)
    moreover have "a \<in> shard_clients lm as ?i" using a by (simp add: shard_clients_def)
    ultimately have "gm_keys (sh_clients sh) \<subset> shard_clients lm as ?i" using sh_ok(2) by auto
    moreover have "finite (shard_clients lm as ?i)" by (simp add: shard_clients_def)
    ultimately have "card (gm_keys (sh_clients sh)) < card (shard_clients lm as ?i)" by (simp add: psubset_card_mono)
    moreover have "card (gm_keys (sh_clients sh)) = length (sh_clients sh)"
      using sh_ok(1) distinct_card [of "map fst (sh_clients sh)"] by (simp add: gm_ok_def)
    ultimately show False using full cap by linarith
  qed
  define b where "b = refill_client t rps burst (map_of (sh_clients sh) a)"
  define b' where "b' = (if cb_tokens b \<ge> 1 then b\<lparr>cb_tokens := cb_tokens b - 1\<rparr> else b)"
  define sh' where "sh' = sh\<lparr>sh_clients := AList.update a b' (sh_clients sh)\<rparr>"
  have lm': "lm' = lm\<lparr>lm_shards := (lm_shards lm)[?i := sh']\<rparr>" and granted: "granted \<longleftrightarrow> cb_tokens b \<ge> 1"
    using run room unfolding sh'_def b'_def b_def allow_def Let_def sh_def [symmetric] by (auto split: if_splits)
  have index: "shard_index lm' = shard_index lm" by (simp add: lm' shard_index_def fun_eq_iff)
  have level: "client_level rps burst a t lm = cb_tokens b"
    using same [of a] by (simp add: client_level_def bucket_of_def b_def)
  show grant: "granted \<longleftrightarrow> 1 \<le> client_level rps burst a t lm" by (simp add: granted level)
  have b_ok: "bucket_ok burst t b" and last: "cb_last b = t"
  proof -
    have "bucket_ok burst t x" if "map_of (sh_clients sh) a = Some x" for x using look [of a] that sh0(3) by auto
    moreover have "0 \<le> rps * seconds (t - cb_last x)" if "bucket_ok burst t x" for x
      using that rps(1) by (simp add: bucket_ok_def seconds_nonneg)
    ultimately show "bucket_ok burst t b"
      using rps(2) unfolding b_def
      by (cases "map_of (sh_clients sh) a") (simp add: refill_client_def bucket_ok_def, auto simp: refill_some, auto simp: bucket_ok_def)
    show "cb_last b = t" by (simp add: b_def refill_client_def split: option.splits)
  qed
  have b'_ok: "bucket_ok burst t b'" "cb_last b' = t" "cb_tokens b' = cb_tokens b - (if granted then 1 else 0)"
    using b_ok last by (auto simp: b'_def bucket_ok_def granted)
  have bucket': "bucket_of lm' x = (if x = a then Some b' else if shard_index lm x = ?i then map_of (sh_clients sh) x else bucket_of lm x)" for x
    using i by (simp add: bucket_of_def index) (simp add: lm' sh'_def)
  show "client_level rps burst c t lm' = client_level rps burst c t lm" if "c \<noteq> a"
    using that same [of c] by (simp add: client_level_def bucket') (simp add: bucket_of_def)
  have "cb_tokens (refill_client t rps burst (Some b')) = cb_tokens b'"
    using b'_ok(1,2) by (simp add: refill_some) (simp add: bucket_ok_def seconds_def)
  then show "client_level rps burst a t lm' = client_level rps burst a t lm - (if granted then 1 else 0)"
    unfolding level by (simp add: client_level_def bucket' b'_ok(3))
  have clients: "shard_clients lm' as = shard_clients lm as" by (simp add: shard_clients_def index fun_eq_iff)
  have sh'_ok: "shard_ok burst t (shard_clients lm as ?i) sh'"
    unfolding shard_ok_def
  proof (intro conjI allI impI)
    show "gm_ok (sh_clients sh')" using sh_ok(1) by (simp add: sh'_def gm_ok_update)
    show "gm_keys (sh_clients sh') \<subseteq> shard_clients lm as ?i"
    proof -
      have "sh_clients sh' = AList.update a b' (sh_clients sh)" by (simp add: sh'_def)
      then have "gm_keys (sh_clients sh') = insert a (gm_keys (sh_clients sh))" by (simp only: gm_keys_update)
      then show ?thesis using sh_ok(2) a by (simp add: shard_clients_def)
    qed
    show "bucket_ok burst t y" if "map_of (sh_clients sh') x = Some y" for x y
      using that b'_ok(1) look [of x] sh0(3) by (auto simp: sh'_def split: if_splits)
  qed
  have each: "shard_ok burst t (shard_clients lm as j) (lm_shards lm' ! j)" if "j < length (lm_shards lm')" for j
    using sh'_ok shards [of j] that by (cases "j = ?i") (simp_all add: lm')
  have rest: "lm_idle lm' = lm_idle lm" "lm_per_shard lm' = lm_per_shard lm" "length (lm_shards lm') = length (lm_shards lm)"
    by (simp_all add: lm')
  show "limiter_ok rps burst as t lm'"
    using ok each unfolding limiter_ok_def clients index rest by blast
qed

text \<open>The contract of a token bucket, for one client among those that share the limiter.\<close>

definition client_take :: "rat \<Rightarrow> int \<Rightarrow> addr list \<Rightarrow> addr \<Rightarrow> nat \<times> addr \<Rightarrow> int \<Rightarrow> limiter \<Rightarrow> bool \<times> limiter" where
  "client_take rps burst as c r t lm =
     (case r of (pick, a) \<Rightarrow>
        if a \<in> set as then (case allow pick t a rps burst lm of ((ok, _), lm') \<Rightarrow> (a = c \<and> ok, lm')) else (False, lm))"

lemma client_take_cases:
  assumes "client_take rps burst as c r t lm = (ok, lm')"
  obtains (other) "\<not> ok" "lm' = lm"
    | (served) pick a granted wait where "r = (pick, a)" "a \<in> set as" "allow pick t a rps burst lm = ((granted, wait), lm')"
        "ok \<longleftrightarrow> a = c \<and> granted"
  using assms by (cases r) (auto simp: client_take_def split: if_splits prod.splits)

lemma client_take_props:
  assumes ok: "limiter_ok rps burst as t lm" and run: "client_take rps burst as c r t lm = (granted, lm')"
  shows "limiter_ok rps burst as t lm'"
    and "client_level rps burst c t lm' \<le> client_level rps burst c t lm - (if granted then 1 else 0)"
    and "granted \<Longrightarrow> 0 \<le> client_level rps burst c t lm'"
proof -
  have "limiter_ok rps burst as t lm' \<and>
      client_level rps burst c t lm' \<le> client_level rps burst c t lm - (if granted then 1 else 0) \<and>
      (granted \<longrightarrow> 0 \<le> client_level rps burst c t lm')"
    using run
  proof (cases rule: client_take_cases)
    case other
    with ok show ?thesis by simp
  next
    case (served pick a g wait)
    note eff = allow_effect [OF ok served(2,3)]
    show ?thesis
    proof (cases "a = c")
      case True
      with eff served(4) show ?thesis by auto
    next
      case False
      with eff(1) eff(2) [of c] served(4) show ?thesis by simp
    qed
  qed
  then show "limiter_ok rps burst as t lm'"
    "client_level rps burst c t lm' \<le> client_level rps burst c t lm - (if granted then 1 else 0)"
    "granted \<Longrightarrow> 0 \<le> client_level rps burst c t lm'" by simp_all
qed

lemma bucket_ok_later: "bucket_ok burst t b \<Longrightarrow> t \<le> u \<Longrightarrow> bucket_ok burst u b"
  by (simp add: bucket_ok_def)

lemma shard_ok_later: "shard_ok burst t keys sh \<Longrightarrow> t \<le> u \<Longrightarrow> shard_ok burst u keys sh"
  unfolding shard_ok_def using bucket_ok_later [of burst t _ u] by simp

lemma limiter_ok_later: "limiter_ok rps burst as t lm \<Longrightarrow> t \<le> u \<Longrightarrow> limiter_ok rps burst as u lm"
  unfolding limiter_ok_def using shard_ok_later [of _ t _ _ u] by blast

interpretation client: rate_limited "client_take rps burst as c" "client_level rps burst c" "\<lambda>_. of_int burst"
  "\<lambda>_. rps" "limiter_ok rps burst as" for rps burst as c
proof (standard, goal_cases)
  case (1 t s)
  then show ?case by (simp add: limiter_ok_def)
next
  case (2 t s)
  then show ?case by (simp add: client_level_def refill_client_def split: option.splits)
next
  case (3 t s u)
  then show ?case by (rule limiter_ok_later)
next
  case (4 t s u)
  then show ?case unfolding client_level_def by (intro refill_later) (auto simp: limiter_ok_def)
next
  case (5 t s r ok s')
  then show ?case by (rule client_take_props(1))
next
  case (7 t s r ok s')
  then show ?case by (rule client_take_props(2))
next
  case (8 t s r s')
  then show ?case by (rule client_take_props(3)) simp
qed simp

text \<open>The requests of a client that a history of requests grants.\<close>

fun grants_to :: "addr \<Rightarrow> rat \<Rightarrow> int \<Rightarrow> (nat \<times> addr \<times> int) list \<Rightarrow> limiter \<Rightarrow> nat" where
  "grants_to c rps burst [] lm = 0"
| "grants_to c rps burst ((pick, a, t) # rs) lm =
     (case allow pick t a rps burst lm of
        ((ok, _), lm') \<Rightarrow> (if a = c \<and> ok then 1 else 0) + grants_to c rps burst rs lm')"

lemma client_take_in:
  "a \<in> set as \<Longrightarrow> client_take rps burst as c (pick, a) t lm =
     (case allow pick t a rps burst lm of ((ok, _), lm') \<Rightarrow> (a = c \<and> ok, lm'))"
  by (simp add: client_take_def)

lemma grants_admitted:
  "\<forall>(pick, a, t)\<in>set rs. a \<in> set as \<Longrightarrow>
    grants_to c rps burst rs lm =
    rate_limited.admitted (client_take rps burst as c) (map (\<lambda>(pick, a, t). ((pick, a), t)) rs) lm"
proof (induction rs arbitrary: lm)
  case Nil
  then show ?case by (simp add: client.admitted.simps)
next
  case (Cons r rs)
  obtain pick a t where r: "r = (pick, a, t)" by (metis prod.exhaust)
  obtain ok wait lm' where run: "allow pick t a rps burst lm = ((ok, wait), lm')" by (metis prod.exhaust)
  have "a \<in> set as" and "\<forall>(pick, a, t)\<in>set rs. a \<in> set as" using Cons.prems r by auto
  with Cons.IH [of lm'] run client_take_in [of a as] show ?case by (auto simp: r client.admitted.simps)
qed

lemma round_pow2_range: "0 < n \<Longrightarrow> n \<le> round_pow2 n m \<and> round_pow2 n m \<le> max n (2 * m)"
proof (induction n m rule: round_pow2.induct)
  case (1 n m)
  then show ?case by (subst (1 2) round_pow2.simps) auto
qed

lemma new_limiter_ok:
  assumes "0 < rps" and "0 \<le> burst" and "of_int burst \<le> rps * seconds idle" and "k \<le> 2 ^ 62"
    and "\<forall>i. int (card (shard_clients (new_limiter n k idle) as i)) \<le> lm_per_shard (new_limiter n k idle)"
  shows "limiter_ok rps burst as t (new_limiter n k idle)"
proof -
  let ?n = "round_pow2 1 (max k 1)"
  have n: "1 \<le> ?n" "?n \<le> 2 ^ 63" using round_pow2_range [of 1 "max k 1"] assms(4) by auto
  have "unat (hash_addr a AND word_of_int (?n - 1)) < nat ?n" for a
  proof -
    have "uint (word_of_int (?n - 1) :: u64) = ?n - 1"
      using n by (subst uint_word_of_int) simp
    moreover have "hash_addr a AND word_of_int (?n - 1) \<le> (word_of_int (?n - 1) :: u64)" by (rule word_and_le1)
    ultimately have "uint (hash_addr a AND word_of_int (?n - 1)) \<le> ?n - 1" by (simp add: word_le_def)
    then show ?thesis using n unfolding unat_eq_nat_uint zless_nat_conj by linarith
  qed
  then have "\<forall>a. shard_index (new_limiter n k idle) a < length (lm_shards (new_limiter n k idle))"
    by (simp add: new_limiter_def Let_def shard_index_def)
  with assms show ?thesis unfolding limiter_ok_def
    by (auto simp: new_limiter_def Let_def gm_ok_def shard_ok_def)
qed


text \<open>
  Without the burst condition the bound fails: a slow client that empties a large bucket finds it
  full again once it has been swept.
\<close>

definition slow_history :: "(nat \<times> addr \<times> int) list" where
  "slow_history = [(0, V4 1, 0), (0, V4 1, 0), (0, V4 1, 301 * second), (0, V4 1, 301 * second)]"

lemma slow_client_refilled:
  "grants_to (V4 1) (1 / 1000) 2 slow_history (new_limiter 1000 1 (300 * second)) = 4"
proof -
  define st where "st cl sw = \<lparr>lm_shards = [\<lparr>sh_clients = cl, sh_last_sweep = sw\<rparr>], lm_mask = 0, lm_per_shard = 1000,
    lm_idle = 300 * second, lm_sweep = 75 * second, lm_evicted = 0\<rparr>" for cl sw
  have idx: "shard_index (st cl sw) a = 0" for cl sw a by (simp add: st_def shard_index_def)
  have sh: "lm_shards (st cl sw) = [\<lparr>sh_clients = cl, sh_last_sweep = sw\<rparr>]" "lm_idle (st cl sw) = 300 * second"
    "lm_sweep (st cl sw) = 75 * second" "lm_per_shard (st cl sw) = 1000" for cl sw
    by (simp_all add: st_def)
  have step: "allow 0 t (V4 1) (1 / 1000) 2 (st cl sw) =
      ((True, 0), st (AList.update (V4 1) (b\<lparr>cb_tokens := cb_tokens b - 1\<rparr>) cl1) (if t - sw > 75 * second then t else sw))"
    if "cl1 = (if t - sw > 75 * second then filter (\<lambda>(k, b). \<not> t - cb_last b > 300 * second) cl else cl)"
      and "b = refill_client t (1 / 1000) 2 (map_of cl1 (V4 1))" and "length cl1 < 1000" and "1 \<le> cb_tokens b" for t cl sw cl1 b
  proof -
    have "(if t - sw > 75 * second then sweep_shard (300 * second) t \<lparr>sh_clients = cl, sh_last_sweep = sw\<rparr>
        else \<lparr>sh_clients = cl, sh_last_sweep = sw\<rparr>) =
      \<lparr>sh_clients = cl1, sh_last_sweep = (if t - sw > 75 * second then t else sw)\<rparr>"
      by (simp add: that(1) sweep_shard_def)
    note eq = this
    have room: "\<not> 1000 \<le> int (length cl1)" using that(3) by simp
    show ?thesis
      unfolding allow_def Let_def idx sh nth_Cons_0 shard.select_convs eq that(2)[symmetric]
      using that(4) room by (simp add: st_def that(2))
  qed
  have one: "round_pow2 1 1 = 1" by (subst round_pow2.simps) simp
  have "new_limiter 1000 1 (300 * second) = st [] 0"
    by (simp add: new_limiter_def Let_def one st_def second_def signed_divide_int_def)
  then show ?thesis by (simp add: slow_history_def step [OF refl refl] refill_client_def second_def)
qed

section \<open>Counting\<close>

lemma map2_add_commute: "map2 (+) xs ys = map2 (+) ys (xs :: 'a::ab_semigroup_add list)"
  by (induction xs ys rule: list_induct2') (auto simp: add.commute)

lemma map2_add_assoc: "map2 (+) (map2 (+) xs ys) zs = map2 (+) xs (map2 (+) ys (zs :: 'a::ab_semigroup_add list))"
proof (induction xs arbitrary: ys zs)
  case (Cons x xs)
  then show ?case by (cases ys; cases zs) (auto simp: add.assoc)
qed simp

lemma tallies_add_commute: "tallies_add s t = tallies_add t s"
  by (simp add: tallies_add_def add.commute map2_add_commute)

lemma tallies_add_assoc: "tallies_add (tallies_add s t) u = tallies_add s (tallies_add t u)"
  by (simp add: tallies_add_def add.assoc map2_add_assoc)

lemma foldl_tallies: "foldl tallies_add (tallies_add s t) cs = tallies_add (foldl tallies_add s cs) t"
proof (induction cs arbitrary: s)
  case (Cons c cs)
  have "tallies_add (tallies_add s t) c = tallies_add (tallies_add s c) t"
    by (metis tallies_add_assoc tallies_add_commute)
  with Cons show ?case by simp
qed simp

lemma foldl_tallies_update:
  assumes "i < length cs"
  shows "foldl tallies_add z (cs[i := tallies_add (cs ! i) d]) = tallies_add (foldl tallies_add z cs) d"
proof -
  let ?pre = "foldl tallies_add z (take i cs)"
  have "foldl tallies_add z (cs[i := tallies_add (cs ! i) d]) =
      foldl tallies_add (tallies_add ?pre (tallies_add (cs ! i) d)) (drop (Suc i) cs)"
    using assms by (simp add: upd_conv_take_nth_drop)
  also have "\<dots> = foldl tallies_add (tallies_add (tallies_add ?pre (cs ! i)) d) (drop (Suc i) cs)"
    by (simp add: tallies_add_assoc)
  also have "\<dots> = tallies_add (foldl tallies_add (tallies_add ?pre (cs ! i)) (drop (Suc i) cs)) d"
    by (rule foldl_tallies)
  also have "foldl tallies_add (tallies_add ?pre (cs ! i)) (drop (Suc i) cs) = foldl tallies_add z cs"
    using assms by (subst (2) id_take_nth_drop [of i cs]) simp_all
  finally show ?thesis .
qed

definition tally_ok :: "tallies \<Rightarrow> bool" where
  "tally_ok t \<longleftrightarrow> length (ta_would t) = 4 \<and> length (ta_blocked t) = 4"

definition unit_at :: "nat \<Rightarrow> u64 list" where
  "unit_at i = (replicate 4 0)[i := 1]"

definition reasons :: "block_reason list" where
  "reasons = [Vr_rate, Vr_cidr, Vr_agent, Vr_missing]"

text \<open>What one decision adds to the counters.\<close>

definition tally_of :: "ab_decision \<Rightarrow> tallies" where
  "tally_of d =
     (case d of
        Let_through \<Rightarrow> zero_tallies\<lparr>ta_allowed := 1\<rparr>
      | Would_block r \<Rightarrow> zero_tallies\<lparr>ta_would := unit_at (reason_index r)\<rparr>
      | Blocked r _ \<Rightarrow> zero_tallies\<lparr>ta_blocked := unit_at (reason_index r)\<rparr>)"

lemma four_cases: "length xs = 4 \<Longrightarrow> \<exists>a b c d. xs = [a, b, c, d]"
  by (cases xs; cases "tl xs"; cases "tl (tl xs)"; cases "tl (tl (tl xs))"; cases "tl (tl (tl (tl xs)))") auto

lemma map2_zero: "length xs = 4 \<Longrightarrow> map2 (+) xs (replicate 4 (0 :: u64)) = xs"
  using four_cases [of xs] by (auto simp: numeral_eq_Suc)

lemma map2_unit: "length xs = 4 \<Longrightarrow> map2 (+) xs (unit_at (reason_index r)) = xs[reason_index r := xs ! reason_index r + 1]"
  using four_cases [of xs] by (cases r) (auto simp: unit_at_def reason_index_def numeral_eq_Suc)

lemma count_add:
  assumes "tally_ok t"
  shows "t\<lparr>ta_allowed := ta_allowed t + 1\<rparr> = tallies_add t (tally_of Let_through)"
    and "t\<lparr>ta_would := (ta_would t)[reason_index r := ta_would t ! reason_index r + 1]\<rparr> = tallies_add t (tally_of (Would_block r))"
    and "t\<lparr>ta_blocked := (ta_blocked t)[reason_index r := ta_blocked t ! reason_index r + 1]\<rparr> = tallies_add t (tally_of (Blocked r n))"
  using assms by (simp_all add: tally_ok_def tallies_add_def tally_of_def zero_tallies_def map2_zero map2_unit)

lemma tally_ok_add: "tally_ok t \<Longrightarrow> tally_ok (tallies_add t (tally_of d))"
  by (cases d) (simp_all add: tally_ok_def tallies_add_def tally_of_def zero_tallies_def unit_at_def)

definition counters_ok :: "counters \<Rightarrow> bool" where
  "counters_ok cs \<longleftrightarrow> length cs = 16 \<and> (\<forall>t\<in>set cs. tally_ok t)"

lemma stripe_in: "unat (h AND 15 :: u64) < 16"
proof -
  have "h AND 15 \<le> (15 :: u64)" by (rule word_and_le1)
  then show ?thesis by (simp add: word_le_nat_alt)
qed

lemma decide_counts:
  assumes "en_mode e = ''log_only'' \<or> en_mode e = ''enforce''" and "counters_ok cs"
    and "ab_decide e pick now client ua (lm, cs) = (d, lm', cs')"
  shows "\<exists>i<16. cs' = cs[i := tallies_add (cs ! i) (tally_of d)]"
proof -
  define h where "h = (if addr_valid client then hash_addr client else 0)"
  let ?i = "unat (h AND 15)"
  have i: "?i < 16" by (rule stripe_in)
  have all: "tally_ok (cs ! j)" if "j < 16" for j using assms(2) that by (simp add: counters_ok_def)
  note add = count_add(1) [OF all] count_add(2) [OF all]
  obtain v lm1 where v: "violation e pick now client ua lm = (v, lm1)" by (metis prod.exhaust)
  have "cs' = cs[?i := tallies_add (cs ! ?i) (tally_of d)]"
  proof (cases v)
    case None
    with assms(1,3) v h_def show ?thesis by (auto simp: ab_decide_def Let_def count_at_def add stripe_in)
  next
    case (Some rr)
    obtain r n where rr: "rr = (r, n)" by (cases rr)
    with assms(1,3) v h_def Some show ?thesis
      by (auto simp: ab_decide_def Let_def count_at_def add count_add(3) [OF all, where n = n] stripe_in split: if_splits)
  qed
  with i show ?thesis by blast
qed

text \<open>A run of requests through one engine.\<close>

fun run_engine :: "ab_engine \<Rightarrow> (nat \<times> int \<times> addr \<times> string) list \<Rightarrow> limiter \<times> counters \<Rightarrow> ab_decision list \<times> limiter \<times> counters" where
  "run_engine e [] st = ([], st)"
| "run_engine e ((pick, now, client, ua) # rs) st =
     (let (d, st) = ab_decide e pick now client ua st; (ds, st) = run_engine e rs st in (d # ds, st))"

lemma run_engine_counts:
  assumes "en_mode e = ''log_only'' \<or> en_mode e = ''enforce''"
  shows "counters_ok cs \<Longrightarrow> run_engine e rs (lm, cs) = (ds, lm', cs') \<Longrightarrow>
    counters_ok cs' \<and> foldl tallies_add z cs' = foldl tallies_add (foldl tallies_add z cs) (map tally_of ds)"
proof (induction rs arbitrary: lm cs ds)
  case (Cons r rs)
  obtain pick now client ua where r: "r = (pick, now, client, ua)" by (metis prod.exhaust)
  obtain d lm1 cs1 where d: "ab_decide e pick now client ua (lm, cs) = (d, lm1, cs1)" by (metis prod.exhaust)
  obtain ds1 where rest: "run_engine e rs (lm1, cs1) = (ds1, lm', cs')" and ds: "ds = d # ds1"
    using Cons.prems(2) r d by (auto split: prod.splits)
  obtain i where i: "i < 16" and cs1: "cs1 = cs[i := tallies_add (cs ! i) (tally_of d)]"
    using decide_counts [OF assms Cons.prems(1) d] by blast
  have ok: "counters_ok cs1"
    using Cons.prems(1) i tally_ok_add unfolding cs1 counters_ok_def by (auto dest!: set_update_subset_insert [THEN subsetD])
  have "foldl tallies_add z cs1 = tallies_add (foldl tallies_add z cs) (tally_of d)"
    unfolding cs1 using Cons.prems(1) i by (intro foldl_tallies_update) (simp add: counters_ok_def)
  with Cons.IH [OF ok rest] show ?case by (simp add: ds)
qed simp

definition counted :: "tallies \<Rightarrow> ab_decision list \<Rightarrow> tallies" where
  "counted z ds =
     \<lparr>ta_allowed = ta_allowed z + of_nat (length (filter (\<lambda>d. d = Let_through) ds)),
      ta_would = map2 (+) (ta_would z) (map (\<lambda>r. of_nat (length (filter (\<lambda>d. d = Would_block r) ds))) reasons),
      ta_blocked = map2 (+) (ta_blocked z) (map (\<lambda>r. of_nat (length (filter (\<lambda>d. \<exists>n. d = Blocked r n) ds))) reasons),
      ta_fail_open = ta_fail_open z\<rparr>"

lemma counted_step:
  assumes "tally_ok z"
  shows "counted (tallies_add z (tally_of d)) ds = counted z (d # ds)"
proof -
  obtain w1 w2 w3 w4 where w: "ta_would z = [w1, w2, w3, w4]" using assms four_cases [of "ta_would z"] by (auto simp: tally_ok_def)
  obtain b1 b2 b3 b4 where b: "ta_blocked z = [b1, b2, b3, b4]" using assms four_cases [of "ta_blocked z"] by (auto simp: tally_ok_def)
  note defs = counted_def tallies_add_def tally_of_def zero_tallies_def reasons_def w b numeral_eq_Suc
  show ?thesis
  proof (cases d)
    case (Would_block r)
    then show ?thesis by (cases r) (simp_all add: defs unit_at_def reason_index_def)
  next
    case (Blocked r n)
    then show ?thesis by (cases r) (simp_all add: defs unit_at_def reason_index_def)
  qed (simp add: defs)
qed

lemma foldl_tally_of: "tally_ok z \<Longrightarrow> foldl tallies_add z (map tally_of ds) = counted z ds"
proof (induction ds arbitrary: z)
  case Nil
  have "map (\<lambda>r. of_nat (length [])) reasons = replicate 4 (0 :: u64)" by (simp add: reasons_def numeral_eq_Suc)
  with Nil show ?case by (simp add: counted_def tally_ok_def map2_zero)
next
  case (Cons d ds)
  with tally_ok_add counted_step show ?case by simp
qed

lemma counted_zero:
  "counted zero_tallies ds =
     \<lparr>ta_allowed = of_nat (length (filter (\<lambda>d. d = Let_through) ds)),
      ta_would = map (\<lambda>r. of_nat (length (filter (\<lambda>d. d = Would_block r) ds))) reasons,
      ta_blocked = map (\<lambda>r. of_nat (length (filter (\<lambda>d. \<exists>n. d = Blocked r n) ds))) reasons,
      ta_fail_open = 0\<rparr>"
  by (simp add: counted_def zero_tallies_def reasons_def numeral_eq_Suc)

lemma tally_ok_zero: "tally_ok zero_tallies"
  by (simp add: tally_ok_def zero_tallies_def)

lemma new_counters_zero: "counters_ok new_counters" "foldl tallies_add zero_tallies new_counters = zero_tallies"
proof -
  have "tallies_add zero_tallies zero_tallies = zero_tallies"
    by (simp add: tallies_add_def zero_tallies_def numeral_eq_Suc)
  then have "foldl tallies_add zero_tallies (replicate n zero_tallies) = zero_tallies" for n by (induction n) simp_all
  then show "foldl tallies_add zero_tallies new_counters = zero_tallies" by (simp only: new_counters_def)
  show "counters_ok new_counters" by (simp add: counters_ok_def new_counters_def tally_ok_zero)
qed

text \<open>
  Draining the counters after any run of an active engine gives, for the requests let through and for every reason in either mode, how many decisions were of that kind (as 64-bit numbers), and leaves the counters at zero.
\<close>

theorem every_request_counted:
  assumes "en_mode e = ''log_only'' \<or> en_mode e = ''enforce''" and "run_engine e rs (lm, new_counters) = (ds, lm', cs)"
  shows "fst (drain cs) =
      \<lparr>ta_allowed = of_nat (length (filter (\<lambda>d. d = Let_through) ds)),
       ta_would = map (\<lambda>r. of_nat (length (filter (\<lambda>d. d = Would_block r) ds))) reasons,
       ta_blocked = map (\<lambda>r. of_nat (length (filter (\<lambda>d. \<exists>n. d = Blocked r n) ds))) reasons,
       ta_fail_open = 0\<rparr> \<and> snd (drain cs) = new_counters"
proof -
  from run_engine_counts [OF assms(1) new_counters_zero(1) assms(2), of zero_tallies] new_counters_zero(2)
  have ok: "counters_ok cs" and sum: "foldl tallies_add zero_tallies cs = counted zero_tallies ds"
    using foldl_tally_of [OF tally_ok_zero] by simp_all
  have "snd (drain cs) = new_counters"
    using ok by (simp add: drain_def counters_ok_def new_counters_def map_replicate_const)
  with sum show ?thesis by (simp add: drain_def counted_zero)
qed

text \<open>A policy that only logs turns nobody away.\<close>

lemma log_only_lets_through:
  "en_mode e = ''log_only'' \<Longrightarrow> fst (ab_decide e pick now client ua st) \<noteq> Blocked r n"
  by (auto simp: ab_decide_def Let_def split: prod.splits option.splits)

definition demo_policy :: ab_policy where
  "demo_policy = \<lparr>ap_mode = ''enforce'', ap_rps = 0, ap_burst = 0, ap_cidrs = ['' 10.0.0.0/8 '', ''192.0.2.7''],
     ap_agents = [''BadBot''], ap_require = True\<rparr>"

definition demo_engine :: ab_engine where
  "demo_engine = (case ab_new_engine ab_default_limits demo_policy of Inr e \<Rightarrow> e)"

lemma demo_engine_built: "ab_new_engine ab_default_limits demo_policy = Inr demo_engine"
  by code_simp

lemma compiled_denies_witness:
  "(addr_valid (V4 0x0a000001) \<and> en_check demo_engine \<and> denied demo_engine (V4 0x0a000001)) \<longleftrightarrow>
    (\<exists>s\<in>set (ap_cidrs demo_policy). \<exists>px. trim_space s \<noteq> [] \<and> parse_deny_entry (trim_space s) = Some px \<and>
      prefix_contains px (V4 0x0a000001))"
  by (rule compiled_denies [OF demo_engine_built])

definition demo_trusted :: "prefix list" where
  "demo_trusted = [prefix_from (V4 0x0a000000) 8]"

lemma spoofed_hops_ignored_witness:
  "resolve_client ''10.0.0.5:4000'' ([''6.6.6.6''] @ ''198.51.100.2, 10.0.0.9'' # []) demo_trusted = V4 0xc6336402 \<and>
   resolve_client ''10.0.0.5:4000'' ((''6.6.6.6'' @ CHR '','' # ''198.51.100.2, 10.0.0.9'') # []) demo_trusted = V4 0xc6336402"
proof (rule spoofed_hops_ignored)
  show "resolve_client ''10.0.0.5:4000'' (''198.51.100.2, 10.0.0.9'' # []) demo_trusted = V4 0xc6336402" by code_simp
  show "\<not> in_ranges (V4 0xc6336402) demo_trusted" by code_simp
qed


lemma every_request_counted_witness:
  "case run_engine demo_engine [(0, 0, No_addr, []), (0, 0, No_addr, ''BadBot/1''), (0, 0, No_addr, ''curl'')]
          (new_limiter 8 1 minute, new_counters) of
     (ds, lm, cs) \<Rightarrow> ds = [Blocked Vr_missing 0, Blocked Vr_agent 0, Let_through] \<and> ta_allowed (fst (drain cs)) = 1"
proof -
  let ?rs = "[(0 :: nat, 0 :: int, No_addr, []), (0, 0, No_addr, ''BadBot/1''), (0, 0, No_addr, ''curl'')]"
  obtain ds lm cs where run: "run_engine demo_engine ?rs (new_limiter 8 1 minute, new_counters) = (ds, lm, cs)"
    by (metis prod.exhaust)
  have "fst (run_engine demo_engine ?rs (new_limiter 8 1 minute, new_counters)) = [Blocked Vr_missing 0, Blocked Vr_agent 0, Let_through]"
    by code_simp
  then have ds: "ds = [Blocked Vr_missing 0, Blocked Vr_agent 0, Let_through]" using run by simp
  have "en_mode demo_engine = ''enforce''" by code_simp
  then have "ta_allowed (fst (drain cs)) = of_nat (length (filter (\<lambda>d. d = Let_through) ds))"
    using every_request_counted [OF _ run] by simp
  then have "ta_allowed (fst (drain cs)) = 1" by (simp add: ds)
  then show ?thesis unfolding run by (simp add: ds)
qed

end
