(* ===== verification/Fwrules.thy ===== *)
theory Fwrules
  imports Abuse
begin

text \<open>
  The rules of the ingress firewall: \<open>internal/edgefw/rule.go\<close> (a rule, its normal form and its
  validation, the entries of the IP lists) and \<open>match.go\<close> (compiled conditions, globs, the raw
  query), with what they use of \<open>internal/trafficpolicy/geo.go\<close>.

  Actions, fields and operators are Go strings of named types, and stay strings.  Texts are byte
  strings and case folding is that of ASCII.  Problems found in a rule are constructors instead of
  formatted messages, with the index of the condition they are about.  The creation and update times of a
  rule, which nothing here reads, are left out.
\<close>

section \<open>Rules\<close>

record fw_condition =
  cd_field :: string
  cd_op :: string
  cd_name :: string
  cd_value :: string

record fw_rule =
  fr_id :: string
  fr_name :: string
  fr_note :: string
  fr_scope :: string
  fr_enabled :: bool
  fr_position :: int
  fr_conds :: "fw_condition list"
  fr_action :: string
  fr_rate_count :: int
  fr_rate_window :: int

text \<open>The operators of each field.\<close>

definition field_ops :: "string \<Rightarrow> string list option" where
  "field_ops = map_of
     [(''path'', [''equals'', ''starts_with'', ''contains'', ''glob'']),
      (''host'', [''equals'', ''contains'', ''glob'']),
      (''method'', [''equals'']),
      (''header'', [''equals'', ''starts_with'', ''contains'', ''glob'', ''exists'']),
      (''query'', [''equals'', ''starts_with'', ''contains'', ''exists'']),
      (''user_agent'', [''equals'', ''starts_with'', ''contains'', ''glob'']),
      (''ip'', [''in_cidr'']),
      (''country'', [''equals''])]"

definition ip_list :: "fw_rule \<Rightarrow> string \<times> bool" where
  "ip_list r =
     (if length (fr_conds r) = 1 \<and> cd_field (fr_conds r ! 0) = ''ip'' \<and> fr_action r \<in> {''deny'', ''allow''}
      then (fr_action r, True) else ([], False))"

definition upper_char :: "char \<Rightarrow> char" where
  "upper_char c = (if CHR ''a'' \<le> c \<and> c \<le> CHR ''z'' then char_of (of_char c - 32 :: nat) else c)"

definition to_upper :: "string \<Rightarrow> string" where
  "to_upper s = map upper_char s"

definition normalize_condition :: "fw_condition \<Rightarrow> fw_condition" where
  "normalize_condition c =
     (let c = c\<lparr>cd_name := trim_space (cd_name c), cd_value := trim_space (cd_value c)\<rparr>
      in if cd_field c = ''method'' \<or> cd_field c = ''country'' then c\<lparr>cd_value := to_upper (cd_value c)\<rparr>
         else if cd_field c = ''host'' then c\<lparr>cd_value := to_lower (cd_value c)\<rparr>
         else if cd_field c = ''header'' then c\<lparr>cd_name := to_lower (cd_name c)\<rparr>
         else c)"

definition fw_normalize :: "fw_rule \<Rightarrow> fw_rule" where
  "fw_normalize r =
     r\<lparr>fr_name := trim_space (fr_name r), fr_note := trim_space (fr_note r),
       fr_scope := to_lower (trim_space (fr_scope r)), fr_conds := map normalize_condition (fr_conds r)\<rparr>"

section \<open>Validation\<close>

text \<open>\<open>ParseIPOrPrefix\<close> keeps an IPv4-mapped range as it is; only a single address is unmapped.\<close>

definition parse_ip_or_prefix :: "string \<Rightarrow> prefix option" where
  "parse_ip_or_prefix s =
     (if CHR ''/'' \<in> set s then map_option masked_prefix (parse_prefix s)
      else map_option (\<lambda>a. host_prefix (unmap_addr a)) (parse_addr s))"

definition iso_countries :: "string list" where
  "iso_countries = fields_func (\<lambda>c. c = CHR '' '') []
    (''AD AE AF AG AI AL AM AO AQ AR AS AT AU AW AX AZ BA BB BD BE BF BG BH BI BJ BL BM BN BO BQ BR BS BT BV BW BY BZ '' @
     ''CA CC CD CF CG CH CI CK CL CM CN CO CR CU CV CW CX CY CZ DE DJ DK DM DO DZ EC EE EG EH ER ES ET FI FJ FK FM FO FR '' @
     ''GA GB GD GE GF GG GH GI GL GM GN GP GQ GR GS GT GU GW GY HK HM HN HR HT HU ID IE IL IM IN IO IQ IR IS IT JE JM JO JP '' @
     ''KE KG KH KI KM KN KP KR KW KY KZ LA LB LC LI LK LR LS LT LU LV LY MA MC MD ME MF MG MH MK ML MM MN MO MP MQ MR MS MT '' @
     ''MU MV MW MX MY MZ NA NC NE NF NG NI NL NO NP NR NU NZ OM PA PE PF PG PH PK PL PM PN PR PS PT PW PY QA RE RO RS RU RW '' @
     ''SA SB SC SD SE SG SH SI SJ SK SL SM SN SO SR SS ST SV SX SY SZ TC TD TF TG TH TJ TK TL TM TN TO TR TT TV TW TZ UA UG '' @
     ''UM US UY UZ VA VC VE VG VI VN VU WF WS XK YE YT ZA ZM ZW'')"

definition is_country_code :: "string \<Rightarrow> bool" where
  "is_country_code c \<longleftrightarrow> length c = 2 \<and> to_upper c \<in> set iso_countries"

definition valid_token :: "string \<Rightarrow> bool" where
  "valid_token s \<longleftrightarrow> list_all (\<lambda>c.
     alnum c \<or> c = CHR ''-'' \<or> c = CHR ''_'') s"

definition valid_method :: "string \<Rightarrow> bool" where
  "valid_method s \<longleftrightarrow>
     s \<in> {''GET'', ''HEAD'', ''POST'', ''PUT'', ''PATCH'', ''DELETE'', ''OPTIONS'', ''CONNECT'', ''TRACE''}"

definition valid_host :: "string \<Rightarrow> bool" where
  "valid_host s \<longleftrightarrow>
     length s \<le> 253 \<and> s \<noteq> [] \<and>
     list_all (\<lambda>c. lower_alnum c \<or> c = CHR ''-'' \<or> c = CHR ''.'') s \<and>
     hd s \<noteq> CHR ''.'' \<and> last s \<noteq> CHR ''.''"

datatype rule_error =
    Re_name | Re_note | Re_scope | Re_rate_settings | Re_rate_count | Re_rate_window | Re_action | Re_conditions
  | Rc_field nat string | Rc_op nat string string | Rc_name nat | Rc_no_name nat string | Rc_exists nat | Rc_value nat
  | Rc_ip nat | Rc_method nat | Rc_country nat | Rc_path nat | Rc_wildcards nat

definition count_char :: "char \<Rightarrow> string \<Rightarrow> nat" where
  "count_char c s = length (filter (\<lambda>x. x = c) s)"

definition has_prefix :: "string \<Rightarrow> string \<Rightarrow> bool" where
  "has_prefix s pre \<longleftrightarrow> take (length pre) s = pre"

definition validate_condition :: "nat \<Rightarrow> fw_condition \<Rightarrow> rule_error list" where
  "validate_condition i c =
     (case field_ops (cd_field c) of
        None \<Rightarrow> [Rc_field i (cd_field c)]
      | Some ops \<Rightarrow>
          if cd_op c \<notin> set ops then [Rc_op i (cd_field c) (cd_op c)]
          else
            (let needs_name = (cd_field c = ''header'' \<or> cd_field c = ''query'')
             in (if needs_name \<and> (cd_name c = [] \<or> length (cd_name c) > 64 \<or> \<not> valid_token (cd_name c)) then [Rc_name i] else []) @
                (if \<not> needs_name \<and> cd_name c \<noteq> [] then [Rc_no_name i (cd_field c)] else []) @
                (if cd_op c = ''exists'' then (if cd_value c \<noteq> [] then [Rc_exists i] else [])
                 else if cd_value c = [] \<or> length (cd_value c) > 256 then [Rc_value i]
                 else if cd_field c = ''ip'' then (if parse_ip_or_prefix (cd_value c) = None then [Rc_ip i] else [])
                 else if cd_field c = ''method'' then (if \<not> valid_method (cd_value c) then [Rc_method i] else [])
                 else if cd_field c = ''country'' then (if \<not> is_country_code (cd_value c) then [Rc_country i] else [])
                 else if cd_field c = ''path'' \<and> (cd_op c = ''equals'' \<or> cd_op c = ''starts_with'') \<and> \<not> has_prefix (cd_value c) ''/''
                 then [Rc_path i]
                 else if cd_op c = ''glob'' \<and> count_char CHR ''*'' (cd_value c) + count_char CHR ''?'' (cd_value c) > 8
                 then [Rc_wildcards i]
                 else [])))"

definition validate_rule :: "fw_rule \<Rightarrow> rule_error list" where
  "validate_rule r =
     (if fr_name r = [] \<or> length (fr_name r) > 80 then [Re_name] else []) @
     (if length (fr_note r) > 200 then [Re_note] else []) @
     (if fr_scope r \<noteq> [] \<and> \<not> valid_host (fr_scope r) then [Re_scope] else []) @
     (if fr_action r \<in> {''allow'', ''deny'', ''challenge'', ''log''} then
        (if fr_rate_count r \<noteq> 0 \<or> fr_rate_window r \<noteq> 0 then [Re_rate_settings] else [])
      else if fr_action r = ''rate_limit'' then
        (if fr_rate_count r < 1 \<or> fr_rate_count r > 1000000 then [Re_rate_count] else []) @
        (if fr_rate_window r < 1 \<or> fr_rate_window r > 3600 then [Re_rate_window] else [])
      else [Re_action]) @
     (if fr_conds r = [] \<or> length (fr_conds r) > 8 then [Re_conditions] else []) @
     concat (map (\<lambda>(i, c). validate_condition i c) (zip [0..<length (fr_conds r)] (fr_conds r)))"

text \<open>\<open>netip.Prefix.String\<close>.\<close>

definition prefix_string :: "prefix \<Rightarrow> string" where
  "prefix_string p =
     (if \<not> prefix_valid p then ''invalid Prefix'' else addr_string (px_addr p) @ ''/'' @ decimal (nat (px_bits p)))"

datatype ip_rule_error = Not_an_ip | Rule_invalid "rule_error list"

text \<open>The rule of an entry of an IP list.  An invalid rule is returned beside its errors; only the
  errors are kept here.\<close>

definition ip_rule :: "string \<Rightarrow> string \<Rightarrow> string \<Rightarrow> string \<Rightarrow> ip_rule_error + fw_rule" where
  "ip_rule action ip scope note =
     (case parse_ip_or_prefix (trim_space ip) of
        None \<Rightarrow> Inl Not_an_ip
      | Some p \<Rightarrow>
          (let nm = (if action = ''allow'' then ''Allow '' @ prefix_string p else ''Block '' @ prefix_string p);
               r = fw_normalize
                 \<lparr>fr_id = [], fr_name = nm, fr_note = note, fr_scope = scope, fr_enabled = True, fr_position = 0,
                  fr_conds = [\<lparr>cd_field = ''ip'', cd_op = ''in_cidr'', cd_name = [], cd_value = prefix_string p\<rparr>],
                  fr_action = action, fr_rate_count = 0, fr_rate_window = 0\<rparr>
           in if validate_rule r \<noteq> [] then Inl (Rule_invalid (validate_rule r)) else Inr r))"

section \<open>Matching\<close>

text \<open>A request: the header map is keyed by canonical names.\<close>

record fw_request =
  rq_method :: string
  rq_host :: string
  rq_path :: string
  rq_query :: string
  rq_agent :: string
  rq_header :: "string \<Rightarrow> string list"
  rq_ip :: addr
  rq_country :: string
  rq_pass :: string

record matcher =
  mt_field :: string
  mt_op :: string
  mt_name :: string
  mt_val :: string
  mt_lower :: string
  mt_prefix :: prefix

definition compile_condition :: "fw_condition \<Rightarrow> matcher" where
  "compile_condition c =
     \<lparr>mt_field = cd_field c, mt_op = cd_op c, mt_name = cd_name c, mt_val = cd_value c, mt_lower = to_lower (cd_value c),
      mt_prefix =
        (case (if cd_field c = ''ip'' then parse_ip_or_prefix (cd_value c) else None) of
           None \<Rightarrow> \<lparr>px_addr = No_addr, px_bits = -1\<rparr> | Some p \<Rightarrow> p)\<rparr>"

definition eq_byte :: "bool \<Rightarrow> char \<Rightarrow> char \<Rightarrow> bool" where
  "eq_byte fold_case p c \<longleftrightarrow> p = (if fold_case then lower_char c else c)"

lemma drop_Cons_less: "drop j m = c # cs \<Longrightarrow> length m = j + Suc (length cs)"
  using length_drop [of j m] by simp

text \<open>
  The loop of \<open>globMatch\<close>: the pattern from \<open>p\<close>, the pattern after the last star, the text from
  \<open>mark\<close>, and how far \<open>i\<close> is beyond \<open>mark\<close>.
\<close>

function (sequential) glob_loop :: "bool \<Rightarrow> string \<Rightarrow> string option \<Rightarrow> string \<Rightarrow> nat \<Rightarrow> bool" where
  "glob_loop fc p star m j =
     (case drop j m of
        [] \<Rightarrow> list_all (\<lambda>c. c = CHR ''*'') p
      | c # _ \<Rightarrow>
          if p \<noteq> [] \<and> hd p = CHR ''*'' then glob_loop fc (tl p) (Some (tl p)) (drop j m) 0
          else if p \<noteq> [] \<and> (hd p = CHR ''?'' \<or> eq_byte fc (hd p) c) then glob_loop fc (tl p) star m (Suc j)
          else (case star of None \<Rightarrow> False | Some ps \<Rightarrow> glob_loop fc ps star (tl m) 0))"
  by pat_completeness auto

termination
  by (relation "inv_image (less_than <*lex*> less_than <*lex*> less_than)
      (\<lambda>(_, p, _, m, j). (length m, length m - j, length p))")
    (auto dest!: drop_Cons_less simp: neq_Nil_conv)

declare glob_loop.simps [simp del]

definition glob_match :: "string \<Rightarrow> string \<Rightarrow> bool \<Rightarrow> bool" where
  "glob_match pat s fc = glob_loop fc pat None s 0"

definition equal_fold :: "string \<Rightarrow> string \<Rightarrow> bool" where
  "equal_fold s t \<longleftrightarrow> to_lower s = to_lower t"

definition text_match :: "string \<Rightarrow> string \<Rightarrow> string \<Rightarrow> string \<Rightarrow> bool \<Rightarrow> bool" where
  "text_match oper s val lower fc =
     (if oper = ''equals'' then (if fc then equal_fold s val else s = val)
      else if oper = ''starts_with'' then
        (if fc then length s \<ge> length val \<and> equal_fold (take (length val) s) val else has_prefix s val)
      else if oper = ''contains'' then (if fc then contains_fold s lower else contains_sub s val)
      else if oper = ''glob'' then (if fc then glob_match lower s True else glob_match val s False)
      else False)"

text \<open>\<open>http.CanonicalHeaderKey\<close>.\<close>

definition header_byte :: "char \<Rightarrow> bool" where
  "header_byte c \<longleftrightarrow>
     alnum c \<or> c \<in> set ''!#$%&*+-.^_`|~'' \<or> c = CHR 0x27"

fun canonical_from :: "bool \<Rightarrow> string \<Rightarrow> string" where
  "canonical_from up [] = []"
| "canonical_from up (c # cs) = (if up then upper_char c else lower_char c) # canonical_from (c = CHR ''-'') cs"

definition canonical_key :: "string \<Rightarrow> string" where
  "canonical_key s = (if list_all header_byte s then canonical_from True s else s)"

lemma go_cut_rest: "go_cut sep s = Some (a, b) \<Longrightarrow> length b < length s"
  by (drule go_cut_length) simp

text \<open>The raw query, one parameter after the other.\<close>

function query_match :: "matcher \<Rightarrow> string \<Rightarrow> bool" where
  "query_match m raw =
     (if raw = [] then False
      else
        (let (pair, rest) = (case go_cut CHR ''&'' raw of None \<Rightarrow> (raw, []) | Some (a, b) \<Rightarrow> (a, b));
             (k, v) = (case go_cut CHR ''='' pair of None \<Rightarrow> (pair, []) | Some (a, b) \<Rightarrow> (a, b))
         in if k \<noteq> mt_name m then query_match m rest
            else if mt_op m = ''exists'' then True
            else if text_match (mt_op m) v (mt_val m) (mt_lower m) False then True
            else query_match m rest))"
  by pat_completeness auto

termination
  by (relation "measure (\<lambda>(_, raw). length raw)") (auto split: option.splits dest: go_cut_rest)

declare query_match.simps [simp del]

definition cond_match :: "matcher \<Rightarrow> fw_request \<Rightarrow> bool" where
  "cond_match m r =
     (if mt_field m = ''ip'' then addr_valid (rq_ip r) \<and> prefix_contains (mt_prefix m) (rq_ip r)
      else if mt_field m = ''method'' then rq_method r = mt_val m
      else if mt_field m = ''country'' then rq_country r \<noteq> [] \<and> rq_country r = mt_val m
      else if mt_field m = ''path'' then text_match (mt_op m) (rq_path r) (mt_val m) (mt_lower m) False
      else if mt_field m = ''host'' then text_match (mt_op m) (rq_host r) (mt_val m) (mt_lower m) True
      else if mt_field m = ''user_agent'' then
        (let ua = (if length (rq_agent r) > 512 then take 512 (rq_agent r) else rq_agent r)
         in text_match (mt_op m) ua (mt_val m) (mt_lower m) True)
      else if mt_field m = ''header'' then
        (let vals = rq_header r (canonical_key (mt_name m))
         in if mt_op m = ''exists'' then length vals > 0
            else list_ex (\<lambda>v. text_match (mt_op m) v (mt_val m) (mt_lower m) True) vals)
      else if mt_field m = ''query'' then query_match m (rq_query r)
      else False)"

record compiled_rule =
  cr_id :: string
  cr_name :: string
  cr_scope :: string
  cr_action :: string
  cr_conds :: "matcher list"
  cr_count :: int
  cr_window :: int

definition compile_rule :: "fw_rule \<Rightarrow> compiled_rule" where
  "compile_rule r =
     \<lparr>cr_id = fr_id r, cr_name = fr_name r, cr_scope = fr_scope r, cr_action = fr_action r,
      cr_conds = map compile_condition (fr_conds r), cr_count = fr_rate_count r, cr_window = fr_rate_window r\<rparr>"

definition rule_matches :: "compiled_rule \<Rightarrow> fw_request \<Rightarrow> bool" where
  "rule_matches c r \<longleftrightarrow> list_all (\<lambda>m. cond_match m r) (cr_conds c)"

section \<open>Globs\<close>

text \<open>What a pattern means: a star is any run of characters.\<close>

fun glob_spec :: "bool \<Rightarrow> string \<Rightarrow> string \<Rightarrow> bool" where
  "glob_spec fc [] s = (s = [])"
| "glob_spec fc (q # ps) s =
     (if q = CHR ''*'' then list_ex (\<lambda>i. glob_spec fc ps (drop i s)) [0..<Suc (length s)]
      else (case s of [] \<Rightarrow> False | c # cs \<Rightarrow> (q = CHR ''?'' \<or> eq_byte fc q c) \<and> glob_spec fc ps cs))"

lemma glob_star: "glob_spec fc (CHR ''*'' # ps) s \<longleftrightarrow> (\<exists>i\<le>length s. glob_spec fc ps (drop i s))"
  by (auto simp: list_ex_iff less_Suc_eq_le simp del: upt_Suc)

lemma glob_spec_Nil: "glob_spec fc p [] \<longleftrightarrow> list_all (\<lambda>c. c = CHR ''*'') p"
  by (induction p) (auto simp del: upt_Suc simp add: list_ex_iff)

text \<open>A star in front takes what precedes a match.\<close>

lemma glob_star_drop: "glob_spec fc (CHR ''*'' # ps) (drop i s) \<Longrightarrow> glob_spec fc (CHR ''*'' # ps) s"
proof -
  assume "glob_spec fc (CHR ''*'' # ps) (drop i s)"
  then obtain k where "glob_spec fc ps (drop k (drop i s))" unfolding glob_star by blast
  then have k: "glob_spec fc ps (drop (i + k) s)" by (simp add: add.commute)
  show ?thesis
  proof (cases "i + k \<le> length s")
    case True
    with k show ?thesis unfolding glob_star by blast
  next
    case False
    then have "drop (i + k) s = drop (length s) s" by simp
    with k have "glob_spec fc ps (drop (length s) s)" by metis
    then show ?thesis unfolding glob_star by blast
  qed
qed

lemma glob_prefix:
  "CHR ''*'' \<notin> set pre \<Longrightarrow> glob_spec fc (pre @ p) s \<Longrightarrow> length pre \<le> length s \<and> glob_spec fc p (drop (length pre) s)"
  by (induction pre arbitrary: s) (auto split: list.splits)

text \<open>Where the loop stands: since the last star it has matched \<open>j\<close> characters of the pattern.\<close>

definition glob_at :: "string option \<Rightarrow> string \<Rightarrow> nat \<Rightarrow> bool" where
  "glob_at star p j \<longleftrightarrow>
     (case star of None \<Rightarrow> True
      | Some ps \<Rightarrow> \<exists>pre. ps = pre @ p \<and> length pre = j \<and> CHR ''*'' \<notin> set pre)"

definition glob_retry :: "bool \<Rightarrow> string option \<Rightarrow> string \<Rightarrow> bool" where
  "glob_retry fc star m \<longleftrightarrow>
     (case star of None \<Rightarrow> False | Some ps \<Rightarrow> \<exists>i. 0 < i \<and> i \<le> length m \<and> glob_spec fc ps (drop i m))"

lemma glob_at_next: "glob_at star (q # p) j \<Longrightarrow> q \<noteq> CHR ''*'' \<Longrightarrow> glob_at star p (Suc j)"
  by (auto simp: glob_at_def split: option.splits intro: exI [where x = "_ @ [q]"])

lemma glob_retry_end: "glob_at star p j \<Longrightarrow> length m \<le> j \<Longrightarrow> \<not> glob_retry fc star m"
  by (auto simp: glob_at_def glob_retry_def split: option.splits dest!: glob_prefix)

lemma glob_retry_absorbed:
  assumes "glob_at star (CHR ''*'' # ps) j" "glob_retry fc star m"
  shows "glob_spec fc (CHR ''*'' # ps) (drop j m)"
proof -
  from assms obtain pre i where pre: "length pre = j" "CHR ''*'' \<notin> set pre"
    and hit: "glob_spec fc (pre @ CHR ''*'' # ps) (drop i m)"
    by (auto simp: glob_at_def glob_retry_def split: option.splits)
  from glob_prefix [OF pre(2) hit] pre(1) have "glob_spec fc (CHR ''*'' # ps) (drop i (drop j m))"
    by (simp add: add.commute)
  then show ?thesis by (rule glob_star_drop)
qed

lemma glob_retry_next:
  "m \<noteq> [] \<Longrightarrow> glob_retry fc (Some ps) m \<longleftrightarrow> glob_spec fc ps (tl m) \<or> glob_retry fc (Some ps) (tl m)"
proof -
  assume "m \<noteq> []"
  then obtain c cs where m: "m = c # cs" by (cases m) auto
  have "(\<exists>i. 0 < i \<and> i \<le> Suc (length cs) \<and> glob_spec fc ps (drop i (c # cs))) \<longleftrightarrow>
      (\<exists>i\<le>length cs. glob_spec fc ps (drop i cs))"
  proof
    assume "\<exists>i. 0 < i \<and> i \<le> Suc (length cs) \<and> glob_spec fc ps (drop i (c # cs))"
    then obtain i where "0 < i" "i \<le> Suc (length cs)" "glob_spec fc ps (drop i (c # cs))" by blast
    then show "\<exists>i\<le>length cs. glob_spec fc ps (drop i cs)" by (cases i) auto
  next
    assume "\<exists>i\<le>length cs. glob_spec fc ps (drop i cs)"
    then obtain i where "i \<le> length cs" "glob_spec fc ps (drop i cs)" by blast
    then show "\<exists>i. 0 < i \<and> i \<le> Suc (length cs) \<and> glob_spec fc ps (drop i (c # cs))"
      by (intro exI [of _ "Suc i"]) simp
  qed
  also have "\<dots> \<longleftrightarrow> glob_spec fc ps cs \<or> (\<exists>i. 0 < i \<and> i \<le> length cs \<and> glob_spec fc ps (drop i cs))"
    by (metis drop0 le0 gr0I)
  finally show ?thesis by (simp add: m glob_retry_def)
qed

lemma glob_retry_star: "glob_spec fc ps s \<or> glob_retry fc (Some ps) s \<longleftrightarrow> glob_spec fc (CHR ''*'' # ps) s"
  unfolding glob_star by (simp add: glob_retry_def) (metis drop0 le0 gr0I)

lemma glob_loop_spec:
  "glob_at star p j \<Longrightarrow> glob_loop fc p star m j \<longleftrightarrow> glob_spec fc p (drop j m) \<or> glob_retry fc star m"
proof (induction fc p star m j rule: glob_loop.induct)
  case (1 fc p star m j)
  note step = glob_loop.simps [of fc p star m j]
  show ?case
  proof (cases "drop j m")
    case Nil
    then have "length m \<le> j" by simp
    with Nil 1(4) show ?thesis by (simp add: step glob_spec_Nil glob_retry_end)
  next
    case (Cons c cs)
    then have m: "m \<noteq> []" by auto
    show ?thesis
    proof (cases p)
      case Nil
      then show ?thesis using Cons 1(3) [OF Cons] m
        unfolding step by (cases star) (auto simp: glob_retry_next glob_at_def glob_retry_def [of fc None])
    next
      case p: (Cons q ps)
      consider "q = CHR ''*''" | "q \<noteq> CHR ''*''" "q = CHR ''?'' \<or> eq_byte fc q c"
        | "q \<noteq> CHR ''*''" "\<not> (q = CHR ''?'' \<or> eq_byte fc q c)" by blast
      then show ?thesis
      proof cases
        case 1
        have "glob_loop fc ps (Some ps) (drop j m) 0 \<longleftrightarrow>
            glob_spec fc ps (drop j m) \<or> glob_retry fc (Some ps) (drop j m)"
          using "1.IH"(1) [OF Cons] p 1 by (simp add: glob_at_def)
        also have "\<dots> \<longleftrightarrow> glob_spec fc p (drop j m)"
          unfolding p 1 by (rule glob_retry_star)
        finally have "glob_loop fc p star m j \<longleftrightarrow> glob_spec fc p (drop j m)"
          unfolding step using Cons p 1 by simp
        then show ?thesis using glob_retry_absorbed [of star ps j fc m] "1.prems" p 1 by blast
      next
        case 2
        have "drop (Suc j) m = cs" using Cons by (metis drop_Suc tl_drop list.sel(3))
        moreover have "glob_at star ps (Suc j)" using "1.prems" 2 p by (auto intro: glob_at_next)
        ultimately show ?thesis unfolding step using "1.IH"(2) [OF Cons] Cons p 2 by auto
      next
        case 3
        then show ?thesis using Cons "1.IH"(3) [OF Cons] m p
          unfolding step by (cases star) (auto simp: glob_retry_next glob_at_def glob_retry_def [of fc None])
      qed
    qed
  qed
qed

text \<open>
  C22: the glob loop, which only ever goes back to the last star, decides exactly the pattern
  relation in which every star may stand for any run of characters, with and without case
  folding, for any pattern and text.
\<close>

theorem glob_match_spec: "glob_match pat s fc = glob_spec fc pat s"
  by (simp add: glob_match_def glob_loop_spec glob_at_def glob_retry_def)

section \<open>IPv4 addresses print and parse back\<close>

lemma digit_val_char: "d < 10 \<Longrightarrow> digit_val (char_of (48 + d :: nat)) = d"
  using digit_char [of d] by (simp add: digit_val_def)

lemma v4_fields_decimal: "n < 256 \<Longrightarrow> v4_fields 0 0 fs (decimal n @ rest) = v4_fields n (length (decimal n)) fs rest"
proof (induction n arbitrary: rest rule: decimal.induct)
  case (1 n)
  show ?case
  proof (cases "n < 10")
    case True
    then show ?thesis using digit_char [of n] digit_val_char [of n] by (simp add: decimal.simps [of n])
  next
    case False
    have "v4_fields 0 0 fs (decimal (n div 10) @ char_of (48 + n mod 10) # rest) =
        v4_fields (n div 10) (length (decimal (n div 10))) fs (char_of (48 + n mod 10) # rest)"
      using 1 False by simp
    also have "\<dots> = v4_fields n (Suc (length (decimal (n div 10)))) fs rest"
    proof -
      have "n div 10 \<noteq> 0" "n div 10 * 10 + n mod 10 = n" using False by auto
      then show ?thesis using digit_char [of "n mod 10"] digit_val_char [of "n mod 10"] 1(2) by simp
    qed
    finally show ?thesis using False by (simp add: decimal.simps [of n])
  qed
qed

lemma not_dot: "\<not> is_digit CHR ''.''" "\<not> is_digit CHR ''/''" "\<not> is_digit CHR '':''" "\<not> is_digit CHR ''%''"
  by (simp_all add: is_digit_def less_eq_char_def)

lemma decimal_nonempty: "decimal n \<noteq> []" "length (decimal n) \<noteq> 0"
  using decimal_digits [of n] by auto

lemma v4_fields_dotted:
  "a < 256 \<Longrightarrow> b < 256 \<Longrightarrow> c < 256 \<Longrightarrow> d < 256 \<Longrightarrow>
    v4_fields 0 0 [] (decimal a @ CHR ''.'' # decimal b @ CHR ''.'' # decimal c @ CHR ''.'' # decimal d) = Some [a, b, c, d]"
  using v4_fields_decimal [of d "[a, b, c]" "[]"]
  by (simp add: v4_fields_decimal not_dot decimal_nonempty)

lemma byte_less: "unat (drop_bit k v AND 255 :: 32 word) < 256"
  using word_and_le1 [of "drop_bit k v" 255] by (simp add: word_le_nat_alt)

lemma byte_mask: "(255 :: 32 word) = mask 8"
  by (simp add: mask_eq_exp_minus_1)

lemma v4_of_bytes: "v4_of (map (\<lambda>k. unat (drop_bit k v AND 255)) [24, 16, 8, 0]) = v"
proof -
  have "push_bit 8 (push_bit 8 (push_bit 8 (drop_bit 24 v AND 255) OR drop_bit 16 v AND 255) OR drop_bit 8 v AND 255)
      OR v AND 255 = (v :: 32 word)"
    unfolding byte_mask
  proof (rule bit_word_eqI)
    fix n assume "n < LENGTH(32)"
    then consider "n < 8" | "8 \<le> n" "n < 16" | "16 \<le> n" "n < 24" | "24 \<le> n" "n < 32" by fastforce
    then show "bit (push_bit 8 (push_bit 8 (push_bit 8 (drop_bit 24 v AND mask 8) OR drop_bit 16 v AND mask 8) OR
        drop_bit 8 v AND mask 8) OR v AND mask 8) n = bit v n"
      by cases (auto simp: bit_simps)
  qed
  then show ?thesis by (simp add: v4_of_def)
qed

lemma v4_string_eq:
  "v4_string v = decimal (unat (drop_bit 24 v AND 255)) @ CHR ''.'' # decimal (unat (drop_bit 16 v AND 255)) @
     CHR ''.'' # decimal (unat (drop_bit 8 v AND 255)) @ CHR ''.'' # decimal (unat (v AND 255))"
  by (simp add: v4_string_def)

lemma find_digits: "list_all is_digit ds \<Longrightarrow> find (\<lambda>c. c \<in> {CHR ''.'', CHR '':'', CHR ''%''}) (ds @ CHR ''.'' # s) = Some CHR ''.''"
  by (induction ds) (auto simp: not_dot)

lemma parse_v4_string: "parse_addr (v4_string v) = Some (V4 v)"
proof -
  have "v4_fields 0 0 [] (v4_string v) = Some (map (\<lambda>k. unat (drop_bit k v AND 255)) [24, 16, 8, 0])"
    unfolding v4_string_eq using byte_less [of 0 v] by (subst v4_fields_dotted) (simp_all add: byte_less)
  moreover have "find (\<lambda>c. c \<in> {CHR ''.'', CHR '':'', CHR ''%''}) (v4_string v) = Some CHR ''.''"
    unfolding v4_string_eq using decimal_digits by (intro find_digits) simp
  ultimately show ?thesis using v4_of_bytes [of v] by (simp add: parse_addr_def parse_v4_def)
qed

lemma v4_string_chars: "c \<in> set (v4_string v) \<Longrightarrow> is_digit c \<or> c = CHR ''.''"
  unfolding v4_string_eq using decimal_digits by (auto simp: list_all_iff)

lemma prefix_string_v4: "0 \<le> n \<Longrightarrow> n \<le> 32 \<Longrightarrow> px_addr p = V4 v \<Longrightarrow> px_bits p = n \<Longrightarrow>
    prefix_string p = v4_string v @ CHR ''/'' # decimal (nat n)"
  by (simp add: prefix_string_def prefix_valid_def addr_string_def)

lemma go_cut_rev:
  assumes "sep \<notin> set b"
  shows "cut_last sep (a @ sep # b) = Some (a, b)"
  using go_cut_join [of sep "rev b" "rev a"] assms by (simp add: cut_last_def)

lemma decimal_leading: "n \<noteq> 0 \<Longrightarrow> CHR ''1'' \<le> hd (decimal n) \<and> hd (decimal n) \<le> CHR ''9''"
proof (induction n rule: decimal.induct)
  case (1 n)
  show ?case
  proof (cases "n < 10")
    case True
    with 1(2) have "n \<in> {1, 2, 3, 4, 5, 6, 7, 8, 9}" by auto
    then show ?thesis using True by (auto simp: decimal.simps [of n] less_eq_char_def)
  next
    case False
    with 1 show ?thesis by (simp add: decimal.simps [of n] decimal_nonempty)
  qed
qed

lemma parse_prefix_string:
  assumes "0 \<le> n" "n \<le> 32"
  shows "parse_prefix (v4_string v @ CHR ''/'' # decimal (nat n)) = Some (prefix_from (V4 v) n)"
proof -
  have "CHR ''/'' \<notin> set (decimal (nat n))" using decimal_digits [of "nat n"] not_dot by (auto simp: list_all_iff)
  then have cut: "cut_last CHR ''/'' (v4_string v @ CHR ''/'' # decimal (nat n)) = Some (v4_string v, decimal (nat n))"
    by (rule go_cut_rev)
  have "go_atoi (decimal (nat n)) = Some n" using go_atoi_decimal [of "nat n"] assms by (simp add: in_i64_def)
  moreover have "\<not> (length (decimal (nat n)) > 1 \<and>
      \<not> (CHR ''1'' \<le> hd (decimal (nat n)) \<and> hd (decimal (nat n)) \<le> CHR ''9''))"
    using decimal_leading [of "nat n"] by (cases "nat n = 0") (simp_all add: decimal.simps [of 0])
  ultimately show ?thesis
    using assms by (simp add: parse_prefix_def cut parse_v4_string bit_len_def)
qed

lemma mask4_idem: "mask4 n (mask4 n v) = mask4 n v"
  by (simp add: mask4_def and.assoc)

lemma mask4_full: "mask4 32 v = v"
  by (simp add: mask4_def)

text \<open>A parsed IPv4 range is masked and complete.\<close>

lemma masked_v4:
  "masked_prefix p = q \<Longrightarrow> px_addr q = V4 v \<Longrightarrow> px_bits p \<le> bit_len (px_addr p) \<Longrightarrow>
    0 \<le> px_bits q \<and> px_bits q \<le> 32 \<and> masked_prefix q = q \<and> prefix_from (V4 v) (px_bits q) = q"
  by (auto simp: masked_prefix_def masked_addr_def prefix_from_def prefix_valid_def without_zone_def bit_len_def addr_valid_def
      mask4_idem split: addr.splits if_splits)

lemma ip_prefix_v4:
  assumes "parse_ip_or_prefix s = Some p" "px_addr p = V4 v"
  shows "0 \<le> px_bits p \<and> px_bits p \<le> 32 \<and> masked_prefix p = p \<and> prefix_from (V4 v) (px_bits p) = p"
proof (cases "CHR ''/'' \<in> set s")
  case True
  then obtain q where q: "parse_prefix s = Some q" "masked_prefix q = p" using assms(1) by (auto simp: parse_ip_or_prefix_def)
  then have "deny_ok q" by (simp add: parse_prefix_ok)
  then have "px_bits q \<le> bit_len (px_addr q)" by (auto simp: deny_ok_def bit_len_def split: addr.splits)
  with q assms(2) show ?thesis by (intro masked_v4)
next
  case False
  with assms show ?thesis
    by (auto simp: parse_ip_or_prefix_def host_prefix_def masked_prefix_def masked_addr_def prefix_from_def prefix_valid_def
        without_zone_def bit_len_def addr_valid_def mask4_full split: addr.splits if_splits)
qed

lemma ip_prefix_reparsed:
  assumes "parse_ip_or_prefix s = Some p" "px_addr p = V4 v"
  shows "parse_ip_or_prefix (prefix_string p) = Some p" and "trim_space (prefix_string p) = prefix_string p"
proof -
  note p = ip_prefix_v4 [OF assms]
  then have str: "prefix_string p = v4_string v @ CHR ''/'' # decimal (nat (px_bits p))"
    using assms(2) by (simp add: prefix_string_v4)
  with p show "parse_ip_or_prefix (prefix_string p) = Some p"
    by (simp add: parse_ip_or_prefix_def parse_prefix_string)
  have digit: "\<not> is_space c" if "is_digit c" for c
    using that by (auto simp: is_digit_def is_space_def less_eq_char_def)
  have "hd (prefix_string p) \<in> set (v4_string v)" "v4_string v \<noteq> []" unfolding str v4_string_eq
    by (simp_all add: decimal_nonempty)
  then have "\<not> is_space (hd (prefix_string p))"
    using v4_string_chars [of "hd (prefix_string p)" v] digit by (auto simp: is_space_def)
  moreover have "\<not> is_space (last (prefix_string p))"
    using decimal_digits [of "nat (px_bits p)"] digit [of "last (decimal (nat (px_bits p)))"]
    by (simp add: str list_all_iff)
  ultimately show "trim_space (prefix_string p) = prefix_string p"
    by (intro trim_space_id) (simp add: str)
qed

text \<open>
  C37: the rule made of an IP list entry matches exactly the addresses of the entry: for every
  accepted IPv4 address or range, printing the range into the rule and compiling the rule parses
  it back to the same range, whatever blanks or host bits the entry had.
\<close>

theorem ip_rule_exact:
  "parse_ip_or_prefix (trim_space ip) = Some p \<Longrightarrow> px_addr p = V4 v \<Longrightarrow> ip_rule action ip scope note = Inr r \<Longrightarrow>
    rule_matches (compile_rule r) rq \<longleftrightarrow> prefix_contains p (rq_ip rq)"
proof -
  assume p: "parse_ip_or_prefix (trim_space ip) = Some p" "px_addr p = V4 v" and r: "ip_rule action ip scope note = Inr r"
  from r p have "fr_conds r = [normalize_condition
      \<lparr>cd_field = ''ip'', cd_op = ''in_cidr'', cd_name = [], cd_value = prefix_string p\<rparr>]"
    by (auto simp: ip_rule_def fw_normalize_def Let_def split: if_splits)
  with ip_prefix_reparsed [OF p] have "rule_matches (compile_rule r) rq \<longleftrightarrow> addr_valid (rq_ip rq) \<and> prefix_contains p (rq_ip rq)"
    by (simp add: rule_matches_def compile_rule_def compile_condition_def cond_match_def normalize_condition_def)
  then show ?thesis by (auto simp: addr_valid_def prefix_contains_def split: addr.splits)
qed

text \<open>An IPv4-mapped range is accepted as a rule but matches no client address, because those are
  unmapped.\<close>

lemma mask6_high: "96 \<le> n \<Longrightarrow> n \<le> 128 \<Longrightarrow> drop_bit 32 (mask6 n v) = drop_bit 32 v"
  unfolding mask6_def by (rule bit_word_eqI) (auto simp: bit_simps dest: bit_imp_le_length)

lemma mapped_range_dead:
  assumes "px_addr p = V6 v []" "drop_bit 32 v = 0xffff" "96 \<le> px_bits p" "px_bits p \<le> 128"
  shows "\<not> prefix_contains p (unmap_addr a)"
proof (cases "unmap_addr a")
  case (V6 w z)
  then have "drop_bit 32 w \<noteq> 0xffff" by (auto simp: unmap_addr_def split: addr.splits if_splits)
  then have "mask6 (px_bits p) w \<noteq> mask6 (px_bits p) v"
    using mask6_high [OF assms(3,4), of w] mask6_high [OF assms(3,4), of v] assms(2) by auto
  with V6 assms(1) show ?thesis by (simp add: prefix_contains_def)
qed (simp_all add: prefix_contains_def assms)

definition demo_range :: prefix where
  "demo_range = \<lparr>px_addr = V4 0xC6336400, px_bits = 24\<rparr>"

definition demo_ip_rule :: fw_rule where
  "demo_ip_rule =
     \<lparr>fr_id = [], fr_name = ''Block 198.51.100.0/24'', fr_note = ''scanner'', fr_scope = ''app.example.com'', fr_enabled = True,
      fr_position = 0,
      fr_conds = [\<lparr>cd_field = ''ip'', cd_op = ''in_cidr'', cd_name = [], cd_value = ''198.51.100.0/24''\<rparr>],
      fr_action = ''deny'', fr_rate_count = 0, fr_rate_window = 0\<rparr>"

lemma demo_range_parsed: "parse_ip_or_prefix (trim_space '' 198.51.100.7/24'') = Some demo_range"
  by code_simp

lemma demo_ip_rule_built: "ip_rule ''deny'' '' 198.51.100.7/24'' ''App.example.com '' ''scanner'' = Inr demo_ip_rule"
  by code_simp

lemma ip_rule_exact_witness:
  "ip_rule ''deny'' '' 198.51.100.7/24'' ''App.example.com '' ''scanner'' = Inr demo_ip_rule \<and>
   rule_matches (compile_rule demo_ip_rule)
     \<lparr>rq_method = ''GET'', rq_host = ''app.example.com'', rq_path = ''/'', rq_query = [], rq_agent = ''curl'', rq_header = (\<lambda>_. []),
      rq_ip = V4 0xC63364FE, rq_country = [], rq_pass = []\<rparr>"
  by (subst ip_rule_exact [OF demo_range_parsed _ demo_ip_rule_built])
    (simp_all add: demo_ip_rule_built demo_range_def prefix_contains_def prefix_valid_def mask4_def mask_eq_exp_minus_1)

end
