(* ===== verification/Edgestats.thy ===== *)
theory Edgestats
  imports Netip
begin

text \<open>
  What the ingress firewall remembers of its traffic, \<open>internal/edgefw/stats.go\<close> and \<open>top.go\<close>: rings
  of counters by minute and hour, the hits of each rule, and the approximate top tables.

  A ring is an array of fixed size that is only indexed modulo its size: a function.  Counters of
  a ring are 32-bit words; those of a top table are natural numbers.  Each lock covers a whole
  operation.  Where a full table drops one of several equal entries, the one that Go's iteration
  meets first is the first of the list.
\<close>

section \<open>Time\<close>

text \<open>\<open>Unix\<close>: the seconds since 1970 of a time counted from the year 1.\<close>

definition unix_secs :: "gotime \<Rightarrow> int" where
  "unix_secs t = t div second - 62135596800"

definition of_unix :: "int \<Rightarrow> gotime" where
  "of_unix s = (s + 62135596800) * second"

definition minute_of :: "gotime \<Rightarrow> int" where
  "minute_of t = unix_secs t sdiv 60"

definition hour_of :: "gotime \<Rightarrow> int" where
  "hour_of t = unix_secs t sdiv 3600"

section \<open>Outcomes and reasons\<close>

datatype fw_outcome = Oc_allowed | Oc_denied | Oc_challenged | Oc_logged | Oc_rate_limited

datatype fw_reason =
    Re_none | Re_rule | Re_rate_rule | Re_ban | Re_bot | Re_ai_bot | Re_attack | Re_shield_rate
  | Re_shield_concurrency | Re_shield_bot | Re_shield_body

definition outcomes :: "fw_outcome list" where
  "outcomes = [Oc_allowed, Oc_denied, Oc_challenged, Oc_logged, Oc_rate_limited]"

definition fw_reasons :: "fw_reason list" where
  "fw_reasons =
     [Re_none, Re_rule, Re_rate_rule, Re_ban, Re_bot, Re_ai_bot, Re_attack, Re_shield_rate, Re_shield_concurrency,
      Re_shield_bot, Re_shield_body]"

definition fw_reason_string :: "fw_reason \<Rightarrow> string" where
  "fw_reason_string r =
     (case r of
        Re_none \<Rightarrow> ''none'' | Re_rule \<Rightarrow> ''rule'' | Re_rate_rule \<Rightarrow> ''rate_rule'' | Re_ban \<Rightarrow> ''ban''
      | Re_bot \<Rightarrow> ''bot'' | Re_ai_bot \<Rightarrow> ''ai_bot'' | Re_attack \<Rightarrow> ''attack_mode''
      | Re_shield_rate \<Rightarrow> ''shield_rate'' | Re_shield_concurrency \<Rightarrow> ''shield_concurrency''
      | Re_shield_bot \<Rightarrow> ''shield_bot'' | Re_shield_body \<Rightarrow> ''shield_body'')"

record fw_observation =
  fo_at :: gotime
  fo_outcome :: fw_outcome
  fo_reason :: fw_reason
  fo_ip :: addr
  fo_ua :: string
  fo_path :: string
  fo_host :: string

section \<open>Rings\<close>

text \<open>A bucket of a ring: the minute or hour it was last used for and a counter for each key.\<close>

type_synonym 'k ring_bucket = "int \<times> ('k \<Rightarrow> 32 word)"
type_synonym 'k ring = "int \<Rightarrow> 'k ring_bucket"

definition empty_ring :: "'k ring" where
  "empty_ring = (\<lambda>_. (0, \<lambda>_. 0))"

definition ring_add :: "int \<Rightarrow> int \<Rightarrow> 'k \<Rightarrow> 'k ring \<Rightarrow> 'k ring" where
  "ring_add slots m k ring =
     (let b = ring (m smod slots);
          b = (if fst b \<noteq> m then (m, \<lambda>_. 0) else b)
      in ring(m smod slots := (fst b, (snd b)(k := snd b k + 1))))"

text \<open>What a ring holds for one minute or hour.\<close>

definition ring_at :: "int \<Rightarrow> int \<Rightarrow> 'k ring \<Rightarrow> 'k \<Rightarrow> nat" where
  "ring_at slots m ring k = (let b = ring (m smod slots) in if fst b = m then unat (snd b k) else 0)"

section \<open>Top tables\<close>

datatype tkey = Key_text string | Key_addr addr

record sketch =
  sk_start :: int
  sk_map :: "(tkey, nat) gomap option"

text \<open>The entry with the least count, the first one met.\<close>

fun low_entry :: "(tkey \<times> nat) list \<Rightarrow> (tkey \<times> nat) option" where
  "low_entry [] = None"
| "low_entry (e # es) =
     (case low_entry es of None \<Rightarrow> Some e | Some l \<Rightarrow> Some (if snd l < snd e then l else e))"

definition space_saving :: "nat \<Rightarrow> tkey \<Rightarrow> (tkey, nat) gomap \<Rightarrow> (tkey, nat) gomap" where
  "space_saving cap key m =
     (case map_of m key of
        Some n \<Rightarrow> AList.update key (n + 1) m
      | None \<Rightarrow>
          if length m < cap then AList.update key 1 m
          else (case low_entry m of
                  None \<Rightarrow> m
                | Some (low, n) \<Rightarrow> AList.update key (n + 1) (AList.delete low m)))"

definition sketch_add :: "nat \<Rightarrow> tkey \<Rightarrow> int \<Rightarrow> sketch \<Rightarrow> sketch" where
  "sketch_add cap key start k =
     (let m = (case sk_map k of None \<Rightarrow> [] | Some m \<Rightarrow> if sk_start k \<noteq> start then [] else m)
      in \<lparr>sk_start = start, sk_map = Some (space_saving cap key m)\<rparr>)"

definition spark_slots :: int where
  "spark_slots = 6"

definition slot_seconds :: int where
  "slot_seconds = 600"

datatype top_dimension = Dim_ip | Dim_denied_ip | Dim_ua | Dim_path | Dim_host

record top_set =
  tp_capacity :: nat
  tp_dims :: "top_dimension \<Rightarrow> int \<Rightarrow> sketch"

definition new_top_set :: "nat \<Rightarrow> top_set" where
  "new_top_set cap = \<lparr>tp_capacity = cap, tp_dims = (\<lambda>_ _. \<lparr>sk_start = 0, sk_map = None\<rparr>)\<rparr>"

definition clip :: "string \<Rightarrow> nat \<Rightarrow> string" where
  "clip s n = (if length s > n then take n s else s)"

text \<open>Identifiers in a path are replaced, and only its first segments are kept.\<close>

definition hexish :: "char \<Rightarrow> bool" where
  "hexish c \<longleftrightarrow> is_hex_digit c \<or> (CHR ''A'' \<le> c \<and> c \<le> CHR ''F'') \<or> c \<in> {CHR ''-'', CHR ''_'', CHR ''.''}"

definition route_segment :: "string \<Rightarrow> string" where
  "route_segment s =
     (if length s > 24 then '':id''
      else
        (let digits = length (filter is_digit s); all_hex = list_all hexish s
         in if digits = length s \<and> s \<noteq> [] then '':id''
            else if all_hex \<and> length s \<ge> 8 \<and> digits > 0 then '':id''
            else if digits \<ge> 3 \<and> digits * 3 \<ge> length s then '':id''
            else s))"

fun route_parts :: "nat \<Rightarrow> string \<Rightarrow> string" where
  "route_parts 0 p = ''/*''"
| "route_parts (Suc n) p =
     (case go_cut CHR ''/'' p of
        None \<Rightarrow> CHR ''/'' # route_segment p
      | Some (seg, rest) \<Rightarrow> CHR ''/'' # route_segment seg @ route_parts n rest)"

definition trim_slashes :: "string \<Rightarrow> string" where
  "trim_slashes p = rev (dropWhile (\<lambda>c. c = CHR ''/'') (rev (dropWhile (\<lambda>c. c = CHR ''/'') p)))"

definition normalize_path :: "string \<Rightarrow> string" where
  "normalize_path p = (let p = trim_slashes p in if p = [] then ''/'' else route_parts 3 p)"

definition top_put :: "top_dimension \<Rightarrow> tkey \<Rightarrow> int \<Rightarrow> top_set \<Rightarrow> top_set" where
  "top_put d key start t =
     (let slot = start smod spark_slots
      in t\<lparr>tp_dims := (tp_dims t)(d := (tp_dims t d)(slot := sketch_add (tp_capacity t) key start (tp_dims t d slot)))\<rparr>)"

definition top_add :: "fw_observation \<Rightarrow> top_set \<Rightarrow> top_set" where
  "top_add ob t =
     (let start = unix_secs (fo_at ob) sdiv slot_seconds;
          t = (if addr_valid (fo_ip ob) then top_put Dim_ip (Key_addr (fo_ip ob)) start t else t);
          t = (if addr_valid (fo_ip ob) \<and> fo_outcome ob \<in> {Oc_denied, Oc_challenged, Oc_rate_limited}
               then top_put Dim_denied_ip (Key_addr (fo_ip ob)) start t else t);
          t = top_put Dim_ua (Key_text (clip (if fo_ua ob = [] then ''(none)'' else fo_ua ob) 120)) start t;
          t = top_put Dim_path (Key_text (normalize_path (fo_path ob))) start t
      in if fo_host ob \<noteq> [] then top_put Dim_host (Key_text (fo_host ob)) start t else t)"

record top_row =
  tr_key :: string
  tr_count :: nat
  tr_spark :: "nat list"

definition key_string :: "tkey \<Rightarrow> string" where
  "key_string k = (case k of Key_text s \<Rightarrow> s | Key_addr a \<Rightarrow> addr_string a)"

definition row_before :: "top_row \<Rightarrow> top_row \<Rightarrow> bool" where
  "row_before a b =
     (if tr_count a \<noteq> tr_count b then tr_count a > tr_count b else tr_key a < tr_key b)"

definition merge_slot :: "nat \<Rightarrow> (tkey, nat) gomap \<Rightarrow> (tkey, nat list) gomap \<Rightarrow> (tkey, nat list) gomap" where
  "merge_slot i m merged =
     foldl (\<lambda>acc (k, n).
        let arr = (case map_of acc k of None \<Rightarrow> replicate 6 0 | Some a \<Rightarrow> a)
        in AList.update k (arr[i := arr ! i + n]) acc) merged m"

definition top_rows :: "top_dimension \<Rightarrow> gotime \<Rightarrow> int \<Rightarrow> top_set \<Rightarrow> top_row list" where
  "top_rows d now n t =
     (let cur = unix_secs now sdiv slot_seconds;
          merged = foldl (\<lambda>acc back.
             let start = cur - int back; sk = tp_dims t d (start smod spark_slots)
             in case sk_map sk of None \<Rightarrow> acc | Some m \<Rightarrow> if sk_start sk \<noteq> start then acc else merge_slot (5 - back) m acc)
             [] [0, 1, 2, 3, 4, 5];
          rows = go_sort row_before
            (map (\<lambda>(k, arr). \<lparr>tr_key = key_string k, tr_count = sum_list arr, tr_spark = arr\<rparr>) merged)
      in if n > 0 \<and> int (length rows) > n then take (nat n) rows else rows)"

section \<open>Scopes\<close>

record stat_scope =
  sc_minutes :: "fw_outcome ring"
  sc_hours :: "fw_reason ring"
  sc_top :: "top_set option"

definition empty_scope :: stat_scope where
  "empty_scope = \<lparr>sc_minutes = empty_ring, sc_hours = empty_ring, sc_top = None\<rparr>"

definition scope_record :: "fw_observation \<Rightarrow> bool \<Rightarrow> nat \<Rightarrow> stat_scope \<Rightarrow> stat_scope" where
  "scope_record ob with_top cap s =
     (let s = s\<lparr>sc_minutes := ring_add 1440 (minute_of (fo_at ob)) (fo_outcome ob) (sc_minutes s)\<rparr>;
          s = (if fo_reason ob \<noteq> Re_none
               then s\<lparr>sc_hours := ring_add 24 (hour_of (fo_at ob)) (fo_reason ob) (sc_hours s)\<rparr> else s)
      in if with_top
         then s\<lparr>sc_top := Some (top_add ob (case sc_top s of None \<Rightarrow> new_top_set cap | Some t \<Rightarrow> t))\<rparr>
         else s)"

record stat_limits =
  sl_max_scopes :: int
  sl_top_capacity :: nat
  sl_top_sample :: int

record rule_counter =
  rc_total :: "64 word"
  rc_last :: gotime
  rc_buckets :: "unit ring"

record fw_stats =
  ss_limits :: stat_limits
  ss_global :: stat_scope
  ss_hosts :: "(string, stat_scope) gomap"
  ss_rules :: "(string, rule_counter) gomap"
  ss_tick :: "64 word"

definition new_stats :: "stat_limits \<Rightarrow> fw_stats" where
  "new_stats l = \<lparr>ss_limits = l, ss_global = empty_scope, ss_hosts = [], ss_rules = [], ss_tick = 0\<rparr>"

definition stats_set_limits :: "stat_limits \<Rightarrow> fw_stats \<Rightarrow> fw_stats" where
  "stats_set_limits l s = s\<lparr>ss_limits := l\<rparr>"

definition observe :: "fw_observation \<Rightarrow> fw_stats \<Rightarrow> fw_stats" where
  "observe ob s =
     (let n = ss_tick s + 1;
          s = s\<lparr>ss_tick := n\<rparr>;
          lm = ss_limits s;
          with_top = (sl_top_sample lm \<le> 1 \<or> n mod word_of_int (sl_top_sample lm) = 0);
          s = (if map_of (ss_hosts s) (fo_host ob) = None \<and> fo_host ob \<noteq> [] \<and> int (length (ss_hosts s)) < sl_max_scopes lm
               then s\<lparr>ss_hosts := AList.update (fo_host ob) empty_scope (ss_hosts s)\<rparr> else s);
          s = s\<lparr>ss_global := scope_record ob with_top (sl_top_capacity lm) (ss_global s)\<rparr>
      in case map_of (ss_hosts s) (fo_host ob) of
           None \<Rightarrow> s
         | Some h \<Rightarrow>
             s\<lparr>ss_hosts := AList.update (fo_host ob) (scope_record ob with_top (sl_top_capacity lm) h) (ss_hosts s)\<rparr>)"

definition rule_matched :: "string \<Rightarrow> gotime \<Rightarrow> fw_stats \<Rightarrow> fw_stats" where
  "rule_matched i now s =
     (let c = (case map_of (ss_rules s) i of
                 None \<Rightarrow> \<lparr>rc_total = 0, rc_last = zero_time, rc_buckets = empty_ring\<rparr> | Some c \<Rightarrow> c)
      in s\<lparr>ss_rules := AList.update i
             \<lparr>rc_total = rc_total c + 1, rc_last = now, rc_buckets = ring_add 60 (minute_of now) () (rc_buckets c)\<rparr> (ss_rules s)\<rparr>)"

definition prune_rules :: "string list \<Rightarrow> fw_stats \<Rightarrow> fw_stats" where
  "prune_rules keep s = s\<lparr>ss_rules := gm_retain (\<lambda>i. i \<in> set keep) (ss_rules s)\<rparr>"

record rule_hit =
  rh_total :: "64 word"
  rh_last :: gotime
  rh_spark :: "32 word list"

definition rule_hits :: "string \<Rightarrow> gotime \<Rightarrow> fw_stats \<Rightarrow> rule_hit" where
  "rule_hits i now s =
     (case map_of (ss_rules s) i of
        None \<Rightarrow> \<lparr>rh_total = 0, rh_last = zero_time, rh_spark = replicate 12 0\<rparr>
      | Some c \<Rightarrow>
          \<lparr>rh_total = rc_total c, rh_last = rc_last c,
           rh_spark = foldl (\<lambda>sp back.
              let b = rc_buckets c ((minute_of now - int back) smod 60); j = 11 - back div 5
              in if fst b = minute_of now - int back then sp[j := sp ! j + snd b ()] else sp)
              (replicate 12 0) [0..<60]\<rparr>)"

text \<open>The global scope may not be returned for a host without one.\<close>

definition scope_for :: "string \<Rightarrow> fw_stats \<Rightarrow> stat_scope option" where
  "scope_for host s = (if host = [] then Some (ss_global s) else map_of (ss_hosts s) host)"

section \<open>Reading\<close>

text \<open>The whole steps between two minutes.\<close>

definition step_sum :: "fw_outcome ring \<Rightarrow> int \<Rightarrow> int \<Rightarrow> int \<Rightarrow> fw_outcome \<Rightarrow> nat" where
  "step_sum ring m step finish k = sum_list (map (\<lambda>j. ring_at 1440 j ring k) [m..min (m + step - 1) finish])"

function series_points :: "fw_outcome ring \<Rightarrow> int \<Rightarrow> int \<Rightarrow> int \<Rightarrow> (gotime \<times> (fw_outcome \<Rightarrow> nat)) list" where
  "series_points ring m step finish =
     (if m \<le> finish \<and> 0 < step
      then (of_unix (m * 60), step_sum ring m step finish) # series_points ring (m + step) step finish
      else [])"
  by pat_completeness auto

termination
  by (relation "measure (\<lambda>(_, m, _, finish). nat (finish + 1 - m))") auto

declare series_points.simps [simp del]

definition series :: "string \<Rightarrow> gotime \<Rightarrow> gotime \<Rightarrow> int \<Rightarrow> fw_stats \<Rightarrow> (gotime \<times> (fw_outcome \<Rightarrow> nat)) list" where
  "series host start finish points s =
     (case scope_for host s of
        None \<Rightarrow> []
      | Some sc \<Rightarrow>
          if \<not> finish > start then []
          else
            (let oldest = time_add finish (- 1440 * minute);
                 start = (if start < oldest then oldest else start);
                 points = (if points < 1 then 60 else points);
                 span = time_sub finish start sdiv minute;
                 step = max 1 ((span + points - 1) sdiv points)
             in series_points (sc_minutes sc) (minute_of start) step (minute_of finish)))"

definition totals :: "string \<Rightarrow> gotime \<Rightarrow> gotime \<Rightarrow> fw_stats \<Rightarrow> fw_outcome \<Rightarrow> nat" where
  "totals host start finish s k = sum_list (map (\<lambda>p. snd p k) (series host start finish 1440 s))"

definition reasons_between :: "string \<Rightarrow> gotime \<Rightarrow> gotime \<Rightarrow> fw_stats \<Rightarrow> (string \<times> nat) list" where
  "reasons_between host start finish s =
     (case scope_for host s of
        None \<Rightarrow> []
      | Some sc \<Rightarrow>
          go_sort (\<lambda>a b. snd a > snd b)
            (filter (\<lambda>(_, n). n > 0)
              (map (\<lambda>r. (fw_reason_string r, sum_list (map (\<lambda>h. ring_at 24 h (sc_hours sc) r) [hour_of start..hour_of finish])))
                (tl fw_reasons))))"

definition top_of :: "string \<Rightarrow> top_dimension \<Rightarrow> gotime \<Rightarrow> int \<Rightarrow> fw_stats \<Rightarrow> top_row list" where
  "top_of host d now n s =
     (case scope_for host s of
        None \<Rightarrow> []
      | Some sc \<Rightarrow> (case sc_top sc of None \<Rightarrow> [] | Some t \<Rightarrow> top_rows d now n t))"

section \<open>Rings read back\<close>

definition ring_log :: "int \<Rightarrow> (int \<times> 'k) list \<Rightarrow> 'k ring \<Rightarrow> 'k ring" where
  "ring_log slots hist ring = fold (\<lambda>(m, k). ring_add slots m k) hist ring"

definition seen :: "(int \<times> 'k) list \<Rightarrow> int \<Rightarrow> 'k \<Rightarrow> nat" where
  "seen hist m k = length (filter (\<lambda>e. e = (m, k)) hist)"

lemma ring_log_Nil [simp]: "ring_log slots [] ring = ring"
  by (simp add: ring_log_def)

lemma ring_log_snoc: "ring_log slots (hist @ [(m, k)]) ring = ring_add slots m k (ring_log slots hist ring)"
  by (simp add: ring_log_def)

lemma seen_snoc: "seen (hist @ [(m', k')]) m k = seen hist m k + (if m' = m \<and> k' = k then 1 else 0)"
  by (simp add: seen_def)

lemma seen_later: "\<forall>e\<in>set hist. fst e < m \<Longrightarrow> seen hist m k = 0"
  by (induction hist) (auto simp: seen_def)

lemma smod_nonneg: "0 \<le> (a::int) \<Longrightarrow> 0 < b \<Longrightarrow> a smod b = a mod b"
  by (cases "a = 0") (simp_all add: smod_int_alt_def)

lemma ring_add_at:
  "0 < slots \<Longrightarrow> 0 \<le> m \<Longrightarrow> ring_add slots m k ring =
     ring(m mod slots := (m, (if fst (ring (m mod slots)) = m then snd (ring (m mod slots)) else (\<lambda>_. 0))
                            (k := (if fst (ring (m mod slots)) = m then snd (ring (m mod slots)) else (\<lambda>_. 0)) k + 1)))"
  by (simp add: ring_add_def smod_nonneg Let_def)

text \<open>A bucket belongs to the last minute of its class, and counts what that minute has seen.\<close>

definition ring_holds :: "int \<Rightarrow> (int \<times> 'k) list \<Rightarrow> 'k ring \<Rightarrow> bool" where
  "ring_holds slots hist ring \<longleftrightarrow>
     (\<forall>m\<ge>0. (\<forall>e\<in>set hist. fst e mod slots = m mod slots \<longrightarrow> fst e \<le> m) \<longrightarrow>
        (if fst (ring (m mod slots)) = m then \<forall>k. snd (ring (m mod slots)) k = of_nat (seen hist m k)
         else \<forall>k. seen hist m k = 0))"

lemma ring_holds_empty: "ring_holds slots [] (\<lambda>_. (0, \<lambda>_. 0))"
  by (simp add: ring_holds_def seen_def)

lemma ring_holds_add:
  assumes "0 < slots" "0 \<le> m'" "ring_holds slots hist ring" "\<forall>e\<in>set hist. fst e \<le> m'"
  shows "ring_holds slots (hist @ [(m', k')]) (ring_add slots m' k' ring)"
  unfolding ring_holds_def
proof (intro allI impI)
  fix m :: int
  assume m: "0 \<le> m" and late: "\<forall>e\<in>set (hist @ [(m', k')]). fst e mod slots = m mod slots \<longrightarrow> fst e \<le> m"
  let ?r = "ring (m mod slots)"
  note put = ring_add_at [OF assms(1,2), of k' ring]
  from late have "\<forall>e\<in>set hist. fst e mod slots = m mod slots \<longrightarrow> fst e \<le> m" by simp
  with assms(3) m have old: "if fst ?r = m then \<forall>k. snd ?r k = of_nat (seen hist m k) else \<forall>k. seen hist m k = 0"
    unfolding ring_holds_def by blast
  show "if fst (ring_add slots m' k' ring (m mod slots)) = m
        then \<forall>k. snd (ring_add slots m' k' ring (m mod slots)) k = of_nat (seen (hist @ [(m', k')]) m k)
        else \<forall>k. seen (hist @ [(m', k')]) m k = 0"
  proof (cases "m mod slots = m' mod slots")
    case False
    then have "m' \<noteq> m" by auto
    with False old show ?thesis unfolding put by (simp add: seen_snoc)
  next
    case True
    with late have le: "m' \<le> m" by auto
    show ?thesis
    proof (cases "m' = m")
      case True
      with old show ?thesis unfolding put by (auto simp: seen_snoc split: if_splits)
    next
      case False
      with le assms(4) have "seen hist m k = 0" for k by (intro seen_later) auto
      with False True show ?thesis unfolding put by (simp add: seen_snoc)
    qed
  qed
qed

lemma ring_log_holds:
  "0 < slots \<Longrightarrow> sorted (map fst hist) \<Longrightarrow> \<forall>e\<in>set hist. 0 \<le> fst e \<Longrightarrow>
    ring_holds slots hist (ring_log slots hist (\<lambda>_. (0, \<lambda>_. 0)))"
proof (induction hist rule: rev_induct)
  case Nil
  then show ?case by (simp add: ring_holds_empty)
next
  case (snoc e hist)
  obtain m k where e: "e = (m, k)" by force
  from snoc show ?case unfolding e
    by (auto simp: ring_log_snoc sorted_append intro!: ring_holds_add)
qed

lemma ring_log_at:
  assumes "0 < slots" "sorted (map fst hist)" "\<forall>e\<in>set hist. 0 \<le> fst e \<and> fst e < m + slots" "0 \<le> m" "length hist < 2 ^ 32"
  shows "ring_at slots m (ring_log slots hist empty_ring) k = seen hist m k"
proof -
  have "ring_holds slots hist (ring_log slots hist empty_ring)"
    using ring_log_holds [OF assms(1,2)] assms(3) by (simp add: empty_ring_def)
  moreover have "fst e \<le> m" if e: "e \<in> set hist" "fst e mod slots = m mod slots" for e
  proof (rule ccontr)
    assume "\<not> fst e \<le> m"
    moreover from e(1) assms(3) have "fst e < m + slots" by blast
    ultimately have d: "0 < fst e - m" "fst e - m < slots" by auto
    from e(2) have "(fst e - m) mod slots = 0" by (simp add: mod_eq_dvd_iff)
    with d show False by simp
  qed
  moreover have "seen hist m k < 2 ^ 32"
    using assms(5) length_filter_le [of "\<lambda>e. e = (m, k)" hist] unfolding seen_def by (rule le_less_trans [rotated])
  ultimately show ?thesis using assms(1,4)
    by (auto simp: ring_holds_def ring_at_def smod_nonneg Let_def unat_of_nat
        split: if_splits)
qed


section \<open>The totals of a window\<close>

lemma sum_upto_split:
  "m \<le> p \<Longrightarrow> p \<le> q \<Longrightarrow> sum_list (map f [m..p]) + sum_list (map f [p + 1..q]) = (sum_list (map f [m..q]) :: nat)"
  by (simp add: upto_split2 [of m p q])

text \<open>Whatever the step, the points of a series add up to its minutes.\<close>

lemma series_points_sum:
  "0 < step \<Longrightarrow> sum_list (map (\<lambda>p. snd p k) (series_points ring m step finish)) =
     sum_list (map (\<lambda>j. ring_at 1440 j ring k) [m..finish])"
proof (induction ring m step finish rule: series_points.induct)
  case (1 ring m step finish)
  show ?case
  proof (cases "m \<le> finish")
    case False
    then show ?thesis by (simp add: series_points.simps [of ring m])
  next
    case True
    let ?f = "\<lambda>j. ring_at 1440 j ring k"
    have "sum_list (map (\<lambda>p. snd p k) (series_points ring m step finish)) =
        sum_list (map ?f [m..min (m + step - 1) finish]) + sum_list (map ?f [m + step..finish])"
      using True 1 by (simp add: series_points.simps [of ring m] step_sum_def)
    also have "\<dots> = sum_list (map ?f [m..finish])"
    proof (cases "m + step - 1 \<le> finish")
      case True
      then show ?thesis using sum_upto_split [of m "m + step - 1" finish ?f] 1(2) by simp
    next
      case False
      then show ?thesis by simp
    qed
    finally show ?thesis .
  qed
qed

definition minute_log :: "fw_observation list \<Rightarrow> (int \<times> fw_outcome) list" where
  "minute_log obs = map (\<lambda>ob. (minute_of (fo_at ob), fo_outcome ob)) obs"

lemma global_minutes: "sc_minutes (ss_global (observe ob s)) =
    ring_add 1440 (minute_of (fo_at ob)) (fo_outcome ob) (sc_minutes (ss_global s))"
  by (simp add: observe_def scope_record_def Let_def split: option.splits)

lemma fold_global_minutes:
  "sc_minutes (ss_global (fold observe obs s)) = ring_log 1440 (minute_log obs) (sc_minutes (ss_global s))"
  by (induction obs arbitrary: s) (simp_all add: minute_log_def ring_log_def global_minutes)

lemma sum_seen:
  "sum_list (map (\<lambda>j. seen (minute_log obs) j k) [a..b]) =
     length (filter (\<lambda>ob. a \<le> minute_of (fo_at ob) \<and> minute_of (fo_at ob) \<le> b \<and> fo_outcome ob = k) obs)"
proof (induction obs)
  case Nil
  then show ?case by (simp add: minute_log_def seen_def)
next
  case (Cons ob obs)
  have "sum_list (map (\<lambda>j. if minute_of (fo_at ob) = j \<and> fo_outcome ob = k then 1 else 0) [a..b]) =
      (if a \<le> minute_of (fo_at ob) \<and> minute_of (fo_at ob) \<le> b \<and> fo_outcome ob = k then 1 else (0::nat))"
    by (cases "fo_outcome ob = k") (simp_all add: sum_list_distinct_conv_sum_set)
  moreover have "seen (minute_log (ob # obs)) j k =
      (if minute_of (fo_at ob) = j \<and> fo_outcome ob = k then 1 else 0) + seen (minute_log obs) j k" for j
    by (simp add: minute_log_def seen_def)
  ultimately show ?case using Cons by (simp add: sum_list_addf)
qed

lemma minute_mono: "t \<le> u \<Longrightarrow> 0 \<le> unix_secs t \<Longrightarrow> minute_of t \<le> minute_of u"
proof -
  assume le: "t \<le> u" and pos: "0 \<le> unix_secs t"
  from le have "unix_secs t \<le> unix_secs u" by (simp add: unix_secs_def second_def zdiv_mono1)
  with pos show ?thesis by (simp add: minute_of_def sdiv_nonneg zdiv_mono1)
qed

lemma minute_of_nonneg: "0 \<le> unix_secs t \<Longrightarrow> 0 \<le> minute_of t"
  by (simp add: minute_of_def sdiv_nonneg)



definition demo_seen :: "int \<Rightarrow> fw_outcome \<Rightarrow> fw_observation" where
  "demo_seen s oc =
     \<lparr>fo_at = of_unix s, fo_outcome = oc, fo_reason = Re_none, fo_ip = V4 1, fo_ua = ''curl'', fo_path = ''/'', fo_host = []\<rparr>"

lemma unix_of_unix [simp]: "unix_secs (of_unix s) = s"
  by (simp add: unix_secs_def of_unix_def second_def)


section \<open>The top tables approximate\<close>

definition held :: "(tkey, nat) gomap \<Rightarrow> nat" where
  "held m = sum_list (map snd m)"

lemma held_update: "map_of m k = Some n \<Longrightarrow> held (AList.update k v m) + n = held m + v"
  by (induction m) (auto simp: held_def split: if_splits)

lemma held_new: "map_of m k = None \<Longrightarrow> held (AList.update k v m) = held m + v"
  by (induction m) (auto simp: held_def split: if_splits)

lemma length_update: "length (AList.update k v m) = (if map_of m k = None then Suc (length m) else length m)"
  by (induction m) auto

lemma delete_absent: "k \<notin> set (map fst m) \<Longrightarrow> AList.delete k m = m"
  by (induction m) auto

lemma held_delete:
  "gm_ok m \<Longrightarrow> map_of m k = Some n \<Longrightarrow> held (AList.delete k m) + n = held m \<and> Suc (length (AList.delete k m)) = length m"
  by (induction m) (auto simp: held_def gm_ok_def delete_absent split: if_splits)

lemma low_entry_None [simp]: "low_entry m = None \<longleftrightarrow> m = []"
  by (cases m) (auto split: option.splits)

lemma low_entry_in: "low_entry m = Some e \<Longrightarrow> e \<in> set m \<and> (\<forall>f\<in>set m. snd e \<le> snd f)"
proof (induction m arbitrary: e)
  case Nil
  then show ?case by simp
next
  case (Cons x m)
  show ?case
  proof (cases "low_entry m")
    case None
    with Cons.prems show ?thesis by simp
  next
    case (Some l)
    with Cons.IH [of l] Cons.prems show ?thesis by (auto split: if_splits)
  qed
qed

text \<open>The floor \<open>b\<close>: no entry is below it, an absent key was never seen more often, and no entry is
  more than \<open>b\<close> above what was seen.\<close>

definition sketch_ok :: "nat \<Rightarrow> tkey list \<Rightarrow> nat \<Rightarrow> (tkey, nat) gomap \<Rightarrow> bool" where
  "sketch_ok cap keys b m \<longleftrightarrow>
     gm_ok m \<and> length m \<le> cap \<and> held m = length keys \<and> (length m < cap \<longrightarrow> b = 0) \<and>
     (\<forall>k. case map_of m k of
            None \<Rightarrow> count_list keys k \<le> b
          | Some n \<Rightarrow> b \<le> n \<and> count_list keys k \<le> n \<and> n \<le> count_list keys k + b)"

lemma sketch_ok_entry: "sketch_ok cap keys b m \<Longrightarrow> map_of m k = Some n \<Longrightarrow>
    b \<le> n \<and> count_list keys k \<le> n \<and> n \<le> count_list keys k + b"
  unfolding sketch_ok_def by (metis (no_types, lifting) option.simps(5))

lemma sketch_ok_absent: "sketch_ok cap keys b m \<Longrightarrow> map_of m k = None \<Longrightarrow> count_list keys k \<le> b"
  unfolding sketch_ok_def by (metis (no_types, lifting) option.simps(4))

lemma sketch_okI:
  "gm_ok m \<Longrightarrow> length m \<le> cap \<Longrightarrow> held m = length keys \<Longrightarrow> (length m < cap \<Longrightarrow> b = 0) \<Longrightarrow>
    (\<And>k n. map_of m k = Some n \<Longrightarrow> b \<le> n \<and> count_list keys k \<le> n \<and> n \<le> count_list keys k + b) \<Longrightarrow>
    (\<And>k. map_of m k = None \<Longrightarrow> count_list keys k \<le> b) \<Longrightarrow> sketch_ok cap keys b m"
  unfolding sketch_ok_def by (simp split: option.splits)

lemma count_list_snoc: "count_list (keys @ [x]) k = count_list keys k + (if x = k then 1 else 0)"
  by simp

lemma sketch_ok_step:
  assumes "0 < cap" "sketch_ok cap keys b m"
  shows "\<exists>b'. sketch_ok cap (keys @ [x]) b' (space_saving cap x m)"
proof (cases "map_of m x")
  case (Some n)
  note entry = sketch_ok_entry [OF assms(2)] and absent = sketch_ok_absent [OF assms(2)]
  have "held (AList.update x (n + 1) m) = length keys + 1"
    using held_update [OF Some, of "n + 1"] assms(2) by (simp add: sketch_ok_def)
  then have "sketch_ok cap (keys @ [x]) b (AList.update x (n + 1) m)"
    using assms(2) Some entry [OF Some]
    by (intro sketch_okI) (auto simp: length_update sketch_ok_def [of cap keys] dest: entry absent split: if_splits)
  with Some show ?thesis by (auto simp: space_saving_def)
next
  case None
  note entry = sketch_ok_entry [OF assms(2)] and absent = sketch_ok_absent [OF assms(2)]
  show ?thesis
  proof (cases "length m < cap")
    case True
    then have "b = 0" using assms(2) by (simp add: sketch_ok_def)
    have "held (AList.update x 1 m) = length keys + 1"
      using held_new [OF None, of 1] assms(2) by (simp add: sketch_ok_def)
    then have "sketch_ok cap (keys @ [x]) 0 (AList.update x 1 m)"
      using assms(2) None True absent [OF None] \<open>b = 0\<close>
      by (intro sketch_okI) (auto simp: length_update sketch_ok_def [of cap keys] dest: entry absent split: if_splits)
    with None True show ?thesis by (auto simp: space_saving_def)
  next
    case False
    have ok: "gm_ok m" and len: "length m = cap" and sum: "held m = length keys"
      using assms(2) False by (auto simp: sketch_ok_def)
    with assms(1) obtain low n where low: "low_entry m = Some (low, n)"
      by (cases "low_entry m") auto
    then have at: "map_of m low = Some n" and least: "\<And>k v. map_of m k = Some v \<Longrightarrow> n \<le> v"
      using low_entry_in [OF low] ok by (auto simp: gm_ok_def dest: map_of_SomeD)
    let ?m = "AList.delete low m"
    have del: "held ?m + n = held m" "Suc (length ?m) = length m" using held_delete [OF ok at] by auto
    have gone: "map_of ?m x = None" using None by simp
    have total: "held (AList.update x (n + 1) ?m) = length keys + 1"
      using held_new [OF gone, of "n + 1"] del sum by simp
    have size': "length (AList.update x (n + 1) ?m) = cap" using gone del len by (simp add: length_update)
    have floor: "b \<le> n" "count_list keys low \<le> n" "count_list keys x \<le> b" using entry [OF at] absent [OF None] by auto
    have "sketch_ok cap (keys @ [x]) n (AList.update x (n + 1) ?m)"
    proof (rule sketch_okI)
      fix k v
      assume "map_of (AList.update x (n + 1) ?m) k = Some v"
      then show "n \<le> v \<and> count_list (keys @ [x]) k \<le> v \<and> v \<le> count_list (keys @ [x]) k + n"
        using floor entry [of k v] least [of k v] by (auto split: if_splits)
    next
      fix k
      assume "map_of (AList.update x (n + 1) ?m) k = None"
      then show "count_list (keys @ [x]) k \<le> n"
        using floor absent [of k] by (auto split: if_splits)
    qed (use ok total size' in auto)
    with None False low show ?thesis by (auto simp: space_saving_def)
  qed
qed

lemma sketch_ok_fold: "0 < cap \<Longrightarrow> \<exists>b. sketch_ok cap keys b (fold (space_saving cap) keys [])"
proof (induction keys rule: rev_induct)
  case Nil
  then show ?case by (auto simp: sketch_ok_def held_def)
next
  case (snoc x keys)
  then show ?case using sketch_ok_step by fastforce
qed

lemma held_floor: "(\<forall>e\<in>set m. b \<le> snd e) \<Longrightarrow> b * length m \<le> held m"
  by (induction m) (auto simp: held_def)


lemma route_segment_short: "length (route_segment s) \<le> 24"
  by (auto simp: route_segment_def Let_def)

text \<open>A path leaves a template of at most 77 characters.\<close>

lemma route_parts_short: "length (route_parts n p) \<le> 25 * n + 2"
proof (induction n arbitrary: p)
  case 0
  then show ?case by simp
next
  case (Suc n)
  show ?case
  proof (cases "go_cut CHR ''/'' p")
    case None
    with route_segment_short [of p] show ?thesis by simp
  next
    case (Some c)
    obtain seg rest where c: "c = (seg, rest)" by force
    show ?thesis using Some c Suc.IH [of rest] route_segment_short [of seg] by simp
  qed
qed

lemma templates_short: "length (normalize_path p) \<le> 77"
  using route_parts_short [of 3 "trim_slashes p"] by (simp add: normalize_path_def Let_def)

section \<open>Examples\<close>

definition demo_keys :: "tkey list" where
  "demo_keys = [Key_text ''/a'', Key_text ''/b'', Key_text ''/a'', Key_text ''/c'', Key_text ''/a'']"


text \<open>A chart of an hour in 60 points has 61: both end minutes are drawn.\<close>

lemma series_one_more:
  "length (series [] (of_unix 0) (of_unix 3600) 60 (new_stats \<lparr>sl_max_scopes = 64, sl_top_capacity = 20, sl_top_sample = 1\<rparr>)) = 61"
proof -
  have points: "m \<le> 60 \<Longrightarrow> length (series_points r m 1 60) = nat (61 - m)" for r :: "fw_outcome ring" and m
  proof (induction "nat (60 - m)" arbitrary: m)
    case 0
    then have "m = 60" by simp
    then show ?case by (simp add: series_points.simps [of r 60] series_points.simps [of r 61])
  next
    case (Suc k)
    then have "length (series_points r (m + 1) 1 60) = nat (61 - (m + 1))" by (intro Suc.hyps(1)) auto
    then show ?case using Suc.prems Suc.hyps(2) by (simp add: series_points.simps [of r m])
  qed
  have "of_unix 3600 > of_unix 0" "\<not> of_unix 0 < time_add (of_unix 3600) (- 1440 * minute)"
    by (simp_all add: of_unix_def time_add_def duration_defs)
  moreover have "time_sub (of_unix 3600) (of_unix 0) sdiv minute = 60"
    by (simp add: time_sub_def of_unix_def duration_defs sdiv_nonneg)
  moreover have "minute_of (of_unix 0) = 0" "minute_of (of_unix 3600) = 60"
    by (simp_all add: minute_of_def sdiv_nonneg)
  moreover have "(119 :: int) sdiv 60 = 1" by (simp add: sdiv_nonneg)
  ultimately show ?thesis by (simp add: series_def scope_for_def points Let_def)
qed

end
