(* ===== verification/Edgefw.thy ===== *)
theory Edgefw
  imports Fwrules Edgestats
begin

text \<open>
  The ingress firewall, \<open>internal/edgefw\<close>: its limits (\<open>limits.go\<close>), the fixed-window limiter of a
  rate rule (\<open>ratelimit.go\<close>), the automatic bans (\<open>bans.go\<close>), the signed challenge (\<open>challenge.go\<close>),
  the bot lists (\<open>internal/trafficpolicy/shield_bots.go\<close>) and the engine that evaluates a request
  (\<open>engine.go\<close>).

  Cloudflare's ranges, an HMAC and a hash are arguments: \<open>cf\<close> is the list that
  \<open>internal/cloudflareips\<close> holds, \<open>hmac key msg\<close> the 32 bytes of HMAC-SHA256 and \<open>sha\<close> those of
  SHA-256.  Bytes are characters.  A request reads the settings once.  Which entries a full table
  drops is a choice of Go's map iteration, an argument where more than one outcome is possible.
\<close>

section \<open>Limits\<close>

record fw_limits =
  fl_max_rules :: int
  fl_max_rate :: int
  fl_ban_strikes :: int
  fl_ban_window :: duration
  fl_ban_duration :: duration
  fl_max_bans :: int
  fl_bits :: int
  fl_challenge_ttl :: duration
  fl_pass_ttl :: duration
  fl_top_capacity :: int
  fl_max_scopes :: int
  fl_top_sample :: int
  fl_suggest_rate :: int
  fl_suggest_minutes :: int
  fl_max_agents :: int

definition fw_default_limits :: fw_limits where
  "fw_default_limits =
     \<lparr>fl_max_rules = 500, fl_max_rate = 10000, fl_ban_strikes = 20, fl_ban_window = 5 * minute, fl_ban_duration = hour,
      fl_max_bans = 10000, fl_bits = 16, fl_challenge_ttl = 2 * minute, fl_pass_ttl = 30 * minute, fl_top_capacity = 20,
      fl_max_scopes = 64, fl_top_sample = 1, fl_suggest_rate = 120, fl_suggest_minutes = 3, fl_max_agents = 256\<rparr>"

text \<open>The environment as the values its variables parse to.\<close>

definition fw_limits_from_env :: "(string \<Rightarrow> int option) \<Rightarrow> (string \<Rightarrow> duration option) \<Rightarrow> fw_limits" where
  "fw_limits_from_env num dur =
     (let l = fw_default_limits
      in \<lparr>fl_max_rules = env_pos (num ''APP_FIREWALL_MAX_RULES'') (fl_max_rules l),
          fl_max_rate = env_pos (num ''APP_FIREWALL_MAX_RATE_ENTRIES'') (fl_max_rate l),
          fl_ban_strikes = env_pos (num ''APP_FIREWALL_BAN_STRIKES'') (fl_ban_strikes l),
          fl_ban_window = env_pos (dur ''APP_FIREWALL_BAN_WINDOW'') (fl_ban_window l),
          fl_ban_duration = env_pos (dur ''APP_FIREWALL_BAN_DURATION'') (fl_ban_duration l),
          fl_max_bans = env_pos (num ''APP_FIREWALL_MAX_BANS'') (fl_max_bans l),
          fl_bits = min 28 (env_pos (num ''APP_FIREWALL_CHALLENGE_BITS'') (fl_bits l)),
          fl_challenge_ttl = env_pos (dur ''APP_FIREWALL_CHALLENGE_TTL'') (fl_challenge_ttl l),
          fl_pass_ttl = env_pos (dur ''APP_FIREWALL_PASS_TTL'') (fl_pass_ttl l),
          fl_top_capacity = env_pos (num ''APP_FIREWALL_TOP_CAPACITY'') (fl_top_capacity l),
          fl_max_scopes = env_pos (num ''APP_FIREWALL_MAX_STAT_HOSTS'') (fl_max_scopes l),
          fl_top_sample = env_pos (num ''APP_FIREWALL_TOP_SAMPLE'') (fl_top_sample l),
          fl_suggest_rate = env_pos (num ''APP_FIREWALL_SUGGEST_ATTACK_PER_MINUTE'') (fl_suggest_rate l),
          fl_suggest_minutes = env_pos (num ''APP_FIREWALL_SUGGEST_ATTACK_MINUTES'') (fl_suggest_minutes l),
          fl_max_agents = env_pos (num ''APP_FIREWALL_MAX_AI_BOT_AGENTS'') (fl_max_agents l)\<rparr>)"

definition stat_limits_of :: "fw_limits \<Rightarrow> stat_limits" where
  "stat_limits_of l =
     \<lparr>sl_max_scopes = fl_max_scopes l, sl_top_capacity = nat (fl_top_capacity l), sl_top_sample = fl_top_sample l\<rparr>"

section \<open>Rate rules\<close>

text \<open>Cloudflare's own addresses are never limited or banned.\<close>

definition is_protected :: "prefix list \<Rightarrow> addr \<Rightarrow> bool" where
  "is_protected cf a \<longleftrightarrow> addr_valid a \<and> list_ex (\<lambda>p. prefix_contains p (unmap_addr a)) cf"

record rate_entry =
  re_start :: gotime
  re_n :: int

record rate_limiter =
  rl_count :: int
  rl_window :: duration
  rl_cap :: int
  rl_entries :: "(addr, rate_entry) gomap"

definition new_rate_limiter :: "int \<Rightarrow> int \<Rightarrow> int \<Rightarrow> rate_limiter" where
  "new_rate_limiter n window_secs cap =
     \<lparr>rl_count = n, rl_window = i64_mul window_secs second, rl_cap = cap, rl_entries = []\<rparr>"

definition rate_same :: "rate_limiter \<Rightarrow> int \<Rightarrow> int \<Rightarrow> bool" where
  "rate_same l n window_secs \<longleftrightarrow> rl_count l = n \<and> rl_window l = i64_mul window_secs second"

text \<open>Removing entries until fewer than \<open>cap\<close> are left, in an order that starts anywhere.\<close>

definition drop_to :: "nat \<Rightarrow> int \<Rightarrow> ('k, 'v) gomap \<Rightarrow> ('k, 'v) gomap" where
  "drop_to pick cap m = drop (nat (int (length m) + 1 - cap)) (rotate pick m)"

definition rate_evict :: "nat \<Rightarrow> gotime \<Rightarrow> rate_limiter \<Rightarrow> rate_limiter" where
  "rate_evict pick now l =
     l\<lparr>rl_entries := drop_to pick (rl_cap l)
         (filter (\<lambda>(_, e). \<not> time_sub now (re_start e) \<ge> rl_window l) (rl_entries l))\<rparr>"

definition rate_allow :: "nat \<Rightarrow> prefix list \<Rightarrow> addr \<Rightarrow> gotime \<Rightarrow> rate_limiter \<Rightarrow> (bool \<times> int) \<times> rate_limiter" where
  "rate_allow pick cf ip now l =
     (if is_protected cf ip then ((True, 0), l)
      else
        (let found = map_of (rl_entries l) ip;
             renew = (case found of None \<Rightarrow> True | Some e \<Rightarrow> time_sub now (re_start e) \<ge> rl_window l);
             l = (if renew \<and> found = None \<and> int (length (rl_entries l)) \<ge> rl_cap l then rate_evict pick now l else l);
             e = (if renew then \<lparr>re_start = now, re_n = 0\<rparr> else the found);
             e = e\<lparr>re_n := re_n e + 1\<rparr>;
             l = l\<lparr>rl_entries := AList.update ip e (rl_entries l)\<rparr>
         in if re_n e \<le> rl_count l then ((True, 0), l)
            else ((False, max ((rl_window l - time_sub now (re_start e)) sdiv second + 1) 1), l)))"

section \<open>Bans\<close>

record fw_ban =
  bn_ip :: addr
  bn_reason :: string
  bn_started :: gotime
  bn_ends :: gotime
  bn_hits :: u64

record strike =
  st_start :: gotime
  st_n :: int

record fw_bans =
  bs_limits :: fw_limits
  bs_strikes :: "(addr, strike) gomap"
  bs_bans :: "(addr, fw_ban) gomap"
  bs_live :: int

definition new_bans :: "fw_limits \<Rightarrow> fw_bans" where
  "new_bans l = \<lparr>bs_limits = l, bs_strikes = [], bs_bans = [], bs_live = 0\<rparr>"

definition bans_set_limits :: "fw_limits \<Rightarrow> fw_bans \<Rightarrow> fw_bans" where
  "bans_set_limits l b = b\<lparr>bs_limits := l\<rparr>"

text \<open>The ban that ends first; of equal ones the first met.  A zero end counts as none yet.\<close>

definition oldest_ban :: "(addr, fw_ban) gomap \<Rightarrow> addr" where
  "oldest_ban m =
     fst (foldl (\<lambda>(old, oend) (k, v). if oend = zero_time \<or> bn_ends v < oend then (k, bn_ends v) else (old, oend))
            (No_addr, zero_time) m)"

definition add_locked :: "addr \<Rightarrow> string \<Rightarrow> duration \<Rightarrow> gotime \<Rightarrow> fw_bans \<Rightarrow> fw_bans" where
  "add_locked ip why d now b =
     (let bans = (if map_of (bs_bans b) ip = None \<and> int (length (bs_bans b)) \<ge> fl_max_bans (bs_limits b)
                  then AList.delete (oldest_ban (bs_bans b)) (bs_bans b) else bs_bans b);
          bans = AList.update ip
            \<lparr>bn_ip = ip, bn_reason = why, bn_started = now, bn_ends = time_add now d, bn_hits = 0\<rparr> bans
      in b\<lparr>bs_bans := bans, bs_live := int (length bans)\<rparr>)"

definition sweep_strikes :: "nat \<Rightarrow> gotime \<Rightarrow> fw_bans \<Rightarrow> fw_bans" where
  "sweep_strikes pick now b =
     b\<lparr>bs_strikes := drop_to pick (fl_max_bans (bs_limits b))
         (filter (\<lambda>(_, s). \<not> time_sub now (st_start s) \<ge> fl_ban_window (bs_limits b)) (bs_strikes b))\<rparr>"

definition bans_strike :: "nat \<Rightarrow> prefix list \<Rightarrow> addr \<Rightarrow> string \<Rightarrow> gotime \<Rightarrow> fw_bans \<Rightarrow> bool \<times> fw_bans" where
  "bans_strike pick cf ip why now b =
     (if \<not> addr_valid ip \<or> is_protected cf ip then (False, b)
      else if map_of (bs_bans b) ip \<noteq> None then (False, b)
      else
        (let found = map_of (bs_strikes b) ip;
             renew = (case found of None \<Rightarrow> True | Some s \<Rightarrow> time_sub now (st_start s) \<ge> fl_ban_window (bs_limits b));
             b = (if renew \<and> found = None \<and> int (length (bs_strikes b)) \<ge> fl_max_bans (bs_limits b)
                  then sweep_strikes pick now b else b);
             s = (if renew then \<lparr>st_start = now, st_n = 0\<rparr> else the found);
             s = s\<lparr>st_n := st_n s + 1\<rparr>
         in if st_n s < fl_ban_strikes (bs_limits b)
            then (False, b\<lparr>bs_strikes := AList.update ip s (bs_strikes b)\<rparr>)
            else (True, add_locked ip why (fl_ban_duration (bs_limits b)) now
                          (b\<lparr>bs_strikes := AList.delete ip (bs_strikes b)\<rparr>))))"

definition bans_add :: "prefix list \<Rightarrow> addr \<Rightarrow> string \<Rightarrow> duration \<Rightarrow> gotime \<Rightarrow> fw_bans \<Rightarrow> fw_bans" where
  "bans_add cf ip why d now b =
     (if \<not> addr_valid ip \<or> is_protected cf ip then b else add_locked ip why d now b)"

definition bans_active :: "addr \<Rightarrow> gotime \<Rightarrow> fw_bans \<Rightarrow> bool \<times> fw_bans" where
  "bans_active ip now b =
     (if bs_live b = 0 then (False, b)
      else (case map_of (bs_bans b) ip of
              None \<Rightarrow> (False, b)
            | Some ban \<Rightarrow>
                if \<not> now < bn_ends ban then
                  (let bans = AList.delete ip (bs_bans b)
                   in (False, b\<lparr>bs_bans := bans, bs_live := int (length bans)\<rparr>))
                else (True, b\<lparr>bs_bans := AList.update ip (ban\<lparr>bn_hits := bn_hits ban + 1\<rparr>) (bs_bans b)\<rparr>)))"

definition bans_list :: "gotime \<Rightarrow> fw_bans \<Rightarrow> fw_ban list \<times> fw_bans" where
  "bans_list now b =
     (let bans = filter (\<lambda>(_, v). now < bn_ends v) (bs_bans b)
      in (go_sort (\<lambda>x y. bn_started x > bn_started y) (map snd bans),
          b\<lparr>bs_bans := bans, bs_live := int (length bans)\<rparr>))"

definition bans_lift :: "addr \<Rightarrow> fw_bans \<Rightarrow> bool \<times> fw_bans" where
  "bans_lift ip b =
     (let bans = AList.delete ip (bs_bans b)
      in (map_of (bs_bans b) ip \<noteq> None,
          b\<lparr>bs_bans := bans, bs_strikes := AList.delete ip (bs_strikes b), bs_live := int (length bans)\<rparr>))"

section \<open>Base64\<close>

text \<open>\<open>base64.RawURLEncoding\<close>: three bytes are four characters, the rest is not padded.  Decoding
  skips line ends.  The alphabet is the capitals, the small letters, the digits, minus and underscore.\<close>

definition b64_alphabet :: string where
  "b64_alphabet = map char_of ([65..<91] @ [97..<123] @ [48..<58] @ [45, 95 :: nat])"

definition b64_char :: "nat \<Rightarrow> char" where
  "b64_char k = b64_alphabet ! k"

definition b64_val :: "char \<Rightarrow> nat option" where
  "b64_val c = map_of (zip b64_alphabet [0..<64]) c"

fun b64_encode :: "string \<Rightarrow> string" where
  "b64_encode [] = []"
| "b64_encode [a] = [b64_char (of_char a div 4), b64_char (of_char a mod 4 * 16)]"
| "b64_encode [a, b] =
     [b64_char (of_char a div 4), b64_char (of_char a mod 4 * 16 + of_char b div 16), b64_char (of_char b mod 16 * 4)]"
| "b64_encode (a # b # c # s) =
     [b64_char (of_char a div 4), b64_char (of_char a mod 4 * 16 + of_char b div 16),
      b64_char (of_char b mod 16 * 4 + of_char c div 64), b64_char (of_char c mod 64)] @ b64_encode s"

fun b64_quads :: "nat list \<Rightarrow> string option" where
  "b64_quads [] = Some []"
| "b64_quads [p] = None"
| "b64_quads [p, q] = Some [char_of (p * 4 + q div 16)]"
| "b64_quads [p, q, r] = Some [char_of (p * 4 + q div 16), char_of (q mod 16 * 16 + r div 4)]"
| "b64_quads (p # q # r # t # s) =
     map_option (\<lambda>rest. char_of (p * 4 + q div 16) # char_of (q mod 16 * 16 + r div 4) # char_of (r mod 4 * 64 + t) # rest)
       (b64_quads s)"

definition b64_decode :: "string \<Rightarrow> string option" where
  "b64_decode s =
     (let vals = map b64_val (filter (\<lambda>c. c \<noteq> CHR 0x0A \<and> c \<noteq> CHR 0x0D) s)
      in if None \<in> set vals then None else b64_quads (map the vals))"

section \<open>Challenges\<close>

text \<open>\<open>binary.BigEndian\<close>, 64 bits wide.\<close>

definition be_bytes :: "int \<Rightarrow> string" where
  "be_bytes n = map (\<lambda>k. char_of (nat (n mod 2 ^ 64 div 2 ^ (8 * k) mod 256))) [7, 6, 5, 4, 3, 2, 1, 0]"

definition be_value :: "string \<Rightarrow> int" where
  "be_value bs = wrap64 (fold (\<lambda>b v. v * 256 + int (of_char b)) bs 0)"

text \<open>The part of an address that a token is bound to.\<close>

definition addr_prefix :: "addr \<Rightarrow> string" where
  "addr_prefix a =
     (case a of
        No_addr \<Rightarrow> []
      | V4 v \<Rightarrow> map (\<lambda>k. char_of (unat (drop_bit k v AND 255))) [24, 16, 8]
      | V6 v _ \<Rightarrow> map (\<lambda>k. char_of (unat (drop_bit k v AND 255))) [120, 112, 104, 96, 88, 80, 72, 64])"

type_synonym hmac = "string \<Rightarrow> string \<Rightarrow> string"

definition signer_set_key :: "string \<Rightarrow> string \<Rightarrow> string" where
  "signer_set_key new key = (if length new < 16 then key else new)"

definition token_mac :: "hmac \<Rightarrow> string \<Rightarrow> string \<Rightarrow> string" where
  "token_mac hmac key msg = take 16 (hmac key msg)"

definition seal_token :: "hmac \<Rightarrow> string \<Rightarrow> char \<Rightarrow> gotime \<Rightarrow> int \<Rightarrow> string \<Rightarrow> addr \<Rightarrow> string" where
  "seal_token hmac key kind expiry bits nonce ip =
     (let body = kind # be_bytes (unix_secs expiry) @ char_of (nat (bits mod 256)) # nonce
      in b64_encode body @ ''.'' @ b64_encode (token_mac hmac key (body @ addr_prefix ip)))"

definition open_token :: "hmac \<Rightarrow> string \<Rightarrow> char \<Rightarrow> string \<Rightarrow> addr \<Rightarrow> gotime \<Rightarrow> int option" where
  "open_token hmac key kind tok ip now =
     (case go_cut CHR ''.'' tok of
        None \<Rightarrow> None
      | Some (x, y) \<Rightarrow>
          if length tok > 256 then None
          else (case b64_decode x of
                  None \<Rightarrow> None
                | Some body \<Rightarrow>
                    if length body < 10 \<or> body ! 0 \<noteq> kind then None
                    else (case b64_decode y of
                            None \<Rightarrow> None
                          | Some sig \<Rightarrow>
                              if sig \<noteq> token_mac hmac key (body @ addr_prefix ip) then None
                              else if \<not> now < of_unix (be_value (take 8 (drop 1 body))) then None
                              else Some (of_char (body ! 9)))))"

definition new_challenge :: "hmac \<Rightarrow> string \<Rightarrow> string \<Rightarrow> addr \<Rightarrow> int \<Rightarrow> duration \<Rightarrow> gotime \<Rightarrow> string" where
  "new_challenge hmac key nonce ip difficulty ttl now = seal_token hmac key CHR ''c'' (time_add now ttl) difficulty nonce ip"

fun leading_zero_bits :: "string \<Rightarrow> int" where
  "leading_zero_bits [] = 0"
| "leading_zero_bits (b # bs) =
     (if (of_char b :: nat) = 0 then 8 + leading_zero_bits bs
      else int (length (takeWhile (\<lambda>k. \<not> 2 ^ k \<le> (of_char b :: nat)) [7, 6, 5, 4, 3, 2, 1, 0])))"

text \<open>\<open>strconv.ParseUint\<close> in base 10 with 32 bits.\<close>

definition parse_u32 :: "string \<Rightarrow> int option" where
  "parse_u32 s =
     (if s = [] \<or> \<not> list_all is_digit s \<or> digits_value s 0 \<ge> 2 ^ 32 then None else Some (digits_value s 0))"

definition verify_proof :: "hmac \<Rightarrow> (string \<Rightarrow> string) \<Rightarrow> string \<Rightarrow> string \<Rightarrow> string \<Rightarrow> addr \<Rightarrow> gotime \<Rightarrow> bool" where
  "verify_proof hmac sha key token counter ip now =
     (case open_token hmac key CHR ''c'' token ip now of
        None \<Rightarrow> False
      | Some need \<Rightarrow>
          if counter = [] \<or> length counter > 12 then False
          else if parse_u32 counter = None then False
          else leading_zero_bits (sha (token @ '':'' @ counter)) \<ge> need)"

definition new_pass :: "hmac \<Rightarrow> string \<Rightarrow> addr \<Rightarrow> duration \<Rightarrow> gotime \<Rightarrow> string" where
  "new_pass hmac key ip ttl now = seal_token hmac key CHR ''p'' (time_add now ttl) 0 [] ip"

definition pass_cookie_valid :: "hmac \<Rightarrow> string \<Rightarrow> string \<Rightarrow> addr \<Rightarrow> gotime \<Rightarrow> bool" where
  "pass_cookie_valid hmac key cookie ip now =
     (if cookie = [] then False else open_token hmac key CHR ''p'' cookie ip now \<noteq> None)"

section \<open>Bots\<close>

text \<open>\<open>strings.Split\<close> at line ends.\<close>

fun split_lines :: "string \<Rightarrow> string \<Rightarrow> string list" where
  "split_lines cur [] = [cur]"
| "split_lines cur (c # cs) = (if c = CHR 0x0A then cur # split_lines [] cs else split_lines (cur @ [c]) cs)"

definition parse_bot_list :: "string \<Rightarrow> string list" where
  "parse_bot_list txt =
     filter (\<lambda>l. l \<noteq> [] \<and> \<not> has_prefix l ''#'') (map (\<lambda>l. to_lower (trim_space l)) (split_lines [] txt))"

definition new_bot_matcher :: "string list \<Rightarrow> string list \<Rightarrow> string list" where
  "new_bot_matcher base extra = base @ filter (\<lambda>e. e \<noteq> []) (map (\<lambda>e. to_lower (trim_space e)) extra)"

definition bot_matcher_from :: "string list \<Rightarrow> string list" where
  "bot_matcher_from ps = filter (\<lambda>p. p \<noteq> []) (map (\<lambda>p. to_lower (trim_space p)) ps)"

definition bot_match :: "string list \<Rightarrow> string \<Rightarrow> bool" where
  "bot_match patterns ua = (if ua = [] then False else list_ex (contains_sub (to_lower ua)) patterns)"

section \<open>Settings\<close>

record fw_settings =
  fs_bot :: string
  fs_ai :: string
  fs_ai_agents :: "string list"
  fs_bans :: bool
  fs_attack_until :: "gotime option"
  fs_attack_challenge :: bool

definition fw_default_settings :: fw_settings where
  "fw_default_settings =
     \<lparr>fs_bot = ''off'', fs_ai = ''off'', fs_ai_agents = [], fs_bans = True, fs_attack_until = None, fs_attack_challenge = False\<rparr>"

definition attack_active :: "fw_settings \<Rightarrow> gotime \<Rightarrow> bool" where
  "attack_active s now = (case fs_attack_until s of None \<Rightarrow> False | Some t \<Rightarrow> now < t)"

definition valid_bot_mode :: "string \<Rightarrow> bool" where
  "valid_bot_mode m \<longleftrightarrow> m = ''off'' \<or> m = ''log'' \<or> m = ''challenge'' \<or> m = ''block''"

definition safe_header_value :: "string \<Rightarrow> bool" where
  "safe_header_value v \<longleftrightarrow>
     list_all (\<lambda>c. c = CHR 0x09 \<or> \<not> (of_char c < (0x20 :: nat) \<or> of_char c = (0x7f :: nat))) v"

datatype settings_error = Se_bot | Se_ai | Se_agents int | Se_agent nat | Se_attack duration

definition settings_validate :: "fw_limits \<Rightarrow> duration \<Rightarrow> gotime \<Rightarrow> fw_settings \<Rightarrow> settings_error list" where
  "settings_validate l attack_max now s =
     (if \<not> valid_bot_mode (fs_bot s) then [Se_bot] else []) @
     (if \<not> valid_bot_mode (fs_ai s) then [Se_ai] else []) @
     (if int (length (fs_ai_agents s)) > fl_max_agents l then [Se_agents (fl_max_agents l)] else []) @
     List.map_filter
       (\<lambda>(i, a). if trim_space a = [] \<or> length a > 128 \<or> \<not> safe_header_value a then Some (Se_agent i) else None)
       (zip [0..<length (fs_ai_agents s)] (fs_ai_agents s)) @
     (case fs_attack_until s of
        None \<Rightarrow> [] | Some t \<Rightarrow> if t > time_add now attack_max then [Se_attack attack_max] else [])"

section \<open>The engine\<close>

record fw_snapshot =
  sn_country :: bool
  sn_global :: "compiled_rule list"
  sn_hosts :: "(string, compiled_rule list) gomap"
  sn_limiters :: "(string, rate_limiter) gomap"

definition rules_for :: "fw_snapshot \<Rightarrow> string \<Rightarrow> compiled_rule list" where
  "rules_for s host = (case map_of (sn_hosts s) host of Some r \<Rightarrow> r | None \<Rightarrow> sn_global s)"

text \<open>An engine; \<open>fe_bad\<close> and \<open>fe_ai\<close> are the patterns of the two bot matchers.\<close>

record fw_engine =
  fe_limits :: fw_limits
  fe_snap :: fw_snapshot
  fe_settings :: fw_settings
  fe_bad :: "string list"
  fe_ai :: "string list"
  fe_stats :: fw_stats
  fe_bans :: fw_bans
  fe_key :: string
  fe_title :: string

text \<open>What the engine reads from outside: Cloudflare's ranges, HMAC, SHA-256, and the two shipped
  bot lists.\<close>

record fw_world =
  fw_cf :: "prefix list"
  fw_hmac :: hmac
  fw_sha :: "string \<Rightarrow> string"
  fw_bad_list :: "string list"
  fw_ai_list :: string

definition set_settings :: "fw_world \<Rightarrow> fw_settings \<Rightarrow> fw_engine \<Rightarrow> fw_engine" where
  "set_settings w s e =
     (let agents = (if fs_ai_agents s = [] then parse_bot_list (fw_ai_list w) else fs_ai_agents s)
      in e\<lparr>fe_settings := s, fe_bad := new_bot_matcher (fw_bad_list w) [], fe_ai := bot_matcher_from agents\<rparr>)"

definition new_fw_engine :: "fw_world \<Rightarrow> string \<Rightarrow> fw_limits \<Rightarrow> fw_engine" where
  "new_fw_engine w key l =
     set_settings w fw_default_settings
       \<lparr>fe_limits = l, fe_snap = \<lparr>sn_country = False, sn_global = [], sn_hosts = [], sn_limiters = []\<rparr>,
        fe_settings = fw_default_settings, fe_bad = [], fe_ai = [], fe_stats = new_stats (stat_limits_of l),
        fe_bans = new_bans l, fe_key = key, fe_title = ''Security check''\<rparr>"

definition set_title :: "string \<Rightarrow> fw_engine \<Rightarrow> fw_engine" where
  "set_title nm e = (if trim_space nm \<noteq> [] then e\<lparr>fe_title := nm\<rparr> else e)"

definition rule_before :: "fw_rule \<Rightarrow> fw_rule \<Rightarrow> bool" where
  "rule_before a b =
     (if fr_position a \<noteq> fr_position b then fr_position a < fr_position b else fr_id a < fr_id b)"

text \<open>One rule of the sorted list: the snapshot, the compiled rules and the hosts that have rules
  of their own.\<close>

definition install_rule ::
    "fw_limits \<Rightarrow> (string, rate_limiter) gomap \<Rightarrow> fw_rule \<Rightarrow> fw_snapshot \<times> compiled_rule list \<times> string list \<Rightarrow>
      fw_snapshot \<times> compiled_rule list \<times> string list" where
  "install_rule l old r acc =
     (case acc of
        (next, scoped, hosts) \<Rightarrow>
          if \<not> fr_enabled r then acc
          else
            (let c = compile_rule r;
                 next = (if list_ex (\<lambda>cond. cd_field cond = ''country'') (fr_conds r) then next\<lparr>sn_country := True\<rparr> else next);
                 fresh = new_rate_limiter (fr_rate_count r) (fr_rate_window r) (fl_max_rate l);
                 lim = (case map_of old (fr_id r) of
                          None \<Rightarrow> fresh
                        | Some o' \<Rightarrow> if rate_same o' (fr_rate_count r) (fr_rate_window r) then o' else fresh);
                 next = (if fr_action r = ''rate_limit''
                         then next\<lparr>sn_limiters := AList.update (fr_id r) lim (sn_limiters next)\<rparr> else next)
             in if fr_scope r = [] then (next\<lparr>sn_global := sn_global next @ [c]\<rparr>, scoped @ [c], hosts)
                else (next, scoped @ [c], if fr_scope r \<in> set hosts then hosts else hosts @ [fr_scope r])))"

definition set_rules :: "fw_rule list \<Rightarrow> fw_engine \<Rightarrow> fw_engine" where
  "set_rules rules e =
     (let sorted = go_sort rule_before rules;
          (next, scoped, hosts) =
            foldl (\<lambda>acc r. install_rule (fe_limits e) (sn_limiters (fe_snap e)) r acc)
              (\<lparr>sn_country = False, sn_global = [], sn_hosts = [], sn_limiters = []\<rparr>, [], []) sorted;
          next = next\<lparr>sn_hosts := map (\<lambda>h. (h, filter (\<lambda>c. cr_scope c = [] \<or> cr_scope c = h) scoped)) hosts\<rparr>
      in e\<lparr>fe_snap := next, fe_stats := prune_rules (map fr_id sorted) (fe_stats e)\<rparr>)"

definition needs_country :: "fw_engine \<Rightarrow> bool" where
  "needs_country e = sn_country (fe_snap e)"

record verdict =
  vd_action :: string
  vd_reason :: fw_reason
  vd_outcome :: fw_outcome
  vd_rule :: string
  vd_rule_name :: string
  vd_status :: int
  vd_retry :: int
  vd_logged :: bool

definition no_verdict :: verdict where
  "no_verdict =
     \<lparr>vd_action = [], vd_reason = Re_none, vd_outcome = Oc_allowed, vd_rule = [], vd_rule_name = [], vd_status = 0,
      vd_retry = 0, vd_logged = False\<rparr>"

definition passed :: "fw_world \<Rightarrow> fw_engine \<Rightarrow> fw_request \<Rightarrow> gotime \<Rightarrow> bool" where
  "passed w e req now = pass_cookie_valid (fw_hmac w) (fe_key e) (rq_pass req) (rq_ip req) now"

text \<open>The ordered rules: a verdict, or that nothing was decided and whether a rule logged.  The
  engine counts a match before it acts on it.\<close>

fun run_rules :: "fw_world \<Rightarrow> nat \<Rightarrow> compiled_rule list \<Rightarrow> fw_request \<Rightarrow> gotime \<Rightarrow> bool \<Rightarrow> fw_engine \<Rightarrow>
    verdict option \<times> bool \<times> fw_engine" where
  "run_rules w pick [] req now logged e = (None, logged, e)"
| "run_rules w pick (r # rs) req now logged e =
     (if \<not> rule_matches r req then run_rules w pick rs req now logged e
      else
        (let e = e\<lparr>fe_stats := rule_matched (cr_id r) now (fe_stats e)\<rparr>
         in if cr_action r = ''allow'' then
              (Some (no_verdict\<lparr>vd_action := ''allow'', vd_reason := Re_rule, vd_rule := cr_id r, vd_rule_name := cr_name r\<rparr>),
               logged, e)
            else if cr_action r = ''deny'' then
              (Some (no_verdict\<lparr>vd_action := ''deny'', vd_reason := Re_rule, vd_outcome := Oc_denied, vd_rule := cr_id r,
                                vd_rule_name := cr_name r, vd_status := 403\<rparr>), logged, e)
            else if cr_action r = ''challenge'' then
              (if \<not> passed w e req now then
                 (Some (no_verdict\<lparr>vd_action := ''challenge'', vd_reason := Re_rule, vd_outcome := Oc_challenged,
                                   vd_rule := cr_id r, vd_rule_name := cr_name r\<rparr>), logged, e)
               else run_rules w pick rs req now logged e)
            else if cr_action r = ''log'' then run_rules w pick rs req now True e
            else if cr_action r = ''rate_limit'' then
              (case map_of (sn_limiters (fe_snap e)) (cr_id r) of
                 None \<Rightarrow> run_rules w pick rs req now logged e
               | Some l \<Rightarrow>
                   (case rate_allow pick (fw_cf w) (rq_ip req) now l of
                      ((ok, ra), l') \<Rightarrow>
                        (let e = e\<lparr>fe_snap := (fe_snap e)\<lparr>sn_limiters := AList.update (cr_id r) l' (sn_limiters (fe_snap e))\<rparr>\<rparr>
                         in if \<not> ok then
                              (Some (no_verdict\<lparr>vd_action := ''deny'', vd_reason := Re_rate_rule, vd_outcome := Oc_rate_limited,
                                                vd_rule := cr_id r, vd_rule_name := cr_name r, vd_status := 429, vd_retry := ra\<rparr>),
                               logged, e)
                            else run_rules w pick rs req now logged e)))
            else run_rules w pick rs req now logged e))"

definition bot_verdict :: "fw_world \<Rightarrow> fw_engine \<Rightarrow> string \<Rightarrow> fw_reason \<Rightarrow> fw_request \<Rightarrow> gotime \<Rightarrow> verdict option" where
  "bot_verdict w e m why req now =
     (if m = ''block'' then
        Some (no_verdict\<lparr>vd_action := ''deny'', vd_reason := why, vd_outcome := Oc_denied, vd_status := 403\<rparr>)
      else if m = ''challenge'' \<and> \<not> passed w e req now then
        Some (no_verdict\<lparr>vd_action := ''challenge'', vd_reason := why, vd_outcome := Oc_challenged\<rparr>)
      else None)"

text \<open>One bot list: a verdict, or whether the request is to be logged.\<close>

definition bot_step :: "fw_world \<Rightarrow> fw_engine \<Rightarrow> string \<Rightarrow> fw_reason \<Rightarrow> string list \<Rightarrow> fw_request \<Rightarrow> gotime \<Rightarrow> bool \<Rightarrow> verdict + bool" where
  "bot_step w e m why patterns req now logged =
     (if m \<noteq> ''off'' \<and> bot_match patterns (rq_agent req) then
        (case bot_verdict w e m why req now of
           Some v \<Rightarrow> Inl (v\<lparr>vd_logged := logged\<rparr>)
         | None \<Rightarrow> Inr (logged \<or> m = ''log''))
      else Inr logged)"

definition fw_evaluate :: "fw_world \<Rightarrow> nat \<Rightarrow> fw_request \<Rightarrow> gotime \<Rightarrow> fw_engine \<Rightarrow> verdict \<times> fw_engine" where
  "fw_evaluate w pick req now e =
     (let st = fe_settings e
      in case run_rules w pick (rules_for (fe_snap e) (rq_host req)) req now False e of
           (Some v, _, e) \<Rightarrow> (v, e)
         | (None, logged, e) \<Rightarrow>
             (case (if fs_bans st \<and> addr_valid (rq_ip req) then bans_active (rq_ip req) now (fe_bans e) else (False, fe_bans e)) of
                (banned, bans) \<Rightarrow>
                  (let e = e\<lparr>fe_bans := bans\<rparr>
                   in if banned then
                        (no_verdict\<lparr>vd_action := ''deny'', vd_reason := Re_ban, vd_outcome := Oc_denied, vd_status := 403,
                                    vd_logged := logged\<rparr>, e)
                      else if attack_active st now \<and> fs_attack_challenge st \<and> \<not> passed w e req now then
                        (no_verdict\<lparr>vd_action := ''challenge'', vd_reason := Re_attack, vd_outcome := Oc_challenged\<rparr>, e)
                      else
                        (case bot_step w e (fs_bot st) Re_bot (fe_bad e) req now logged of
                           Inl v \<Rightarrow> (v, e)
                         | Inr logged \<Rightarrow>
                             (case bot_step w e (fs_ai st) Re_ai_bot (fe_ai e) req now logged of
                                Inl v \<Rightarrow> (v, e)
                              | Inr logged \<Rightarrow> (no_verdict\<lparr>vd_logged := logged\<rparr>, e))))))"

definition fw_record :: "fw_world \<Rightarrow> nat \<Rightarrow> fw_request \<Rightarrow> fw_outcome \<Rightarrow> fw_reason \<Rightarrow> gotime \<Rightarrow> fw_engine \<Rightarrow> fw_engine" where
  "fw_record w pick req oc why now e =
     (let e = e\<lparr>fe_stats := observe
            \<lparr>fo_at = now, fo_outcome = oc, fo_reason = why, fo_ip = rq_ip req, fo_ua = rq_agent req, fo_path = rq_path req,
             fo_host = rq_host req\<rparr> (fe_stats e)\<rparr>
      in if (oc = Oc_denied \<or> oc = Oc_rate_limited) \<and> why \<noteq> Re_ban \<and> fs_bans (fe_settings e)
         then e\<lparr>fe_bans := snd (bans_strike pick (fw_cf w) (rq_ip req) (fw_reason_string why) now (fe_bans e))\<rparr>
         else e)"

definition issue :: "fw_world \<Rightarrow> string \<Rightarrow> fw_request \<Rightarrow> gotime \<Rightarrow> fw_engine \<Rightarrow> string" where
  "issue w nonce req now e =
     new_challenge (fw_hmac w) (fe_key e) nonce (rq_ip req) (fl_bits (fe_limits e)) (fl_challenge_ttl (fe_limits e)) now"

definition solve :: "fw_world \<Rightarrow> addr \<Rightarrow> string \<Rightarrow> string \<Rightarrow> gotime \<Rightarrow> fw_engine \<Rightarrow> string option" where
  "solve w ip token counter now e =
     (if \<not> verify_proof (fw_hmac w) (fw_sha w) (fe_key e) token counter ip now then None
      else Some (new_pass (fw_hmac w) (fe_key e) ip (fl_pass_ttl (fe_limits e)) now))"

section \<open>The rules of a host\<close>

definition applies_to :: "string \<Rightarrow> fw_rule \<Rightarrow> bool" where
  "applies_to host r \<longleftrightarrow> fr_enabled r \<and> (fr_scope r = [] \<or> fr_scope r = host)"

text \<open>What the installing loop has gathered from the rules so far.\<close>

lemma install_gathers:
  "foldl (\<lambda>acc r. install_rule l old r acc) (next, scoped, hosts) rs = (next', scoped', hosts') \<Longrightarrow>
    sn_global next' = sn_global next @ map compile_rule (filter (\<lambda>r. fr_enabled r \<and> fr_scope r = []) rs) \<and>
    scoped' = scoped @ map compile_rule (filter fr_enabled rs) \<and>
    set hosts' = set hosts \<union> {fr_scope r |r. r \<in> set rs \<and> fr_enabled r \<and> fr_scope r \<noteq> []}"
proof (induction rs arbitrary: "next" scoped hosts)
  case Nil
  then show ?case by simp
next
  case (Cons r rs)
  obtain n s h where step: "install_rule l old r (next, scoped, hosts) = (n, s, h)" by (cases "install_rule l old r (next, scoped, hosts)") auto
  have "sn_global n = sn_global next @ map compile_rule (filter (\<lambda>r. fr_enabled r \<and> fr_scope r = []) [r])"
    and "s = scoped @ map compile_rule (filter fr_enabled [r])"
    and "set h = set hosts \<union> {fr_scope q |q. q = r \<and> fr_enabled q \<and> fr_scope q \<noteq> []}"
    using step by (auto simp: install_rule_def Let_def split: if_splits)
  with Cons.IH [of n s h] Cons.prems step show ?case by auto
qed

lemma map_of_hosts: "map_of (map (\<lambda>h. (h, f h)) hs) k = (if k \<in> set hs then Some (f k) else None)"
  by (induction hs) auto


section \<open>The first decision\<close>

fun first_verdict :: "'a option list \<Rightarrow> 'a option" where
  "first_verdict [] = None"
| "first_verdict (None # xs) = first_verdict xs"
| "first_verdict (Some v # xs) = Some v"

text \<open>What one rule would decide on its own.\<close>

definition rule_decision :: "fw_world \<Rightarrow> nat \<Rightarrow> fw_request \<Rightarrow> gotime \<Rightarrow> fw_engine \<Rightarrow> compiled_rule \<Rightarrow> verdict option" where
  "rule_decision w pick req now e r =
     (if \<not> rule_matches r req then None
      else
        (let by_rule = no_verdict\<lparr>vd_reason := Re_rule, vd_rule := cr_id r, vd_rule_name := cr_name r\<rparr>
         in if cr_action r = ''allow'' then Some (by_rule\<lparr>vd_action := ''allow''\<rparr>)
            else if cr_action r = ''deny'' then Some (by_rule\<lparr>vd_action := ''deny'', vd_outcome := Oc_denied, vd_status := 403\<rparr>)
            else if cr_action r = ''challenge'' \<and> \<not> passed w e req now then
              Some (by_rule\<lparr>vd_action := ''challenge'', vd_outcome := Oc_challenged\<rparr>)
            else if cr_action r = ''rate_limit'' then
              (case map_of (sn_limiters (fe_snap e)) (cr_id r) of
                 None \<Rightarrow> None
               | Some l \<Rightarrow>
                   (case fst (rate_allow pick (fw_cf w) (rq_ip req) now l) of
                      (ok, ra) \<Rightarrow>
                        if ok then None
                        else Some (by_rule\<lparr>vd_action := ''deny'', vd_reason := Re_rate_rule, vd_outcome := Oc_rate_limited,
                                           vd_status := 429, vd_retry := ra\<rparr>)))
            else None))"

lemma rule_decision_cong:
  "fe_key e' = fe_key e \<Longrightarrow>
    map_of (sn_limiters (fe_snap e')) (cr_id r) = map_of (sn_limiters (fe_snap e)) (cr_id r) \<Longrightarrow>
    rule_decision w pick req now e' r = rule_decision w pick req now e r"
  unfolding rule_decision_def passed_def by (simp only:)

text \<open>
  the verdict of the ordered rules is the first decision among them: each rule's own decision
  depends only on the request, the pass cookie and that rule's limiter, and no rule before it
  changes it.  Log rules, passed challenges and unexhausted rate rules decide nothing.
\<close>

theorem first_decision_wins:
  "distinct (map cr_id rs) \<Longrightarrow>
    fst (run_rules w pick rs req now logged e) =
      first_verdict (map (rule_decision w pick req now e) rs)"
proof (induction rs arbitrary: logged e)
  case Nil
  then show ?case by simp
next
  case (Cons r rs)
  have later: "fst (run_rules w pick rs req now lg e') =
      first_verdict (map (rule_decision w pick req now e) rs)"
    if "fe_key e' = fe_key e"
      "\<And>i. i \<noteq> cr_id r \<Longrightarrow> map_of (sn_limiters (fe_snap e')) i = map_of (sn_limiters (fe_snap e)) i" for lg e'
  proof -
    have "cr_id x \<noteq> cr_id r" if "x \<in> set rs" for x using Cons.prems that
      by (metis distinct.simps(2) list.simps(9) image_eqI list.set_map)
    then have "map (rule_decision w pick req now e') rs = map (rule_decision w pick req now e) rs"
      using that by (intro map_cong rule_decision_cong) simp_all
    with Cons.IH [of lg e'] Cons.prems show ?thesis by (metis distinct.simps(2) list.simps(9))
  qed
  show ?case
  proof (cases "rule_decision w pick req now e r")
    case None
    have "fst (run_rules w pick (r # rs) req now logged e) =
      first_verdict (map (rule_decision w pick req now e) rs)"
      using None by (auto simp: rule_decision_def passed_def Let_def split: if_splits option.splits prod.splits intro!: later)
    with None show ?thesis by simp
  next
    case (Some v)
    then have "fst (run_rules w pick (r # rs) req now logged e) = Some v"
      by (auto simp: rule_decision_def passed_def Let_def split: if_splits option.splits prod.splits)
    with Some show ?thesis by simp
  qed
qed

section \<open>Bans\<close>

datatype ban_op =
    Op_strike nat addr string gotime | Op_add addr string duration gotime | Op_active addr gotime | Op_list gotime
  | Op_lift addr | Op_limits fw_limits

definition ban_step :: "prefix list \<Rightarrow> ban_op \<Rightarrow> fw_bans \<Rightarrow> fw_bans" where
  "ban_step cf op b =
     (case op of
        Op_strike pick ip why now \<Rightarrow> snd (bans_strike pick cf ip why now b)
      | Op_add ip why d now \<Rightarrow> bans_add cf ip why d now b
      | Op_active ip now \<Rightarrow> snd (bans_active ip now b)
      | Op_list now \<Rightarrow> snd (bans_list now b)
      | Op_lift ip \<Rightarrow> snd (bans_lift ip b)
      | Op_limits l \<Rightarrow> bans_set_limits l b)"

text \<open>The counter that lets \<open>Active\<close> skip the lock is right, every banned address may be banned.\<close>

definition bans_ok :: "prefix list \<Rightarrow> fw_bans \<Rightarrow> bool" where
  "bans_ok cf b \<longleftrightarrow>
     gm_ok (bs_bans b) \<and> gm_ok (bs_strikes b) \<and> bs_live b = int (length (bs_bans b)) \<and>
     (\<forall>ip v. map_of (bs_bans b) ip = Some v \<longrightarrow> addr_valid ip \<and> \<not> is_protected cf ip)"

lemma gm_ok_filter: "gm_ok m \<Longrightarrow> gm_ok (filter P m)"
  by (simp add: gm_ok_def distinct_map_filter)

lemma gm_ok_drop_to: "gm_ok m \<Longrightarrow> gm_ok (drop_to pick cap m)"
proof -
  have "map fst (drop_to pick cap m) = drop (nat (int (length m) + 1 - cap)) (rotate pick (map fst m))"
    by (simp add: drop_to_def drop_map rotate_map)
  then show "gm_ok m \<Longrightarrow> gm_ok (drop_to pick cap m)" by (simp add: gm_ok_def)
qed

lemma map_of_filter_in: "gm_ok m \<Longrightarrow> map_of (filter P m) k = Some v \<Longrightarrow> map_of m k = Some v"
  by (metis gm_ok_filter gm_ok_def map_of_is_SomeI map_of_SomeD filter_is_subset subsetD)

lemma sweep_strikes_fields [simp]:
  "bs_bans (sweep_strikes pick now b) = bs_bans b" "bs_live (sweep_strikes pick now b) = bs_live b"
  "bs_limits (sweep_strikes pick now b) = bs_limits b"
  by (simp_all add: sweep_strikes_def)

lemma add_locked_ok:
  "bans_ok cf b \<Longrightarrow> addr_valid ip \<Longrightarrow> \<not> is_protected cf ip \<Longrightarrow> bans_ok cf (add_locked ip why d now b)"
  by (auto simp: bans_ok_def add_locked_def Let_def)

lemma bans_strike_ok: "bans_ok cf b \<Longrightarrow> bans_ok cf (snd (bans_strike pick cf ip why now b))"
proof -
  assume ok: "bans_ok cf b"
  then have sweep: "bans_ok cf (sweep_strikes pick now b)"
    by (simp add: bans_ok_def sweep_strikes_def gm_ok_filter gm_ok_drop_to)
  have del: "bans_ok cf (x\<lparr>bs_strikes := AList.delete ip (bs_strikes x)\<rparr>)"
    and upd: "bans_ok cf (x\<lparr>bs_strikes := AList.update ip s (bs_strikes x)\<rparr>)" if "bans_ok cf x" for x s
    using that by (auto simp: bans_ok_def)
  show ?thesis using ok sweep by (auto simp: bans_strike_def Let_def intro!: add_locked_ok del upd)
qed

lemma ban_step_ok: "bans_ok cf b \<Longrightarrow> bans_ok cf (ban_step cf op b)"
proof (cases op)
  case (Op_strike pick ip why now)
  assume "bans_ok cf b"
  with Op_strike show ?thesis by (simp add: ban_step_def bans_strike_ok)
next
  case (Op_add ip why d now)
  assume "bans_ok cf b"
  with Op_add show ?thesis by (simp add: ban_step_def bans_add_def add_locked_ok)
next
  case (Op_list now)
  assume "bans_ok cf b"
  with Op_list show ?thesis by (auto simp: ban_step_def bans_ok_def bans_list_def Let_def gm_ok_filter dest!: map_of_filter_in)
next
  case (Op_active ip now)
  assume "bans_ok cf b"
  with Op_active show ?thesis
    by (auto simp: ban_step_def bans_ok_def bans_active_def Let_def length_update split: option.splits)
next
  case (Op_lift ip)
  assume "bans_ok cf b"
  with Op_lift show ?thesis by (auto simp: ban_step_def bans_ok_def bans_lift_def Let_def)
next
  case (Op_limits l)
  assume "bans_ok cf b"
  with Op_limits show ?thesis by (simp add: ban_step_def bans_ok_def bans_set_limits_def)
qed

lemma ban_steps_ok: "bans_ok cf b \<Longrightarrow> bans_ok cf (fold (ban_step cf) ops b)"
  by (induction ops arbitrary: b) (simp_all add: ban_step_ok)

lemma new_bans_ok: "bans_ok cf (new_bans l)"
  by (simp add: new_bans_def bans_ok_def)

text \<open>With the counter right, \<open>Active\<close> looks up the ban.\<close>

lemma bans_active_iff:
  "bans_ok cf b \<Longrightarrow> fst (bans_active ip now b) \<longleftrightarrow> (\<exists>v. map_of (bs_bans b) ip = Some v \<and> now < bn_ends v)"
  by (auto simp: bans_active_def bans_ok_def Let_def split: option.splits)

text \<open>
  an address of a Cloudflare edge is never reported as banned, after any sequence of strikes,
  manual bans, lookups, listings, lifts and changes of the limits.
\<close>

theorem protected_never_banned:
  "is_protected cf ip \<Longrightarrow> \<not> fst (bans_active ip now (fold (ban_step cf) ops (new_bans l)))"
proof -
  assume ip: "is_protected cf ip"
  let ?b = "fold (ban_step cf) ops (new_bans l)"
  have ok: "bans_ok cf ?b" by (intro ban_steps_ok new_bans_ok)
  with ip have "map_of (bs_bans ?b) ip = None" unfolding bans_ok_def by (cases "map_of (bs_bans ?b) ip") auto
  with bans_active_iff [OF ok] show ?thesis by simp
qed

section \<open>A ban lasts\<close>

definition op_addrs :: "ban_op \<Rightarrow> addr set" where
  "op_addrs op = (case op of Op_strike _ ip _ _ \<Rightarrow> {ip} | Op_add ip _ _ _ \<Rightarrow> {ip} | _ \<Rightarrow> {})"

text \<open>An operation that neither lifts nor replaces the ban of \<open>ip\<close>, nor comes after its end.\<close>

definition keeps_ban :: "addr \<Rightarrow> gotime \<Rightarrow> ban_op \<Rightarrow> bool" where
  "keeps_ban ip finish op \<longleftrightarrow>
     (case op of
        Op_strike _ _ _ _ \<Rightarrow> True | Op_add a _ _ _ \<Rightarrow> a \<noteq> ip | Op_active _ now \<Rightarrow> now < finish | Op_list now \<Rightarrow> now < finish
      | Op_lift a \<Rightarrow> a \<noteq> ip | Op_limits _ \<Rightarrow> False)"

definition banned_until :: "addr \<Rightarrow> gotime \<Rightarrow> fw_bans \<Rightarrow> bool" where
  "banned_until ip finish b \<longleftrightarrow> (\<exists>v. map_of (bs_bans b) ip = Some v \<and> bn_ends v = finish)"

lemma add_locked_keeps:
  assumes "banned_until ip finish b" "a \<noteq> ip" "map_of (bs_bans b) a = None \<Longrightarrow> int (length (bs_bans b)) < fl_max_bans (bs_limits b)"
  shows "banned_until ip finish (add_locked a why d now b)"
  using assms by (cases "map_of (bs_bans b) a") (auto simp: banned_until_def add_locked_def Let_def)

lemma add_locked_keys: "gm_keys (bs_bans (add_locked a why d now b)) \<subseteq> insert a (gm_keys (bs_bans b))"
  by (auto simp: add_locked_def Let_def)

lemma room_left:
  "gm_ok m \<Longrightarrow> gm_keys m \<subseteq> A \<Longrightarrow> finite A \<Longrightarrow> a \<in> A \<Longrightarrow> map_of m a = None \<Longrightarrow> length m < card A"
proof -
  assume m: "gm_ok m" and sub: "gm_keys m \<subseteq> A" and A: "finite A" "a \<in> A" and none: "map_of m a = None"
  have "a \<notin> gm_keys m" using none unfolding gm_keys_lookup by simp
  with sub A have "gm_keys m \<subset> A" by blast
  then have "card (gm_keys m) < card A" by (rule psubset_card_mono [OF A(1)])
  with m show ?thesis unfolding gm_ok_def by (metis distinct_card length_map list.set_map)
qed

lemma sweep_strikes_over [simp]: "(sweep_strikes pick now b)\<lparr>bs_strikes := x\<rparr> = b\<lparr>bs_strikes := x\<rparr>"
  by (simp add: sweep_strikes_def)

lemma strike_cases:
  "snd (bans_strike pick cf a why now b) = b \<or>
   (\<exists>x. snd (bans_strike pick cf a why now b) = b\<lparr>bs_strikes := x\<rparr>) \<or>
   map_of (bs_bans b) a = None \<and>
   (\<exists>x. snd (bans_strike pick cf a why now b) =
      add_locked a why (fl_ban_duration (bs_limits b)) now (b\<lparr>bs_strikes := x\<rparr>))"
proof (cases "\<not> addr_valid a \<or> is_protected cf a \<or> map_of (bs_bans b) a \<noteq> None")
  case True
  then show ?thesis by (auto simp: bans_strike_def)
next
  case False
  let ?n = "case map_of (bs_strikes b) a of None \<Rightarrow> \<lparr>st_start = now, st_n = 0\<rparr>
    | Some s \<Rightarrow> if time_sub now (st_start s) \<ge> fl_ban_window (bs_limits b) then \<lparr>st_start = now, st_n = 0\<rparr> else s"
  from False show ?thesis
    by (cases "map_of (bs_strikes b) a") (auto simp: bans_strike_def Let_def)
qed

lemma banned_until_same [simp]: "banned_until ip finish (b\<lparr>bs_strikes := x\<rparr>) = banned_until ip finish b"
  by (simp add: banned_until_def)

text \<open>While the table of bans has room for every address in play, a ban stays.\<close>

definition ban_room :: "addr set \<Rightarrow> fw_bans \<Rightarrow> bool" where
  "ban_room A b \<longleftrightarrow> finite A \<and> gm_keys (bs_bans b) \<subseteq> A \<and> int (card A) \<le> fl_max_bans (bs_limits b)"

lemma add_locked_room:
  "ban_room A b \<Longrightarrow> a \<in> A \<Longrightarrow> ban_room A (add_locked a why d now b)"
  using add_locked_keys [of a why d now b] by (auto simp: ban_room_def add_locked_def Let_def)

lemma add_locked_stays:
  assumes "bans_ok cf b" "ban_room A b" "banned_until ip finish b" "a \<in> A" "a \<noteq> ip"
  shows "banned_until ip finish (add_locked a why d now b)"
proof (rule add_locked_keeps [OF assms(3,5)])
  assume "map_of (bs_bans b) a = None"
  then have "length (bs_bans b) < card A"
    using assms by (intro room_left [of _ _ a]) (auto simp: bans_ok_def ban_room_def)
  then show "int (length (bs_bans b)) < fl_max_bans (bs_limits b)" using assms(2) by (simp add: ban_room_def)
qed

lemma ban_step_keeps:
  assumes ok: "bans_ok cf b" and room: "ban_room A b" and ban: "banned_until ip finish b"
    and op: "op_addrs op \<subseteq> A" "keeps_ban ip finish op"
  shows "banned_until ip finish (ban_step cf op b) \<and> ban_room A (ban_step cf op b)"
proof (cases op)
  case (Op_strike pick a why now)
  have ok': "bans_ok cf (b\<lparr>bs_strikes := []\<rparr>)" using ok by (simp add: bans_ok_def)
  have room': "ban_room A (b\<lparr>bs_strikes := x\<rparr>)" for x using room by (simp add: ban_room_def)
  have a: "a \<in> A" "map_of (bs_bans b) a = None \<Longrightarrow> a \<noteq> ip"
    using op ban by (auto simp: Op_strike op_addrs_def banned_until_def)
  have "banned_until ip finish (add_locked a why d now (b\<lparr>bs_strikes := x\<rparr>))" if "map_of (bs_bans b) a = None" for d x
  proof -
    have "add_locked a why d now (b\<lparr>bs_strikes := x\<rparr>) = (add_locked a why d now (b\<lparr>bs_strikes := []\<rparr>))\<lparr>bs_strikes := x\<rparr>"
      by (simp add: add_locked_def Let_def)
    then show ?thesis using add_locked_stays [OF ok' room' _ a(1) a(2) [OF that]] ban by simp
  qed
  with strike_cases [of pick cf a why now b] room room' ban a add_locked_room [OF room'] show ?thesis
    unfolding Op_strike by (auto simp: ban_step_def)
next
  case (Op_add a why d now)
  with add_locked_stays [OF ok room ban] add_locked_room [OF room] op room ban show ?thesis
    by (simp add: ban_step_def bans_add_def op_addrs_def keeps_ban_def)
next
  case (Op_active a now)
  with ban room op show ?thesis
    by (auto simp: ban_step_def bans_active_def banned_until_def ban_room_def keeps_ban_def gm_keys_lookup Let_def split: option.splits)
next
  case (Op_list now)
  have "map_of (filter (\<lambda>(_, v). now < bn_ends v) (bs_bans b)) ip = map_of (bs_bans b) ip"
    using ban op ok Op_list by (auto simp: banned_until_def keeps_ban_def bans_ok_def gm_ok_def gm_ok_filter [unfolded gm_ok_def] dest: map_of_SomeD)
  with ban room Op_list show ?thesis by (auto simp: ban_step_def bans_list_def Let_def banned_until_def ban_room_def)
next
  case (Op_lift a)
  with ban room op show ?thesis by (auto simp: ban_step_def bans_lift_def banned_until_def ban_room_def keeps_ban_def Let_def)
next
  case (Op_limits l)
  with op show ?thesis by (simp add: keeps_ban_def)
qed

lemma ban_steps_keep:
  "bans_ok cf b \<Longrightarrow> ban_room A b \<Longrightarrow> banned_until ip finish b \<Longrightarrow> \<forall>op\<in>set ops. op_addrs op \<subseteq> A \<and> keeps_ban ip finish op \<Longrightarrow>
    banned_until ip finish (fold (ban_step cf) ops b)"
  by (induction ops arbitrary: b) (simp_all add: ban_step_ok ban_step_keeps)


section \<open>Repeat offenders\<close>

lemma strike_counts:
  assumes "addr_valid ip" "\<not> is_protected cf ip" "map_of (bs_bans b) ip = None" "map_of (bs_strikes b) ip = Some s"
    "time_sub t (st_start s) < fl_ban_window (bs_limits b)"
  shows "snd (bans_strike pick cf ip why t b) =
    (if st_n s + 1 < fl_ban_strikes (bs_limits b)
     then b\<lparr>bs_strikes := AList.update ip (s\<lparr>st_n := st_n s + 1\<rparr>) (bs_strikes b)\<rparr>
     else add_locked ip why (fl_ban_duration (bs_limits b)) t (b\<lparr>bs_strikes := AList.delete ip (bs_strikes b)\<rparr>))"
  using assms by (simp add: bans_strike_def Let_def)

lemma add_locked_until: "banned_until ip (time_add t d) (add_locked ip why d t b)"
  by (simp add: banned_until_def add_locked_def Let_def)

type_synonym fw_event = "nat \<times> fw_request \<times> fw_outcome \<times> fw_reason \<times> gotime"

definition record_event :: "fw_world \<Rightarrow> fw_event \<Rightarrow> fw_engine \<Rightarrow> fw_engine" where
  "record_event w ev e = (case ev of (pick, req, oc, why, t) \<Rightarrow> fw_record w pick req oc why t e)"

text \<open>An event that counts as a strike against \<open>ip\<close>.\<close>

definition offends :: "addr \<Rightarrow> fw_event \<Rightarrow> bool" where
  "offends ip ev \<longleftrightarrow>
     (case ev of (_, req, oc, why, _) \<Rightarrow> rq_ip req = ip \<and> (oc = Oc_denied \<or> oc = Oc_rate_limited) \<and> why \<noteq> Re_ban)"

definition event_time :: "fw_event \<Rightarrow> gotime" where
  "event_time ev = (case ev of (_, _, _, _, t) \<Rightarrow> t)"

lemma record_offence:
  "offends ip ev \<Longrightarrow> fs_bans (fe_settings e) \<Longrightarrow>
    \<exists>pick why. fe_bans (record_event w ev e) = snd (bans_strike pick (fw_cf w) ip why (event_time ev) (fe_bans e))"
  by (cases ev) (auto simp: record_event_def offends_def fw_record_def event_time_def Let_def)

lemma record_fields [simp]:
  "fe_settings (record_event w ev e) = fe_settings e" "fe_snap (record_event w ev e) = fe_snap e"
  by (cases ev, simp add: record_event_def fw_record_def Let_def)+

lemma strike_limits [simp]: "bs_limits (snd (bans_strike pick cf ip why t b)) = bs_limits b"
  using strike_cases [of pick cf ip why t b] by (auto simp: add_locked_def Let_def)

lemma record_bans_ok: "bans_ok (fw_cf w) (fe_bans e) \<Longrightarrow> bans_ok (fw_cf w) (fe_bans (record_event w ev e))"
  by (cases ev) (simp add: record_event_def fw_record_def Let_def bans_strike_ok)

lemma fold_record_fields [simp]:
  "fe_settings (fold (record_event w) evs e) = fe_settings e" "fe_snap (fold (record_event w) evs e) = fe_snap e"
  by (induction evs arbitrary: e) simp_all

lemma fold_record_bans_ok: "bans_ok (fw_cf w) (fe_bans e) \<Longrightarrow> bans_ok (fw_cf w) (fe_bans (fold (record_event w) evs e))"
  by (induction evs arbitrary: e) (simp_all add: record_bans_ok)

lemma strikes_ban:
  assumes "addr_valid ip" "\<not> is_protected (fw_cf w) ip" "fs_bans (fe_settings e)" "evs \<noteq> []"
    "\<forall>ev\<in>set evs. offends ip ev" "\<forall>ev\<in>set evs. time_sub (event_time ev) (st_start s) < fl_ban_window (bs_limits (fe_bans e))"
    "map_of (bs_bans (fe_bans e)) ip = None" "map_of (bs_strikes (fe_bans e)) ip = Some s"
    "st_n s + int (length evs) = fl_ban_strikes (bs_limits (fe_bans e))"
  shows "banned_until ip (time_add (event_time (last evs)) (fl_ban_duration (bs_limits (fe_bans e))))
    (fe_bans (fold (record_event w) evs e))"
  using assms
proof (induction evs arbitrary: e s)
  case Nil
  then show ?case by simp
next
  case (Cons ev evs)
  from Cons.prems(3,5) obtain pick why
    where step: "fe_bans (record_event w ev e) = snd (bans_strike pick (fw_cf w) ip why (event_time ev) (fe_bans e))"
    using record_offence [of ip ev e w] by auto
  have new: "fe_bans (record_event w ev e) =
    (if st_n s + 1 < fl_ban_strikes (bs_limits (fe_bans e))
     then (fe_bans e)\<lparr>bs_strikes := AList.update ip (s\<lparr>st_n := st_n s + 1\<rparr>) (bs_strikes (fe_bans e))\<rparr>
     else add_locked ip why (fl_ban_duration (bs_limits (fe_bans e))) (event_time ev)
            ((fe_bans e)\<lparr>bs_strikes := AList.delete ip (bs_strikes (fe_bans e))\<rparr>))"
    unfolding step using Cons.prems by (intro strike_counts) simp_all
  show ?case
  proof (cases "evs = []")
    case True
    with Cons.prems(9) new show ?thesis by (simp add: add_locked_until)
  next
    case False
    with Cons.prems(9) new have next': "fe_bans (record_event w ev e) =
        (fe_bans e)\<lparr>bs_strikes := AList.update ip (s\<lparr>st_n := st_n s + 1\<rparr>) (bs_strikes (fe_bans e))\<rparr>"
      by (cases evs) simp_all
    show ?thesis
      using Cons.IH [of "record_event w ev e" "s\<lparr>st_n := st_n s + 1\<rparr>"] Cons.prems False by (simp add: next')
  qed
qed

lemma offences_ban:
  assumes "addr_valid ip" "\<not> is_protected (fw_cf w) ip" "fs_bans (fe_settings e)" "evs \<noteq> []"
    "\<forall>ev\<in>set evs. offends ip ev"
    "\<forall>ev\<in>set evs. time_sub (event_time ev) (event_time (hd evs)) < fl_ban_window (bs_limits (fe_bans e))"
    "map_of (bs_bans (fe_bans e)) ip = None" "map_of (bs_strikes (fe_bans e)) ip = None"
    "int (length evs) = fl_ban_strikes (bs_limits (fe_bans e))"
  shows "banned_until ip (time_add (event_time (last evs)) (fl_ban_duration (bs_limits (fe_bans e))))
    (fe_bans (fold (record_event w) evs e))"
proof -
  obtain ev rest where evs: "evs = ev # rest" using assms(4) by (cases evs) auto
  from assms(3,5) obtain pick why
    where step: "fe_bans (record_event w ev e) = snd (bans_strike pick (fw_cf w) ip why (event_time ev) (fe_bans e))"
    using record_offence [of ip ev e w] evs by auto
  show ?thesis
  proof (cases "rest = []")
    case True
    with assms evs step show ?thesis by (simp add: bans_strike_def Let_def add_locked_until)
  next
    case False
    let ?s = "\<lparr>st_start = event_time ev, st_n = 1\<rparr>"
    from False have "1 < fl_ban_strikes (bs_limits (fe_bans e))" using assms(9) evs by (cases rest) auto
    then have "map_of (bs_strikes (fe_bans (record_event w ev e))) ip = Some ?s"
      "map_of (bs_bans (fe_bans (record_event w ev e))) ip = None"
      using assms by (simp_all add: step bans_strike_def Let_def)
    with strikes_ban [of ip w "record_event w ev e" rest ?s] assms evs False show ?thesis by (simp add: step)
  qed
qed

lemma run_rules_none: "\<forall>r\<in>set rs. \<not> rule_matches r req \<Longrightarrow> run_rules w pick rs req now logged e = (None, logged, e)"
  by (induction rs) simp_all


section \<open>What a rate rule lets through\<close>

definition window_level :: "int \<Rightarrow> duration \<Rightarrow> addr \<Rightarrow> gotime \<Rightarrow> rate_limiter \<Rightarrow> rat" where
  "window_level n win c t l =
     (case map_of (rl_entries l) c of
        None \<Rightarrow> of_int n
      | Some e \<Rightarrow>
          if t < re_start e + win then of_int (n - min (re_n e) n) + of_int n * of_int (t - re_start e) / of_int win
          else of_int n)"

definition rate_window_ok :: "prefix list \<Rightarrow> int \<Rightarrow> duration \<Rightarrow> addr list \<Rightarrow> addr \<Rightarrow> gotime \<Rightarrow> rate_limiter \<Rightarrow> bool" where
  "rate_window_ok cf n win as c t l \<longleftrightarrow>
     0 \<le> n \<and> 0 < win \<and> in_i64 win \<and> \<not> is_protected cf c \<and> rl_count l = n \<and> rl_window l = win \<and>
     int (card (set as)) \<le> rl_cap l \<and> gm_ok (rl_entries l) \<and> gm_keys (rl_entries l) \<subseteq> set as \<and>
     (\<forall>a e. map_of (rl_entries l) a = Some e \<longrightarrow> re_start e \<le> t \<and> 0 \<le> re_n e)"

definition window_take :: "prefix list \<Rightarrow> addr list \<Rightarrow> addr \<Rightarrow> nat \<times> addr \<Rightarrow> gotime \<Rightarrow> rate_limiter \<Rightarrow> bool \<times> rate_limiter" where
  "window_take cf as c r t l =
     (case r of (pick, a) \<Rightarrow>
        if a \<in> set as then (case rate_allow pick cf a t l of ((ok, _), l') \<Rightarrow> (a = c \<and> ok, l')) else (False, l))"

text \<open>The entry a request leaves behind.\<close>

definition next_entry :: "duration \<Rightarrow> gotime \<Rightarrow> rate_entry option \<Rightarrow> rate_entry" where
  "next_entry win t found =
     (case found of
        None \<Rightarrow> \<lparr>re_start = t, re_n = 1\<rparr>
      | Some e \<Rightarrow> if t < re_start e + win then e\<lparr>re_n := re_n e + 1\<rparr> else \<lparr>re_start = t, re_n = 1\<rparr>)"

lemma rate_allow_effect:
  assumes ok: "rate_window_ok cf n win as c t l" and a: "a \<in> set as" "\<not> is_protected cf a"
    and run: "rate_allow pick cf a t l = ((granted, wait), l')"
  shows "l' = l\<lparr>rl_entries := AList.update a (next_entry win t (map_of (rl_entries l) a)) (rl_entries l)\<rparr>"
    and "granted \<longleftrightarrow> re_n (next_entry win t (map_of (rl_entries l) a)) \<le> n"
proof -
  have room: "map_of (rl_entries l) a = None \<Longrightarrow> int (length (rl_entries l)) < rl_cap l"
    using room_left [of "rl_entries l" "set as" a] ok a(1) by (simp add: rate_window_ok_def)
  have win: "0 < win" "in_i64 win" "rl_window l = win" "rl_count l = n" using ok by (simp_all add: rate_window_ok_def)
  have renew: "(time_sub t (re_start e) \<ge> rl_window l) = (\<not> t < re_start e + win)" for e
    using time_sub_less_iff [OF win(2,1), of t "re_start e"] win(3) by auto
  show "l' = l\<lparr>rl_entries := AList.update a (next_entry win t (map_of (rl_entries l) a)) (rl_entries l)\<rparr>"
    "granted \<longleftrightarrow> re_n (next_entry win t (map_of (rl_entries l) a)) \<le> n"
    using run room a(2) win(4)
    by (cases "map_of (rl_entries l) a"; force simp: rate_allow_def next_entry_def renew Let_def split: if_splits)+
qed

lemma next_entry_level:
  assumes "rate_window_ok cf n win as c t l"
  shows "window_level n win c t (l\<lparr>rl_entries := AList.update c (next_entry win t (map_of (rl_entries l) c)) (rl_entries l)\<rparr>)
      \<le> window_level n win c t l - (if re_n (next_entry win t (map_of (rl_entries l) c)) \<le> n then 1 else 0)"
    and "0 \<le> window_level n win c t
      (l\<lparr>rl_entries := AList.update c (next_entry win t (map_of (rl_entries l) c)) (rl_entries l)\<rparr>)"
proof -
  have pos: "0 \<le> n" "0 < win" using assms by (auto simp: rate_window_ok_def)
  have elapsed: "0 \<le> (of_int n * of_int (t - re_start e) / of_int win :: rat)" if "map_of (rl_entries l) c = Some e" for e
    using assms that by (auto simp: rate_window_ok_def intro!: divide_nonneg_pos mult_nonneg_nonneg)
  have spent: "of_int (n - min (k + 1) n) = of_int (n - min k n) - (if k + 1 \<le> n then 1 else 0 :: rat)" for k
    by (auto simp: min_def)
  show "window_level n win c t (l\<lparr>rl_entries := AList.update c (next_entry win t (map_of (rl_entries l) c)) (rl_entries l)\<rparr>)
      \<le> window_level n win c t l - (if re_n (next_entry win t (map_of (rl_entries l) c)) \<le> n then 1 else 0)"
    using pos spent by (auto simp: window_level_def next_entry_def min_def split: option.splits)
  show "0 \<le> window_level n win c t
      (l\<lparr>rl_entries := AList.update c (next_entry win t (map_of (rl_entries l) c)) (rl_entries l)\<rparr>)"
    using pos elapsed by (auto simp: window_level_def next_entry_def split: option.splits intro!: add_nonneg_nonneg)
qed

lemma window_take_props:
  assumes ok: "rate_window_ok cf n win as c t l" and run: "window_take cf as c r t l = (granted, l')"
  shows "rate_window_ok cf n win as c t l' \<and>
    window_level n win c t l' \<le> window_level n win c t l - (if granted then 1 else 0) \<and>
    (granted \<longrightarrow> 0 \<le> window_level n win c t l')"
proof -
  obtain pick a where r: "r = (pick, a)" by force
  show ?thesis
  proof (cases "a \<in> set as \<and> \<not> is_protected cf a")
    case False
    have "a \<noteq> c" if "is_protected cf a" using ok that by (auto simp: rate_window_ok_def)
    with False run ok show ?thesis by (auto simp: r window_take_def rate_allow_def split: if_splits)
  next
    case True
    obtain g wait l'' where allow: "rate_allow pick cf a t l = ((g, wait), l'')" by (metis prod.exhaust)
    with run True have res: "l' = l''" "granted \<longleftrightarrow> a = c \<and> g" by (auto simp: r window_take_def)
    from True have a: "a \<in> set as" "\<not> is_protected cf a" by simp_all
    note eff = rate_allow_effect [OF ok a allow] and lev = next_entry_level [OF ok]
    let ?e = "next_entry win t (map_of (rl_entries l) a)"
    have "0 \<le> re_n ?e \<and> re_start ?e \<le> t"
      using ok by (auto simp: next_entry_def rate_window_ok_def split: option.splits) 
    then have "rate_window_ok cf n win as c t l'"
      using ok a eff(1) unfolding res by (auto simp: rate_window_ok_def)
    moreover have "window_level n win c t l' = window_level n win c t l" if "a \<noteq> c"
      using that eff(1) unfolding res by (simp add: window_level_def)
    ultimately show ?thesis using eff lev res by (cases "a = c") auto
  qed
qed

lemma window_level_later:
  assumes "rate_window_ok cf n win as c t l" "t \<le> u"
  shows "window_level n win c u l \<le> window_level n win c t l + of_int n / seconds win * seconds (u - t)"
proof -
  have pos: "0 \<le> n" "0 < win" using assms by (auto simp: rate_window_ok_def)
  have rate: "of_int n / seconds win * seconds d = of_int n * of_int d / of_int win" for d
    using pos by (simp add: seconds_def)
  have refill: "0 \<le> of_int n * of_int (u - t) / (of_int win :: rat)"
    using pos assms(2) by (intro divide_nonneg_pos mult_nonneg_nonneg) simp_all
  show ?thesis
  proof (cases "map_of (rl_entries l) c")
    case None
    with refill show ?thesis unfolding rate by (simp add: window_level_def)
  next
    case (Some e)
    have sum: "of_int n * of_int (t - re_start e) / of_int win + of_int n * of_int (u - t) / of_int win =
        (of_int n * of_int (u - re_start e) / of_int win :: rat)"
      by (simp add: algebra_simps flip: add_divide_distrib)
    show ?thesis
    proof (cases "u < re_start e + win")
      case True
      with Some assms(2) sum show ?thesis unfolding rate by (simp add: window_level_def)
    next
      case False
      then have "of_int win \<le> (of_int (u - re_start e) :: rat)" by (simp flip: of_int_diff)
      then have "of_int n \<le> (of_int n * of_int (u - re_start e) / of_int win :: rat)"
        using pos by (simp add: pos_le_divide_eq mult_left_mono)
      moreover from this have "(of_int (min (re_n e) n) :: rat) \<le> of_int n * of_int (u - re_start e) / of_int win"
        by (rule order_trans [rotated]) simp
      ultimately show ?thesis using False Some sum refill unfolding rate by (simp add: window_level_def)
    qed
  qed
qed

lemma window_level_burst: "rate_window_ok cf n win as c t l \<Longrightarrow> window_level n win c t l \<le> of_int (2 * n)"
proof -
  assume ok: "rate_window_ok cf n win as c t l"
  then have pos: "0 \<le> n" "0 < win" by (auto simp: rate_window_ok_def)
  show ?thesis
  proof (cases "map_of (rl_entries l) c")
    case None
    with pos show ?thesis by (simp add: window_level_def)
  next
    case (Some e)
    then have "0 \<le> re_n e" using ok by (simp add: rate_window_ok_def)
    then have used: "(of_int (n - min (re_n e) n) :: rat) \<le> of_int n" using pos by (simp add: min_def)
    have "of_int n * of_int (t - re_start e) / of_int win \<le> (of_int n :: rat)" if "t < re_start e + win"
    proof -
      have "(of_int (t - re_start e) :: rat) \<le> of_int win" using that by (simp flip: of_int_diff)
      then show ?thesis using pos by (simp add: pos_divide_le_eq mult_left_mono)
    qed
    with used pos Some show ?thesis by (auto simp: window_level_def)
  qed
qed

interpretation window: rate_limited "window_take cf as c" "window_level n win c" "\<lambda>_. of_int (2 * n)"
  "\<lambda>_. of_int n / seconds win" "rate_window_ok cf n win as c" for cf n win as c
proof (standard, goal_cases)
  case (1 t s)
  then show ?case by (simp add: rate_window_ok_def seconds_def)
next
  case (2 t s)
  then show ?case by (rule window_level_burst)
next
  case (3 t s u)
  then show ?case unfolding rate_window_ok_def by (meson order_trans)
next
  case (4 t s u)
  then show ?case by (rule window_level_later)
next
  case (5 t s r ok s')
  then show ?case using window_take_props by blast
next
  case (7 t s r ok s')
  then show ?case using window_take_props by blast
next
  case (8 t s r s')
  then show ?case using window_take_props by blast
qed simp

fun window_grants :: "prefix list \<Rightarrow> addr \<Rightarrow> (nat \<times> addr \<times> gotime) list \<Rightarrow> rate_limiter \<Rightarrow> nat" where
  "window_grants cf c [] l = 0"
| "window_grants cf c ((pick, a, t) # rs) l =
     (case rate_allow pick cf a t l of
        ((ok, _), l') \<Rightarrow> (if a = c \<and> ok then 1 else 0) + window_grants cf c rs l')"

lemma window_take_in:
  "a \<in> set as \<Longrightarrow> window_take cf as c (pick, a) t l = (case rate_allow pick cf a t l of ((ok, _), l') \<Rightarrow> (a = c \<and> ok, l'))"
  by (simp add: window_take_def)

lemma window_grants_admitted:
  "\<forall>(pick, a, t)\<in>set rs. a \<in> set as \<Longrightarrow>
    window_grants cf c rs l = rate_limited.admitted (window_take cf as c) (map (\<lambda>(pick, a, t). ((pick, a), t)) rs) l"
proof (induction rs arbitrary: l)
  case Nil
  then show ?case by (simp add: window.admitted.simps)
next
  case (Cons r rs)
  obtain pick a t where r: "r = (pick, a, t)" by (metis prod.exhaust)
  obtain ok wait l' where run: "rate_allow pick cf a t l = ((ok, wait), l')" by (metis prod.exhaust)
  have "a \<in> set as" "\<forall>(pick, a, t)\<in>set rs. a \<in> set as" using Cons.prems r by auto
  with Cons.IH [of l'] run window_take_in [of a as] show ?case by (auto simp: r window.admitted.simps)
qed

text \<open>
  a rate rule of \<open>n\<close> requests per \<open>w\<close> seconds lets a client through at most \<open>n\<close> times plus
  \<open>n/w\<close> times the seconds of the history, whatever other clients do and whichever entries a full
  table drops, as long as the clients of the history fit into the table and the client is not a
  Cloudflare edge.
\<close>

theorem window_rate_bounded:
  assumes "0 \<le> n" and "1 \<le> w" and "w \<le> 3600" and "\<not> is_protected cf c"
    and "int (card (set (a0 # map (fst \<circ> snd) rs))) \<le> cap" and "sorted (t0 # map (snd \<circ> snd) rs)"
  shows "of_nat (window_grants cf c ((pick, a0, t0) # rs) (new_rate_limiter n w cap)) \<le>
    of_int n + of_int n / of_int w * seconds (last (t0 # map (snd \<circ> snd) rs) - t0)"
proof -
  let ?as = "a0 # map (fst \<circ> snd) rs" and ?l = "new_rate_limiter n w cap"
  let ?reqs = "map (\<lambda>(pick, a, t). ((pick, a), t)) ((pick, a0, t0) # rs)"
  have win: "rl_window ?l = w * second" using assms by (simp add: new_rate_limiter_def i64_mul_def second_def in_i64_def)
  have ok: "rate_window_ok cf n (w * second) ?as c t0 ?l"
    using assms win by (simp add: rate_window_ok_def in_i64_def second_def new_rate_limiter_def)
  have times: "map snd ?reqs = t0 # map (snd \<circ> snd) rs" by (simp add: case_prod_beta comp_def)
  have count: "window_grants cf c ((pick, a0, t0) # rs) ?l = rate_limited.admitted (window_take cf ?as c) ?reqs ?l"
    by (rule window_grants_admitted) force
  have rate: "of_int n / seconds (w * second) = (of_int n / of_int w :: rat)" by (simp add: seconds_def second_def)
  have last: "t0 \<le> last (t0 # map (snd \<circ> snd) rs)" using assms(6) by (cases "map (snd \<circ> snd) rs" rule: rev_cases) auto
  show ?thesis
  proof (cases "rate_limited.admitted (window_take cf ?as c) ?reqs ?l")
    case 0
    with count assms(1,2) last show ?thesis by (simp add: seconds_nonneg)
  next
    case (Suc k)
    have "sorted (t0 # map snd ?reqs)" unfolding times using assms(6) by simp
    from window.admitted_level [OF ok this] Suc
    have "of_nat (rate_limited.admitted (window_take cf ?as c) ?reqs ?l) \<le>
        window_level n (w * second) c t0 ?l + of_int n / of_int w * seconds (last (t0 # map snd ?reqs) - t0)"
      by (simp add: rate)
    then show ?thesis unfolding count times by (simp add: window_level_def new_rate_limiter_def)
  qed
qed

section \<open>Passes\<close>

lemma b64_alphabet_distinct: "distinct b64_alphabet" "length b64_alphabet = 64"
  by code_simp+

lemma b64_val_char [simp]: "k < 64 \<Longrightarrow> b64_val (b64_char k) = Some k"
  using map_of_zip_nth [of b64_alphabet "[0..<64]" k] b64_alphabet_distinct
  by (simp add: b64_val_def b64_char_def)

lemma b64_val_outside: "b64_val CHR 0x0A = None" "b64_val CHR 0x0D = None" "b64_val CHR ''.'' = None"
  by code_simp+

lemma byte_range: "(of_char c :: nat) < 256"
  by (metis of_char_mod_256 mod_less_divisor zero_less_numeral)

text \<open>The digits of an encoded text: they are digits, and decode to the text.\<close>

definition b64_digits_ok :: "string \<Rightarrow> string \<Rightarrow> bool" where
  "b64_digits_ok s enc \<longleftrightarrow> (\<exists>ds. enc = map b64_char ds \<and> list_all (\<lambda>d. d < 64) ds \<and> b64_quads ds = Some s)"

lemma b64_regroup:
  fixes a b c :: nat
  assumes "a < 256" "b < 256" "c < 256"
  shows "a div 4 < 64" "a mod 4 * 16 < 64" "a mod 4 * 16 + b div 16 < 64" "b mod 16 * 4 < 64"
    "b mod 16 * 4 + c div 64 < 64" "c mod 64 < 64"
    "a div 4 * 4 + a mod 4 * 16 div 16 = a" "a div 4 * 4 + (a mod 4 * 16 + b div 16) div 16 = a"
    "(a mod 4 * 16 + b div 16) mod 16 * 16 + b mod 16 * 4 div 4 = b"
    "(a mod 4 * 16 + b div 16) mod 16 * 16 + (b mod 16 * 4 + c div 64) div 4 = b"
    "(b mod 16 * 4 + c div 64) mod 4 * 64 + c mod 64 = c"
    "b div 16 div 16 = 0" "b div 16 mod 16 = b div 16" "c div 64 div 4 = 0" "c div 64 mod 4 = c div 64"
proof -
  have small: "a mod 4 < 4" "b div 16 < 16" "b mod 16 < 16" "c div 64 < 4" "a div 4 < 64" using assms by auto
  then show "a div 4 < 64" "a mod 4 * 16 < 64" "a mod 4 * 16 + b div 16 < 64" "b mod 16 * 4 < 64"
    "b mod 16 * 4 + c div 64 < 64" "c mod 64 < 64" by simp_all
  have parts: "(a mod 4 * 16 + b div 16) div 16 = a mod 4" "(a mod 4 * 16 + b div 16) mod 16 = b div 16"
    "(b mod 16 * 4 + c div 64) div 4 = b mod 16" "(b mod 16 * 4 + c div 64) mod 4 = c div 64"
    using small by simp_all
  show "a div 4 * 4 + a mod 4 * 16 div 16 = a" "a div 4 * 4 + (a mod 4 * 16 + b div 16) div 16 = a"
    "(a mod 4 * 16 + b div 16) mod 16 * 16 + b mod 16 * 4 div 4 = b"
    "(a mod 4 * 16 + b div 16) mod 16 * 16 + (b mod 16 * 4 + c div 64) div 4 = b"
    "(b mod 16 * 4 + c div 64) mod 4 * 64 + c mod 64 = c"
    unfolding parts by simp_all
  show "b div 16 div 16 = 0" "b div 16 mod 16 = b div 16" "c div 64 div 4 = 0" "c div 64 mod 4 = c div 64"
    using small by simp_all
qed

lemma b64_encode_digits: "b64_digits_ok s (b64_encode s)"
proof (induction s rule: b64_encode.induct)
  case 1
  show ?case by (auto simp: b64_digits_ok_def intro: exI [of _ "[]"])
next
  case (2 a)
  note r = b64_regroup [of "of_char a" "of_char a" "of_char a", OF byte_range byte_range byte_range]
  show ?case unfolding b64_digits_ok_def
    by (rule exI [of _ "[of_char a div 4, of_char a mod 4 * 16]"]) (simp add: r)
next
  case (3 a b)
  note r = b64_regroup [of "of_char a" "of_char b" "of_char a", OF byte_range byte_range byte_range]
  show ?case unfolding b64_digits_ok_def
    by (rule exI [of _ "[of_char a div 4, of_char a mod 4 * 16 + of_char b div 16, of_char b mod 16 * 4]"]) (simp add: r)
next
  case (4 a b c s)
  note r = b64_regroup [of "of_char a" "of_char b" "of_char c", OF byte_range byte_range byte_range]
  from 4 obtain ds where "b64_encode s = map b64_char ds" "list_all (\<lambda>d. d < 64) ds" "b64_quads ds = Some s"
    by (auto simp: b64_digits_ok_def)
  then show ?case unfolding b64_digits_ok_def
    by (intro exI [of _ "[of_char a div 4, of_char a mod 4 * 16 + of_char b div 16, of_char b mod 16 * 4 + of_char c div 64,
        of_char c mod 64] @ ds"]) (simp add: r)
qed

lemma b64_encode_plain: "CHR ''.'' \<notin> set (b64_encode s)"
proof -
  obtain ds where "b64_encode s = map b64_char ds" "list_all (\<lambda>d. d < 64) ds"
    using b64_encode_digits [of s] by (auto simp: b64_digits_ok_def)
  then show ?thesis using b64_val_outside(3) b64_val_char by (fastforce simp: list_all_iff)
qed

lemma b64_round_trip: "b64_decode (b64_encode s) = Some s"
proof -
  obtain ds where enc: "b64_encode s = map b64_char ds" and ds: "list_all (\<lambda>d. d < 64) ds" and quads: "b64_quads ds = Some s"
    using b64_encode_digits [of s] by (auto simp: b64_digits_ok_def)
  have "b64_char d \<noteq> CHR 0x0A \<and> b64_char d \<noteq> CHR 0x0D" if "d < 64" for d
    using b64_val_char [OF that] b64_val_outside by (metis option.distinct(1))
  then have "filter (\<lambda>c. c \<noteq> CHR 0x0A \<and> c \<noteq> CHR 0x0D) (map b64_char ds) = map b64_char ds"
    using ds unfolding filter_id_conv by (simp add: list_all_iff)
  moreover have "map b64_val (map b64_char ds) = map Some ds" using ds by (simp add: list_all_iff)
  ultimately have "map b64_val (filter (\<lambda>c. c \<noteq> CHR 0x0A \<and> c \<noteq> CHR 0x0D) (b64_encode s)) = map Some ds"
    by (simp only: enc)
  then show ?thesis using quads by (simp add: b64_decode_def comp_def Let_def image_iff)
qed

lemma b64_encode_length: "length (b64_encode s) \<le> 2 * length s"
  by (induction s rule: b64_encode.induct) simp_all

lemma be_fold:
  "0 \<le> n \<Longrightarrow> fold (\<lambda>b v. v * 256 + int (of_char b)) (map (\<lambda>k. char_of (nat (n div 2 ^ (8 * k) mod 256))) (rev [0..<m]))
     (n div 2 ^ (8 * m)) = n"
proof (induction m)
  case 0
  then show ?case by simp
next
  case (Suc m)
  have pow: "(2 :: int) ^ (8 * Suc m) = 2 ^ (8 * m) * 256" by (simp add: power_add)
  have "n div 2 ^ (8 * Suc m) = n div 2 ^ (8 * m) div 256" unfolding pow by (rule zdiv_zmult2_eq) simp
  then have "n div 2 ^ (8 * Suc m) * 256 + n div 2 ^ (8 * m) mod 256 = n div 2 ^ (8 * m)" by simp
  with Suc show ?case by simp
qed

lemma be_round_trip:
  assumes "0 \<le> n" "n < 2 ^ 63"
  shows "be_value (be_bytes n) = n"
proof -
  have "be_bytes n = map (\<lambda>k. char_of (nat (n div 2 ^ (8 * k) mod 256))) (rev [0..<8])"
    using assms by (simp add: be_bytes_def upt_rec)
  moreover have "n div 2 ^ (8 * 8) = 0" using assms by simp
  ultimately have "fold (\<lambda>b v. v * 256 + int (of_char b)) (be_bytes n) 0 = n" using be_fold [OF assms(1), of 8] by simp
  with assms show ?thesis by (simp add: be_value_def in_i64_def)
qed

lemma be_bytes_length [simp]: "length (be_bytes n) = 8"
  by (simp add: be_bytes_def)

lemma open_parts:
  assumes "tok = b64_encode body @ CHR ''.'' # b64_encode (token_mac hmac key (body @ addr_prefix ip))"
    "10 \<le> length body" "length body \<le> 22"
  shows "open_token hmac key kind tok ip now =
    (if body ! 0 = kind \<and> now < of_unix (be_value (take 8 (drop 1 body))) then Some (of_char (body ! 9)) else None)"
proof -
  have "go_cut CHR ''.'' tok = Some (b64_encode body, b64_encode (token_mac hmac key (body @ addr_prefix ip)))"
    unfolding assms(1) by (rule go_cut_join [OF b64_encode_plain])
  moreover have "length (token_mac hmac key (body @ addr_prefix ip)) \<le> 16" by (simp add: token_mac_def)
  then have "\<not> length tok > 256"
    using b64_encode_length [of body] b64_encode_length [of "token_mac hmac key (body @ addr_prefix ip)"] assms by simp
  ultimately show ?thesis using assms(2) unfolding open_token_def by (simp add: b64_round_trip)
qed

lemma open_sealed:
  assumes "addr_prefix ip' = addr_prefix ip" "0 \<le> unix_secs expiry" "unix_secs expiry < 2 ^ 63" "0 \<le> bits" "bits < 256"
    "length nonce \<le> 12"
  shows "open_token hmac key kind' (seal_token hmac key kind expiry bits nonce ip) ip' now =
    (if kind = kind' \<and> now < of_unix (unix_secs expiry) then Some bits else None)"
proof -
  let ?body = "kind # be_bytes (unix_secs expiry) @ char_of (nat (bits mod 256)) # nonce"
  have "seal_token hmac key kind expiry bits nonce ip =
      b64_encode ?body @ CHR ''.'' # b64_encode (token_mac hmac key (?body @ addr_prefix ip'))"
    by (simp add: seal_token_def Let_def assms(1))
  then have "open_token hmac key kind' (seal_token hmac key kind expiry bits nonce ip) ip' now =
      (if ?body ! 0 = kind' \<and> now < of_unix (be_value (take 8 (drop 1 ?body))) then Some (of_char (?body ! 9)) else None)"
    using assms(6) by (intro open_parts) simp_all
  moreover have "take 8 (drop 1 ?body) = be_bytes (unix_secs expiry)" by simp
  moreover have "?body ! 9 = char_of (nat (bits mod 256))" by (simp add: nth_append)
  moreover have "(of_char (char_of (nat (bits mod 256)) :: char) :: int) = bits"
    using assms(4,5) of_nat_of_char [of "char_of (nat (bits mod 256))", where 'a = int] by simp
  ultimately show ?thesis by (simp only: be_round_trip [OF assms(2,3)]) simp
qed

text \<open>
  a pass issued to a client is accepted from every address of its network (the same /24, or /64)
  until the second its time is up, and from then on no more, for any HMAC and key.
\<close>

theorem pass_round_trip:
  "addr_prefix ip' = addr_prefix ip \<Longrightarrow> 0 \<le> unix_secs (time_add now ttl) \<Longrightarrow> unix_secs (time_add now ttl) < 2 ^ 63 \<Longrightarrow>
    pass_cookie_valid hmac key (new_pass hmac key ip ttl now) ip' later \<longleftrightarrow> later < of_unix (unix_secs (time_add now ttl))"
proof -
  assume "addr_prefix ip' = addr_prefix ip" "0 \<le> unix_secs (time_add now ttl)" "unix_secs (time_add now ttl) < 2 ^ 63"
  then have "open_token hmac key CHR ''p'' (new_pass hmac key ip ttl now) ip' later =
      (if later < of_unix (unix_secs (time_add now ttl)) then Some 0 else None)"
    unfolding new_pass_def by (subst open_sealed) simp_all
  moreover have "new_pass hmac key ip ttl now \<noteq> []" by (simp add: new_pass_def seal_token_def Let_def)
  ultimately show ?thesis by (simp add: pass_cookie_valid_def)
qed

section \<open>A solved challenge\<close>

lemma passed_key: "fe_key e' = fe_key e \<Longrightarrow> passed w e' req now = passed w e req now"
  by (simp add: passed_def)

lemma run_rules_passed:
  "run_rules w pick rs req now logged e = (v, lg, e') \<Longrightarrow> passed w e req now \<Longrightarrow>
    fe_key e' = fe_key e \<and> fe_settings e' = fe_settings e \<and> (case v of None \<Rightarrow> True | Some v \<Rightarrow> vd_action v \<noteq> ''challenge'')"
proof (induction rs arbitrary: logged e)
  case Nil
  then show ?case by simp
next
  case (Cons r rs)
  have IH: "fe_key e' = fe_key x \<and> fe_settings e' = fe_settings x \<and> (case v of None \<Rightarrow> True | Some v \<Rightarrow> vd_action v \<noteq> ''challenge'')"
    if "run_rules w pick rs req now lg' x = (v, lg, e')" "fe_key x = fe_key e" for x lg'
    using Cons.IH [OF that(1)] Cons.prems(2) passed_key [OF that(2), of w req now] by simp
  have pass: "passed w (e\<lparr>fe_stats := s\<rparr>) req now" for s using Cons.prems(2) by (simp add: passed_def)
  from Cons.prems(1) show ?case
    by (auto simp: Let_def pass no_verdict_def split: if_splits option.splits prod.splits dest!: IH)
qed

lemma bot_step_passed: "passed w e req now \<Longrightarrow> bot_step w e m why ps req now lg = Inl v \<Longrightarrow> vd_action v \<noteq> ''challenge''"
  by (auto simp: bot_step_def bot_verdict_def no_verdict_def split: if_splits option.splits)

text \<open>
  a client that has solved a challenge is not challenged again while its pass lasts: whatever
  rules, attack mode and bot modes the engine has by then, no request with the cookie from that
  network gets a challenge verdict.
\<close>

theorem solved_not_challenged:
  "solve w ip token counter t e = Some (rq_pass req) \<Longrightarrow> addr_prefix (rq_ip req) = addr_prefix ip \<Longrightarrow>
    0 \<le> unix_secs (time_add t (fl_pass_ttl (fe_limits e))) \<Longrightarrow> unix_secs (time_add t (fl_pass_ttl (fe_limits e))) < 2 ^ 63 \<Longrightarrow>
    now < of_unix (unix_secs (time_add t (fl_pass_ttl (fe_limits e)))) \<Longrightarrow> fe_key e' = fe_key e \<Longrightarrow>
    vd_action (fst (fw_evaluate w pick req now e')) \<noteq> ''challenge''"
proof -
  assume solve: "solve w ip token counter t e = Some (rq_pass req)" and net: "addr_prefix (rq_ip req) = addr_prefix ip"
    and times: "0 \<le> unix_secs (time_add t (fl_pass_ttl (fe_limits e)))" "unix_secs (time_add t (fl_pass_ttl (fe_limits e))) < 2 ^ 63"
      "now < of_unix (unix_secs (time_add t (fl_pass_ttl (fe_limits e))))" and key: "fe_key e' = fe_key e"
  from solve have cookie: "rq_pass req = new_pass (fw_hmac w) (fe_key e) ip (fl_pass_ttl (fe_limits e)) t"
    by (simp add: solve_def split: if_splits)
  then have pass: "passed w x req now" if "fe_key x = fe_key e" for x
    using that pass_round_trip [OF net times(1,2)] times(3) by (simp add: passed_def)
  obtain v lg x where run: "run_rules w pick (rules_for (fe_snap e') (rq_host req)) req now False e' = (v, lg, x)"
    by (metis prod.exhaust)
  note rr = run_rules_passed [OF run pass [OF key]]
  have px: "passed w (x\<lparr>fe_bans := b\<rparr>) req now" for b using pass [of "x\<lparr>fe_bans := b\<rparr>"] rr key by simp
  show ?thesis
  proof (cases v)
    case (Some vd)
    with rr show ?thesis by (simp add: fw_evaluate_def run Let_def)
  next
    case None
    obtain banned b where active: "(if fs_bans (fe_settings e') \<and> addr_valid (rq_ip req)
        then bans_active (rq_ip req) now (fe_bans x) else (False, fe_bans x)) = (banned, b)" by (metis prod.exhaust)
    show ?thesis
      using bot_step_passed [OF px [of b]] px [of b]
      by (simp add: fw_evaluate_def run None active no_verdict_def Let_def split: sum.split)
  qed
qed

section \<open>Examples\<close>

definition demo_edge :: "prefix list" where
  "demo_edge = [prefix_from (V4 0x68100000) 13]"

definition demo_fw_world :: fw_world where
  "demo_fw_world =
     \<lparr>fw_cf = demo_edge, fw_hmac = (\<lambda>key msg. take 32 (key @ msg @ replicate 32 CHR 0x00)),
      fw_sha = (\<lambda>_. replicate 32 CHR 0x00), fw_bad_list = [''badbot''], fw_ai_list = ''GPTBot''\<rparr>"

definition demo_fw :: fw_engine where
  "demo_fw = new_fw_engine demo_fw_world ''0123456789abcdef'' (fw_default_limits\<lparr>fl_ban_strikes := 2\<rparr>)"

definition demo_fw_request :: fw_request where
  "demo_fw_request =
     \<lparr>rq_method = ''GET'', rq_host = ''app.example.com'', rq_path = ''/login'', rq_query = [], rq_agent = ''curl'',
      rq_header = (\<lambda>_. []), rq_ip = V4 0x01020304, rq_country = [], rq_pass = []\<rparr>"

definition demo_compiled :: "string \<Rightarrow> string \<Rightarrow> compiled_rule" where
  "demo_compiled i act =
     \<lparr>cr_id = i, cr_name = [], cr_scope = [], cr_action = act, cr_conds = [], cr_count = 0, cr_window = 0\<rparr>"

lemma demo_not_protected: "\<not> is_protected demo_edge (V4 0x01020304)" "is_protected demo_edge (V4 0x68100001)"
  by (simp_all add: is_protected_def demo_edge_def prefix_from_def prefix_contains_def prefix_valid_def bit_len_def
      without_zone_def unmap_addr_def addr_valid_def mask4_def mask_eq_exp_minus_1)

lemma first_decision_wins_witness:
  "fst (run_rules demo_fw_world 0 [demo_compiled ''a'' ''log'', demo_compiled ''b'' ''deny'', demo_compiled ''c'' ''allow'']
      demo_fw_request 0 False demo_fw) =
    Some (no_verdict\<lparr>vd_action := ''deny'', vd_reason := Re_rule, vd_outcome := Oc_denied, vd_rule := ''b'', vd_status := 403\<rparr>)"
  by (subst first_decision_wins) (simp_all add: demo_compiled_def rule_decision_def rule_matches_def no_verdict_def)

lemma protected_never_banned_witness:
  "\<not> fst (bans_active (V4 0x68100001) 5
     (fold (ban_step demo_edge) [Op_add (V4 0x68100001) ''manual'' hour 0] (new_bans fw_default_limits)))"
  using protected_never_banned demo_not_protected(2) by blast



lemma window_rate_bounded_witness:
  "of_nat (window_grants demo_edge (V4 0x01020304)
      [(0, V4 0x01020304, 0), (0, V4 0x01020304, second), (0, V4 2, second), (0, V4 0x01020304, 2 * second)]
      (new_rate_limiter 2 60 10)) \<le> (of_int 2 + of_int 2 / of_int 60 * seconds (2 * second) :: rat)"
  using window_rate_bounded [of 2 60 demo_edge "V4 0x01020304" "V4 0x01020304"
      "[(0, V4 0x01020304, second), (0, V4 2, second), (0, V4 0x01020304, 2 * second)]" 10 0 0] demo_not_protected
  by (simp add: second_def card_insert_if del: window_grants.simps)

lemma demo_network: "addr_prefix (V4 0x01020399) = addr_prefix (V4 0x01020304)"
  by code_simp

lemma pass_round_trip_witness:
  "pass_cookie_valid (fw_hmac demo_fw_world) ''0123456789abcdef''
     (new_pass (fw_hmac demo_fw_world) ''0123456789abcdef'' (V4 0x01020304) (30 * minute) (of_unix 1000)) (V4 0x01020399) (of_unix 1100)"
  by (subst pass_round_trip)
    (simp_all add: demo_network unix_secs_def of_unix_def time_add_def duration_defs)

definition demo_token :: string where
  "demo_token = issue demo_fw_world (replicate 12 CHR ''n'') demo_fw_request (of_unix 1000) demo_fw"

definition demo_cookie :: string where
  "demo_cookie = new_pass (fw_hmac demo_fw_world) (fe_key demo_fw) (V4 0x01020304) (30 * minute) (of_unix 1010)"

lemma demo_solved: "solve demo_fw_world (V4 0x01020304) demo_token ''7'' (of_unix 1010) demo_fw = Some demo_cookie"
proof -
  have "open_token (fw_hmac demo_fw_world) (fe_key demo_fw) CHR ''c'' demo_token (V4 0x01020304) (of_unix 1010) = Some 16"
    unfolding demo_token_def issue_def new_challenge_def
    by (subst open_sealed)
      (simp_all add: demo_fw_request_def demo_fw_def new_fw_engine_def set_settings_def fw_default_limits_def unix_secs_def of_unix_def
        time_add_def duration_defs Let_def)
  moreover have "leading_zero_bits (replicate 32 CHR 0x00) = 256" by (simp add: numeral_eq_Suc)
  moreover have "parse_u32 ''7'' \<noteq> None" by (simp add: parse_u32_def is_digit_def less_eq_char_def)
  ultimately show ?thesis
    by (simp add: solve_def verify_proof_def demo_cookie_def demo_fw_def new_fw_engine_def set_settings_def fw_default_limits_def
        Let_def demo_fw_world_def)
qed

lemma solved_not_challenged_witness:
  "solve demo_fw_world (V4 0x01020304) demo_token ''7'' (of_unix 1010) demo_fw = Some demo_cookie \<and>
   vd_action (fst (fw_evaluate demo_fw_world 0 (demo_fw_request\<lparr>rq_pass := demo_cookie, rq_ip := V4 0x01020399\<rparr>) (of_unix 1100)
     (demo_fw\<lparr>fe_settings := fw_default_settings\<lparr>fs_attack_until := Some (of_unix 5000), fs_attack_challenge := True\<rparr>\<rparr>)))
     \<noteq> ''challenge''"
proof (intro conjI demo_solved)
  let ?req = "demo_fw_request\<lparr>rq_pass := demo_cookie, rq_ip := V4 0x01020399\<rparr>"
  show "vd_action (fst (fw_evaluate demo_fw_world 0 ?req (of_unix 1100)
     (demo_fw\<lparr>fe_settings := fw_default_settings\<lparr>fs_attack_until := Some (of_unix 5000), fs_attack_challenge := True\<rparr>\<rparr>)))
     \<noteq> ''challenge''"
  proof (rule solved_not_challenged)
    show "solve demo_fw_world (V4 0x01020304) demo_token ''7'' (of_unix 1010) demo_fw = Some (rq_pass ?req)"
      using demo_solved by simp
  qed (simp_all add: demo_network demo_fw_def new_fw_engine_def set_settings_def fw_default_limits_def unix_secs_def of_unix_def
      time_add_def duration_defs Let_def)
qed

end
