(* ===== verification/Semver.thy ===== *)
theory Semver
  imports Releases "HOL-Library.Product_Lexorder"
begin

text \<open>
  Release versions, \<open>kit/semver/semver.go\<close>: parsing such as \<open>v1.2.3\<close>, \<open>0.4.0-beta.2\<close> or the
  output of \<open>git describe\<close>, and their order.  The regular expression of \<open>describeSuffix\<close> is
  written out as the search it stands for.

  The comparison is shown to be the one of a linear order: identifiers, prereleases and with them
  the keys of versions are instances of the library's \<open>linorder\<close>.
\<close>

section \<open>Parsing\<close>

record parsed =
  pv_core :: "int \<times> int \<times> int"
  pv_pre :: "string list"
  pv_post :: int

text \<open>\<open>(\d+)-g[0-9a-f]{7,40}(?:-dirty)?$\<close> at the start of the text: its digits.\<close>

definition describe_tail :: "string \<Rightarrow> string option" where
  "describe_tail s =
     (let ds = takeWhile is_digit s; r = dropWhile is_digit s;
          hex = takeWhile is_hex_digit (drop 2 r); rest = dropWhile is_hex_digit (drop 2 r)
      in if ds \<noteq> [] \<and> take 2 r = ''-g'' \<and> 7 \<le> length hex \<and> length hex \<le> 40 \<and> (rest = [] \<or> rest = ''-dirty'')
         then Some ds else None)"

text \<open>\<open>^(.*?)-?\<close> before it: the shortest prefix that works.\<close>

fun describe_suffix :: "string \<Rightarrow> string \<Rightarrow> (string \<times> string) option" where
  "describe_suffix pre s =
     (case (case s of c # cs \<Rightarrow> if c = CHR ''-'' then describe_tail cs else describe_tail s | [] \<Rightarrow> describe_tail s) of
        Some ds \<Rightarrow> Some (pre, ds)
      | None \<Rightarrow> (case s of [] \<Rightarrow> None | c # cs \<Rightarrow> if c = CHR 0x0A then None else describe_suffix (pre @ [c]) cs))"

declare describe_suffix.simps [simp del]

text \<open>\<open>strconv.Atoi\<close> of digits gives the largest integer when they are too many.\<close>

definition atoi_clipped :: "string \<Rightarrow> int" where
  "atoi_clipped ds = (case go_atoi ds of None \<Rightarrow> 2 ^ 63 - 1 | Some n \<Rightarrow> n)"

fun core_numbers :: "string list \<Rightarrow> int list option" where
  "core_numbers [] = Some []"
| "core_numbers (s # ss) =
     (case go_atoi s of None \<Rightarrow> None | Some n \<Rightarrow> if n < 0 then None else map_option (Cons n) (core_numbers ss))"

definition parse_version :: "string \<Rightarrow> parsed option" where
  "parse_version v =
     (let v = trim_space v;
          v = (case v of c # cs \<Rightarrow> if c = CHR ''v'' then cs else v | [] \<Rightarrow> v);
          v = (case go_cut CHR ''+'' v of None \<Rightarrow> v | Some (a, _) \<Rightarrow> a);
          (core, pre, post) =
            (case go_cut CHR ''-'' v of
               None \<Rightarrow> (v, [], 0)
             | Some (core, tail) \<Rightarrow>
                 (let (tail, post) =
                        (case describe_suffix [] tail of None \<Rightarrow> (tail, 0) | Some (a, ds) \<Rightarrow> (a, atoi_clipped ds))
                  in (core, if tail = [] then [] else go_split CHR ''.'' tail, post)));
          parts = go_split CHR ''.'' core
      in if length parts < 2 \<or> length parts > 3 then None
         else (case core_numbers parts of
                 Some [a, b] \<Rightarrow> Some \<lparr>pv_core = (a, b, 0), pv_pre = pre, pv_post = post\<rparr>
               | Some [a, b, c] \<Rightarrow> Some \<lparr>pv_core = (a, b, c), pv_pre = pre, pv_post = post\<rparr>
               | _ \<Rightarrow> None))"

section \<open>Comparing\<close>

definition compare_int :: "int \<Rightarrow> int \<Rightarrow> int" where
  "compare_int a b = (if a < b then -1 else if a > b then 1 else 0)"

definition compare_text :: "string \<Rightarrow> string \<Rightarrow> int" where
  "compare_text a b = (if a < b then -1 else if a > b then 1 else 0)"

definition compare_ident :: "string \<Rightarrow> string \<Rightarrow> int" where
  "compare_ident a b =
     (case (go_atoi a, go_atoi b) of
        (Some m, Some n) \<Rightarrow> compare_int m n
      | (Some _, None) \<Rightarrow> -1
      | (None, Some _) \<Rightarrow> 1
      | (None, None) \<Rightarrow> compare_text a b)"

text \<open>After the common part the lengths decide.\<close>

fun compare_idents :: "string list \<Rightarrow> string list \<Rightarrow> int" where
  "compare_idents (a # as) (b # bs) =
     (let c = compare_ident a b in if c \<noteq> 0 then c else compare_idents as bs)"
| "compare_idents as bs = compare_int (int (length as)) (int (length bs))"

definition compare_pre :: "string list \<Rightarrow> string list \<Rightarrow> int" where
  "compare_pre a b =
     (if a = [] \<and> b = [] then 0 else if a = [] then 1 else if b = [] then -1 else compare_idents a b)"

definition compare_core :: "int \<times> int \<times> int \<Rightarrow> int \<times> int \<times> int \<Rightarrow> int" where
  "compare_core p q =
     (case (p, q) of
        ((a, b, c), (a', b', c')) \<Rightarrow>
          if compare_int a a' \<noteq> 0 then compare_int a a'
          else if compare_int b b' \<noteq> 0 then compare_int b b'
          else compare_int c c')"

text \<open>\<open>Compare\<close>: nothing when one of the two is not a release version.\<close>

definition semver_compare :: "string \<Rightarrow> string \<Rightarrow> int option" where
  "semver_compare a b =
     (case (parse_version a, parse_version b) of
        (Some p, Some q) \<Rightarrow>
          Some (if compare_core (pv_core p) (pv_core q) \<noteq> 0 then compare_core (pv_core p) (pv_core q)
                else if compare_pre (pv_pre p) (pv_pre q) \<noteq> 0 then compare_pre (pv_pre p) (pv_pre q)
                else compare_int (pv_post p) (pv_post q))
      | _ \<Rightarrow> None)"

section \<open>The order of versions\<close>

text \<open>Numeric identifiers come before words, and a prerelease before the release.\<close>

datatype ident = Num_ident int | Word_ident string

instantiation ident :: linorder
begin

fun less_eq_ident :: "ident \<Rightarrow> ident \<Rightarrow> bool" where
  "less_eq_ident (Num_ident a) (Num_ident b) = (a \<le> b)"
| "less_eq_ident (Num_ident a) (Word_ident b) = True"
| "less_eq_ident (Word_ident a) (Num_ident b) = False"
| "less_eq_ident (Word_ident a) (Word_ident b) = (a \<le> b)"

definition less_ident :: "ident \<Rightarrow> ident \<Rightarrow> bool" where
  "less_ident x y = (x \<le> y \<and> \<not> y \<le> (x :: ident))"

instance
proof
  fix x y z :: ident
  show "x < y \<longleftrightarrow> x \<le> y \<and> \<not> y \<le> x" by (simp add: less_ident_def)
  show "x \<le> x" by (cases x) simp_all
  show "x \<le> y \<Longrightarrow> y \<le> z \<Longrightarrow> x \<le> z" by (cases x; cases y; cases z) simp_all
  show "x \<le> y \<Longrightarrow> y \<le> x \<Longrightarrow> x = y" by (cases x; cases y) simp_all
  show "x \<le> y \<or> y \<le> x" by (cases x; cases y) auto
qed

end

datatype prerelease = Pre "ident list" | Final

instantiation prerelease :: linorder
begin

fun less_eq_prerelease :: "prerelease \<Rightarrow> prerelease \<Rightarrow> bool" where
  "less_eq_prerelease (Pre a) (Pre b) = (a \<le> b)"
| "less_eq_prerelease (Pre a) Final = True"
| "less_eq_prerelease Final (Pre b) = False"
| "less_eq_prerelease Final Final = True"

definition less_prerelease :: "prerelease \<Rightarrow> prerelease \<Rightarrow> bool" where
  "less_prerelease x y = (x \<le> y \<and> \<not> y \<le> (x :: prerelease))"

instance
proof
  fix x y z :: prerelease
  show "x < y \<longleftrightarrow> x \<le> y \<and> \<not> y \<le> x" by (simp add: less_prerelease_def)
  show "x \<le> x" by (cases x) simp_all
  show "x \<le> y \<Longrightarrow> y \<le> z \<Longrightarrow> x \<le> z" by (cases x; cases y; cases z) simp_all
  show "x \<le> y \<Longrightarrow> y \<le> x \<Longrightarrow> x = y" by (cases x; cases y) simp_all
  show "x \<le> y \<or> y \<le> x" by (cases x; cases y) auto
qed

end

text \<open>The key of a parsed version.\<close>

type_synonym version_key = "(int \<times> int \<times> int) \<times> prerelease \<times> int"

definition ident_of :: "string \<Rightarrow> ident" where
  "ident_of s = (case go_atoi s of None \<Rightarrow> Word_ident s | Some n \<Rightarrow> Num_ident n)"

definition prerelease_of :: "string list \<Rightarrow> prerelease" where
  "prerelease_of ids = (if ids = [] then Final else Pre (map ident_of ids))"

definition version_key :: "parsed \<Rightarrow> version_key" where
  "version_key p = (pv_core p, prerelease_of (pv_pre p), pv_post p)"

text \<open>The three-way comparison of a linear order.\<close>

definition three_way :: "'a::linorder \<Rightarrow> 'a \<Rightarrow> int" where
  "three_way x y = (if x < y then -1 else if x > y then 1 else 0)"

lemma compare_int_three_way: "compare_int a b = three_way a b"
  by (simp add: compare_int_def three_way_def)

lemma three_way_zero: "three_way x y = 0 \<longleftrightarrow> x = y"
  by (auto simp: three_way_def)

lemma compare_ident_three_way: "compare_ident a b = three_way (ident_of a) (ident_of b)"
  by (auto simp: compare_ident_def three_way_def ident_of_def compare_int_def compare_text_def less_ident_def
      split: option.splits)

lemma three_way_pair: "three_way (a, b) (a', b') = (if three_way a a' \<noteq> 0 then three_way a a' else three_way b b')"
  by (auto simp: three_way_def)

lemma three_way_Cons:
  "three_way (x # xs) (y # ys) = (if three_way x y \<noteq> 0 then three_way x y else three_way xs (ys :: 'a::linorder list))"
  by (auto simp: three_way_def)

lemma Nil_less_iff: "[] < xs \<longleftrightarrow> (xs :: 'a::linorder list) \<noteq> []"
  by (cases xs) simp_all

lemma three_way_prerelease:
  "three_way (Pre a) (Pre b) = three_way a b" "three_way (Pre a) Final = -1" "three_way Final (Pre b) = 1"
  "three_way Final Final = 0"
  by (auto simp: three_way_def less_prerelease_def less_le_not_le)

lemma compare_idents_three_way: "compare_idents as bs = three_way (map ident_of as) (map ident_of bs)"
  by (induction as bs rule: compare_idents.induct)
    (auto simp: Let_def compare_ident_three_way three_way_Cons, auto simp: compare_int_def three_way_def Nil_less_iff)

lemma compare_pre_three_way: "compare_pre a b = three_way (prerelease_of a) (prerelease_of b)"
  by (simp add: compare_pre_def prerelease_of_def compare_idents_three_way three_way_prerelease)

lemma compare_core_three_way: "compare_core p q = three_way p q"
  by (cases p; cases q) (simp add: compare_core_def compare_int_three_way three_way_pair)

text \<open>C39: versions are compared by precedence.  The comparison of two texts has an answer exactly when
  both are release versions, and then it is the three-way comparison of their keys in a linear
  order: the numbers first, then the prerelease (numeric identifiers below words, a longer list
  above its prefix, every prerelease below the release), then the commits after the tag.\<close>

theorem compare_is_precedence:
  "semver_compare a b =
    (case (parse_version a, parse_version b) of
       (Some p, Some q) \<Rightarrow> Some (three_way (version_key p) (version_key q))
     | _ \<Rightarrow> None)"
  by (auto simp: semver_compare_def version_key_def three_way_pair compare_core_three_way compare_pre_three_way
      compare_int_three_way split: option.splits)

text \<open>What the comparison says of a version and of its prereleases and later builds.\<close>

definition demo_versions :: "string list" where
  "demo_versions =
     [''1.0.0-alpha'', ''1.0.0-alpha.1'', ''v1.0.0-beta.2'', ''1.0.0-beta.11'', ''v1.0.0-rc.1-12-gabcdef0'', ''1.0.0'', ''1.0.0+build'',
      ''v1.0.0-138-gabbfcdba5-dirty'', ''1.0.1'', ''v1.2'', ''dev'']"

lemma demo_versions_compare:
  "map (\<lambda>(a, b). semver_compare a b) (zip demo_versions (tl demo_versions)) =
     [Some (-1), Some (-1), Some (-1), Some (-1), Some (-1), Some 0, Some (-1), Some (-1), Some (-1), None]"
  by code_simp

end
