(* ===== verification/Cronexpr.thy ===== *)
theory Cronexpr
  imports Releases
begin

text \<open>
  Cron expressions, \<open>kit/cronexpr/cronexpr.go\<close>: the parser of the five fields, the search for the
  next matching minute, and the search on the wall clock of a time zone.

  The calendar is the proleptic Gregorian one of Go's \<open>time\<close> package, built from the days before a
  year; days and valid dates are shown to correspond.  A minute-aligned time is the number of its
  minutes since the start of the year 1, and a day the number of its days.  A field set is a 64-bit
  word.  A location is its offset from UTC as a function of the instant, an argument of the
  definitions that use it.  The texts of errors and of the reason why a schedule never runs are
  left out.
\<close>

unbundle bit_operations_syntax

section \<open>The calendar\<close>

definition is_leap :: "int \<Rightarrow> bool" where
  "is_leap y \<longleftrightarrow> y mod 4 = 0 \<and> (y mod 100 \<noteq> 0 \<or> y mod 400 = 0)"

definition month_days :: "int \<Rightarrow> int \<Rightarrow> int" where
  "month_days y m = (if m = 2 then if is_leap y then 29 else 28 else if m \<in> {4, 6, 9, 11} then 30 else 31)"

text \<open>The days before a year, and before a month of a year.\<close>

definition days_to_year :: "int \<Rightarrow> int" where
  "days_to_year y = 365 * (y - 1) + (y - 1) div 4 - (y - 1) div 100 + (y - 1) div 400"

definition days_to_month :: "int \<Rightarrow> int \<Rightarrow> int" where
  "days_to_month y m = sum_list (map (month_days y) [1..m - 1])"

text \<open>\<open>time.Date\<close> at midnight: months and days out of range carry over.\<close>

definition go_date :: "int \<Rightarrow> int \<Rightarrow> int \<Rightarrow> int" where
  "go_date y m d =
     (let y' = y + (m - 1) div 12; m' = (m - 1) mod 12 + 1 in days_to_year y' + days_to_month y' m' + (d - 1))"

text \<open>The year of a day from the average length of a year, which is off by one at most.\<close>

definition year_of :: "int \<Rightarrow> int" where
  "year_of n =
     (let y = 400 * n div 146097 + 1 in if days_to_year (y + 1) \<le> n then y + 1 else y)"

fun month_scan :: "int \<Rightarrow> int \<Rightarrow> int list \<Rightarrow> int" where
  "month_scan y r [] = 12"
| "month_scan y r (m # ms) = (if r < days_to_month y (m + 1) then m else month_scan y r ms)"

definition month_of :: "int \<Rightarrow> int" where
  "month_of n = (let y = year_of n in month_scan y (n - days_to_year y) [1..12])"

definition mday_of :: "int \<Rightarrow> int" where
  "mday_of n = (let y = year_of n in n - days_to_year y - days_to_month y (month_of n) + 1)"

text \<open>Day 0, the first of January of the year 1, was a Monday; Sunday is 0.\<close>

definition weekday :: "int \<Rightarrow> int" where
  "weekday n = (n + 1) mod 7"

definition add_date :: "int \<Rightarrow> int \<Rightarrow> int \<Rightarrow> int \<Rightarrow> int" where
  "add_date n y m d = go_date (year_of n + y) (month_of n + m) (mday_of n + d)"

lemma div_step: "0 < k \<Longrightarrow> (y :: int) div k = (y - 1) div k + (if y mod k = 0 then 1 else 0)"
proof -
  assume k: "0 < k"
  show ?thesis
  proof (cases "y mod k = 0")
    case True
    then obtain q where q: "y = k * q" by (metis dvdE mod_0_imp_dvd)
    have "(k * q - 1) div k = q - 1"
      using k by (intro int_div_pos_eq [where r = "k - 1"]) (auto simp: algebra_simps)
    with q k True show ?thesis by simp
  next
    case False
    have r: "0 < y mod k" "y mod k < k" using k False pos_mod_sign [OF k, of y] pos_mod_bound [OF k, of y] by simp_all
    have "(y - 1) div k = y div k"
      by (rule int_div_pos_eq [where r = "y mod k - 1"]) (use r in \<open>auto simp: algebra_simps\<close>)
    with False show ?thesis by simp
  qed
qed

lemma leap_mods: "y mod 400 = 0 \<Longrightarrow> y mod 100 = 0" "y mod 100 = 0 \<Longrightarrow> y mod 4 = (0 :: int)"
  using mod_mod_cancel [of 100 400 y] mod_mod_cancel [of 4 100 y] by simp_all

text \<open>Arithmetic with the quotients named, which keeps the decision procedures away from \<open>div\<close>.\<close>

lemma leap_arith:
  assumes "C \<longrightarrow> B" "B \<longrightarrow> A"
    and "a = a' + (if A then 1 else 0)" "b = b' + (if B then 1 else 0)" "c = c' + (if C then 1 else 0)"
  shows "365 * y + a - b + c = 365 * (y - 1) + a' - b' + c' + (if A \<and> (\<not> B \<or> C) then 366 else 365 :: int)"
  using assms by (cases A; cases B; cases C) simp_all

lemma days_to_next_year: "days_to_year (y + 1) = 365 * y + y div 4 - y div 100 + y div 400"
  by (simp add: days_to_year_def)

lemma year_length: "days_to_year (y + 1) = days_to_year y + (if is_leap y then 366 else 365)"
  by (subst days_to_next_year, subst days_to_year_def, subst is_leap_def, rule leap_arith [OF _ _ div_step div_step div_step])
    (use leap_mods [of y] in blast, use leap_mods [of y] in blast, simp_all only: zero_less_numeral)

lemma average_year:
  fixes k a b c :: int
  assumes "4 * a \<le> k" "k < 4 * a + 4" "100 * b \<le> k" "k < 100 * b + 100" "400 * c \<le> k" "k < 400 * c + 400"
  shows "400 * (365 * k + a - b + c) \<le> 146097 * k + 396 \<and> 146097 * k - 699 \<le> 400 * (365 * k + a - b + c)"
  unfolding distrib_left right_diff_distrib by (rule conjI; use assms in linarith)

lemma div_bounds: "0 < m \<Longrightarrow> m * (k div m) \<le> k" "0 < m \<Longrightarrow> k < m * (k div m) + (m :: int)"
  using pos_mod_bound [of m k] pos_mod_sign [of m k] mult_div_mod_eq [of m k] by linarith+

lemma month_step: "1 \<le> m \<Longrightarrow> days_to_month y (m + 1) = days_to_month y m + month_days y m"
  by (simp add: days_to_month_def upto_rec2)

lemma days_to_month_1: "days_to_month y 1 = 0"
  by (simp add: days_to_month_def)

lemma month_starts:
  "days_to_month y 2 = 31" "days_to_month y 3 = 31 + month_days y 2" "days_to_month y 4 = 62 + month_days y 2"
  "days_to_month y 5 = 92 + month_days y 2" "days_to_month y 6 = 123 + month_days y 2"
  "days_to_month y 7 = 153 + month_days y 2" "days_to_month y 8 = 184 + month_days y 2"
  "days_to_month y 9 = 215 + month_days y 2" "days_to_month y 10 = 245 + month_days y 2"
  "days_to_month y 11 = 276 + month_days y 2" "days_to_month y 12 = 306 + month_days y 2"
  "days_to_month y 13 = 337 + month_days y 2"
  by (simp_all add: days_to_month_def month_days_def upto.simps)

lemma year_months: "days_to_year (y + 1) = days_to_year y + days_to_month y 13"
  by (simp add: year_length month_starts month_days_def)

lemma month_cases: "1 \<le> (m :: int) \<Longrightarrow> m \<le> 12 \<Longrightarrow> m \<in> {1, 2, 3, 4, 5, 6, 7, 8, 9, 10, 11, 12}"
  by (simp only: insert_iff empty_iff) presburger

lemma february: "month_days y 2 = 28 \<or> month_days y 2 = 29"
  by (simp add: month_days_def)

lemma months_upto: "[1..12] = [1, 2, 3, 4, 5, 6, 7, 8, 9, 10, 11, 12 :: int]"
  by (simp add: upto.simps)

lemma month_scan_unique:
  assumes "1 \<le> m" "m \<le> 12" "days_to_month y m \<le> r" "r < days_to_month y (m + 1)"
  shows "month_scan y r [1..12] = m"
  using month_cases [OF assms(1,2)] assms(3,4) february [of y] unfolding months_upto
  by (elim insertE emptyE; elim disjE) (simp_all add: month_starts days_to_month_1)

lemma month_scan_range:
  assumes "0 \<le> r" "r < days_to_month y 13"
  shows "1 \<le> month_scan y r [1..12]" "month_scan y r [1..12] \<le> 12"
    "days_to_month y (month_scan y r [1..12]) \<le> r" "r < days_to_month y (month_scan y r [1..12] + 1)"
  using assms february [of y] unfolding months_upto by (auto simp: month_starts days_to_month_1)

text \<open>The average year is never behind by more than one year.\<close>

lemma days_to_year_bounds:
  "400 * days_to_year y \<le> 146097 * (y - 1) + 396" "146097 * (y - 1) - 699 \<le> 400 * days_to_year y"
  unfolding days_to_year_def
  by (rule average_year [THEN conjunct1] average_year [THEN conjunct2]; simp only: div_bounds zero_less_numeral)+

text \<open>The estimate of a year is right or one too small.\<close>

lemma estimate_close:
  fixes a b n k :: int
  assumes "146097 * k \<le> 400 * n" "400 * n < 146097 * k + 146097"
    and "400 * a \<le> 146097 * k + 396" "146097 * (k + 2) - 699 \<le> 400 * b"
  shows "a \<le> n \<and> n < b"
  by (rule conjI; use assms in \<open>simp add: algebra_simps\<close>)

lemma year_of_bounds: "days_to_year (year_of n) \<le> n" "n < days_to_year (year_of n + 1)"
proof -
  let ?k = "400 * n div 146097"
  have "days_to_year (?k + 1) \<le> n \<and> n < days_to_year (?k + 3)"
  proof (rule estimate_close)
    show "146097 * ?k \<le> 400 * n" "400 * n < 146097 * ?k + 146097" by (simp_all only: div_bounds zero_less_numeral)
    show "400 * days_to_year (?k + 1) \<le> 146097 * ?k + 396"
      using days_to_year_bounds(1) [of "?k + 1"] by (simp only: add_diff_cancel_right')
    show "146097 * (?k + 2) - 699 \<le> 400 * days_to_year (?k + 3)"
      using days_to_year_bounds(2) [of "?k + 3"] by (simp only: diff_conv_add_uminus add.assoc) simp
  qed
  then show "days_to_year (year_of n) \<le> n" "n < days_to_year (year_of n + 1)"
    by (auto simp: year_of_def Let_def add.assoc)
qed

lemma days_to_year_less: "days_to_year y < days_to_year (y + 1)"
  by (simp add: year_length)

lemma days_to_year_mono: "y \<le> z \<Longrightarrow> days_to_year y \<le> days_to_year z"
proof (induction z rule: int_ge_induct)
  case (step i)
  then show ?case using days_to_year_less [of i] by simp
qed simp

lemma year_of_unique: "days_to_year y \<le> n \<Longrightarrow> n < days_to_year (y + 1) \<Longrightarrow> year_of n = y"
  using year_of_bounds [of n] days_to_year_mono [of "y + 1" "year_of n"] days_to_year_mono [of "year_of n + 1" y]
  by (cases "y < year_of n"; cases "year_of n < y") auto

text \<open>Days and valid dates correspond.\<close>

lemma date_of_day:
  "1 \<le> month_of n" "month_of n \<le> 12" "1 \<le> mday_of n" "mday_of n \<le> month_days (year_of n) (month_of n)"
  "n = days_to_year (year_of n) + days_to_month (year_of n) (month_of n) + (mday_of n - 1)"
proof -
  have r: "0 \<le> n - days_to_year (year_of n)" "n - days_to_year (year_of n) < days_to_month (year_of n) 13"
    using year_of_bounds [of n] year_months [of "year_of n"] by simp_all
  note m = month_scan_range [OF r]
  show "1 \<le> month_of n" "month_of n \<le> 12" unfolding month_of_def Let_def by (rule m)+
  then show "1 \<le> mday_of n" "mday_of n \<le> month_days (year_of n) (month_of n)"
    using m(3,4) month_step [of "month_of n" "year_of n"] unfolding mday_of_def month_of_def Let_def by simp_all
  show "n = days_to_year (year_of n) + days_to_month (year_of n) (month_of n) + (mday_of n - 1)"
    by (simp add: mday_of_def Let_def)
qed

lemma days_to_month_le:
  assumes "1 \<le> m" "m \<le> 12"
  shows "0 \<le> days_to_month y m" "days_to_month y (m + 1) \<le> days_to_month y 13"
  using month_cases [OF assms] february [of y]
  by (elim insertE emptyE; elim disjE; simp add: month_starts days_to_month_1)+

lemma go_date_valid: "1 \<le> m \<Longrightarrow> m \<le> 12 \<Longrightarrow> go_date y m d = days_to_year y + days_to_month y m + (d - 1)"
  by (simp add: go_date_def)

lemma day_of_date:
  assumes "1 \<le> m" "m \<le> 12" "1 \<le> d" "d \<le> month_days y m"
  shows "year_of (go_date y m d) = y" "month_of (go_date y m d) = m" "mday_of (go_date y m d) = d"
proof -
  let ?n = "go_date y m d"
  have n: "?n = days_to_year y + days_to_month y m + (d - 1)" using assms(1,2) by (rule go_date_valid)
  show y: "year_of ?n = y"
    using days_to_month_le [OF assms(1,2), of y] month_step [OF assms(1), of y] assms year_months [of y]
    by (intro year_of_unique) (simp_all add: n)
  show m: "month_of ?n = m"
    using assms month_step [OF assms(1), of y] unfolding month_of_def Let_def y by (intro month_scan_unique) (simp_all add: n)
  show "mday_of ?n = d" by (simp add: mday_of_def y m) (simp add: n)
qed

section \<open>Fields\<close>

type_synonym field_set = "64 word"

definition fs_has :: "field_set \<Rightarrow> int \<Rightarrow> bool" where
  "fs_has fs v \<longleftrightarrow> fs AND push_bit (nat v) 1 \<noteq> 0"

record cron =
  cx_minute :: field_set
  cx_hour :: field_set
  cx_dom :: field_set
  cx_month :: field_set
  cx_dow :: field_set
  cx_dom_restricted :: bool
  cx_dow_restricted :: bool

datatype cron_term_error = Empty_term | Bad_step | Bad_range_start | Bad_range_end | Bad_value | Out_of_range

datatype cron_error = Field_count nat | In_field string cron_term_error

definition cron_macros :: "(string \<times> string) list" where
  "cron_macros =
     [(''@hourly'', ''0 * * * *''), (''@daily'', ''0 0 * * *''), (''@midnight'', ''0 0 * * *''),
      (''@weekly'', ''0 0 * * 0''), (''@monthly'', ''0 0 1 * *''), (''@yearly'', ''0 0 1 1 *''),
      (''@annually'', ''0 0 1 1 *'')]"

definition expand_macro :: "string \<Rightarrow> string" where
  "expand_macro expr = (case map_of cron_macros (to_lower (trim_space expr)) of Some full \<Rightarrow> full | None \<Rightarrow> expr)"

text \<open>The loop over the values of a term.  \<open>v += step\<close> wraps, and a shift by the \<open>uint\<close> of a negative
  value gives 0.  The conditions after \<open>v \<le> hi\<close> hold at every call; they make the definition total.\<close>

lemma wrap64_over: "2 ^ 63 \<le> x \<Longrightarrow> x < 2 ^ 64 + 2 ^ 63 \<Longrightarrow> wrap64 x = x - 2 ^ 64"
proof -
  assume "2 ^ 63 \<le> x" "x < 2 ^ 64 + 2 ^ 63"
  then have "(x + 2 ^ 63) mod 2 ^ 64 = x - 2 ^ 63" by (intro int_mod_pos_eq [where q = 1]) simp_all
  then show ?thesis by (simp add: wrap64_def)
qed

definition step_rank :: "int \<Rightarrow> int \<Rightarrow> int \<Rightarrow> int" where
  "step_rank hi s v =
     (if s < 2 ^ 63 - 64 then hi + 1 - v
      else if v > hi then 0
      else if 0 \<le> v then 2 * v + 10
      else if v > - (2 ^ 62) then 5
      else 2 * (v + 2 ^ 64 - s) + 9)"

lemma step_rank_decreases:
  assumes "v \<le> hi" "hi < 64" "0 < s" "in_i64 v" "in_i64 s"
  shows "0 < step_rank hi s v" "step_rank hi s (i64_add v s) < step_rank hi s v"
proof -
  have r: "- (2 ^ 63) \<le> v" "s < 2 ^ 63" using assms(4,5) by (simp_all add: in_i64_def)
  show "0 < step_rank hi s v" using assms r by (simp add: step_rank_def)
  show "step_rank hi s (i64_add v s) < step_rank hi s v"
  proof (cases "v + s < 2 ^ 63")
    case True
    with assms r have "i64_add v s = v + s" by (simp add: i64_add_def in_i64_def)
    with assms r show ?thesis by (simp add: step_rank_def)
  next
    case False
    with assms r have "i64_add v s = v + s - 2 ^ 64" by (simp add: i64_add_def wrap64_over)
    with assms r False show ?thesis by (simp add: step_rank_def)
  qed
qed

function set_steps :: "int \<Rightarrow> int \<Rightarrow> int \<Rightarrow> field_set \<Rightarrow> field_set" where
  "set_steps v hi step fs =
     (if v \<le> hi \<and> hi < 64 \<and> 0 < step \<and> in_i64 v \<and> in_i64 step
      then set_steps (i64_add v step) hi step (if 0 \<le> v then fs OR push_bit (nat v) 1 else fs)
      else fs)"
  by pat_completeness auto

termination
  by (relation "measure (\<lambda>(v, hi, s, _). nat (step_rank hi s v))") (simp_all add: step_rank_decreases)

declare set_steps.simps [simp del]

text \<open>The bounds of a term: everything, a range, or one value, which a step opens upwards.\<close>

definition term_bounds :: "string \<Rightarrow> int \<Rightarrow> int \<Rightarrow> int \<Rightarrow> bool \<Rightarrow> cron_term_error + int \<times> int" where
  "term_bounds base lo hi step alias7 =
     (if base = ''*'' then Inr (lo, hi)
      else
        (case go_cut CHR ''-'' base of
           Some (a, b) \<Rightarrow>
             (case go_atoi a of
                None \<Rightarrow> Inl Bad_range_start
              | Some l \<Rightarrow> (case go_atoi b of None \<Rightarrow> Inl Bad_range_end | Some h \<Rightarrow> Inr (l, h)))
         | None \<Rightarrow>
             (case go_atoi base of
                None \<Rightarrow> Inl Bad_value
              | Some v \<Rightarrow>
                  (let v = (if alias7 \<and> v = 7 then 0 else v) in Inr (v, if step \<noteq> 1 then hi else v)))))"

definition term_step :: "string \<Rightarrow> (string \<times> int) option" where
  "term_step t =
     (case go_cut CHR ''/'' t of
        None \<Rightarrow> Some (t, 1)
      | Some (base, s) \<Rightarrow> (case go_atoi s of None \<Rightarrow> None | Some n \<Rightarrow> if n \<le> 0 then None else Some (base, n)))"

fun parse_terms :: "int \<Rightarrow> int \<Rightarrow> bool \<Rightarrow> string list \<Rightarrow> field_set \<Rightarrow> cron_term_error + field_set" where
  "parse_terms lo hi alias7 [] fs = Inr fs"
| "parse_terms lo hi alias7 (t # ts) fs =
     (if t = [] then Inl Empty_term
      else
        (case term_step t of
           None \<Rightarrow> Inl Bad_step
         | Some (base, step) \<Rightarrow>
             (case term_bounds base lo hi step alias7 of
                Inl e \<Rightarrow> Inl e
              | Inr (l, h) \<Rightarrow>
                  if l < lo \<or> h > hi \<or> l > h then Inl Out_of_range
                  else parse_terms lo hi alias7 ts (set_steps l h step fs))))"

definition parse_field :: "string \<Rightarrow> int \<Rightarrow> int \<Rightarrow> bool \<Rightarrow> cron_term_error + field_set" where
  "parse_field field lo hi alias7 = parse_terms lo hi alias7 (go_split CHR '','' field) 0"

definition parse_named :: "string \<Rightarrow> string \<Rightarrow> int \<Rightarrow> int \<Rightarrow> bool \<Rightarrow> cron_error + field_set" where
  "parse_named name field lo hi alias7 =
     (case parse_field field lo hi alias7 of Inl e \<Rightarrow> Inl (In_field name e) | Inr fs \<Rightarrow> Inr fs)"

definition parse_cron :: "string \<Rightarrow> cron_error + cron" where
  "parse_cron expr =
     (case fields_func is_space [] (expand_macro expr) of
        [f0, f1, f2, f3, f4] \<Rightarrow>
          (case parse_named ''minute'' f0 0 59 False of Inl e \<Rightarrow> Inl e | Inr mi \<Rightarrow>
          (case parse_named ''hour'' f1 0 23 False of Inl e \<Rightarrow> Inl e | Inr ho \<Rightarrow>
          (case parse_named ''day-of-month'' f2 1 31 False of Inl e \<Rightarrow> Inl e | Inr dm \<Rightarrow>
          (case parse_named ''month'' f3 1 12 False of Inl e \<Rightarrow> Inl e | Inr mo \<Rightarrow>
          (case parse_named ''day-of-week'' f4 0 6 True of Inl e \<Rightarrow> Inl e | Inr dw \<Rightarrow>
             Inr \<lparr>cx_minute = mi, cx_hour = ho, cx_dom = dm, cx_month = mo, cx_dow = dw,
                  cx_dom_restricted = (f2 \<noteq> ''*''), cx_dow_restricted = (f4 \<noteq> ''*'')\<rparr>)))))
      | fs \<Rightarrow> Inl (Field_count (length fs)))"

section \<open>The next match\<close>

text \<open>A minute-aligned time is the number of its minutes; a day has 1440.\<close>

definition day_matches :: "cron \<Rightarrow> int \<Rightarrow> bool" where
  "day_matches s day =
     (let dom_ok = fs_has (cx_dom s) (mday_of day); dow_ok = fs_has (cx_dow s) (weekday day)
      in if cx_dom_restricted s \<and> cx_dow_restricted s then dom_ok \<or> dow_ok else dom_ok \<and> dow_ok)"

definition month_start :: "int \<Rightarrow> int" where
  "month_start day = go_date (year_of day) (month_of day) 1"

lemma month_start_date:
  "year_of (month_start day) = year_of day" "month_of (month_start day) = month_of day" "mday_of (month_start day) = 1"
  using day_of_date [of "month_of day" 1 "year_of day"] date_of_day [of day] unfolding month_start_def by simp_all

lemma next_month_start:
  "add_date (month_start day) 0 1 0 = days_to_year (year_of day) + days_to_month (year_of day) (month_of day + 1)"
proof (cases "month_of day = 12")
  case True
  then show ?thesis by (simp add: add_date_def month_start_date go_date_def year_months days_to_month_1)
next
  case False
  with date_of_day [of day] show ?thesis by (simp add: add_date_def month_start_date go_date_valid)
qed

lemma next_month_later: "day < add_date (month_start day) 0 1 0"
  using date_of_day [of day] month_step [of "month_of day" "year_of day"] by (simp add: next_month_start)

lemma same_month: "day \<le> k \<Longrightarrow> k < add_date (month_start day) 0 1 0 \<Longrightarrow> month_of k = month_of day"
proof -
  assume k: "day \<le> k" "k < add_date (month_start day) 0 1 0"
  let ?y = "year_of day" and ?m = "month_of day"
  have y: "year_of k = ?y"
    using k date_of_day [of day] days_to_month_le [of ?m ?y] year_months [of ?y]
    by (intro year_of_unique) (simp_all add: next_month_start)
  have "month_scan ?y (k - days_to_year ?y) [1..12] = ?m"
    using k date_of_day [of day] by (intro month_scan_unique) (simp_all add: next_month_start)
  then show ?thesis by (simp add: month_of_def [of k] y)
qed

lemma next_day: "add_date (go_date (year_of day) (month_of day) (mday_of day)) 0 0 1 = day + 1"
  using date_of_day [of day] by (simp add: add_date_def go_date_valid day_of_date)

lemma clock_parts:
  "0 \<le> n mod 1440 div 60" "n mod 1440 div 60 < (24 :: int)"
  "60 * (n mod 1440 div 60) + n mod 60 = n mod 1440" "1440 * (n div 1440) + n mod 1440 = (n :: int)"
proof -
  have b: "0 \<le> n mod 1440" "n mod 1440 < 1440" by simp_all
  show "0 \<le> n mod 1440 div 60" using b(1) by simp
  show "n mod 1440 div 60 < 24" using b(2) by (simp add: div_less_iff_less_mult)
  have "n mod 1440 mod 60 = n mod 60" by (simp add: mod_mod_cancel)
  with mult_div_mod_eq [of 60 "n mod 1440"] show "60 * (n mod 1440 div 60) + n mod 60 = n mod 1440" by simp
  show "1440 * (n div 1440) + n mod 1440 = n" by simp
qed

lemma next_hour_later: "n < 1440 * (n div 1440) + 60 * (n mod 1440 div 60) + (60 :: int)"
  using clock_parts(3,4) [of n] pos_mod_bound [of 60 n] by linarith

function cron_search :: "cron \<Rightarrow> int \<Rightarrow> int \<Rightarrow> int option" where
  "cron_search s limit n =
     (if n < limit
      then
        (let day = n div 1440
         in if \<not> fs_has (cx_month s) (month_of day) then cron_search s limit (1440 * add_date (month_start day) 0 1 0)
            else if \<not> day_matches s day
              then cron_search s limit (1440 * add_date (go_date (year_of day) (month_of day) (mday_of day)) 0 0 1)
            else if \<not> fs_has (cx_hour s) (n mod 1440 div 60)
              then cron_search s limit (1440 * day + 60 * (n mod 1440 div 60) + 60)
            else if \<not> fs_has (cx_minute s) (n mod 60) then cron_search s limit (n + 1)
            else Some n)
      else None)"
  by pat_completeness auto

termination
proof (relation "measure (\<lambda>(_, limit, n). nat (limit - n))", goal_cases)
  case 1
  show ?case by simp
next
  case (2 s limit n day)
  then show ?case using next_month_later [of day] mult_div_mod_eq [of 1440 n] pos_mod_bound [of 1440 n] by simp
next
  case (3 s limit n day)
  then show ?case using mult_div_mod_eq [of 1440 n] pos_mod_bound [of 1440 n] by (simp add: next_day)
next
  case (4 s limit n day)
  then show ?case using next_hour_later [of n] by simp
next
  case (5 s limit n day)
  then show ?case by simp
qed

declare cron_search.simps [simp del]

text \<open>The longest every month can be.\<close>

definition max_days_in_month :: "int \<Rightarrow> int" where
  "max_days_in_month m = [0, 31, 29, 31, 30, 31, 30, 31, 31, 30, 31, 30, 31] ! nat m"

definition impossible :: "cron \<Rightarrow> bool" where
  "impossible s \<longleftrightarrow>
     cx_dom_restricted s \<and> \<not> cx_dow_restricted s \<and>
     list_all (\<lambda>m. fs_has (cx_month s) m \<longrightarrow>
       list_all (\<lambda>d. \<not> fs_has (cx_dom s) d) [1..max_days_in_month m]) [1..12]"

text \<open>The search starts at the minute after the time and ends eight years and a day later.\<close>

definition cron_next :: "cron \<Rightarrow> gotime \<Rightarrow> gotime option" where
  "cron_next s t =
     (if impossible s then None
      else
        (let n = t div minute + 1; limit = 1440 * add_date (n div 1440) 8 0 1 + n mod 1440
         in map_option (\<lambda>n. n * minute) (cron_search s limit n)))"

section \<open>What the search finds\<close>

text \<open>A minute matches when all its fields do.\<close>

definition cron_matches :: "cron \<Rightarrow> int \<Rightarrow> bool" where
  "cron_matches s n \<longleftrightarrow>
     fs_has (cx_month s) (month_of (n div 1440)) \<and> day_matches s (n div 1440) \<and>
     fs_has (cx_hour s) (n mod 1440 div 60) \<and> fs_has (cx_minute s) (n mod 60)"

lemma same_hour:
  fixes n k :: int
  assumes "n \<le> k" "k < 1440 * (n div 1440) + 60 * (n mod 1440 div 60) + 60"
  shows "k div 1440 = n div 1440" "k mod 1440 div 60 = n mod 1440 div 60"
proof -
  note p = clock_parts [of n]
  have k: "1440 * (n div 1440) + 60 * (n mod 1440 div 60) \<le> k"
    using assms(1) p(3,4) pos_mod_sign [of 60 n] by linarith
  show d: "k div 1440 = n div 1440"
    by (rule int_div_pos_eq [where r = "k - 1440 * (n div 1440)"]) (use assms(2) k p(1,2) in linarith)+
  have "k mod 1440 = k - 1440 * (n div 1440)" using mult_div_mod_eq [of 1440 k] by (simp add: d)
  then show "k mod 1440 div 60 = n mod 1440 div 60"
    by (intro int_div_pos_eq [where r = "k - 1440 * (n div 1440) - 60 * (n mod 1440 div 60)"])
      (use assms(2) k in linarith)+
qed

lemma day_before: "k < 1440 * d \<Longrightarrow> k div 1440 < (d :: int)"
  by (simp add: div_less_iff_less_mult mult.commute)

lemma search_first:
  "case cron_search s limit n of
     None \<Rightarrow> \<forall>k. n \<le> k \<and> k < limit \<longrightarrow> \<not> cron_matches s k
   | Some u \<Rightarrow> n \<le> u \<and> u < limit \<and> cron_matches s u \<and> (\<forall>k. n \<le> k \<and> k < u \<longrightarrow> \<not> cron_matches s k)"
proof (induction s limit n rule: cron_search.induct)
  case (1 s limit n)
  let ?d = "n div 1440"
  have jump: "case cron_search s limit n of
     None \<Rightarrow> \<forall>k. n \<le> k \<and> k < limit \<longrightarrow> \<not> cron_matches s k
   | Some u \<Rightarrow> n \<le> u \<and> u < limit \<and> cron_matches s u \<and> (\<forall>k. n \<le> k \<and> k < u \<longrightarrow> \<not> cron_matches s k)"
    if eq: "cron_search s limit n = cron_search s limit n'" and "n < n'"
      and IH: "case cron_search s limit n' of
         None \<Rightarrow> \<forall>k. n' \<le> k \<and> k < limit \<longrightarrow> \<not> cron_matches s k
       | Some u \<Rightarrow> n' \<le> u \<and> u < limit \<and> cron_matches s u \<and> (\<forall>k. n' \<le> k \<and> k < u \<longrightarrow> \<not> cron_matches s k)"
      and skip: "\<And>k. n \<le> k \<Longrightarrow> k < n' \<Longrightarrow> \<not> cron_matches s k" for n'
  proof (cases "cron_search s limit n'")
    case None
    with IH skip show ?thesis unfolding eq by (simp add: None) (meson not_less)
  next
    case (Some u)
    with IH skip \<open>n < n'\<close> show ?thesis unfolding eq by (simp add: Some) (meson not_less)
  qed
  note step = cron_search.simps [of s limit n, unfolded Let_def]
  consider "limit \<le> n"
    | "n < limit" "\<not> fs_has (cx_month s) (month_of ?d)"
    | "n < limit" "fs_has (cx_month s) (month_of ?d)" "\<not> day_matches s ?d"
    | "n < limit" "fs_has (cx_month s) (month_of ?d)" "day_matches s ?d" "\<not> fs_has (cx_hour s) (n mod 1440 div 60)"
    | "n < limit" "fs_has (cx_month s) (month_of ?d)" "day_matches s ?d" "fs_has (cx_hour s) (n mod 1440 div 60)"
        "\<not> fs_has (cx_minute s) (n mod 60)"
    | "n < limit" "cron_matches s n" unfolding cron_matches_def using not_less [of n limit] by blast
  then show ?case
  proof cases
    case 1
    then show ?thesis by (auto simp: step)
  next
    case 2
    show ?thesis
    proof (rule jump)
      show "cron_search s limit n = cron_search s limit (1440 * add_date (month_start ?d) 0 1 0)" using 2 by (simp add: step)
      show "n < 1440 * add_date (month_start ?d) 0 1 0"
        using next_month_later [of ?d] clock_parts(4) [of n] pos_mod_bound [of 1440 n] by linarith
    next
      fix k
      assume k: "n \<le> k" "k < 1440 * add_date (month_start ?d) 0 1 0"
      have "month_of (k div 1440) = month_of ?d"
        using k by (intro same_month day_before zdiv_mono1) simp_all
      with 2 show "\<not> cron_matches s k" by (simp add: cron_matches_def)
    qed (use 1 [OF 2(1) refl] 2 in simp)
  next
    case 3
    show ?thesis
    proof (rule jump)
      show "cron_search s limit n =
          cron_search s limit (1440 * add_date (go_date (year_of ?d) (month_of ?d) (mday_of ?d)) 0 0 1)" using 3 by (simp add: step)
      show "n < 1440 * add_date (go_date (year_of ?d) (month_of ?d) (mday_of ?d)) 0 0 1"
        unfolding next_day distrib_left using clock_parts(4) [of n] pos_mod_bound [of 1440 n] by linarith
    next
      fix k
      assume k: "n \<le> k" "k < 1440 * add_date (go_date (year_of ?d) (month_of ?d) (mday_of ?d)) 0 0 1"
      then have "k div 1440 < ?d + 1" unfolding next_day by (intro day_before)
      moreover have "?d \<le> k div 1440" using k(1) by (rule zdiv_mono1) simp
      ultimately have "k div 1440 = ?d" by simp
      with 3 show "\<not> cron_matches s k" by (simp add: cron_matches_def)
    qed (use 1 [OF 3(1) refl] 3 in simp)
  next
    case 4
    show ?thesis
    proof (rule jump)
      show "cron_search s limit n = cron_search s limit (1440 * ?d + 60 * (n mod 1440 div 60) + 60)" using 4 by (simp add: step)
      show "n < 1440 * ?d + 60 * (n mod 1440 div 60) + 60" by (rule next_hour_later)
    next
      fix k
      assume "n \<le> k" "k < 1440 * ?d + 60 * (n mod 1440 div 60) + 60"
      from same_hour [OF this] 4 show "\<not> cron_matches s k" by (simp add: cron_matches_def)
    qed (use 1 [OF 4(1) refl] 4 in simp)
  next
    case 5
    show ?thesis
    proof (rule jump)
      show "cron_search s limit n = cron_search s limit (n + 1)" using 5 by (simp add: step)
      show "\<not> cron_matches s k" if "n \<le> k" "k < n + 1" for k
        using that 5 by (simp add: cron_matches_def order_antisym)
    qed (use 1 [OF 5(1) refl] 5 in simp_all)
  next
    case 6
    then show ?thesis by (auto simp: step cron_matches_def)
  qed
qed

text \<open>What the parser guarantees of a schedule: no field is empty, and one spelt \<open>*\<close> is full.\<close>

definition cron_ok :: "cron \<Rightarrow> bool" where
  "cron_ok s \<longleftrightarrow>
     (\<exists>v\<in>{0..59}. fs_has (cx_minute s) v) \<and> (\<exists>v\<in>{0..23}. fs_has (cx_hour s) v) \<and>
     (\<exists>v\<in>{1..31}. fs_has (cx_dom s) v) \<and> (\<exists>v\<in>{1..12}. fs_has (cx_month s) v) \<and>
     (\<exists>v\<in>{0..6}. fs_has (cx_dow s) v) \<and>
     (\<not> cx_dom_restricted s \<longrightarrow> (\<forall>v\<in>{1..31}. fs_has (cx_dom s) v)) \<and>
     (\<not> cx_dow_restricted s \<longrightarrow> (\<forall>v\<in>{0..6}. fs_has (cx_dow s) v))"

lemma fs_has_bit: "fs_has fs v \<longleftrightarrow> bit fs (nat v)"
  by (simp add: fs_has_def bit_iff_and_push_bit_not_eq_0)

lemma set_steps_keeps: "fs_has fs v \<Longrightarrow> fs_has (set_steps w hi step fs) v"
proof (induction w hi step fs rule: set_steps.induct)
  case (1 w hi step fs)
  show ?case
  proof (cases "w \<le> hi \<and> hi < 64 \<and> 0 < step \<and> in_i64 w \<and> in_i64 step")
    case True
    have "fs_has (if 0 \<le> w then fs OR push_bit (nat w) 1 else fs) v"
      using "1.prems" by (simp add: fs_has_bit bit_or_iff)
    with "1.IH" [OF True] True show ?thesis by (subst set_steps.simps) simp
  next
    case False
    then show ?thesis using "1.prems" by (subst set_steps.simps) (simp only: if_False)
  qed
qed

lemma set_steps_first:
  assumes "0 \<le> v" "v \<le> hi" "hi < 64" "0 < step" "in_i64 step"
  shows "fs_has (set_steps v hi step fs) v"
proof -
  have "in_i64 v" using assms by (simp add: in_i64_def)
  moreover have "fs_has (fs OR push_bit (nat v) 1) v" using assms by (simp add: fs_has_bit bit_simps nat_less_iff)
  ultimately show ?thesis using assms by (subst set_steps.simps) (simp add: set_steps_keeps)
qed

lemma set_steps_all:
  "0 \<le> lo \<Longrightarrow> hi < 64 \<Longrightarrow> lo \<le> v \<Longrightarrow> v \<le> hi \<Longrightarrow> fs_has (set_steps lo hi 1 fs) v"
proof (induction "nat (v - lo)" arbitrary: lo fs)
  case 0
  then have "lo = v" by simp
  with 0 show ?case by (auto intro!: set_steps_first simp: in_i64_def)
next
  case (Suc k)
  have "i64_add lo 1 = lo + 1" using Suc.prems by (simp add: i64_add_def in_i64_def)
  moreover have "in_i64 lo" "in_i64 1" using Suc.prems by (simp_all add: in_i64_def)
  ultimately have "set_steps lo hi 1 fs = set_steps (lo + 1) hi 1 (fs OR push_bit (nat lo) 1)"
    using Suc.prems by (subst set_steps.simps) simp
  moreover have "lo < v" using Suc.hyps(2) by simp
  ultimately show ?case using Suc.hyps(1) [of "lo + 1"] Suc.hyps(2) Suc.prems by simp
qed

lemma parse_terms_keeps:
  "parse_terms lo hi al ts fs = Inr fs' \<Longrightarrow> fs_has fs v \<Longrightarrow> fs_has fs' v"
  by (induction ts arbitrary: fs) (auto simp: set_steps_keeps split: if_splits option.splits sum.splits)

lemma go_split_ne: "go_split sep s \<noteq> []"
  by (induction s) (auto split: list.splits)

lemma go_atoi_range: "go_atoi s = Some n \<Longrightarrow> in_i64 n"
  by (auto simp: go_atoi_def Let_def split: if_splits list.splits)

lemma term_step_ok: "term_step t = Some (b, step) \<Longrightarrow> 0 < step \<and> in_i64 step"
  by (auto simp: term_step_def go_atoi_range in_i64_def [of 1] split: option.splits if_splits)

lemma parse_field_some:
  assumes "parse_field f lo hi al = Inr fs" "0 \<le> lo" "hi < 64"
  shows "\<exists>v\<in>{lo..hi}. fs_has fs v"
proof -
  obtain t ts where ts: "go_split CHR '','' f = t # ts" using go_split_ne by (cases "go_split CHR '','' f") auto
  with assms(1) obtain b step l h where
    t: "term_step t = Some (b, step)" "lo \<le> l" "h \<le> hi" "l \<le> h" "parse_terms lo hi al ts (set_steps l h step 0) = Inr fs"
    by (auto simp: parse_field_def not_less split: if_splits option.splits sum.splits)
  have "fs_has (set_steps l h step 0) l"
    using t(2-4) term_step_ok [OF t(1)] assms(2,3) by (intro set_steps_first) simp_all
  with t show ?thesis by (auto dest!: parse_terms_keeps [of _ _ _ _ _ _ l] intro!: bexI [of _ l])
qed

lemma parse_field_star:
  "0 \<le> lo \<Longrightarrow> lo \<le> hi \<Longrightarrow> hi < 64 \<Longrightarrow> parse_field ''*'' lo hi al = Inr fs \<Longrightarrow> v \<in> {lo..hi} \<Longrightarrow> fs_has fs v"
  by (auto simp: parse_field_def term_step_def term_bounds_def set_steps_all)

lemma parse_named_ok: "parse_named name f lo hi al = Inr fs \<longleftrightarrow> parse_field f lo hi al = Inr fs"
  by (simp add: parse_named_def split: sum.splits)

lemma parse_cron_ok:
  assumes "parse_cron e = Inr s"
  shows "cron_ok s"
proof -
  obtain f0 f1 f2 f3 f4 where p:
    "parse_field f0 0 59 False = Inr (cx_minute s)" "parse_field f1 0 23 False = Inr (cx_hour s)"
    "parse_field f2 1 31 False = Inr (cx_dom s)" "parse_field f3 1 12 False = Inr (cx_month s)"
    "parse_field f4 0 6 True = Inr (cx_dow s)" "cx_dom_restricted s = (f2 \<noteq> ''*'')" "cx_dow_restricted s = (f4 \<noteq> ''*'')"
    using assms unfolding parse_cron_def
    by (auto simp: parse_named_ok split: list.splits sum.splits)
  then show ?thesis
    using parse_field_some [OF p(1)] parse_field_some [OF p(2)] parse_field_some [OF p(3)] parse_field_some [OF p(4)]
      parse_field_some [OF p(5)] parse_field_star [of 1 31 False "cx_dom s"] parse_field_star [of 0 6 True "cx_dow s"]
    by (auto simp: cron_ok_def)
qed

section \<open>Every possible schedule fires\<close>

lemma leap_multiple: "is_leap (4 * q) \<longleftrightarrow> q mod 25 \<noteq> 0 \<or> q mod 100 = 0"
proof -
  have e: "4 * 25 = (100 :: int)" "4 * 100 = (400 :: int)" by simp_all
  have "4 * q mod (4 * 25) = 4 * (q mod 25)" "4 * q mod (4 * 100) = 4 * (q mod 100)"
    by (rule mult_mod_right [symmetric])+
  then have m: "4 * q mod 100 = 4 * (q mod 25)" "4 * q mod 400 = 4 * (q mod 100)" by (simp_all only: e)
  have z: "4 * x = 0 \<longleftrightarrow> x = 0" for x :: int by linarith
  show ?thesis unfolding is_leap_def m z by simp
qed

lemma leap_pairs: "is_leap (4 * (q + 1)) \<or> is_leap (4 * (q + 2))" "is_leap (4 * (q + 1)) \<or> is_leap (4 * q)"
  unfolding leap_multiple by presburger+

text \<open>Among eight years there is a leap year, or the two ends of nine are.\<close>

lemma leap_soon: "(\<exists>k\<in>{1..7}. is_leap (y + k)) \<or> is_leap y \<and> is_leap (y + 8)"
proof -
  obtain q r where y: "y = 4 * q + r" "0 \<le> r" "r < 4"
    using mult_div_mod_eq [of 4 y] pos_mod_bound [of 4 y] pos_mod_sign [of 4 y] by (metis zero_less_numeral)
  show ?thesis
  proof (cases "r = 0")
    case True
    with y(1) have "y + 4 = 4 * (q + 1)" "y + 8 = 4 * (q + 2)" "y = 4 * q" by simp_all
    with leap_pairs [of q] have "is_leap (y + 4) \<or> is_leap y \<and> is_leap (y + 8)" by metis
    then show ?thesis by (auto intro: bexI [of _ 4])
  next
    case False
    with y have "y + (4 - r) = 4 * (q + 1)" "y + (8 - r) = 4 * (q + 2)" by simp_all
    with leap_pairs(1) [of q] have "is_leap (y + (4 - r)) \<or> is_leap (y + (8 - r))" by metis
    with y False show ?thesis by (auto intro: bexI [of _ "4 - r"] bexI [of _ "8 - r"])
  qed
qed

lemma horizon_day:
  "add_date d 8 0 1 = days_to_year (year_of d + 8) + days_to_month (year_of d + 8) (month_of d) + mday_of d"
  using date_of_day [of d] by (simp add: add_date_def go_date_valid)

lemma valid_within_year:
  assumes "1 \<le> m" "m \<le> 12" "1 \<le> e" "e \<le> month_days y m"
  shows "days_to_year y \<le> go_date y m e" "go_date y m e < days_to_year (y + 1)"
  using assms days_to_month_le [OF assms(1,2), of y] month_step [OF assms(1), of y] year_months [of y]
  by (simp_all add: go_date_valid)

lemma later_year_in_horizon:
  assumes "1 \<le> k" "k \<le> 7" "1 \<le> m" "m \<le> 12" "1 \<le> e" "e \<le> month_days (year_of d + k) m"
  shows "d < go_date (year_of d + k) m e" "go_date (year_of d + k) m e < add_date d 8 0 1"
proof -
  let ?y = "year_of d"
  note v = valid_within_year [OF assms(3-6)]
  have "d < days_to_year (?y + 1)" by (rule year_of_bounds)
  also have "\<dots> \<le> days_to_year (?y + k)" using assms(1) by (intro days_to_year_mono) simp
  finally show "d < go_date (?y + k) m e" using v(1) by simp
  have "days_to_year (?y + k + 1) \<le> days_to_year (?y + 8)" using assms(2) by (intro days_to_year_mono) simp
  also have "\<dots> \<le> add_date d 8 0 1"
    using date_of_day [of d] days_to_month_le [of "month_of d" "?y + 8"] by (simp add: horizon_day)
  finally show "go_date (?y + k) m e < add_date d 8 0 1" using v(2) by simp
qed

lemma leap_day_in_horizon: "\<exists>y. is_leap y \<and> d < go_date y 2 29 \<and> go_date y 2 29 < add_date d 8 0 1"
proof (cases "\<exists>k\<in>{1..7}. is_leap (year_of d + k)")
  case True
  then obtain k where k: "1 \<le> k" "k \<le> 7" "is_leap (year_of d + k)" by auto
  have "29 \<le> month_days (year_of d + k) 2" using k(3) by (simp add: month_days_def)
  with later_year_in_horizon [OF k(1,2), of 2 29 d] k(3) show ?thesis by auto
next
  case False
  let ?y = "year_of d"
  have leap: "is_leap ?y" "is_leap (?y + 8)" using leap_soon [of ?y] False by simp_all
  have feb: "go_date y 2 29 = days_to_year y + 59" for y by (simp add: go_date_valid month_starts)
  show ?thesis
  proof (cases "d < go_date ?y 2 29")
    case True
    have "go_date ?y 2 29 < days_to_year (?y + 1)" using leap(1) by (simp add: feb year_length)
    also have "\<dots> \<le> days_to_year (?y + 8)" by (rule days_to_year_mono) simp
    also have "\<dots> \<le> add_date d 8 0 1"
      using date_of_day [of d] days_to_month_le [of "month_of d" "?y + 8"] by (simp add: horizon_day)
    finally show ?thesis using leap(1) True by blast
  next
    case False
    have "month_days ?y = month_days (?y + 8)" by (rule ext) (use leap in \<open>simp add: month_days_def\<close>)
    then have "days_to_month ?y (month_of d) = days_to_month (?y + 8) (month_of d)" by (simp add: days_to_month_def)
    moreover have "d = days_to_year ?y + days_to_month ?y (month_of d) + (mday_of d - 1)" by (rule date_of_day)
    ultimately have "go_date (?y + 8) 2 29 < add_date d 8 0 1" using False unfolding horizon_day feb by linarith
    moreover have "d < go_date (?y + 8) 2 29"
    proof -
      have "d < days_to_year (?y + 1)" by (rule year_of_bounds)
      also have "\<dots> \<le> days_to_year (?y + 8)" by (rule days_to_year_mono) simp
      finally show ?thesis by (simp add: feb)
    qed
    ultimately show ?thesis using leap(2) by blast
  qed
qed

lemma weekday_range: "weekday d \<in> {0..6}"
  using pos_mod_bound [of 7 "d + 1"] by (simp add: weekday_def)

lemma month_days_max: "1 \<le> m \<Longrightarrow> m \<le> 12 \<Longrightarrow> e \<le> month_days y m \<Longrightarrow> e \<le> max_days_in_month m"
  using month_cases [of m] by (auto simp: max_days_in_month_def month_days_def split: if_splits)

lemma max_days_month:
  assumes "1 \<le> m" "m \<le> 12" "e \<le> max_days_in_month m" "\<not> e \<le> month_days y m"
  shows "m = 2 \<and> e = 29"
  using month_cases [OF assms(1,2)] assms(3,4)
  by (auto simp: max_days_in_month_def month_days_def split: if_splits)

lemma possible_day:
  assumes ok: "cron_ok s" and possible: "\<not> impossible s"
  shows "\<exists>e. d < e \<and> e < add_date d 8 0 1 \<and> fs_has (cx_month s) (month_of e) \<and> day_matches s e"
proof (cases "cx_dom_restricted s \<and> \<not> cx_dow_restricted s")
  case True
  then have dow: "fs_has (cx_dow s) (weekday e)" for e using ok weekday_range by (auto simp: cron_ok_def)
  from possible True obtain m e where m: "1 \<le> m" "m \<le> 12" "fs_has (cx_month s) m" "1 \<le> e" "e \<le> max_days_in_month m"
    "fs_has (cx_dom s) e" by (auto simp: impossible_def list_all_iff)
  have found: "fs_has (cx_month s) (month_of (go_date y m e)) \<and> day_matches s (go_date y m e)" if "e \<le> month_days y m" for y
    using day_of_date [OF m(1,2,4) that] m(3,6) dow by (simp add: day_matches_def)
  show ?thesis
  proof (cases "e \<le> month_days (year_of d + 1) m")
    case True
    have "d < go_date (year_of d + 1) m e" "go_date (year_of d + 1) m e < add_date d 8 0 1"
      using m(1,2,4) True by (intro later_year_in_horizon; simp)+
    with found [OF True] show ?thesis by blast
  next
    case False
    with max_days_month m have "m = 2" "e = 29" by blast+
    moreover obtain y where "is_leap y" "d < go_date y 2 29" "go_date y 2 29 < add_date d 8 0 1"
      using leap_day_in_horizon by blast
    ultimately show ?thesis using found [of y] by (auto simp: month_days_def)
  qed
next
  case False
  obtain m w where m: "1 \<le> m" "m \<le> 12" "fs_has (cx_month s) m" and w: "0 \<le> w" "w \<le> 6" "fs_has (cx_dow s) w"
    using ok by (auto simp: cron_ok_def)
  let ?y = "year_of d + 1"
  let ?e = "(w - go_date ?y m 1 - 1) mod 7 + 1"
  have e: "1 \<le> ?e" "?e \<le> 7" by (simp_all add: pos_mod_sign)
  have "28 \<le> month_days ?y m" by (simp add: month_days_def)
  with e(2) have valid: "?e \<le> month_days ?y m" by linarith
  have "weekday (go_date ?y m ?e) = (go_date ?y m 1 + 1 + (w - go_date ?y m 1 - 1) mod 7) mod 7"
    using m by (simp add: weekday_def go_date_valid algebra_simps)
  also have "\<dots> = w mod 7" by (simp add: mod_add_right_eq)
  also have "\<dots> = w" using w by simp
  finally have "day_matches s (go_date ?y m ?e)"
    using False w day_of_date [OF m(1,2) e(1) valid] ok e by (auto simp: day_matches_def cron_ok_def)
  with later_year_in_horizon [OF _ _ m(1,2) e(1) valid] day_of_date [OF m(1,2) e(1) valid] m(3) show ?thesis by auto
qed

lemma possible_fires:
  assumes "cron_ok s" "\<not> impossible s"
  shows "cron_search s (1440 * add_date (n div 1440) 8 0 1 + n mod 1440) n \<noteq> None"
proof
  assume none: "cron_search s (1440 * add_date (n div 1440) 8 0 1 + n mod 1440) n = None"
  obtain e where e: "n div 1440 < e" "e < add_date (n div 1440) 8 0 1" "fs_has (cx_month s) (month_of e)" "day_matches s e"
    using possible_day [OF assms] by blast
  obtain h mi where h: "0 \<le> h" "h \<le> 23" "fs_has (cx_hour s) h" and mi: "0 \<le> mi" "mi \<le> 59" "fs_has (cx_minute s) mi"
    using assms(1) by (auto simp: cron_ok_def)
  let ?k = "1440 * e + (60 * h + mi)"
  have d: "?k div 1440 = e" by (rule int_div_pos_eq [where r = "60 * h + mi"]) (use h mi in simp_all)
  have m: "?k mod 1440 = 60 * h + mi" by (rule int_mod_pos_eq [where q = e]) (use h mi in simp_all)
  have hd: "(60 * h + mi) div 60 = h" by (rule int_div_pos_eq [where r = mi]) (use mi in simp_all)
  have md: "?k mod 60 = mi" by (rule int_mod_pos_eq [where q = "24 * e + h"]) (use mi in simp_all)
  have "cron_matches s ?k" unfolding cron_matches_def d m hd md using e(3,4) h(3) mi(3) by simp
  moreover have "n < ?k" using e(1) h(1) mi(1) clock_parts(4) [of n] pos_mod_bound [of 1440 n] by linarith
  moreover have "?k < 1440 * add_date (n div 1440) 8 0 1 + n mod 1440"
    using e(2) h(2) mi(2) pos_mod_sign [of 1440 n] by linarith
  ultimately show False
    using search_first [where s = s and limit = "1440 * add_date (n div 1440) 8 0 1 + n mod 1440" and n = n] none by simp
qed

lemma impossible_never:
  assumes "impossible s" "cron_ok s"
  shows "\<not> cron_matches s n"
proof
  let ?d = "n div 1440"
  assume m: "cron_matches s n"
  have r: "cx_dom_restricted s" "\<not> cx_dow_restricted s" using assms(1) by (simp_all add: impossible_def)
  with m have "fs_has (cx_month s) (month_of ?d)" "fs_has (cx_dom s) (mday_of ?d)"
    by (simp_all add: cron_matches_def day_matches_def)
  moreover have "mday_of ?d \<le> max_days_in_month (month_of ?d)"
    using date_of_day [of ?d] by (intro month_days_max) simp_all
  ultimately show False using assms(1) date_of_day [of ?d] by (auto simp: impossible_def list_all_iff)
qed

lemma after_minute:
  fixes t k m :: int
  assumes "0 < m"
  shows "t < k * m \<longleftrightarrow> t div m + 1 \<le> k"
proof -
  let ?q = "t div m"
  note b = div_bounds [OF assms, of t]
  show ?thesis
  proof
    assume "t < k * m"
    with b(1) have "m * ?q < m * k" by (simp add: mult.commute)
    with assms show "?q + 1 \<le> k" by (simp add: mult_less_cancel_left_pos)
  next
    assume "?q + 1 \<le> k"
    with assms have "m * (?q + 1) \<le> m * k" by (intro mult_left_mono) simp_all
    with b(2) show "t < k * m" by (simp add: distrib_left mult.commute)
  qed
qed

lemma cron_next_cases:
  assumes ok: "cron_ok s"
  shows "case cron_next s t of
      None \<Rightarrow> \<forall>n. \<not> cron_matches s n
    | Some u \<Rightarrow> t < u \<and> (\<exists>n. u = n * minute \<and> cron_matches s n \<and> (\<forall>k. t < k * minute \<and> k < n \<longrightarrow> \<not> cron_matches s k))"
proof -
  have "0 < minute" by (simp add: duration_defs)
  then have after: "t < k * minute \<longleftrightarrow> t div minute + 1 \<le> k" for k by (rule after_minute)
  show ?thesis
  proof (cases "impossible s")
    case True
    with impossible_never ok show ?thesis by (simp add: cron_next_def)
  next
    case False
    let ?n = "t div minute + 1"
    let ?limit = "1440 * add_date (?n div 1440) 8 0 1 + ?n mod 1440"
    obtain u where u: "cron_search s ?limit ?n = Some u" using possible_fires [OF ok False] by blast
    moreover have "cron_next s t = Some (u * minute)" using False u by (simp add: cron_next_def Let_def)
    ultimately show ?thesis using search_first [where s = s and limit = ?limit and n = ?n] by (auto simp: after)
  qed
qed

text \<open>C10: the next run of a schedule is the earliest.  For every expression that parses, \<open>Next\<close> gives
  the first minute after the time that the fields match; it gives none only when no minute, ever,
  matches them, so the horizon of eight years and a day loses nothing.\<close>

theorem next_is_earliest:
  assumes "parse_cron e = Inr s"
  shows "case cron_next s t of
      None \<Rightarrow> \<forall>n. \<not> cron_matches s n
    | Some u \<Rightarrow> t < u \<and> (\<exists>n. u = n * minute \<and> cron_matches s n \<and> (\<forall>k. t < k * minute \<and> k < n \<longrightarrow> \<not> cron_matches s k))"
  using parse_cron_ok [OF assms] by (rule cron_next_cases)

section \<open>Time zones\<close>

text \<open>A location gives its offset from UTC, in seconds, at every instant.\<close>

type_synonym zone = "gotime \<Rightarrow> int"

definition utc :: zone where
  "utc = (\<lambda>_. 0)"

text \<open>\<open>t.In(loc)\<close> as a wall clock, and \<open>time.Date\<close> of a wall clock in a location.\<close>

definition wall_of :: "zone \<Rightarrow> gotime \<Rightarrow> gotime" where
  "wall_of z t = t + z t * second"

definition real_of :: "zone \<Rightarrow> gotime \<Rightarrow> gotime" where
  "real_of z w = w - z (w - z w * second) * second"

definition same_clock :: "gotime \<Rightarrow> gotime \<Rightarrow> bool" where
  "same_clock a b \<longleftrightarrow>
     (let m = a div minute; n = b div minute
      in m mod 1440 div 60 = n mod 1440 div 60 \<and> m mod 60 = n mod 60 \<and> mday_of (m div 1440) = mday_of (n div 1440))"

definition zone_probes :: "duration list" where
  "zone_probes = [- (24 * hour), 0, 24 * hour]"

fun best_instant :: "zone \<Rightarrow> gotime \<Rightarrow> gotime \<Rightarrow> int list \<Rightarrow> gotime option \<Rightarrow> gotime option" where
  "best_instant z wall after [] best = best"
| "best_instant z wall after (off # offs) best =
     (let inst = wall - off * second
      in best_instant z wall after offs
           (if same_clock (wall_of z inst) wall \<and> after < inst \<and> (case best of None \<Rightarrow> True | Some b \<Rightarrow> inst < b)
            then Some inst else best))"

definition gap_wall :: "gotime \<Rightarrow> zone \<Rightarrow> bool" where
  "gap_wall wall z \<longleftrightarrow> list_all (\<lambda>d. \<not> same_clock (wall_of z (wall - z (wall + d) * second)) wall) zone_probes"

text \<open>The offsets are the keys of a Go map; the earliest instant does not depend on their order.\<close>

definition resolve_wall :: "gotime \<Rightarrow> zone \<Rightarrow> gotime \<Rightarrow> gotime option" where
  "resolve_wall wall z after =
     (case best_instant z wall after (remdups (map (\<lambda>d. z (wall + d)) zone_probes)) None of
        Some b \<Rightarrow> Some b
      | None \<Rightarrow>
          (let inst = wall - z (wall - 24 * hour) * second
           in if after < inst \<and> gap_wall wall z then Some inst else None))"

fun location_search :: "nat \<Rightarrow> cron \<Rightarrow> zone \<Rightarrow> gotime \<Rightarrow> gotime \<Rightarrow> gotime option" where
  "location_search 0 s z after wall = None"
| "location_search (Suc k) s z after wall =
     (case cron_next s wall of
        None \<Rightarrow> None
      | Some w \<Rightarrow> (case resolve_wall w z after of Some inst \<Rightarrow> Some inst | None \<Rightarrow> location_search k s z after w))"

definition next_in_location :: "cron \<Rightarrow> gotime \<Rightarrow> zone \<Rightarrow> gotime option" where
  "next_in_location s after z = location_search 8 s z after (wall_of z after)"

definition cron_due :: "gotime \<Rightarrow> gotime \<Rightarrow> bool" where
  "cron_due next' now \<longleftrightarrow> next' \<noteq> zero_time \<and> next' \<le> now"

text \<open>\<open>Validate\<close>: an expression that never runs again is refused; the reason is left out.\<close>

datatype cron_refusal = Not_parsed cron_error | Never_runs

definition cron_validate :: "string \<Rightarrow> zone option \<Rightarrow> gotime \<Rightarrow> cron_refusal option" where
  "cron_validate e loc now =
     (case parse_cron e of
        Inl err \<Rightarrow> Some (Not_parsed err)
      | Inr s \<Rightarrow>
          if next_in_location s now (case loc of None \<Rightarrow> utc | Some z \<Rightarrow> z) = None then Some Never_runs else None)"

lemma best_instant_after:
  "best_instant z wall after offs best = Some u \<Longrightarrow> (\<And>b. best = Some b \<Longrightarrow> after < b) \<Longrightarrow> after < u"
  by (induction offs arbitrary: best) (auto simp: Let_def split: if_splits)

lemma resolve_wall_after: "resolve_wall wall z after = Some u \<Longrightarrow> after < u"
  by (auto simp: resolve_wall_def Let_def split: option.splits if_splits dest: best_instant_after)

lemma next_in_location_after: "next_in_location s after z = Some u \<Longrightarrow> after < u"
proof -
  have "location_search k s z after w = Some u \<Longrightarrow> after < u" for k w
    by (induction k arbitrary: w) (auto split: option.splits dest: resolve_wall_after)
  then show "next_in_location s after z = Some u \<Longrightarrow> after < u" by (simp add: next_in_location_def)
qed

lemma cron_next_after: "cron_next s t = Some u \<Longrightarrow> t < u"
proof -
  assume "cron_next s t = Some u"
  then obtain limit n where n: "cron_search s limit (t div minute + 1) = Some n" "u = n * minute"
    by (auto simp: cron_next_def Let_def split: if_splits)
  have "t div minute + 1 \<le> n" using search_first [where s = s and limit = limit and n = "t div minute + 1"] n(1) by simp
  with n(2) after_minute [of minute t n] show "t < u" by (simp add: duration_defs)
qed

text \<open>In a zone without transitions the schedule is the one of UTC, shifted.\<close>

lemma next_in_fixed_zone:
  "next_in_location s after (\<lambda>_. off) = map_option (\<lambda>u. u - off * second) (cron_next s (after + off * second))"
proof (cases "cron_next s (after + off * second)")
  case None
  then show ?thesis by (simp add: next_in_location_def numeral_eq_Suc wall_of_def)
next
  case (Some u)
  have "after < u - off * second" using cron_next_after [OF Some] by simp
  then have "resolve_wall u (\<lambda>_. off) after = Some (u - off * second)"
    by (simp add: resolve_wall_def zone_probes_def wall_of_def same_clock_def Let_def)
  with Some show ?thesis by (simp add: next_in_location_def numeral_eq_Suc wall_of_def)
qed

lemma next_in_utc: "next_in_location s after utc = cron_next s after"
  using next_in_fixed_zone [of s after 0] by (simp add: utc_def option.map_ident)

text \<open>Expressions whose reading may surprise: a step of one leaves a single value, and the largest
  step wraps around and selects every other value below the start.\<close>

lemma step_one_single:
  "parse_field ''5/1'' 0 59 False = parse_field ''5'' 0 59 False"
  "map (\<lambda>v. case parse_field ''5/1'' 0 59 False of Inr fs \<Rightarrow> fs_has fs v | Inl e \<Rightarrow> False) [4, 5, 6] = [False, True, False]"
  by code_simp+

lemma huge_step_wraps:
  "map (\<lambda>v. case parse_field ''59/9223372036854775807'' 0 59 False of Inr fs \<Rightarrow> fs_has fs v | Inl e \<Rightarrow> False)
     [59, 58, 57, 56, 55, 3, 2, 1, 0] = [True, False, True, False, True, True, False, True, False]"
  by code_simp

definition demo_eve :: gotime where
  "demo_eve = 1440 * go_date 2025 1 20 * minute"

theorem next_is_earliest_witness:
  "\<exists>s. parse_cron ''0 2 1 2 *'' = Inr s \<and> cron_next s demo_eve = Some ((1440 * go_date 2025 2 1 + 120) * minute) \<and>
    (\<exists>n. (1440 * go_date 2025 2 1 + 120) * minute = n * minute \<and> cron_matches s n \<and>
      (\<forall>k. demo_eve < k * minute \<and> k < n \<longrightarrow> \<not> cron_matches s k))"
proof -
  have "(case parse_cron ''0 2 1 2 *'' of Inr s \<Rightarrow>
      cron_next s demo_eve = Some ((1440 * go_date 2025 2 1 + 120) * minute) | Inl e \<Rightarrow> False)" by code_simp
  then obtain s where s: "parse_cron ''0 2 1 2 *'' = Inr s"
    "cron_next s demo_eve = Some ((1440 * go_date 2025 2 1 + 120) * minute)" by (auto split: sum.splits)
  with next_is_earliest [OF s(1), of demo_eve] show ?thesis by simp
qed

end
