(* ===== verification/Alertmute.thy ===== *)
theory Alertmute
  imports Cronexpr
begin

text \<open>
  What mutes an alert: silences (\<open>internal/alerting/silence.go\<close>), recurring maintenance windows
  (\<open>maintenance.go\<close>), the quiet hours of a channel (\<open>quiet_hours.go\<close>) and \<open>FindMute\<close> of
  \<open>noise.go\<close>.  Case folding is that of ASCII.  The time zone database is an argument that gives
  the zone of a name.  The statements of the SQL store are not modelled.
\<close>

section \<open>Matching\<close>

record alert_context =
  ax_rule :: string
  ax_kind :: string
  ax_metric :: string
  ax_app :: string
  ax_node_id :: string
  ax_node_name :: string
  ax_labels :: "(string, string) gomap"
  ax_severity :: string

definition contains_string :: "string list \<Rightarrow> string \<Rightarrow> bool" where
  "contains_string xs v \<longleftrightarrow> v \<noteq> [] \<and> list_ex (\<lambda>s. to_lower s = to_lower v) xs"

definition valid_severity :: "string \<Rightarrow> bool" where
  "valid_severity s \<longleftrightarrow> s = ''info'' \<or> s = ''warning'' \<or> s = ''critical''"

definition severity_or_default :: "string \<Rightarrow> string" where
  "severity_or_default s = (if s = [] then ''warning'' else s)"

record silence_matcher =
  sm_rules :: "string list"
  sm_kinds :: "string list"
  sm_apps :: "string list"
  sm_nodes :: "string list"
  sm_labels :: "(string, string) gomap"
  sm_severities :: "string list"
  sm_metrics :: "string list"

definition matcher_empty :: "silence_matcher \<Rightarrow> bool" where
  "matcher_empty m \<longleftrightarrow>
     sm_rules m = [] \<and> sm_kinds m = [] \<and> sm_apps m = [] \<and> sm_nodes m = [] \<and> sm_labels m = [] \<and>
     sm_severities m = [] \<and> sm_metrics m = []"

datatype matcher_error = No_criteria | Metrics_need_kinds | Unknown_severity string | Ends_before_start

definition matcher_validate :: "silence_matcher \<Rightarrow> matcher_error option" where
  "matcher_validate m =
     (if matcher_empty m then Some No_criteria
      else if sm_metrics m \<noteq> [] \<and> sm_kinds m = [] then Some Metrics_need_kinds
      else map_option Unknown_severity (find (\<lambda>s. \<not> valid_severity s) (sm_severities m)))"

definition matcher_matches :: "silence_matcher \<Rightarrow> alert_context \<Rightarrow> bool" where
  "matcher_matches m c \<longleftrightarrow>
     (sm_rules m \<noteq> [] \<longrightarrow> contains_string (sm_rules m) (ax_rule c)) \<and>
     (sm_kinds m \<noteq> [] \<longrightarrow> contains_string (sm_kinds m) (ax_kind c)) \<and>
     (sm_apps m \<noteq> [] \<longrightarrow> ax_app c \<noteq> [] \<and> contains_string (sm_apps m) (ax_app c)) \<and>
     (sm_nodes m \<noteq> [] \<longrightarrow>
        (ax_node_id c \<noteq> [] \<or> ax_node_name c \<noteq> []) \<and>
        (contains_string (sm_nodes m) (ax_node_id c) \<or> contains_string (sm_nodes m) (ax_node_name c))) \<and>
     (sm_metrics m \<noteq> [] \<and> ax_metric c \<noteq> [] \<longrightarrow> contains_string (sm_metrics m) (ax_metric c)) \<and>
     list_all (\<lambda>(k, v). map_of (ax_labels c) k = Some v) (sm_labels m) \<and>
     (sm_severities m \<noteq> [] \<longrightarrow> contains_string (sm_severities m) (severity_or_default (ax_severity c)))"

section \<open>Silences\<close>

record silence =
  sl_id :: string
  sl_matchers :: silence_matcher
  sl_starts :: gotime
  sl_ends :: gotime
  sl_expired :: "gotime option"

datatype silence_status = Silence_pending | Silence_active | Silence_expired

definition effective_end :: "silence \<Rightarrow> gotime" where
  "effective_end s = (case sl_expired s of Some e \<Rightarrow> if e < sl_ends s then e else sl_ends s | None \<Rightarrow> sl_ends s)"

definition status_at :: "silence \<Rightarrow> gotime \<Rightarrow> silence_status" where
  "status_at s now =
     (if \<not> now < effective_end s then Silence_expired
      else if now < sl_starts s then Silence_pending
      else Silence_active)"

definition silence_validate :: "silence \<Rightarrow> matcher_error option" where
  "silence_validate s =
     (case matcher_validate (sl_matchers s) of
        Some e \<Rightarrow> Some e
      | None \<Rightarrow> if \<not> sl_ends s > sl_starts s then Some Ends_before_start else None)"

definition silence_limit :: "int \<Rightarrow> nat" where
  "silence_limit limit = nat (if limit \<le> 0 then 200 else limit)"

text \<open>
  The table of silences, in the order the query returns it (newest first).  The row limit of the
  query comes before the test of the status.
\<close>

definition list_silences :: "silence list \<Rightarrow> gotime \<Rightarrow> bool \<Rightarrow> int \<Rightarrow> silence list" where
  "list_silences rows now include_expired limit =
     filter (\<lambda>s. include_expired \<or> status_at s now \<noteq> Silence_expired) (take (silence_limit limit) rows)"

definition list_active_silences :: "silence list \<Rightarrow> gotime \<Rightarrow> silence list" where
  "list_active_silences rows now = filter (\<lambda>s. status_at s now = Silence_active) (list_silences rows now False 1000)"

definition expire_silence :: "silence list \<Rightarrow> string \<Rightarrow> gotime \<Rightarrow> (silence \<times> silence list) option" where
  "expire_silence rows i now =
     map_option
       (\<lambda>s. if status_at s now = Silence_expired then (s, rows)
            else (s\<lparr>sl_expired := Some now\<rparr>,
                  map (\<lambda>r. if sl_id r = i then r\<lparr>sl_expired := Some now\<rparr> else r) rows))
       (find (\<lambda>s. sl_id s = i) rows)"

lemma active_silences:
  "length rows \<le> 1000 \<Longrightarrow> list_active_silences rows now = filter (\<lambda>s. status_at s now = Silence_active) rows"
proof -
  assume "length rows \<le> 1000"
  then have "take (silence_limit 1000) rows = rows" by (intro take_all) (simp add: silence_limit_def)
  then have "list_active_silences rows now =
      filter (\<lambda>s. status_at s now = Silence_active) (filter (\<lambda>s. status_at s now \<noteq> Silence_expired) rows)"
    by (simp only: list_active_silences_def list_silences_def Let_def simp_thms not_one_le_zero if_False)
  also have "\<dots> = filter (\<lambda>s. status_at s now = Silence_active) rows"
    unfolding filter_filter by (rule filter_cong) auto
  finally show ?thesis .
qed

lemma expired_stays: "status_at s now = Silence_expired \<Longrightarrow> now \<le> later \<Longrightarrow> status_at s later = Silence_expired"
  by (auto simp: status_at_def split: if_splits)

lemma expired_now: "now < effective_end s \<Longrightarrow> now \<le> later \<Longrightarrow> status_at (s\<lparr>sl_expired := Some now\<rparr>) later = Silence_expired"
  by (auto simp: status_at_def effective_end_def split: option.splits if_splits)

lemma status_running: "status_at s now \<noteq> Silence_expired \<longleftrightarrow> now < effective_end s"
  by (simp add: status_at_def)

text \<open>A silence that was ended does not mute again, and ending it twice changes nothing.\<close>

lemma expire_silence_ends:
  assumes "expire_silence rows i now = Some (s, rows')" "distinct (map sl_id rows)" "now \<le> later"
  shows "sl_id s = i \<and> s \<in> set rows' \<and> (\<forall>r\<in>set rows'. sl_id r = i \<longrightarrow> status_at r later = Silence_expired) \<and>
    filter (\<lambda>r. sl_id r \<noteq> i) rows' = filter (\<lambda>r. sl_id r \<noteq> i) rows"
proof -
  obtain s0 where s0: "find (\<lambda>s. sl_id s = i) rows = Some s0" using assms(1) by (auto simp: expire_silence_def)
  then have mem: "s0 \<in> set rows" "sl_id s0 = i" by (auto simp: find_Some_iff)
  have uniq: "r = s0" if "r \<in> set rows" "sl_id r = i" for r
    using that mem assms(2) by (auto simp: distinct_map inj_on_def)
  show ?thesis
  proof (cases "status_at s0 now = Silence_expired")
    case True
    then have same: "s = s0" "rows' = rows" using assms(1) s0 by (simp_all add: expire_silence_def)
    have "\<forall>r\<in>set rows. sl_id r = i \<longrightarrow> status_at r later = Silence_expired"
      using uniq expired_stays [OF True assms(3)] by blast
    then show ?thesis using mem by (simp add: same)
  next
    case False
    then have eqs: "s = s0\<lparr>sl_expired := Some now\<rparr>"
        "rows' = map (\<lambda>r. if sl_id r = i then r\<lparr>sl_expired := Some now\<rparr> else r) rows"
      using assms(1) s0 by (simp_all add: expire_silence_def)
    have ended: "status_at s later = Silence_expired"
      using False assms(3) by (simp add: eqs expired_now status_running)
    have "status_at r later = Silence_expired" if r: "r \<in> set rows'" "sl_id r = i" for r
    proof -
      from r(1) obtain r0 where r0: "r0 \<in> set rows" "r = (if sl_id r0 = i then r0\<lparr>sl_expired := Some now\<rparr> else r0)"
        unfolding eqs(2) set_map by (rule imageE)
      from r0(2) r(2) have "sl_id r0 = i" by (simp split: if_splits)
      with uniq [OF r0(1)] r0(2) have "r = s" by (simp add: eqs(1))
      with ended show ?thesis by simp
    qed
    moreover have "s \<in> set rows'" unfolding eqs using mem by (intro image_eqI [THEN set_map [THEN equalityD2, THEN subsetD]]) simp_all
    moreover have "filter (\<lambda>r. sl_id r \<noteq> i) rows' = filter (\<lambda>r. sl_id r \<noteq> i) rows"
      unfolding eqs by (induction rows) auto
    ultimately show ?thesis using mem ended by (auto simp: eqs(1))
  qed
qed

section \<open>Maintenance windows\<close>

datatype mw_scope = Scope_all | Scope_app | Scope_node | Scope_other string

record mwindow =
  mw_id :: string
  mw_name :: string
  mw_cron :: string
  mw_duration :: duration
  mw_timezone :: string
  mw_scope :: mw_scope
  mw_targets :: "string list"
  mw_enabled :: bool

record window_state =
  ws_active :: bool
  ws_start :: gotime
  ws_end :: gotime
  ws_next :: gotime

datatype window_error =
    No_name
  | Bad_timezone string
  | Bad_cron cron_refusal
  | Bad_duration
  | No_targets
  | Bad_scope

definition max_maintenance :: duration where
  "max_maintenance = 30 * 24 * hour"

definition mw_tz :: "mwindow \<Rightarrow> string" where
  "mw_tz w = (if mw_timezone w = [] then ''UTC'' else mw_timezone w)"

definition mw_validate :: "(string \<Rightarrow> zone option) \<Rightarrow> mwindow \<Rightarrow> gotime \<Rightarrow> window_error option" where
  "mw_validate zones w now =
     (if mw_name w = [] then Some No_name
      else
        (case zones (mw_tz w) of
           None \<Rightarrow> Some (Bad_timezone (mw_timezone w))
         | Some z \<Rightarrow>
             (case cron_validate (mw_cron w) (Some z) now of
                Some e \<Rightarrow> Some (Bad_cron e)
              | None \<Rightarrow>
                  if mw_duration w \<le> 0 \<or> mw_duration w > max_maintenance then Some Bad_duration
                  else
                    (case mw_scope w of
                       Scope_all \<Rightarrow> None
                     | Scope_other _ \<Rightarrow> Some Bad_scope
                     | _ \<Rightarrow> if mw_targets w = [] then Some No_targets else None))))"

text \<open>\<open>StateAt\<close> evaluates the window on the wall clock of its zone, cut to the second.\<close>

definition state_at :: "(string \<Rightarrow> zone option) \<Rightarrow> mwindow \<Rightarrow> gotime \<Rightarrow> window_error + window_state" where
  "state_at zones w now =
     (case parse_cron (mw_cron w) of
        Inl e \<Rightarrow> Inl (Bad_cron (Not_parsed e))
      | Inr s \<Rightarrow>
          (case zones (mw_tz w) of
             None \<Rightarrow> Inl (Bad_timezone (mw_timezone w))
           | Some z \<Rightarrow>
               (let wall = wall_of z now div second * second;
                    st = \<lparr>ws_active = False, ws_start = zero_time, ws_end = zero_time,
                          ws_next = (case cron_next s wall of None \<Rightarrow> zero_time | Some n \<Rightarrow> real_of z n)\<rparr>
                in case cron_next s (wall - mw_duration w) of
                     None \<Rightarrow> Inr st
                   | Some start \<Rightarrow>
                       if start > wall then Inr st
                       else Inr (st\<lparr>ws_active := True, ws_start := real_of z start,
                                    ws_end := real_of z (start + mw_duration w)\<rparr>))))"

definition mw_covers :: "mwindow \<Rightarrow> alert_context \<Rightarrow> bool" where
  "mw_covers w c =
     (case mw_scope w of
        Scope_all \<Rightarrow> True
      | Scope_app \<Rightarrow> contains_string (mw_targets w) (ax_app c)
      | Scope_node \<Rightarrow> contains_string (mw_targets w) (ax_node_id c) \<or> contains_string (mw_targets w) (ax_node_name c)
      | Scope_other _ \<Rightarrow> False)"

text \<open>A window is open exactly while one of its cron matches is less than its length ago.\<close>

lemma window_open_iff:
  assumes "parse_cron (mw_cron w) = Inr s" "zones (mw_tz w) = Some z" "state_at zones w now = Inr st"
  shows "ws_active st \<longleftrightarrow>
    (\<exists>n. cron_matches s n \<and> n * minute \<le> wall_of z now div second * second \<and>
       wall_of z now div second * second < n * minute + mw_duration w)"
proof -
  let ?wall = "wall_of z now div second * second"
  note first = cron_next_cases [OF parse_cron_ok [OF assms(1)], of "?wall - mw_duration w"]
  show ?thesis
  proof (cases "cron_next s (?wall - mw_duration w)")
    case None
    then have "\<not> ws_active st" using assms by (auto simp: state_at_def Let_def)
    moreover have "\<not> cron_matches s n" for n using first None by simp
    ultimately show ?thesis by blast
  next
    case (Some start)
    with first obtain n where n: "start = n * minute" "cron_matches s n" "?wall - mw_duration w < start"
      "\<forall>k. ?wall - mw_duration w < k * minute \<and> k < n \<longrightarrow> \<not> cron_matches s k" by auto
    have act: "ws_active st \<longleftrightarrow> start \<le> ?wall"
      using assms Some by (auto simp: state_at_def Let_def split: if_splits)
    show ?thesis
    proof
      assume "ws_active st"
      with act n show "\<exists>n. cron_matches s n \<and> n * minute \<le> ?wall \<and> ?wall < n * minute + mw_duration w" by auto
    next
      assume "\<exists>n. cron_matches s n \<and> n * minute \<le> ?wall \<and> ?wall < n * minute + mw_duration w"
      then obtain k where k: "cron_matches s k" "k * minute \<le> ?wall" "?wall < k * minute + mw_duration w" by blast
      with n(4) have "n \<le> k" by force
      then have "n * minute \<le> k * minute" by (simp add: duration_defs)
      with k(2) n(1) act show "ws_active st" by simp
    qed
  qed
qed

section \<open>Muting\<close>

datatype mute_hit = Mute_silence string | Mute_window string string

definition find_window ::
    "(string \<Rightarrow> zone option) \<Rightarrow> mwindow list \<Rightarrow> alert_context \<Rightarrow> gotime \<Rightarrow> mwindow option" where
  "find_window zones windows c now =
     find (\<lambda>w. mw_enabled w \<and> mw_covers w c \<and>
               (case state_at zones w now of Inr st \<Rightarrow> ws_active st | Inl _ \<Rightarrow> False)) windows"

text \<open>\<open>FindMute\<close>: silences first, then the windows that cover the alert.\<close>

definition find_mute ::
    "(string \<Rightarrow> zone option) \<Rightarrow> silence list \<Rightarrow> mwindow list \<Rightarrow> alert_context \<Rightarrow> gotime \<Rightarrow> mute_hit option" where
  "find_mute zones silences windows c now =
     (case find (\<lambda>s. status_at s now = Silence_active \<and> matcher_matches (sl_matchers s) c) silences of
        Some s \<Rightarrow> Some (Mute_silence (sl_id s))
      | None \<Rightarrow> map_option (\<lambda>w. Mute_window (mw_id w) (mw_name w)) (find_window zones windows c now))"

lemma muted_iff:
  "find_mute zones silences windows c now \<noteq> None \<longleftrightarrow>
    (\<exists>s\<in>set silences. sl_starts s \<le> now \<and> now < effective_end s \<and> matcher_matches (sl_matchers s) c) \<or>
    (\<exists>w\<in>set windows. mw_enabled w \<and> mw_covers w c \<and> (\<exists>st. state_at zones w now = Inr st \<and> ws_active st))"
proof -
  have found: "find P xs \<noteq> None \<longleftrightarrow> (\<exists>x\<in>set xs. P x)" for P and xs :: "'b list"
    by (auto simp: find_None_iff)
  have "find_mute zones silences windows c now \<noteq> None \<longleftrightarrow>
      find (\<lambda>s. status_at s now = Silence_active \<and> matcher_matches (sl_matchers s) c) silences \<noteq> None \<or>
      find_window zones windows c now \<noteq> None"
    by (simp add: find_mute_def split: option.split)
  moreover have "status_at s now = Silence_active \<longleftrightarrow> sl_starts s \<le> now \<and> now < effective_end s" for s
    by (simp add: status_at_def not_less)
  moreover have "(case r of Inr st \<Rightarrow> ws_active st | Inl _ \<Rightarrow> False) \<longleftrightarrow> (\<exists>st. r = Inr st \<and> ws_active st)"
    for r :: "window_error + window_state" by (cases r) simp_all
  ultimately show ?thesis by (simp only: find_window_def found conj_assoc)
qed

section \<open>Quiet hours\<close>

record quiet_hours =
  qh_start :: string
  qh_end :: string
  qh_timezone :: string
  qh_enabled :: bool

text \<open>\<open>time.Parse\<close> with the layout \<open>15:04\<close>: one or two digits of the hour, two of the minute.\<close>

definition clock_digit :: "char \<Rightarrow> int" where
  "clock_digit c = int (of_char c) - 48"

definition get_num :: "bool \<Rightarrow> string \<Rightarrow> (int \<times> string) option" where
  "get_num fixed s =
     (case s of
        [] \<Rightarrow> None
      | c # cs \<Rightarrow>
          if \<not> is_digit c then None
          else
            (case cs of
               d # ds \<Rightarrow> if is_digit d then Some (10 * clock_digit c + clock_digit d, ds) else if fixed then None else Some (clock_digit c, cs)
             | [] \<Rightarrow> if fixed then None else Some (clock_digit c, [])))"

definition quiet_clock :: "string \<Rightarrow> int option" where
  "quiet_clock s =
     (case get_num False s of
        Some (h, c # r) \<Rightarrow>
          if c \<noteq> CHR '':'' \<or> h \<ge> 24 then None
          else (case get_num True r of Some (m, []) \<Rightarrow> if m \<ge> 60 then None else Some (60 * h + m) | _ \<Rightarrow> None)
      | _ \<Rightarrow> None)"

definition quiet_zone :: "quiet_hours \<Rightarrow> string" where
  "quiet_zone q = (if qh_timezone q = [] then ''UTC'' else qh_timezone q)"

datatype quiet_error = Bad_start | Bad_end | Empty_hours | Unknown_zone

definition quiet_validate :: "(string \<Rightarrow> zone option) \<Rightarrow> quiet_hours \<Rightarrow> quiet_error option" where
  "quiet_validate zones q =
     (case (quiet_clock (qh_start q), quiet_clock (qh_end q)) of
        (None, _) \<Rightarrow> Some Bad_start
      | (_, None) \<Rightarrow> Some Bad_end
      | (Some a, Some b) \<Rightarrow>
          if a = b then Some Empty_hours else if zones (quiet_zone q) = None then Some Unknown_zone else None)"

definition wall_minutes :: "zone \<Rightarrow> gotime \<Rightarrow> int" where
  "wall_minutes z t = wall_of z t div minute mod 1440"

definition quiet_active :: "(string \<Rightarrow> zone option) \<Rightarrow> quiet_hours \<Rightarrow> gotime \<Rightarrow> bool" where
  "quiet_active zones q t \<longleftrightarrow>
     qh_enabled q \<and>
     (case (zones (quiet_zone q), quiet_clock (qh_start q), quiet_clock (qh_end q)) of
        (Some z, Some a, Some b) \<Rightarrow>
          (let now = wall_minutes z t
           in a \<noteq> b \<and> (if a < b then now \<ge> a \<and> now < b else now \<ge> a \<or> now < b))
      | _ \<Rightarrow> False)"

lemma quiet_clock_range: "quiet_clock s = Some a \<Longrightarrow> 0 \<le> a \<and> a < 1440"
  by (auto simp: quiet_clock_def get_num_def clock_digit_def is_digit_def less_eq_char_def split: option.splits if_splits list.splits)

text \<open>The hours are a stretch of the clock that may run over midnight.\<close>

lemma quiet_active_iff:
  assumes "quiet_validate zones q = None" "qh_enabled q" "zones (quiet_zone q) = Some z"
    "quiet_clock (qh_start q) = Some a" "quiet_clock (qh_end q) = Some b"
  shows "quiet_active zones q t \<longleftrightarrow> (wall_minutes z t - a) mod 1440 < (b - a) mod 1440"
proof -
  let ?n = "wall_minutes z t"
  have n: "0 \<le> ?n" "?n < 1440" by (simp_all add: wall_minutes_def)
  have r: "0 \<le> a" "a < 1440" "0 \<le> b" "b < 1440" "a \<noteq> b"
    using assms quiet_clock_range [OF assms(4)] quiet_clock_range [OF assms(5)] by (auto simp: quiet_validate_def)
  have wrap: "(x - a) mod 1440 = (if a \<le> x then x - a else x - a + 1440)" if "0 \<le> x" "x < 1440" for x
    using that r by (auto intro: int_mod_pos_eq [where q = "-1"])
  show ?thesis using assms n r by (auto simp: quiet_active_def wrap Let_def)
qed

end
