(* ===== verification/Upgradesched.thy ===== *)
theory Upgradesched
  imports Semver Alertmute
begin

text \<open>
  Scheduled and automatic upgrades of the control plane, \<open>internal/upgradesched\<close>: the policy
  (\<open>policy.go\<close>), scheduling and the automatic policy (\<open>schedule.go\<close>), the tick that fires a schedule
  or follows a running upgrade (\<open>scheduler.go\<close>), with the rows of \<open>internal/store/upgrade_schedules.go\<close>.

  The world holds the table of schedules, the policy row, the upgrades handed to the host, the number
  of backups taken and the notices sent.  An environment gives what the host and the store answer
  during one call, errors included, the clock, and the time zones.  Times are stored as RFC 3339
  with whole seconds: a stored time is the stamp of an instant.  Reasons, decisions and notices are
  constructors where the code has texts.  The audit log, the log, \<open>updated_at\<close> and the unused
  \<open>notified_state\<close> are left out; the notifier is taken as set.

  The locale \<open>us_kept\<close> states what a property of worlds owes the store's operations to be kept by every
  operation of the scheduler.  It is interpreted on the invariant, and on a row that has ended.
\<close>

section \<open>The upgrade window and policy\<close>

record us_window =
  uw_cron :: string
  uw_duration :: duration
  uw_timezone :: string

definition window_model :: "us_window \<Rightarrow> mwindow" where
  "window_model w =
     \<lparr>mw_id = [], mw_name = ''upgrade window'', mw_cron = uw_cron w, mw_duration = uw_duration w, mw_timezone = uw_timezone w,
      mw_scope = Scope_all, mw_targets = [], mw_enabled = True\<rparr>"

definition min_window :: duration where
  "min_window = 10 * minute"

definition max_window :: duration where
  "max_window = 24 * hour"

definition window_validate :: "(string \<Rightarrow> zone option) \<Rightarrow> us_window \<Rightarrow> gotime \<Rightarrow> window_error option" where
  "window_validate zones w now =
     (if uw_duration w < min_window \<or> uw_duration w > max_window then Some Bad_duration
      else mw_validate zones (window_model w) now)"

text \<open>The opening to use: the current one, or the next one.\<close>

type_synonym span = "gotime \<times> gotime"

definition window_next :: "(string \<Rightarrow> zone option) \<Rightarrow> us_window \<Rightarrow> gotime \<Rightarrow> window_error + span option" where
  "window_next zones w now =
     (case state_at zones (window_model w) now of
        Inl e \<Rightarrow> Inl e
      | Inr st \<Rightarrow>
          if ws_active st then Inr (Some (now, ws_end st))
          else if ws_next st = zero_time then Inr None
          else Inr (Some (ws_next st, ws_next st + uw_duration w)))"

datatype upgrade_mode = Upgrades_off | Upgrades_patch | Upgrades_any | Upgrades_other string

record us_policy =
  up_mode :: upgrade_mode
  up_window :: us_window
  up_min_age :: int
  up_paused :: bool
  up_channels :: "string list"

datatype policy_refusal = Bad_mode | Bad_age | Window_required | Bad_window window_error

definition policy_validate :: "(string \<Rightarrow> zone option) \<Rightarrow> us_policy \<Rightarrow> gotime \<Rightarrow> policy_refusal option" where
  "policy_validate zones p now =
     (if (case up_mode p of Upgrades_other _ \<Rightarrow> True | _ \<Rightarrow> False) then Some Bad_mode
      else if up_min_age p < 0 \<or> up_min_age p > 90 then Some Bad_age
      else if up_mode p \<noteq> Upgrades_off \<or> uw_cron (up_window p) \<noteq> []
        then if uw_cron (up_window p) = [] then Some Window_required
             else map_option Bad_window (window_validate zones (up_window p) now)
      else None)"

definition us_policy_active :: "us_policy \<Rightarrow> bool" where
  "us_policy_active p \<longleftrightarrow> up_mode p \<noteq> Upgrades_off \<and> \<not> up_paused p"

record us_candidate =
  uc_tag :: string
  uc_published :: gotime

datatype us_verdict =
    Vd_eligible
  | Vd_not_newer
  | Vd_off
  | Vd_paused
  | Vd_no_window
  | Vd_major
  | Vd_not_patch
  | Vd_no_notes
  | Vd_breaking int
  | Vd_too_young int gotime

text \<open>\<open>fmt.Sscanf\<close> with \<open>%d.%d\<close>.\<close>

definition scan_int :: "string \<Rightarrow> (int \<times> string) option" where
  "scan_int s =
     (let s = dropWhile (\<lambda>c. is_space c \<and> c \<noteq> CHR 0x0A) s;
          (neg, s) = (case s of c # cs \<Rightarrow> if c = CHR ''-'' then (True, cs) else if c = CHR ''+'' then (False, cs) else (False, s)
                      | [] \<Rightarrow> (False, []));
          ds = takeWhile is_digit s; v = (if neg then - digits_value ds 0 else digits_value ds 0)
      in if ds = [] \<or> \<not> in_i64 v then None else Some (v, dropWhile is_digit s))"

definition major_minor :: "string \<Rightarrow> (int \<times> int) option" where
  "major_minor v =
     (let s = (case v of c # cs \<Rightarrow> if c = CHR ''v'' then cs else v | [] \<Rightarrow> [])
      in case scan_int s of
           Some (major, c # rest) \<Rightarrow>
             if c = CHR ''.'' then map_option (\<lambda>(minor, _). (major, minor)) (scan_int rest) else None
         | _ \<Rightarrow> None)"

definition crosses_major :: "string \<Rightarrow> string \<Rightarrow> bool" where
  "crosses_major current target =
     (case (major_minor current, major_minor target) of (Some c, Some t) \<Rightarrow> fst c \<noteq> fst t | _ \<Rightarrow> False)"

definition same_patch_line :: "string \<Rightarrow> string \<Rightarrow> bool" where
  "same_patch_line current target =
     (case (major_minor current, major_minor target) of (Some c, Some t) \<Rightarrow> c = t | _ \<Rightarrow> False)"

definition newer_than :: "string \<Rightarrow> string \<Rightarrow> bool" where
  "newer_than target current \<longleftrightarrow> (case semver_compare target current of Some c \<Rightarrow> 0 < c | None \<Rightarrow> False)"

definition us_eligible :: "us_policy \<Rightarrow> string \<Rightarrow> us_candidate \<Rightarrow> int \<Rightarrow> bool \<Rightarrow> gotime \<Rightarrow> us_verdict" where
  "us_eligible p current cand need_ack notes now =
     (if \<not> newer_than (uc_tag cand) current then Vd_not_newer
      else if up_mode p = Upgrades_off then Vd_off
      else if up_paused p then Vd_paused
      else if uw_cron (up_window p) = [] then Vd_no_window
      else if crosses_major current (uc_tag cand) then Vd_major
      else if up_mode p = Upgrades_patch \<and> \<not> same_patch_line current (uc_tag cand) then Vd_not_patch
      else if \<not> notes then Vd_no_notes
      else if need_ack > 0 then Vd_breaking need_ack
      else if up_min_age p > 0 \<and> uc_published cand \<noteq> zero_time \<and>
              now < uc_published cand + up_min_age p * 24 * hour
        then Vd_too_young (up_min_age p) (uc_published cand + up_min_age p * 24 * hour)
      else Vd_eligible)"

section \<open>Schedules and their store\<close>

datatype us_state = Us_pending | Us_blocked | Us_running | Us_applied | Us_failed | Us_cancelled | Us_missed

datatype us_source = Us_manual | Us_auto

datatype us_mode = Us_at | Us_window

text \<open>Why a schedule stands where it stands; the code stores the reasons as text.\<close>

datatype us_reason =
    No_reason
  | Window_ended us_reason
  | Already_runs string
  | Other_upgrade
  | Auto_turned_off
  | Release_gone
  | Edge_image
  | Release_unreadable string
  | Host_cannot string
  | Acks_missing "string list"
  | Major_unacked
  | Preflight_error string
  | Backup_failed string
  | Checks_blocked "(string \<times> string) list"
  | Start_failed string
  | Completed
  | Attempt_ended string string
  | Never_started
  | Replaced
  | Cancelled_by string

record us_row =
  us_id :: string
  us_target :: string
  us_source :: us_source
  us_mode :: us_mode
  us_run_at :: gotime
  us_retry_until :: gotime
  us_timezone :: string
  us_state :: us_state
  us_acked :: "string list"
  us_major_acked :: bool
  us_created_by :: string
  us_created_at :: gotime
  us_check_count :: int
  us_last_check_at :: gotime
  us_last_reason :: us_reason
  us_initiator :: string
  us_fired_at :: gotime
  us_finished_at :: gotime

definition us_is_active :: "us_row \<Rightarrow> bool" where
  "us_is_active r \<longleftrightarrow> us_state r \<in> {Us_pending, Us_blocked, Us_running}"

text \<open>\<open>stamp\<close> and \<open>parseStamp\<close>: RFC 3339 keeps whole seconds; an empty text reads as the zero time.\<close>

definition stamp :: "gotime \<Rightarrow> gotime" where
  "stamp t = t div second * second"

datatype us_decision =
    Dec_edge
  | Dec_held us_verdict
  | Dec_cannot_apply string
  | Dec_prior_failed
  | Dec_no_opening
  | Dec_scheduled gotime

record us_policy_row =
  pr_mode :: upgrade_mode
  pr_cron :: string
  pr_seconds :: int
  pr_timezone :: string
  pr_min_age :: int
  pr_channels :: "string list option"
  pr_paused :: bool
  pr_decision :: "(string \<times> us_decision) option"
  pr_decision_at :: gotime

text \<open>Channel ids that do not parse count as none.\<close>

definition channel_ids :: "us_policy_row \<Rightarrow> string list" where
  "channel_ids row = (case pr_channels row of Some ids \<Rightarrow> ids | None \<Rightarrow> [])"

definition row_window :: "us_policy_row \<Rightarrow> us_window" where
  "row_window row = \<lparr>uw_cron = pr_cron row, uw_duration = pr_seconds row * second, uw_timezone = pr_timezone row\<rparr>"

definition policy_from_store :: "us_policy_row \<Rightarrow> us_policy" where
  "policy_from_store row =
     \<lparr>up_mode = pr_mode row, up_window = row_window row, up_min_age = pr_min_age row, up_paused = pr_paused row,
      up_channels = channel_ids row\<rparr>"

record us_breaking =
  bc_id :: string
  bc_requires_ack :: bool

record us_plan =
  pl_breaking :: "us_breaking list"
  pl_notes :: bool
  pl_can_apply :: bool
  pl_cannot_why :: string
  pl_published :: gotime

definition missing_acks :: "us_plan \<Rightarrow> string list \<Rightarrow> string list" where
  "missing_acks p acked = map bc_id (filter (\<lambda>b. bc_requires_ack b \<and> bc_id b \<notin> set acked) (pl_breaking p))"

definition need_ack_count :: "us_plan \<Rightarrow> int" where
  "need_ack_count p = int (length (filter bc_requires_ack (pl_breaking p)))"

datatype check_status = Check_ok | Check_warn | Check_fail | Check_pending

record us_check =
  ck_name :: string
  ck_message :: string
  ck_status :: check_status
  ck_fix :: "string option"

record preflight =
  pf_checks :: "us_check list"
  pf_blocked :: bool
  pf_edge :: bool

definition check_blocks :: "us_check \<Rightarrow> bool" where
  "check_blocks c \<longleftrightarrow> ck_status c = Check_fail \<or> ck_status c = Check_pending"

definition only_backup_blocks :: "us_check list \<Rightarrow> bool" where
  "only_backup_blocks cs \<longleftrightarrow>
     (let bs = filter check_blocks cs in bs \<noteq> [] \<and> list_all (\<lambda>c. ck_fix c = Some ''backup_now'') bs)"

definition blocker_summary :: "us_check list \<Rightarrow> (string \<times> string) list" where
  "blocker_summary cs = map (\<lambda>c. (ck_name c, ck_message c)) (filter check_blocks cs)"

record us_attempt =
  at_outcome :: string
  at_error :: string

datatype latest_answer = Latest us_candidate | Latest_none | Latest_edge us_candidate | Latest_error string

datatype plan_answer = Plan us_plan | Plan_not_found | Plan_edge | Plan_error string

datatype backup_answer = Backup_taken | Backup_unavailable | Backup_error string

record us_config =
  uo_grace :: duration
  uo_retry :: duration
  uo_start_timeout :: duration
  uo_max_ahead :: duration
  uo_min_lead :: duration

definition us_default_config :: us_config where
  "us_default_config =
     \<lparr>uo_grace = 2 * hour, uo_retry = 2 * minute, uo_start_timeout = 10 * minute, uo_max_ahead = 90 * 24 * hour,
      uo_min_lead = minute\<rparr>"

definition env_duration :: "duration option \<Rightarrow> duration \<Rightarrow> duration" where
  "env_duration v d = (case v of Some x \<Rightarrow> if x > 0 then x else d | None \<Rightarrow> d)"

definition us_config_from_env ::
    "duration option \<Rightarrow> duration option \<Rightarrow> duration option \<Rightarrow> duration option \<Rightarrow> us_config" where
  "us_config_from_env grace retry start ahead =
     us_default_config\<lparr>uo_grace := env_duration grace (uo_grace us_default_config),
       uo_retry := env_duration retry (uo_retry us_default_config),
       uo_start_timeout := env_duration start (uo_start_timeout us_default_config),
       uo_max_ahead := env_duration ahead (uo_max_ahead us_default_config)\<rparr>"

text \<open>What the host and the store answer during one call.\<close>

record us_env =
  ev_now :: gotime
  ev_current :: string
  ev_new_id :: string
  ev_config :: us_config
  ev_zones :: "string \<Rightarrow> zone option"
  ev_windows :: "(string + mwindow list) option"
  ev_latest :: latest_answer
  ev_plan :: "string \<Rightarrow> plan_answer"
  ev_preflight :: "bool \<Rightarrow> string \<Rightarrow> string + preflight"
  ev_backup :: backup_answer
  ev_apply :: "string option"
  ev_running :: bool
  ev_attempt :: "string \<Rightarrow> string + us_attempt option"
  ev_active_err :: "string option"
  ev_policy_err :: "string option"
  ev_list_err :: "string option"
  ev_insert_err :: "string option"
  ev_update_err :: "us_state \<Rightarrow> string option"
  ev_decide_err :: "string option"

datatype us_notice =
    Told_upgraded string
  | Told_not_run string us_state us_reason
  | Told_blocked string us_reason gotime
  | Told_decision string us_decision

record us_apply =
  ap_id :: string
  ap_target :: string
  ap_acked :: "string list"
  ap_initiator :: string

record us_world =
  gw_rows :: "us_row list"
  gw_policy :: us_policy_row
  gw_applied :: "us_apply list"
  gw_backups :: nat
  gw_notices :: "us_notice list"

datatype us_error =
    Ue_active string
  | Ue_latest string
  | Ue_edge
  | Ue_no_latest
  | Ue_not_newer string
  | Ue_release_not_found
  | Ue_plan string
  | Ue_cannot_apply string
  | Ue_no_notes
  | Ue_needs_ack "string list"
  | Ue_needs_major_ack
  | Ue_no_time
  | Ue_in_past
  | Ue_too_far
  | Ue_windows string
  | Ue_no_window
  | Ue_nothing
  | Ue_running
  | Ue_already
  | Ue_save string
  | Ue_cancel string
  | Ue_policy string
  | Ue_mark_running string
  | Ue_record_blocked string
  | Ue_attempt string

text \<open>\<open>ActiveUpgradeSchedule\<close>: the active row created last.\<close>

fun latest_row :: "us_row list \<Rightarrow> us_row option" where
  "latest_row [] = None"
| "latest_row (r # rs) =
     (case latest_row rs of None \<Rightarrow> Some r | Some s \<Rightarrow> if us_created_at s > us_created_at r then Some s else Some r)"

definition us_active :: "us_env \<Rightarrow> us_world \<Rightarrow> string + us_row option" where
  "us_active env w =
     (case ev_active_err env of Some e \<Rightarrow> Inl e | None \<Rightarrow> Inr (latest_row (filter us_is_active (gw_rows w))))"

text \<open>\<open>InsertUpgradeSchedule\<close>: pending, unless another schedule is active; the id is the primary key.\<close>

datatype insert_result = Inserted | Another_active | Insert_error string

definition us_insert :: "us_env \<Rightarrow> us_row \<Rightarrow> us_world \<Rightarrow> insert_result \<times> us_world" where
  "us_insert env r w =
     (case ev_insert_err env of
        Some e \<Rightarrow> (Insert_error e, w)
      | None \<Rightarrow>
          if list_ex us_is_active (gw_rows w) then (Another_active, w)
          else if us_id r \<in> us_id ` set (gw_rows w) then (Insert_error ''unique id'', w)
          else
            (Inserted,
             w\<lparr>gw_rows := gw_rows w @
               [r\<lparr>us_state := Us_pending, us_timezone := (if us_timezone r = [] then ''UTC'' else us_timezone r),
                  us_check_count := 0, us_last_check_at := zero_time, us_last_reason := No_reason,
                  us_fired_at := zero_time, us_finished_at := zero_time\<rparr>]\<rparr>))"

text \<open>\<open>UpdateUpgradeSchedule\<close>: the mutable fields, only while the row is in one of the states.\<close>

definition write_row :: "us_row \<Rightarrow> us_row \<Rightarrow> us_row" where
  "write_row s r =
     r\<lparr>us_state := us_state s, us_run_at := us_run_at s, us_retry_until := us_retry_until s,
       us_check_count := us_check_count s, us_last_check_at := us_last_check_at s, us_last_reason := us_last_reason s,
       us_initiator := us_initiator s, us_fired_at := us_fired_at s, us_finished_at := us_finished_at s\<rparr>"

definition row_hit :: "us_row \<Rightarrow> us_state list \<Rightarrow> us_row \<Rightarrow> bool" where
  "row_hit s from_states r \<longleftrightarrow> us_id r = us_id s \<and> us_state r \<in> set from_states"

definition us_update :: "us_env \<Rightarrow> us_row \<Rightarrow> us_state list \<Rightarrow> us_world \<Rightarrow> (string + bool) \<times> us_world" where
  "us_update env s from_states w =
     (case ev_update_err env (us_state s) of
        Some e \<Rightarrow> (Inl e, w)
      | None \<Rightarrow>
          (Inr (list_ex (row_hit s from_states) (gw_rows w)),
           w\<lparr>gw_rows := map (\<lambda>r. if row_hit s from_states r then write_row s r else r) (gw_rows w)\<rparr>))"

text \<open>\<open>ListUpgradeSchedules\<close>: the newest first, ties by id, at most so many.\<close>

definition us_row_before :: "us_row \<Rightarrow> us_row \<Rightarrow> bool" where
  "us_row_before a b \<longleftrightarrow> us_created_at a > us_created_at b \<or> us_created_at a = us_created_at b \<and> us_id a > us_id b"

definition us_list :: "us_env \<Rightarrow> nat \<Rightarrow> us_world \<Rightarrow> string + us_row list" where
  "us_list env limit w =
     (case ev_list_err env of
        Some e \<Rightarrow> Inl e
      | None \<Rightarrow> Inr (take (if limit = 0 \<or> limit > 200 then 50 else limit) (go_sort us_row_before (gw_rows w))))"

definition us_get_policy :: "us_env \<Rightarrow> us_world \<Rightarrow> string + us_policy_row" where
  "us_get_policy env w = (case ev_policy_err env of Some e \<Rightarrow> Inl e | None \<Rightarrow> Inr (gw_policy w))"

text \<open>\<open>UpdateUpgradePolicy\<close> replaces what the operator sets and keeps the decision.\<close>

definition us_update_policy :: "us_policy_row \<Rightarrow> us_world \<Rightarrow> us_world" where
  "us_update_policy p w =
     w\<lparr>gw_policy := p\<lparr>pr_decision := pr_decision (gw_policy w), pr_decision_at := pr_decision_at (gw_policy w)\<rparr>\<rparr>"

definition tell :: "us_notice \<Rightarrow> us_world \<Rightarrow> us_world" where
  "tell n w = w\<lparr>gw_notices := gw_notices w @ [n]\<rparr>"

section \<open>Firing\<close>

text \<open>\<open>finish\<close>: a terminal state, and a notice for the operator.\<close>

definition us_finish :: "us_env \<Rightarrow> us_row \<Rightarrow> us_state \<Rightarrow> us_reason \<Rightarrow> us_state list \<Rightarrow> us_world \<Rightarrow> us_world" where
  "us_finish env sc st reason from_states w =
     (case us_update env (sc\<lparr>us_state := st, us_last_reason := reason, us_finished_at := stamp (ev_now env)\<rparr>) from_states w of
        (Inr True, w') \<Rightarrow>
          (case st of
             Us_applied \<Rightarrow> tell (Told_upgraded (us_target sc)) w'
           | Us_cancelled \<Rightarrow> w'
           | _ \<Rightarrow> tell (Told_not_run (us_target sc) st reason) w')
      | (_, w') \<Rightarrow> w')"

definition open_states :: "us_state list" where
  "open_states = [Us_pending, Us_blocked]"

text \<open>\<open>block\<close>: told once for each reason.\<close>

definition us_block ::
    "us_env \<Rightarrow> us_row \<Rightarrow> us_reason \<Rightarrow> bool \<Rightarrow> us_world \<Rightarrow> us_error option \<times> us_world" where
  "us_block env sc reason counts w =
     (case us_update env
        (sc\<lparr>us_state := Us_blocked, us_last_reason := reason, us_last_check_at := stamp (ev_now env),
            us_check_count := (if counts then us_check_count sc + 1 else us_check_count sc)\<rparr>) open_states w of
        (Inl e, w') \<Rightarrow> (Some (Ue_record_blocked e), w')
      | (Inr changed, w') \<Rightarrow>
          (None,
           if changed \<and> (us_state sc \<noteq> Us_blocked \<or> us_last_reason sc \<noteq> reason) \<and> counts
           then tell (Told_blocked (us_target sc) reason (us_retry_until sc)) w' else w'))"

definition us_launch :: "us_env \<Rightarrow> us_row \<Rightarrow> us_world \<Rightarrow> us_error option \<times> us_world" where
  "us_launch env sc w =
     (let sc = sc\<lparr>us_state := Us_running,
                  us_initiator := (if us_source sc = Us_auto then ''auto:'' else ''schedule:'') @ us_id sc,
                  us_fired_at := stamp (ev_now env), us_last_reason := No_reason\<rparr>
      in case us_update env sc open_states w of
           (Inl e, w) \<Rightarrow> (Some (Ue_mark_running e), w)
         | (Inr False, w) \<Rightarrow> (None, w)
         | (Inr True, w) \<Rightarrow>
             (let w = w\<lparr>gw_applied := gw_applied w @
                        [\<lparr>ap_id = us_id sc, ap_target = us_target sc, ap_acked = us_acked sc, ap_initiator = us_initiator sc\<rparr>]\<rparr>
              in case ev_apply env of
                   Some e \<Rightarrow> (None, us_finish env sc Us_failed (Start_failed e) [Us_running] w)
                 | None \<Rightarrow> (None, w)))"

text \<open>The preflight, with a backup first when only that is missing, and always before the launch.\<close>

definition us_backup :: "us_world \<Rightarrow> us_world" where
  "us_backup w = w\<lparr>gw_backups := gw_backups w + 1\<rparr>"

definition fire_after_backup :: "us_env \<Rightarrow> us_row \<Rightarrow> preflight \<Rightarrow> bool \<Rightarrow> us_world \<Rightarrow> us_error option \<times> us_world" where
  "fire_after_backup env sc pre backed_up w =
     (if pf_blocked pre then us_block env sc (Checks_blocked (blocker_summary (pf_checks pre))) True w
      else if backed_up then us_launch env sc w
      else
        (case ev_backup env of
           Backup_error e \<Rightarrow> us_block env sc (Backup_failed e) True w
         | Backup_unavailable \<Rightarrow> us_launch env sc w
         | Backup_taken \<Rightarrow> us_launch env sc (us_backup w)))"

definition fire_preflight :: "us_env \<Rightarrow> us_row \<Rightarrow> us_world \<Rightarrow> us_error option \<times> us_world" where
  "fire_preflight env sc w =
     (case ev_preflight env False (us_target sc) of
        Inl e \<Rightarrow> us_block env sc (Preflight_error e) True w
      | Inr pre \<Rightarrow>
          if pf_edge pre then (None, us_finish env sc Us_failed Edge_image open_states w)
          else if pf_blocked pre \<and> only_backup_blocks (pf_checks pre)
            then
              (case ev_backup env of
                 Backup_taken \<Rightarrow>
                   (case ev_preflight env True (us_target sc) of
                      Inl e \<Rightarrow> us_block env sc (Preflight_error e) True (us_backup w)
                    | Inr pre \<Rightarrow> fire_after_backup env sc pre True (us_backup w))
               | Backup_unavailable \<Rightarrow> us_block env sc (Backup_failed ''not configured'') True w
               | Backup_error e \<Rightarrow> us_block env sc (Backup_failed e) True w)
          else fire_after_backup env sc pre False w)"

definition fire_plan :: "us_env \<Rightarrow> us_row \<Rightarrow> us_world \<Rightarrow> us_error option \<times> us_world" where
  "fire_plan env sc w =
     (case ev_plan env (us_target sc) of
        Plan_not_found \<Rightarrow> (None, us_finish env sc Us_failed Release_gone open_states w)
      | Plan_edge \<Rightarrow> (None, us_finish env sc Us_failed Edge_image open_states w)
      | Plan_error e \<Rightarrow> us_block env sc (Release_unreadable e) True w
      | Plan p \<Rightarrow>
          if \<not> pl_can_apply p then (None, us_finish env sc Us_failed (Host_cannot (pl_cannot_why p)) open_states w)
          else if missing_acks p (us_acked sc) \<noteq> []
            then (None, us_finish env sc (if us_source sc = Us_auto then Us_cancelled else Us_failed)
                          (Acks_missing (missing_acks p (us_acked sc))) open_states w)
          else if crosses_major (ev_current env) (us_target sc) \<and> \<not> us_major_acked sc
            then (None, us_finish env sc Us_failed Major_unacked open_states w)
          else fire_preflight env sc w)"

definition already_runs :: "string \<Rightarrow> string \<Rightarrow> bool" where
  "already_runs current target \<longleftrightarrow> (case semver_compare current target of Some c \<Rightarrow> 0 \<le> c | None \<Rightarrow> False)"

definition maybe_fire :: "us_env \<Rightarrow> us_row \<Rightarrow> us_world \<Rightarrow> us_error option \<times> us_world" where
  "maybe_fire env sc w =
     (let now = ev_now env
      in if now < us_run_at sc then (None, w)
         else if now > us_retry_until sc
           then (None, us_finish env sc Us_missed (Window_ended (us_last_reason sc)) open_states w)
         else if us_state sc = Us_blocked \<and> us_last_check_at sc \<noteq> zero_time \<and>
                 now - us_last_check_at sc < uo_retry (ev_config env) then (None, w)
         else if already_runs (ev_current env) (us_target sc)
           then (None, us_finish env sc Us_cancelled (Already_runs (ev_current env)) open_states w)
         else if ev_running env then us_block env sc Other_upgrade False w
         else if us_source sc = Us_auto
           then
             (case us_get_policy env w of
                Inl e \<Rightarrow> (Some (Ue_policy e), w)
              | Inr row \<Rightarrow>
                  if \<not> us_policy_active (policy_from_store row)
                  then (None, us_finish env sc Us_cancelled Auto_turned_off open_states w)
                  else fire_plan env sc w)
         else fire_plan env sc w)"

definition reconcile_running :: "us_env \<Rightarrow> us_row \<Rightarrow> us_world \<Rightarrow> us_error option \<times> us_world" where
  "reconcile_running env sc w =
     (case ev_attempt env (us_initiator sc) of
        Inl e \<Rightarrow> (Some (Ue_attempt e), w)
      | Inr (Some att) \<Rightarrow>
          (None,
           if at_outcome att = ''succeeded'' then us_finish env sc Us_applied Completed [Us_running] w
           else if at_outcome att = ''running'' then w
           else us_finish env sc Us_failed (Attempt_ended (at_outcome att) (at_error att)) [Us_running] w)
      | Inr None \<Rightarrow>
          (None,
           if already_runs (ev_current env) (us_target sc) then us_finish env sc Us_applied Completed [Us_running] w
           else if us_fired_at sc \<noteq> zero_time \<and> ev_now env - us_fired_at sc > uo_start_timeout (ev_config env) \<and>
                   \<not> ev_running env
             then us_finish env sc Us_failed Never_started [Us_running] w
           else w))"

section \<open>The automatic policy\<close>

definition us_decide :: "us_env \<Rightarrow> us_policy_row \<Rightarrow> string \<Rightarrow> us_decision \<Rightarrow> bool \<Rightarrow> us_world \<Rightarrow> us_world" where
  "us_decide env row tag dec loud w =
     (if pr_decision row = Some (tag, dec) then w
      else
        (case ev_decide_err env of
           Some _ \<Rightarrow> w
         | None \<Rightarrow>
             (let w = w\<lparr>gw_policy := (gw_policy w)\<lparr>pr_decision := Some (tag, dec), pr_decision_at := stamp (ev_now env)\<rparr>\<rparr>
              in if loud then tell (Told_decision tag dec) w else w)))"

definition prior_auto_failed :: "us_env \<Rightarrow> string \<Rightarrow> us_world \<Rightarrow> bool" where
  "prior_auto_failed env tag w =
     (case us_list env 20 w of
        Inl _ \<Rightarrow> False
      | Inr rs \<Rightarrow> list_ex (\<lambda>r. us_source r = Us_auto \<and> us_target r = tag \<and> us_state r = Us_failed) rs)"

definition new_row :: "us_env \<Rightarrow> string \<Rightarrow> us_source \<Rightarrow> us_mode \<Rightarrow> gotime \<Rightarrow> gotime \<Rightarrow> string \<Rightarrow> string list \<Rightarrow> bool \<Rightarrow> string \<Rightarrow> us_row" where
  "new_row env target source mode run_at until tz acked major actor =
     \<lparr>us_id = ev_new_id env, us_target = target, us_source = source, us_mode = mode, us_run_at = stamp run_at,
      us_retry_until = stamp until, us_timezone = tz, us_state = Us_pending, us_acked = acked, us_major_acked = major,
      us_created_by = actor, us_created_at = stamp (ev_now env), us_check_count = 0, us_last_check_at = zero_time,
      us_last_reason = No_reason, us_initiator = [], us_fired_at = zero_time, us_finished_at = zero_time\<rparr>"

definition auto_schedule :: "us_env \<Rightarrow> us_policy_row \<Rightarrow> string \<Rightarrow> span \<Rightarrow> us_world \<Rightarrow> us_error option \<times> us_world" where
  "auto_schedule env row tag sp w =
     (let sc = new_row env tag Us_auto Us_window (fst sp) (snd sp) (pr_timezone row) [] False ''automatic upgrades''
      in case us_insert env sc w of
           (Another_active, w) \<Rightarrow> (None, w)
         | (Insert_error e, w) \<Rightarrow> (Some (Ue_save e), w)
         | (Inserted, w) \<Rightarrow> (None, us_decide env row tag (Dec_scheduled (us_run_at sc)) True w))"

definition consider_candidate ::
    "us_env \<Rightarrow> us_policy_row \<Rightarrow> us_candidate \<Rightarrow> us_plan \<Rightarrow> us_world \<Rightarrow> us_error option \<times> us_world" where
  "consider_candidate env row cand plan w =
     (let pol = policy_from_store row; tag = uc_tag cand;
          cand = (if uc_published cand = zero_time then cand\<lparr>uc_published := pl_published plan\<rparr> else cand);
          v = us_eligible pol (ev_current env) cand (need_ack_count plan) (pl_notes plan) (ev_now env)
      in if v \<noteq> Vd_eligible
         then (None, us_decide env row tag (Dec_held v)
                       (case v of Vd_breaking _ \<Rightarrow> True | Vd_major \<Rightarrow> True | Vd_no_notes \<Rightarrow> True | _ \<Rightarrow> False) w)
         else if \<not> pl_can_apply plan then (None, us_decide env row tag (Dec_cannot_apply (pl_cannot_why plan)) False w)
         else if prior_auto_failed env tag w then (None, us_decide env row tag Dec_prior_failed False w)
         else
           (case window_next (ev_zones env) (up_window pol) (ev_now env) of
              Inr (Some sp) \<Rightarrow> auto_schedule env row tag sp w
            | _ \<Rightarrow> (None, us_decide env row tag Dec_no_opening False w)))"

definition consider_auto :: "us_env \<Rightarrow> us_world \<Rightarrow> us_error option \<times> us_world" where
  "consider_auto env w =
     (case us_get_policy env w of
        Inl e \<Rightarrow> (Some (Ue_policy e), w)
      | Inr row \<Rightarrow>
          if pr_mode row = Upgrades_off then (None, w)
          else
            (case ev_latest env of
               Latest_edge cand \<Rightarrow> (None, us_decide env row (uc_tag cand) Dec_edge False w)
             | Latest_error e \<Rightarrow> (Some (Ue_latest e), w)
             | Latest_none \<Rightarrow> (None, w)
             | Latest cand \<Rightarrow>
                 if \<not> newer_than (uc_tag cand) (ev_current env) then (None, w)
                 else
                   (case ev_plan env (uc_tag cand) of
                      Plan_not_found \<Rightarrow> (None, w)
                    | Plan_edge \<Rightarrow> (Some Ue_edge, w)
                    | Plan_error e \<Rightarrow> (Some (Ue_plan e), w)
                    | Plan plan \<Rightarrow> consider_candidate env row cand plan w)))"

definition us_tick :: "us_env \<Rightarrow> us_world \<Rightarrow> us_error option \<times> us_world" where
  "us_tick env w =
     (case us_active env w of
        Inl e \<Rightarrow> (Some (Ue_active e), w)
      | Inr None \<Rightarrow> consider_auto env w
      | Inr (Some a) \<Rightarrow> if us_state a = Us_running then reconcile_running env a w else maybe_fire env a w)"

section \<open>Scheduling and cancelling\<close>

record us_request =
  rr_target :: string
  rr_at :: gotime
  rr_window :: bool
  rr_timezone :: string
  rr_ack :: "string list"
  rr_major_ack :: bool
  rr_replace :: bool
  rr_actor :: string

fun open_spans :: "us_env \<Rightarrow> gotime \<Rightarrow> us_window list \<Rightarrow> span list" where
  "open_spans env now [] = []"
| "open_spans env now (w # ws) =
     (case window_next (ev_zones env) w now of Inr (Some sp) \<Rightarrow> [sp] | _ \<Rightarrow> []) @ open_spans env now ws"

text \<open>\<open>NextWindow\<close>: the policy's own window, or the earliest of the alert windows that cover everything.\<close>

definition next_window :: "us_env \<Rightarrow> us_world \<Rightarrow> string + span option" where
  "next_window env w =
     (let now = ev_now env;
          own = (case us_get_policy env w of
                   Inl _ \<Rightarrow> []
                 | Inr row \<Rightarrow> if pr_cron row = [] then [] else open_spans env now [row_window row]);
          pick = (\<lambda>spans. Inr (if spans = [] then None else Some (hd (go_sort (\<lambda>a b. fst a < fst b) spans))))
      in if own \<noteq> [] then pick own
         else
           (case ev_windows env of
              None \<Rightarrow> Inr None
            | Some (Inl e) \<Rightarrow> Inl e
            | Some (Inr ms) \<Rightarrow>
                pick (open_spans env now
                  (map (\<lambda>m. \<lparr>uw_cron = mw_cron m, uw_duration = mw_duration m, uw_timezone = mw_timezone m\<rparr>)
                    (filter (\<lambda>m. mw_enabled m \<and> mw_scope m = Scope_all) ms)))))"

definition resolve_time :: "us_env \<Rightarrow> us_request \<Rightarrow> us_world \<Rightarrow> us_error + gotime \<times> gotime \<times> us_mode" where
  "resolve_time env req w =
     (let now = ev_now env; cfg = ev_config env
      in if \<not> rr_window req
         then if rr_at req = zero_time then Inl Ue_no_time
              else if rr_at req < now + uo_min_lead cfg then Inl Ue_in_past
              else if rr_at req > now + uo_max_ahead cfg then Inl Ue_too_far
              else Inr (rr_at req, rr_at req + uo_grace cfg, Us_at)
         else
           (case next_window env w of
              Inl e \<Rightarrow> Inl (Ue_windows e)
            | Inr None \<Rightarrow> Inl Ue_no_window
            | Inr (Some (a, b)) \<Rightarrow> Inr (a, b, Us_window)))"

definition cancel_active :: "us_env \<Rightarrow> us_reason \<Rightarrow> us_world \<Rightarrow> us_error option \<times> us_world" where
  "cancel_active env reason w =
     (case us_active env w of
        Inl e \<Rightarrow> (Some (Ue_active e), w)
      | Inr None \<Rightarrow> (Some Ue_nothing, w)
      | Inr (Some a) \<Rightarrow>
          if us_state a = Us_running then (Some Ue_running, w)
          else
            (case us_update env
               (a\<lparr>us_state := Us_cancelled, us_last_reason := reason, us_finished_at := stamp (ev_now env)\<rparr>) open_states w of
               (Inl e, w) \<Rightarrow> (Some (Ue_cancel e), w)
             | (Inr False, w) \<Rightarrow> (Some Ue_running, w)
             | (Inr True, w) \<Rightarrow> (None, w)))"

definition us_cancel :: "us_env \<Rightarrow> string \<Rightarrow> us_world \<Rightarrow> (us_error + us_row) \<times> us_world" where
  "us_cancel env actor w =
     (case us_active env w of
        Inl e \<Rightarrow> (Inl (Ue_active e), w)
      | Inr None \<Rightarrow> (Inl Ue_nothing, w)
      | Inr (Some a) \<Rightarrow>
          (case cancel_active env (Cancelled_by actor) w of
             (Some e, w) \<Rightarrow> (Inl e, w)
           | (None, w) \<Rightarrow> (Inr (a\<lparr>us_state := Us_cancelled\<rparr>), w)))"

definition request_target :: "us_env \<Rightarrow> us_request \<Rightarrow> us_error + string" where
  "request_target env req =
     (let target = trim_space (rr_target req)
      in if target \<noteq> [] then Inr target
         else
           (case ev_latest env of
              Latest_edge _ \<Rightarrow> Inl Ue_edge
            | Latest_error e \<Rightarrow> Inl (Ue_latest e)
            | Latest_none \<Rightarrow> Inl Ue_no_latest
            | Latest cand \<Rightarrow> Inr (uc_tag cand)))"

definition request_plan :: "us_env \<Rightarrow> us_request \<Rightarrow> us_error + string" where
  "request_plan env req =
     (case request_target env req of
        Inl e \<Rightarrow> Inl e
      | Inr target \<Rightarrow>
          if (case semver_compare target (ev_current env) of Some c \<Rightarrow> c \<le> 0 | None \<Rightarrow> False) then Inl (Ue_not_newer target)
          else
            (case ev_plan env target of
               Plan_not_found \<Rightarrow> Inl Ue_release_not_found
             | Plan_edge \<Rightarrow> Inl Ue_edge
             | Plan_error e \<Rightarrow> Inl (Ue_plan e)
             | Plan p \<Rightarrow>
                 if \<not> pl_can_apply p then Inl (Ue_cannot_apply (pl_cannot_why p))
                 else if \<not> pl_notes p then Inl Ue_no_notes
                 else if missing_acks p (rr_ack req) \<noteq> [] then Inl (Ue_needs_ack (missing_acks p (rr_ack req)))
                 else if crosses_major (ev_current env) target \<and> \<not> rr_major_ack req then Inl Ue_needs_major_ack
                 else Inr target))"

definition us_schedule :: "us_env \<Rightarrow> us_request \<Rightarrow> us_world \<Rightarrow> (us_error + us_row) \<times> us_world" where
  "us_schedule env req w =
     (case request_plan env req of
        Inl e \<Rightarrow> (Inl e, w)
      | Inr target \<Rightarrow>
          (case resolve_time env req w of
             Inl e \<Rightarrow> (Inl e, w)
           | Inr (run_at, until, mode) \<Rightarrow>
               (let sc = new_row env target Us_manual mode run_at until
                           (if rr_timezone req = [] then ''UTC'' else rr_timezone req) (rr_ack req) (rr_major_ack req) (rr_actor req);
                    (refused, w) = (if rr_replace req then cancel_active env Replaced w else (None, w))
                in if refused \<noteq> None \<and> refused \<noteq> Some Ue_nothing then (Inl (the refused), w)
                   else
                     (case us_insert env sc w of
                        (Another_active, w) \<Rightarrow> (Inl Ue_already, w)
                      | (Insert_error e, w) \<Rightarrow> (Inl (Ue_save e), w)
                      | (Inserted, w) \<Rightarrow> (Inr sc, w)))))"

section \<open>Every schedule is applied at most once\<close>

datatype us_op =
    Op_tick us_env
  | Op_schedule us_env us_request
  | Op_cancel us_env string
  | Op_policy us_policy_row

fun us_step :: "us_op \<Rightarrow> us_world \<Rightarrow> us_world" where
  "us_step (Op_tick env) w = snd (us_tick env w)"
| "us_step (Op_schedule env req) w = snd (us_schedule env req w)"
| "us_step (Op_cancel env actor) w = snd (us_cancel env actor w)"
| "us_step (Op_policy p) w = us_update_policy p w"

inductive us_reachable :: "us_world \<Rightarrow> bool" where
  us_start: "gw_rows w = [] \<Longrightarrow> gw_applied w = [] \<Longrightarrow> us_reachable w"
| us_next: "us_reachable w \<Longrightarrow> us_reachable (us_step op w)"

text \<open>Ids are unique, at most one schedule is active, and what was applied is no longer open.\<close>

definition us_inv :: "us_world \<Rightarrow> bool" where
  "us_inv w \<longleftrightarrow>
     distinct (map us_id (gw_rows w)) \<and> length (filter us_is_active (gw_rows w)) \<le> 1 \<and>
     distinct (map ap_id (gw_applied w)) \<and>
     (\<forall>a\<in>set (gw_applied w). \<exists>r\<in>set (gw_rows w). us_id r = ap_id a \<and> us_state r \<notin> set open_states)"

lemma write_row_simps [simp]:
  "us_id (write_row s r) = us_id r" "us_state (write_row s r) = us_state s"
  by (simp_all add: write_row_def)

lemma same_store: "gw_rows w' = gw_rows w \<Longrightarrow> gw_applied w' = gw_applied w \<Longrightarrow> us_inv w' \<longleftrightarrow> us_inv w"
  by (simp add: us_inv_def)

lemma tell_store [simp]: "gw_rows (tell n w) = gw_rows w" "gw_applied (tell n w) = gw_applied w" "gw_backups (tell n w) = gw_backups w"
  by (simp_all add: tell_def)

lemma backup_store [simp]: "gw_rows (us_backup w) = gw_rows w" "gw_applied (us_backup w) = gw_applied w"
  by (simp_all add: us_backup_def)

lemma decide_store [simp]:
  "gw_rows (us_decide env row tag dec loud w) = gw_rows w" "gw_applied (us_decide env row tag dec loud w) = gw_applied w"
  by (simp_all add: us_decide_def Let_def split: option.splits)

lemma inv_ids: "us_inv w \<Longrightarrow> inj_on us_id (set (gw_rows w))"
  by (simp add: us_inv_def distinct_map)

lemma inv_applied:
  "us_inv w \<Longrightarrow> a \<in> set (gw_applied w) \<Longrightarrow> \<exists>r\<in>set (gw_rows w). us_id r = ap_id a \<and> us_state r \<notin> set open_states"
  unfolding us_inv_def by blast

text \<open>An update moves open rows anywhere, and running ones to an end.\<close>

definition update_ok :: "us_row \<Rightarrow> us_state list \<Rightarrow> bool" where
  "update_ok s from_states \<longleftrightarrow>
     from_states = open_states \<or> from_states = [Us_running] \<and> us_state s \<notin> set open_states"

lemma hit_active: "update_ok s fs \<Longrightarrow> row_hit s fs r \<Longrightarrow> us_is_active r"
  by (auto simp: update_ok_def row_hit_def us_is_active_def open_states_def)

lemma update_shape:
  "us_update env s fs w = (res, w') \<Longrightarrow>
     gw_applied w' = gw_applied w \<and> gw_backups w' = gw_backups w \<and>
     (gw_rows w' = gw_rows w \<or> gw_rows w' = map (\<lambda>r. if row_hit s fs r then write_row s r else r) (gw_rows w))"
  by (auto simp: us_update_def split: option.splits)

lemma count_filter_map:
  "(\<And>x. x \<in> set xs \<Longrightarrow> P (f x) \<Longrightarrow> P x) \<Longrightarrow> length (filter P (map f xs)) \<le> length (filter P xs)"
  by (induction xs) (auto simp: le_SucI)

lemma inv_update:
  assumes "us_inv w" "update_ok s fs" "us_update env s fs w = (res, w')"
  shows "us_inv w'"
proof -
  let ?f = "\<lambda>r. if row_hit s fs r then write_row s r else r"
  note shape = update_shape [OF assms(3)]
  show ?thesis
  proof (cases "gw_rows w' = gw_rows w")
    case True
    with shape assms(1) same_store show ?thesis by blast
  next
    case False
    with shape have rows: "gw_rows w' = map ?f (gw_rows w)" and ap: "gw_applied w' = gw_applied w" by blast+
    have ids: "map us_id (gw_rows w') = map us_id (gw_rows w)" by (simp add: rows)
    have "length (filter us_is_active (gw_rows w')) \<le> length (filter us_is_active (gw_rows w))"
      unfolding rows using hit_active [OF assms(2)] by (intro count_filter_map) (auto split: if_splits)
    moreover have "\<exists>r\<in>set (gw_rows w'). us_id r = ap_id a \<and> us_state r \<notin> set open_states"
      if "a \<in> set (gw_applied w)" for a
    proof -
      from inv_applied [OF assms(1) that]
      obtain r where r: "r \<in> set (gw_rows w)" "us_id r = ap_id a" "us_state r \<notin> set open_states" by blast
      have "us_state (?f r) \<notin> set open_states"
        using r(3) assms(2) by (auto simp: update_ok_def row_hit_def)
      with r show ?thesis unfolding rows by (intro bexI [of _ "?f r"]) auto
    qed
    ultimately show ?thesis using assms(1) unfolding us_inv_def ids ap by auto
  qed
qed

lemma inv_insert:
  assumes "us_inv w" "us_insert env r w = (res, w')"
  shows "us_inv w'"
proof (cases "ev_insert_err env = None \<and> \<not> list_ex us_is_active (gw_rows w) \<and> us_id r \<notin> us_id ` set (gw_rows w)")
  case True
  have "\<exists>q. us_id q = us_id r \<and> gw_rows (snd (us_insert env r w)) = gw_rows w @ [q] \<and>
      gw_applied (snd (us_insert env r w)) = gw_applied w"
    using True by (simp add: us_insert_def)
  with assms(2) obtain q where q: "us_id q = us_id r" and w': "gw_rows w' = gw_rows w @ [q]" "gw_applied w' = gw_applied w"
    by auto
  have none: "filter us_is_active (gw_rows w) = []" using True by (simp add: filter_empty_conv list_ex_iff)
  show ?thesis
    unfolding us_inv_def w'
  proof (intro conjI ballI)
    show "distinct (map us_id (gw_rows w @ [q]))" using assms(1) True q by (simp add: us_inv_def)
    show "length (filter us_is_active (gw_rows w @ [q])) \<le> 1" by (simp add: none)
    show "distinct (map ap_id (gw_applied w))" using assms(1) by (simp add: us_inv_def)
    show "\<exists>r\<in>set (gw_rows w @ [q]). us_id r = ap_id a \<and> us_state r \<notin> set open_states" if "a \<in> set (gw_applied w)" for a
      using inv_applied [OF assms(1) that] by auto
  qed
next
  case False
  with assms show ?thesis by (auto simp: us_insert_def split: option.splits if_splits)
qed

text \<open>A launch that goes ahead finds the row open, so it was not applied before.\<close>

lemma inv_applied_now:
  assumes "us_inv w" "us_update env s open_states w = (Inr True, w')" "us_state s = Us_running" "ap_id a = us_id s"
  shows "us_inv (w'\<lparr>gw_applied := gw_applied w' @ [a]\<rparr>)"
proof -
  have inv: "us_inv w'" by (rule inv_update [OF assms(1) _ assms(2)]) (simp add: update_ok_def)
  from assms(2) have hit: "list_ex (row_hit s open_states) (gw_rows w)"
    and rows: "gw_rows w' = map (\<lambda>r. if row_hit s open_states r then write_row s r else r) (gw_rows w)"
    by (auto simp: us_update_def split: option.splits)
  from hit obtain r where r: "r \<in> set (gw_rows w)" "us_id r = us_id s" "us_state r \<in> set open_states"
    by (auto simp: list_ex_iff row_hit_def)
  have fresh: "us_id s \<notin> ap_id ` set (gw_applied w)"
  proof
    assume "us_id s \<in> ap_id ` set (gw_applied w)"
    then obtain a where "a \<in> set (gw_applied w)" "ap_id a = us_id s" by auto
    then obtain q where "q \<in> set (gw_rows w)" "us_id q = us_id s" "us_state q \<notin> set open_states"
      using inv_applied [OF assms(1)] by metis
    then have "q = r" using inj_onD [OF inv_ids [OF assms(1)], of q r] r by simp
    with r \<open>us_state q \<notin> set open_states\<close> show False by simp
  qed
  have "\<exists>r\<in>set (gw_rows w'). us_id r = us_id s \<and> us_state r \<notin> set open_states"
    using r assms(3) unfolding rows by (intro bexI [of _ "write_row s r"]) (auto simp: row_hit_def open_states_def)
  then show ?thesis using inv fresh update_shape [OF assms(2)] assms(4) by (auto simp: us_inv_def)
qed

text \<open>
  What the scheduler's operations do to the store comes down to updates, inserts and launches.  A
  property of worlds that these keep is kept by every operation.
\<close>

locale us_kept =
  fixes P :: "us_world \<Rightarrow> bool"
  assumes store: "gw_rows w' = gw_rows w \<Longrightarrow> gw_applied w' = gw_applied w \<Longrightarrow> P w' \<longleftrightarrow> P w"
    and update: "P w \<Longrightarrow> update_ok s fs \<Longrightarrow> us_update env s fs w = (res, w') \<Longrightarrow> P w'"
    and insertion: "P w \<Longrightarrow> us_insert env r w = (ins, w') \<Longrightarrow> P w'"
    and applied_now: "P w \<Longrightarrow> us_update env s open_states w = (Inr True, w') \<Longrightarrow> us_state s = Us_running \<Longrightarrow>
      ap_id a = us_id s \<Longrightarrow> P (w'\<lparr>gw_applied := gw_applied w' @ [a]\<rparr>)"
begin

lemma kept_tell [simp]: "P (tell n w) \<longleftrightarrow> P w" by (rule store) simp_all
lemma kept_backup [simp]: "P (us_backup w) \<longleftrightarrow> P w" by (rule store) simp_all
lemma kept_decide [simp]: "P (us_decide env row tag dec loud w) \<longleftrightarrow> P w" by (rule store) simp_all

lemma kept_finish:
  assumes "P w" "fs = open_states \<or> fs = [Us_running] \<and> st \<notin> set open_states"
  shows "P (us_finish env sc st reason fs w)"
proof -
  let ?s = "sc\<lparr>us_state := st, us_last_reason := reason, us_finished_at := stamp (ev_now env)\<rparr>"
  obtain res w' where u: "us_update env ?s fs w = (res, w')" by (cases "us_update env ?s fs w")
  have "update_ok ?s fs" using assms(2) by (auto simp: update_ok_def)
  with update [OF assms(1) _ u] have "P w'" by blast
  with u show ?thesis by (auto simp: us_finish_def split: sum.splits bool.splits us_state.splits)
qed

lemma kept_launch:
  assumes "P w"
  shows "P (snd (us_launch env sc w))"
proof -
  let ?s = "sc\<lparr>us_state := Us_running, us_initiator := (if us_source sc = Us_auto then ''auto:'' else ''schedule:'') @ us_id sc,
    us_fired_at := stamp (ev_now env), us_last_reason := No_reason\<rparr>"
  obtain res w' where u: "us_update env ?s open_states w = (res, w')" by (cases "us_update env ?s open_states w")
  have kept: "P w'" by (rule update [OF assms _ u]) (simp add: update_ok_def)
  show ?thesis
  proof (cases "res = Inr True")
    case True
    note applied_now [OF assms u [unfolded True]]
    with u True show ?thesis
      by (auto simp: us_launch_def Let_def open_states_def intro!: kept_finish split: option.splits)
  next
    case False
    with u kept show ?thesis by (auto simp: us_launch_def Let_def split: sum.splits bool.splits)
  qed
qed

lemma kept_block:
  assumes "P w"
  shows "P (snd (us_block env sc reason counts w))"
proof -
  let ?s = "sc\<lparr>us_state := Us_blocked, us_last_reason := reason, us_last_check_at := stamp (ev_now env),
    us_check_count := (if counts then us_check_count sc + 1 else us_check_count sc)\<rparr>"
  obtain res w' where u: "us_update env ?s open_states w = (res, w')" by (cases "us_update env ?s open_states w")
  have "P w'" by (rule update [OF assms _ u]) (simp add: update_ok_def)
  then show ?thesis unfolding us_block_def u by (simp split: sum.split)
qed

lemmas kept_intros = kept_finish kept_block kept_launch

lemma kept_fire_after_backup: "P w \<Longrightarrow> P (snd (fire_after_backup env sc pre b w))"
  by (auto simp: fire_after_backup_def intro!: kept_intros split: backup_answer.splits)

lemma kept_fire_preflight: "P w \<Longrightarrow> P (snd (fire_preflight env sc w))"
  by (auto simp: fire_preflight_def intro!: kept_intros kept_fire_after_backup split: backup_answer.splits sum.splits)

lemma kept_fire_plan: "P w \<Longrightarrow> P (snd (fire_plan env sc w))"
  by (auto simp: fire_plan_def intro!: kept_intros kept_fire_preflight split: plan_answer.splits)

lemma kept_maybe_fire: "P w \<Longrightarrow> P (snd (maybe_fire env sc w))"
  by (auto simp: maybe_fire_def Let_def intro!: kept_intros kept_fire_plan split: sum.splits)

lemma kept_running: "P w \<Longrightarrow> P (snd (reconcile_running env sc w))"
  by (auto simp: reconcile_running_def open_states_def intro!: kept_intros split: sum.splits option.splits)

lemma kept_auto_schedule:
  assumes "P w"
  shows "P (snd (auto_schedule env row tag sp w))"
proof -
  let ?r = "new_row env tag Us_auto Us_window (fst sp) (snd sp) (pr_timezone row) [] False ''automatic upgrades''"
  obtain res w' where i: "us_insert env ?r w = (res, w')" by (cases "us_insert env ?r w")
  from insertion [OF assms i] show ?thesis unfolding auto_schedule_def Let_def i by (simp split: insert_result.split)
qed

lemma kept_candidate: "P w \<Longrightarrow> P (snd (consider_candidate env row cand plan w))"
  unfolding consider_candidate_def Let_def
  by (simp add: kept_auto_schedule split: sum.split option.split)

lemma kept_consider: "P w \<Longrightarrow> P (snd (consider_auto env w))"
  unfolding consider_auto_def
  by (simp add: kept_candidate split: sum.split latest_answer.split plan_answer.split)

lemma kept_cancel:
  assumes "P w"
  shows "P (snd (cancel_active env reason w))"
proof (cases "us_active env w")
  case (Inr ro)
  show ?thesis
  proof (cases ro)
    case (Some a)
    let ?s = "a\<lparr>us_state := Us_cancelled, us_last_reason := reason, us_finished_at := stamp (ev_now env)\<rparr>"
    obtain res w' where u: "us_update env ?s open_states w = (res, w')" by (cases "us_update env ?s open_states w")
    have "P w'" by (rule update [OF assms _ u]) (simp add: update_ok_def)
    with assms show ?thesis by (simp add: cancel_active_def Inr Some u split: sum.split bool.split)
  qed (simp add: cancel_active_def Inr assms)
qed (simp add: cancel_active_def assms)

lemma kept_schedule:
  assumes "P w"
  shows "P (snd (us_schedule env req w))"
proof (cases "\<exists>target run_at until mode. request_plan env req = Inr target \<and> resolve_time env req w = Inr (run_at, until, mode)")
  case True
  then obtain target run_at until mode where r:
    "request_plan env req = Inr target" "resolve_time env req w = Inr (run_at, until, mode)" by blast
  obtain e w1 where c: "(if rr_replace req then cancel_active env Replaced w else (None, w)) = (e, w1)" by fastforce
  have inv: "P w1" using assms kept_cancel [OF assms, of env Replaced] c by (auto split: if_splits)
  let ?r = "new_row env target Us_manual mode run_at until
    (if rr_timezone req = [] then ''UTC'' else rr_timezone req) (rr_ack req) (rr_major_ack req) (rr_actor req)"
  obtain res w2 where i: "us_insert env ?r w1 = (res, w2)" by (cases "us_insert env ?r w1")
  from insertion [OF inv i] inv show ?thesis
    unfolding us_schedule_def r sum.case prod.case Let_def c i by (simp split: insert_result.split)
next
  case False
  then have "snd (us_schedule env req w) = w"
    by (cases "request_plan env req"; cases "resolve_time env req w") (auto simp: us_schedule_def)
  with assms show ?thesis by simp
qed

lemma kept_step: "P w \<Longrightarrow> P (us_step op w)"
proof (cases op)
  case (Op_tick env)
  assume "P w"
  with Op_tick show ?thesis
    by (simp add: us_tick_def kept_consider kept_running kept_maybe_fire split: sum.split option.split)
next
  case (Op_schedule env req)
  assume "P w"
  with Op_schedule show ?thesis by (simp add: kept_schedule)
next
  case (Op_cancel env actor)
  assume inv: "P w"
  obtain e w' where c: "cancel_active env (Cancelled_by actor) w = (e, w')" by fastforce
  from inv kept_cancel [OF inv, of env "Cancelled_by actor"] Op_cancel show ?thesis
    by (simp add: us_cancel_def c split: sum.split option.split)
next
  case (Op_policy p)
  assume "P w"
  with Op_policy store [of "us_update_policy p w" w] show ?thesis by (simp add: us_update_policy_def)
qed

end

interpretation invariant: us_kept us_inv
  by unfold_locales (fact same_store, fact inv_update, fact inv_insert, fact inv_applied_now)

lemma reachable_inv: "us_reachable w \<Longrightarrow> us_inv w"
  by (induction rule: us_reachable.induct) (simp_all add: invariant.kept_step, simp add: us_inv_def)

text \<open>A schedule that has ended keeps its row for good.\<close>

lemma ended_update:
  assumes "us_is_active r \<or> r \<in> set (gw_rows w)" "update_ok s fs" "us_update env s fs w = (res, w')"
  shows "us_is_active r \<or> r \<in> set (gw_rows w')"
proof (cases "us_is_active r")
  case False
  with hit_active [OF assms(2)] have "\<not> row_hit s fs r" by blast
  with assms False update_shape [OF assms(3)] show ?thesis by force
qed simp

interpretation ended: us_kept "\<lambda>w. us_is_active r \<or> r \<in> set (gw_rows w)" for r
proof
  fix w' w :: us_world
  assume "gw_rows w' = gw_rows w"
  then show "(us_is_active r \<or> r \<in> set (gw_rows w')) \<longleftrightarrow> (us_is_active r \<or> r \<in> set (gw_rows w))" by simp
next
  fix w env s w' and a :: us_apply
  assume "us_is_active r \<or> r \<in> set (gw_rows w)" "us_update env s open_states w = (Inr True, w')"
  then have "us_is_active r \<or> r \<in> set (gw_rows w')"
    using ended_update [of r w s open_states env "Inr True" w'] by (simp add: update_ok_def)
  then show "us_is_active r \<or> r \<in> set (gw_rows (w'\<lparr>gw_applied := gw_applied w' @ [a]\<rparr>))" by simp
next
  fix w env q ins w'
  assume "us_is_active r \<or> r \<in> set (gw_rows w)" "us_insert env q w = (ins, w')"
  then show "us_is_active r \<or> r \<in> set (gw_rows w')"
    by (auto simp: us_insert_def split: option.splits if_splits)
qed (fact ended_update)

lemma ended_row_kept: "r \<in> set (gw_rows w) \<Longrightarrow> \<not> us_is_active r \<Longrightarrow> r \<in> set (gw_rows (us_step op w))"
  using ended.kept_step [of r w op] by blast

text \<open>C12: no schedule is applied twice.  In every reachable world, whatever the host and the store
  answered and failed to do, each schedule was handed to the host at most once and at most one
  schedule is active; a schedule that has ended is never touched again.\<close>

theorem applied_at_most_once:
  assumes "us_reachable w"
  shows "distinct (map ap_id (gw_applied w)) \<and> length (filter us_is_active (gw_rows w)) \<le> 1 \<and>
    (\<forall>r\<in>set (gw_rows w). \<not> us_is_active r \<longrightarrow> r \<in> set (gw_rows (us_step op w)))"
  using reachable_inv [OF assms] ended_row_kept by (auto simp: us_inv_def)

section \<open>What is checked before an upgrade starts\<close>

definition launched :: "us_row \<Rightarrow> us_apply" where
  "launched sc =
     \<lparr>ap_id = us_id sc, ap_target = us_target sc, ap_acked = us_acked sc,
      ap_initiator = (if us_source sc = Us_auto then ''auto:'' else ''schedule:'') @ us_id sc\<rparr>"

lemma update_counts:
  "us_update env s fs w = (res, w') \<Longrightarrow> gw_applied w' = gw_applied w"
  "us_update env s fs w = (res, w') \<Longrightarrow> gw_backups w' = gw_backups w"
  using update_shape by blast+

lemma finish_counts [simp]:
  "gw_applied (us_finish env sc st reason fs w) = gw_applied w" "gw_backups (us_finish env sc st reason fs w) = gw_backups w"
  by (auto simp: us_finish_def update_counts split: prod.splits sum.splits bool.splits us_state.splits)

lemma block_counts [simp]:
  "gw_applied (snd (us_block env sc reason counts w)) = gw_applied w"
  by (auto simp: us_block_def update_counts split: prod.splits sum.splits)

lemma launch_counts:
  "gw_applied (snd (us_launch env sc w)) = gw_applied w \<or> gw_applied (snd (us_launch env sc w)) = gw_applied w @ [launched sc]"
  "gw_backups (snd (us_launch env sc w)) = gw_backups w"
  by (auto simp: us_launch_def Let_def launched_def update_counts split: prod.splits sum.splits bool.splits option.splits)

text \<open>The conditions a launch rests on.\<close>

definition plan_safe :: "us_env \<Rightarrow> us_row \<Rightarrow> bool" where
  "plan_safe env sc \<longleftrightarrow>
     (case ev_plan env (us_target sc) of
        Plan p \<Rightarrow> pl_can_apply p \<and> missing_acks p (us_acked sc) = [] \<and>
                  (crosses_major (ev_current env) (us_target sc) \<longrightarrow> us_major_acked sc)
      | _ \<Rightarrow> False)"

definition preflight_passes :: "us_env \<Rightarrow> us_row \<Rightarrow> bool" where
  "preflight_passes env sc \<longleftrightarrow>
     (\<exists>again pre. ev_preflight env again (us_target sc) = Inr pre \<and> \<not> pf_blocked pre)"

definition backed_up :: "us_env \<Rightarrow> us_world \<Rightarrow> us_world \<Rightarrow> bool" where
  "backed_up env w w' \<longleftrightarrow> gw_backups w' = gw_backups w + 1 \<or> ev_backup env = Backup_unavailable \<and> gw_backups w' = gw_backups w"

lemma fire_after_backup_applies:
  assumes "gw_applied (snd (fire_after_backup env sc pre b w)) \<noteq> gw_applied w"
  shows "gw_applied (snd (fire_after_backup env sc pre b w)) = gw_applied w @ [launched sc]" "\<not> pf_blocked pre"
    "b \<and> gw_backups (snd (fire_after_backup env sc pre b w)) = gw_backups w \<or>
     \<not> b \<and> backed_up env w (snd (fire_after_backup env sc pre b w))"
  using assms launch_counts [of env sc w] launch_counts [of env sc "us_backup w"]
  by (auto simp: fire_after_backup_def backed_up_def us_backup_def split: if_splits backup_answer.splits)

lemma fire_preflight_applies:
  assumes "gw_applied (snd (fire_preflight env sc w)) \<noteq> gw_applied w"
  shows "gw_applied (snd (fire_preflight env sc w)) = gw_applied w @ [launched sc] \<and> preflight_passes env sc \<and>
    backed_up env w (snd (fire_preflight env sc w))"
proof (cases "ev_preflight env False (us_target sc)")
  case (Inl e)
  with assms show ?thesis by (simp add: fire_preflight_def)
next
  case (Inr pre)
  show ?thesis
  proof (cases "pf_blocked pre \<and> only_backup_blocks (pf_checks pre)")
    case False
    with Inr assms have eq: "fire_preflight env sc w = fire_after_backup env sc pre False w"
      by (auto simp: fire_preflight_def split: if_splits)
    with fire_after_backup_applies [of env sc pre False w] assms Inr show ?thesis
      by (auto simp: preflight_passes_def)
  next
    case True
    with Inr assms obtain pre' where again: "ev_preflight env True (us_target sc) = Inr pre'"
      and eq: "fire_preflight env sc w = fire_after_backup env sc pre' True (us_backup w)"
      by (auto simp: fire_preflight_def split: if_splits backup_answer.splits sum.splits)
    with fire_after_backup_applies [of env sc pre' True "us_backup w"] assms show ?thesis
      by (auto simp: preflight_passes_def backed_up_def us_backup_def)
  qed
qed

lemma fire_plan_applies:
  assumes "gw_applied (snd (fire_plan env sc w)) \<noteq> gw_applied w"
  shows "gw_applied (snd (fire_plan env sc w)) = gw_applied w @ [launched sc] \<and> plan_safe env sc \<and>
    preflight_passes env sc \<and> backed_up env w (snd (fire_plan env sc w))"
proof -
  from assms have eq: "fire_plan env sc w = fire_preflight env sc w" and safe: "plan_safe env sc"
    by (auto simp: fire_plan_def plan_safe_def split: plan_answer.splits if_splits)
  with fire_preflight_applies [of env sc w] assms show ?thesis by simp
qed

definition due_now :: "us_env \<Rightarrow> us_row \<Rightarrow> bool" where
  "due_now env sc \<longleftrightarrow>
     us_run_at sc \<le> ev_now env \<and> ev_now env \<le> us_retry_until sc \<and> us_state sc \<in> set open_states \<and>
     \<not> already_runs (ev_current env) (us_target sc) \<and> \<not> ev_running env"

lemma maybe_fire_applies:
  assumes "gw_applied (snd (maybe_fire env sc w)) \<noteq> gw_applied w" "us_state sc \<in> set open_states"
  shows "gw_applied (snd (maybe_fire env sc w)) = gw_applied w @ [launched sc] \<and> due_now env sc \<and>
    (us_source sc = Us_auto \<longrightarrow> us_policy_active (policy_from_store (gw_policy w))) \<and> plan_safe env sc \<and>
    preflight_passes env sc \<and> backed_up env w (snd (maybe_fire env sc w))"
proof -
  from assms have eq: "maybe_fire env sc w = fire_plan env sc w" and due: "due_now env sc"
    and auto': "us_source sc = Us_auto \<longrightarrow> us_policy_active (policy_from_store (gw_policy w))"
    by (auto simp: maybe_fire_def Let_def due_now_def us_get_policy_def split: if_splits sum.splits option.splits)
  with fire_plan_applies [of env sc w] assms show ?thesis by simp
qed

lemma latest_row_mem: "latest_row rs = Some r \<Longrightarrow> r \<in> set rs"
  by (induction rs arbitrary: r) (auto split: option.splits if_splits)

lemma latest_row_None: "latest_row rs = None \<longleftrightarrow> rs = []"
  by (cases rs) (auto split: option.splits)

lemma us_active_Some: "us_active env w = Inr (Some r) \<Longrightarrow> r \<in> set (gw_rows w) \<and> us_is_active r"
  by (auto simp: us_active_def dest!: latest_row_mem split: option.splits)

lemma insert_counts: "us_insert env r w = (res, w') \<Longrightarrow> gw_applied w' = gw_applied w"
  by (auto simp: us_insert_def split: option.splits if_splits)

lemma cancel_counts: "gw_applied (snd (cancel_active env reason w)) = gw_applied w"
  by (auto simp: cancel_active_def update_counts split: sum.splits option.splits prod.splits bool.splits)

lemma consider_counts: "gw_applied (snd (consider_auto env w)) = gw_applied w"
  by (auto simp: consider_auto_def consider_candidate_def auto_schedule_def Let_def insert_counts
      split: sum.splits latest_answer.splits plan_answer.splits option.splits prod.splits insert_result.splits)

lemma running_counts: "gw_applied (snd (reconcile_running env sc w)) = gw_applied w"
  by (auto simp: reconcile_running_def split: sum.splits option.splits)

lemma schedule_counts: "gw_applied (snd (us_schedule env req w)) = gw_applied w"
proof -
  obtain e w1 where c: "(if rr_replace req then cancel_active env Replaced w else (None, w)) = (e, w1)" by fastforce
  then have "gw_applied w1 = gw_applied w" using cancel_counts [of env Replaced w] by (auto split: if_splits)
  then show ?thesis
    unfolding us_schedule_def Let_def c
    by (auto dest: insert_counts split: sum.splits prod.splits insert_result.splits)
qed

lemma us_cancel_counts: "gw_applied (snd (us_cancel env actor w)) = gw_applied w"
  using cancel_counts [of env "Cancelled_by actor" w]
  by (auto simp: us_cancel_def split: sum.splits option.splits prod.splits)


section \<open>No schedule stays active for ever\<close>

lemma single_active:
  assumes "us_inv w" "a \<in> set (gw_rows w)" "us_is_active a"
  shows "filter us_is_active (gw_rows w) = [a]"
proof -
  have "a \<in> set (filter us_is_active (gw_rows w))" using assms(2,3) by simp
  moreover have "length (filter us_is_active (gw_rows w)) \<le> 1" using assms(1) by (simp add: us_inv_def)
  ultimately show ?thesis
    by (metis (no_types, lifting) One_nat_def le_Suc_eq le_zero_eq length_0_conv length_Suc_conv list.distinct(1) list.set_cases set_ConsD)
qed

lemma active_row:
  "us_inv w \<Longrightarrow> a \<in> set (gw_rows w) \<Longrightarrow> us_is_active a \<Longrightarrow> ev_active_err env = None \<Longrightarrow> us_active env w = Inr (Some a)"
  by (simp add: us_active_def single_active)

lemma finish_ends:
  assumes "us_inv w" "a \<in> set (gw_rows w)" "us_is_active a" "us_state a \<in> set fs" "ev_update_err env st = None"
    and st: "st \<notin> {Us_pending, Us_blocked, Us_running}" and fs: "set fs \<subseteq> {Us_pending, Us_blocked, Us_running}"
  shows "(\<exists>r\<in>set (gw_rows (us_finish env a st reason fs w)). us_id r = us_id a \<and> us_state r = st) \<and>
    \<not> list_ex us_is_active (gw_rows (us_finish env a st reason fs w))"
proof -
  let ?s = "a\<lparr>us_state := st, us_last_reason := reason, us_finished_at := stamp (ev_now env)\<rparr>"
  let ?f = "\<lambda>r. if row_hit ?s fs r then write_row ?s r else r"
  have rows: "gw_rows (us_finish env a st reason fs w) = map ?f (gw_rows w)"
    using assms(5) by (auto simp: us_finish_def us_update_def split: us_state.splits bool.splits)
  have hit: "us_id (?f a) = us_id a \<and> us_state (?f a) = st" using assms(4) by (simp add: row_hit_def)
  have inactive: "\<not> us_is_active (?f r)" if "r \<in> set (gw_rows w)" for r
  proof (cases "us_is_active r")
    case True
    with that have "r \<in> set (filter us_is_active (gw_rows w))" by simp
    then have "r = a" unfolding single_active [OF assms(1-3)] by simp
    then show ?thesis using assms(4) st by (simp add: row_hit_def us_is_active_def)
  next
    case False
    then have "\<not> row_hit ?s fs r" using fs by (auto simp: row_hit_def us_is_active_def)
    with False show ?thesis by simp
  qed
  show ?thesis unfolding rows
  proof
    show "\<exists>r\<in>set (map ?f (gw_rows w)). us_id r = us_id a \<and> us_state r = st"
      using hit assms(2) by (intro bexI [of _ "?f a"]) (blast, simp only: set_map image_eqI)
    show "\<not> list_ex us_is_active (map ?f (gw_rows w))" unfolding list_ex_iff set_map using inactive by blast
  qed
qed

text \<open>C13: a schedule comes to an end.  When the store works, the next tick after the window of a
  schedule that has not fired records it as missed, and the next tick after the start timeout of one
  that fired and of which the host knows nothing records it as failed, or as applied when the control
  plane runs the release by now; nothing is active afterwards, so another upgrade can be scheduled.\<close>

theorem overdue_schedule_ends:
  assumes "us_reachable w" "a \<in> set (gw_rows w)" "us_is_active a"
    and "ev_active_err env = None" "ev_update_err env = (\<lambda>_. None)"
    and "us_state a \<noteq> Us_running \<Longrightarrow> us_run_at a \<le> ev_now env \<and> us_retry_until a < ev_now env"
    and "us_state a = Us_running \<Longrightarrow> ev_attempt env (us_initiator a) = Inr None \<and> us_fired_at a \<noteq> zero_time \<and>
      uo_start_timeout (ev_config env) < ev_now env - us_fired_at a \<and> \<not> ev_running env"
  shows "\<not> list_ex us_is_active (gw_rows (us_step (Op_tick env) w)) \<and>
    (\<exists>r\<in>set (gw_rows (us_step (Op_tick env) w)). us_id r = us_id a \<and>
       us_state r = (if us_state a \<noteq> Us_running then Us_missed
                     else if already_runs (ev_current env) (us_target a) then Us_applied else Us_failed))"
proof -
  note inv = reachable_inv [OF assms(1)]
  note act = active_row [OF inv assms(2,3,4)]
  note ends = finish_ends [OF inv assms(2,3)]
  have ok: "ev_update_err env st = None" for st by (simp add: assms(5))
  show ?thesis
  proof (cases "us_state a = Us_running")
    case True
    with assms(7) have "us_step (Op_tick env) w =
        (if already_runs (ev_current env) (us_target a) then us_finish env a Us_applied Completed [Us_running] w
         else us_finish env a Us_failed Never_started [Us_running] w)"
      by (simp add: us_tick_def act reconcile_running_def)
    with True ends [of "[Us_running]" env Us_applied Completed] ends [of "[Us_running]" env Us_failed Never_started]
    show ?thesis by (auto simp: ok)
  next
    case False
    with assms(6) have "us_step (Op_tick env) w = us_finish env a Us_missed (Window_ended (us_last_reason a)) open_states w"
      by (simp add: us_tick_def act maybe_fire_def Let_def)
    moreover have "us_state a \<in> set open_states" using assms(3) False by (auto simp: us_is_active_def open_states_def)
    ultimately show ?thesis
      using False ends [of open_states env Us_missed "Window_ended (us_last_reason a)"] by (auto simp: ok open_states_def)
  qed
qed

section \<open>Examples\<close>

definition demo_us_policy :: us_policy_row where
  "demo_us_policy =
     \<lparr>pr_mode = Upgrades_any, pr_cron = ''2 0 1,2 1 *'', pr_seconds = 3600, pr_timezone = [], pr_min_age = 0,
      pr_channels = Some [], pr_paused = False, pr_decision = None, pr_decision_at = zero_time\<rparr>"

definition demo_us_world :: us_world where
  "demo_us_world = \<lparr>gw_rows = [], gw_policy = demo_us_policy, gw_applied = [], gw_backups = 0, gw_notices = []\<rparr>"

definition demo_plan :: us_plan where
  "demo_plan = \<lparr>pl_breaking = [], pl_notes = True, pl_can_apply = True, pl_cannot_why = [], pl_published = zero_time\<rparr>"

definition demo_us_env :: "gotime \<Rightarrow> us_env" where
  "demo_us_env now =
     \<lparr>ev_now = now, ev_current = ''1.4.0'', ev_new_id = ''us_1'', ev_config = us_default_config, ev_zones = \<lambda>_. Some utc,
      ev_windows = None, ev_latest = Latest \<lparr>uc_tag = ''1.5.0'', uc_published = zero_time\<rparr>, ev_plan = \<lambda>_. Plan demo_plan,
      ev_preflight = \<lambda>_ _. Inr \<lparr>pf_checks = [], pf_blocked = False, pf_edge = False\<rparr>, ev_backup = Backup_taken,
      ev_apply = None, ev_running = False, ev_attempt = \<lambda>_. Inr None, ev_active_err = None, ev_policy_err = None,
      ev_list_err = None, ev_insert_err = None, ev_update_err = \<lambda>_. None, ev_decide_err = None\<rparr>"

definition demo_us_request :: us_request where
  "demo_us_request =
     \<lparr>rr_target = [], rr_at = 2 * hour, rr_window = False, rr_timezone = [], rr_ack = [], rr_major_ack = False,
      rr_replace = False, rr_actor = ''root''\<rparr>"

definition demo_scheduled :: us_world where
  "demo_scheduled = us_step (Op_schedule (demo_us_env hour) demo_us_request) demo_us_world"

lemma demo_scheduled_reachable: "us_reachable demo_scheduled"
  unfolding demo_scheduled_def by (intro us_next us_start) (simp_all add: demo_us_world_def)

lemma demo_scheduled_rows:
  "map (\<lambda>r. (us_id r, us_target r, us_state r, us_run_at r, us_retry_until r)) (gw_rows demo_scheduled) =
     [(''us_1'', ''1.5.0'', Us_pending, 2 * hour, 4 * hour)]"
  by code_simp


theorem applied_at_most_once_witness:
  "map ap_id (gw_applied (us_step (Op_tick (demo_us_env (3 * hour))) demo_scheduled)) = [''us_1''] \<and>
   length (filter us_is_active (gw_rows (us_step (Op_tick (demo_us_env (3 * hour))) demo_scheduled))) \<le> 1"
proof
  show "map ap_id (gw_applied (us_step (Op_tick (demo_us_env (3 * hour))) demo_scheduled)) = [''us_1'']" by code_simp
  show "length (filter us_is_active (gw_rows (us_step (Op_tick (demo_us_env (3 * hour))) demo_scheduled))) \<le> 1"
    using applied_at_most_once [OF us_next [OF demo_scheduled_reachable]] by blast
qed

theorem overdue_schedule_ends_witness:
  "\<exists>a\<in>set (gw_rows demo_scheduled). \<exists>r\<in>set (gw_rows (us_step (Op_tick (demo_us_env (5 * hour))) demo_scheduled)).
     us_id r = us_id a \<and> us_state r = Us_missed"
proof -
  obtain a where a: "gw_rows demo_scheduled = [a]"
    "(us_id a, us_target a, us_state a, us_run_at a, us_retry_until a) = (''us_1'', ''1.5.0'', Us_pending, 2 * hour, 4 * hour)"
    using demo_scheduled_rows by (auto simp: map_eq_Cons_conv)
  have "\<not> list_ex us_is_active (gw_rows (us_step (Op_tick (demo_us_env (5 * hour))) demo_scheduled)) \<and>
    (\<exists>r\<in>set (gw_rows (us_step (Op_tick (demo_us_env (5 * hour))) demo_scheduled)). us_id r = us_id a \<and>
       us_state r = (if us_state a \<noteq> Us_running then Us_missed
                     else if already_runs (ev_current (demo_us_env (5 * hour))) (us_target a) then Us_applied else Us_failed))"
    by (rule overdue_schedule_ends [OF demo_scheduled_reachable])
      (use a in \<open>auto simp: us_is_active_def demo_us_env_def duration_defs\<close>)
  with a show ?thesis by auto
qed

text \<open>An automatic schedule is not weighed again when it fires: the policy here is cut back to patch
  releases after the schedule for a minor release was made, and the release is applied.\<close>

definition demo_auto :: us_world where
  "demo_auto =
     us_step (Op_policy (demo_us_policy\<lparr>pr_mode := Upgrades_patch\<rparr>)) (us_step (Op_tick (demo_us_env hour)) demo_us_world)"

lemma stale_auto_schedule_fires:
  "us_eligible (policy_from_store (gw_policy demo_auto)) ''1.4.0'' \<lparr>uc_tag = ''1.5.0'', uc_published = zero_time\<rparr> 0 True hour = Vd_not_patch"
  "map ap_target (gw_applied (us_step (Op_tick (demo_us_env (hour + minute))) demo_auto)) = [''1.5.0'']"
  by code_simp+

text \<open>A store that cannot list the schedules hides an earlier failure.\<close>

lemma unreadable_history_hides_failure: "ev_list_err env = Some e \<Longrightarrow> \<not> prior_auto_failed env tag w"
  by (simp add: prior_auto_failed_def us_list_def)

end
