(* ===== verification/Alertnoise.thy ===== *)
theory Alertnoise
  imports Alertmute
begin

text \<open>
  The noise control between the evaluation of alert rules and their notifications
  (\<open>internal/alerting/noise.go\<close>, \<open>noise_state.go\<close>, \<open>ResolveAllowed\<close> and \<open>RecordHistory\<close> of \<open>history.go\<close>,
  \<open>quietNow\<close> of \<open>quiet_hours.go\<close>): streaks, flapping, the rate limit, groups, held alerts and the router.
  What the store, the placement and the channels answer in a call is the record \<open>noise_env\<close>.  A call is
  one step: the code takes its lock several times in it.  Where Go ranges over a map the model follows the
  order of the association list.  The texts of the notices, the identifiers of history rows and the hook on
  recorded firings are left out; every message handed to a channel is logged in \<open>nz_sent\<close>.
\<close>

section \<open>Rules, events and the state\<close>

record al_rule =
  ar_id :: string
  ar_name :: string
  ar_kind :: string
  ar_resource :: string
  ar_metric :: string
  ar_channel :: string
  ar_url :: string
  ar_severity :: string
  ar_labels :: "(string, string) gomap"
  ar_consecutive :: int
  ar_flap_threshold :: int
  ar_flap_window :: duration
  ar_pending :: "gotime option"
  ar_firing :: bool
  ar_firing_since :: "gotime option"

datatype headline = Plain | Flapping nat duration | Stable bool | Together nat

record al_event =
  ae_rule :: al_rule
  ae_resolved :: bool
  ae_headline :: headline

datatype event_name = Fired | Resolved | Flapping_begun | Flap_ended

datatype al_outcome =
    Sent
  | Silenced
  | Grouped
  | Inhibited
  | Failed string
  | Rate_limited
  | Held_flapping
  | Skipped
  | Quiet

record noise_config =
  nc_consecutive :: int
  nc_flap_threshold :: int
  nc_flap_window :: duration
  nc_group_window :: duration
  nc_rate_limit :: int
  nc_rate_window :: duration

text \<open>By default five fires in half an hour make a rule flap, and the limit is thirty notices in ten minutes.\<close>

definition default_flap_window :: duration where
  "default_flap_window = 30 * minute"

record flap_entry =
  fe_threshold :: int
  fe_window :: duration
  fe_last :: al_event

record flap_tracker =
  fl_fires :: "(string, gotime list) gomap"
  fl_flapping :: "(string, flap_entry) gomap"

record al_group =
  ag_opened :: gotime
  ag_order :: "string list"
  ag_members :: "(string, al_event) gomap"

record suppression =
  su_event :: al_event
  su_outcome :: al_outcome

record al_history =
  ah_rule :: string
  ah_resource :: string
  ah_event :: event_name
  ah_outcome :: al_outcome
  ah_at :: gotime

text \<open>A message that went out: the rules it covers, what it says, and to which target.\<close>

record al_send =
  as_rules :: "al_rule list"
  as_event :: al_event
  as_target :: string
  as_at :: gotime

record noise =
  nz_streaks :: "(string, int) gomap"
  nz_flaps :: flap_tracker
  nz_sends :: "(string, gotime list) gomap"
  nz_groups :: "(string, al_group) gomap"
  nz_suppressed :: "(string, suppression) gomap"
  nz_last_prune :: gotime
  nz_history :: "al_history list"
  nz_sent :: "al_send list"

record al_node =
  an_id :: string
  an_name :: string
  an_offline :: bool

text \<open>What the store, the placement and the channels answer during one call.\<close>

record noise_env =
  ne_cfg :: noise_config
  ne_zones :: "string \<Rightarrow> zone option"
  ne_silences :: "silence list option"
  ne_windows :: "mwindow list option"
  ne_placement :: bool
  ne_service_node :: "string \<Rightarrow> string option"
  ne_nodes :: "al_node list option"
  ne_quiet :: "(string \<Rightarrow> quiet_hours option) option"
  ne_send :: "al_event \<Rightarrow> string option"
  ne_history_err :: bool
  ne_retention :: duration

section \<open>Streaks, flapping, rate limit and groups\<close>

definition streak_apply ::
    "(string, int) gomap \<Rightarrow> al_rule \<Rightarrow> al_rule \<Rightarrow> int \<Rightarrow> gotime \<Rightarrow> al_rule \<times> (string, int) gomap" where
  "streak_apply counts prev next' need now =
     (if \<not> (ar_firing next' \<or> ar_pending next' \<noteq> None) then (next', AList.delete (ar_id next') counts)
      else if ar_firing prev then (next', counts)
      else
        (let n = (case map_of counts (ar_id next') of Some k \<Rightarrow> k | None \<Rightarrow> 0) + 1;
             counts = AList.update (ar_id next') n counts
         in if need \<le> 1 \<or> n \<ge> need then (next', counts)
            else (next'\<lparr>ar_firing := False, ar_firing_since := None,
                        ar_pending := (case ar_pending next' of None \<Rightarrow> Some now | Some t \<Rightarrow> Some t)\<rparr>, counts)))"

definition apply_streak :: "noise_env \<Rightarrow> al_rule \<Rightarrow> al_rule \<Rightarrow> gotime \<Rightarrow> noise \<Rightarrow> al_rule \<times> noise" where
  "apply_streak env prev next' now z =
     (let need = (if ar_consecutive prev = 0 then nc_consecutive (ne_cfg env) else ar_consecutive prev)
      in case streak_apply (nz_streaks z) prev next' need now of (r, counts) \<Rightarrow> (r, z\<lparr>nz_streaks := counts\<rparr>))"

definition times_of :: "(string, gotime list) gomap \<Rightarrow> string \<Rightarrow> gotime list" where
  "times_of m k = (case map_of m k of Some ts \<Rightarrow> ts | None \<Rightarrow> [])"

definition trim_before :: "gotime list \<Rightarrow> gotime \<Rightarrow> gotime list" where
  "trim_before ts cutoff = dropWhile (\<lambda>t. t < cutoff) ts"

text \<open>\<open>observe\<close>: whether the rule is flapping, and whether it has just begun.\<close>

definition flap_observe ::
    "al_event \<Rightarrow> int \<Rightarrow> duration \<Rightarrow> gotime \<Rightarrow> flap_tracker \<Rightarrow> (bool \<times> bool) \<times> flap_tracker" where
  "flap_observe ev threshold window now f =
     (if threshold \<le> 0 \<or> window \<le> 0 then ((False, False), f)
      else
        (let k = ar_id (ae_rule ev);
             ts = (if ae_resolved ev then times_of (fl_fires f) k else times_of (fl_fires f) k @ [now]);
             ts = trim_before ts (now - window);
             f = f\<lparr>fl_fires := AList.update k ts (fl_fires f)\<rparr>
         in case map_of (fl_flapping f) k of
              Some e \<Rightarrow> ((True, False), f\<lparr>fl_flapping := AList.update k (e\<lparr>fe_last := ev\<rparr>) (fl_flapping f)\<rparr>)
            | None \<Rightarrow>
                if int (length ts) > threshold
                then ((True, True),
                      f\<lparr>fl_flapping := AList.update k \<lparr>fe_threshold = threshold, fe_window = window, fe_last = ev\<rparr> (fl_flapping f)\<rparr>)
                else ((False, False), f)))"

definition fire_count :: "flap_tracker \<Rightarrow> string \<Rightarrow> nat" where
  "fire_count f k = length (times_of (fl_fires f) k)"

text \<open>\<open>sweep\<close>: the mark goes once the fires are down to half the threshold.\<close>

fun flap_calm :: "gotime \<Rightarrow> (string \<times> flap_entry) list \<Rightarrow> flap_tracker \<Rightarrow> al_event list \<times> flap_tracker" where
  "flap_calm now [] f = ([], f)"
| "flap_calm now ((k, e) # es) f =
     (let ts = trim_before (times_of (fl_fires f) k) (now - fe_window e);
          f = f\<lparr>fl_fires := AList.update k ts (fl_fires f)\<rparr>
      in if int (length ts) * 2 \<le> fe_threshold e
         then (case flap_calm now es (f\<lparr>fl_flapping := AList.delete k (fl_flapping f)\<rparr>) of (evs, f) \<Rightarrow> (fe_last e # evs, f))
         else flap_calm now es f)"

definition flap_sweep :: "gotime \<Rightarrow> flap_tracker \<Rightarrow> al_event list \<times> flap_tracker" where
  "flap_sweep now f =
     (case flap_calm now (fl_flapping f) f of
        (evs, f) \<Rightarrow>
          (evs,
           f\<lparr>fl_fires := filter (\<lambda>(k, ts). map_of (fl_flapping f) k \<noteq> None \<or>
                \<not> (ts = [] \<or> now - last ts > default_flap_window * 4)) (fl_fires f)\<rparr>))"

definition rate_ok :: "string \<Rightarrow> int \<Rightarrow> duration \<Rightarrow> gotime \<Rightarrow> (string, gotime list) gomap \<Rightarrow> bool \<times> (string, gotime list) gomap" where
  "rate_ok k limit window now sends =
     (if limit \<le> 0 \<or> window \<le> 0 then (True, sends)
      else
        (let ts = trim_before (times_of sends k) (now - window)
         in if int (length ts) \<ge> limit then (False, AList.update k ts sends) else (True, AList.update k (ts @ [now]) sends)))"

definition alert_group_add :: "string \<Rightarrow> al_event \<Rightarrow> gotime \<Rightarrow> (string, al_group) gomap \<Rightarrow> (string, al_group) gomap" where
  "alert_group_add k ev now gs =
     (let r = ar_id (ae_rule ev);
          g = (case map_of gs k of Some g \<Rightarrow> g | None \<Rightarrow> \<lparr>ag_opened = now, ag_order = [], ag_members = []\<rparr>)
      in AList.update k
           (g\<lparr>ag_order := (if map_of (ag_members g) r = None then ag_order g @ [r] else ag_order g),
              ag_members := AList.update r ev (ag_members g)\<rparr>) gs)"

text \<open>\<open>remove\<close> takes the rule out of the first group that holds it.\<close>

fun group_remove :: "string \<Rightarrow> (string, al_group) gomap \<Rightarrow> bool \<times> (string, al_group) gomap" where
  "group_remove r [] = (False, [])"
| "group_remove r ((k, g) # gs) =
     (if map_of (ag_members g) r = None
      then (case group_remove r gs of (found, gs) \<Rightarrow> (found, (k, g) # gs))
      else
        (let members = AList.delete r (ag_members g)
         in (True, if members = [] then gs else (k, g\<lparr>ag_members := members, ag_order := remove1 r (ag_order g)\<rparr>) # gs)))"

definition group_events :: "al_group \<Rightarrow> al_event list" where
  "group_events g = List.map_filter (map_of (ag_members g)) (ag_order g)"

definition group_due :: "duration \<Rightarrow> gotime \<Rightarrow> (string, al_group) gomap \<Rightarrow> al_event list list \<times> (string, al_group) gomap" where
  "group_due window now gs =
     (let early = (\<lambda>(k, g). window > 0 \<and> now - ag_opened g < window)
      in (map (\<lambda>(k, g). group_events g) (filter (\<lambda>x. \<not> early x) gs), filter early gs))"

definition combine_group :: "al_event list \<Rightarrow> al_event" where
  "combine_group evs =
     (if length evs = 1 then hd evs else (hd evs)\<lparr>ae_headline := Together (length evs)\<rparr>)"

section \<open>Routing\<close>

definition platform_kinds :: "string list" where
  "platform_kinds =
     [''cert_expiry'', ''patch_status'', ''node_disk_space'', ''node_host_guardrail'', ''node_resource_usage'', ''node_offline'',
      ''node_cert_expiring'', ''control_plane_backup_stale'', ''log_archive_stale'', ''export_behind'', ''backup_copy_behind'',
      ''registry_refresh_failing'', ''restore_drill_failed'', ''cert_expiring'', ''cert_renewal_stalled'', ''budget_threshold'',
      ''parked_domain_cert_expiry'']"

record alert_scope =
  sc_context :: alert_context
  sc_offline :: bool

definition trim_service :: "string \<Rightarrow> string" where
  "trim_service s = (if take 8 s = ''service:'' then drop 8 s else s)"

definition al_describe :: "noise_env \<Rightarrow> al_rule \<Rightarrow> alert_scope" where
  "al_describe env r =
     (let c = \<lparr>ax_rule = ar_id r, ax_kind = ar_kind r, ax_metric = ar_metric r, ax_app = [], ax_node_id = [], ax_node_name = [],
               ax_labels = ar_labels r, ax_severity = severity_or_default (ar_severity r)\<rparr>
      in if ar_kind r \<in> set platform_kinds then \<lparr>sc_context = c, sc_offline = False\<rparr>
         else
           (let app = trim_service (ar_resource r); c = c\<lparr>ax_app := app\<rparr>
            in if \<not> ne_placement env then \<lparr>sc_context = c, sc_offline = False\<rparr>
               else
                 (case ne_service_node env app of
                    None \<Rightarrow> \<lparr>sc_context = c, sc_offline = False\<rparr>
                  | Some nid \<Rightarrow>
                      if nid = [] then \<lparr>sc_context = c, sc_offline = False\<rparr>
                      else
                        (let c = c\<lparr>ax_node_id := nid\<rparr>
                         in case ne_nodes env of
                              None \<Rightarrow> \<lparr>sc_context = c, sc_offline = False\<rparr>
                            | Some nodes \<Rightarrow>
                                (case filter (\<lambda>n. an_id n = nid) nodes of
                                   [] \<Rightarrow> \<lparr>sc_context = c, sc_offline = False\<rparr>
                                 | ns \<Rightarrow> \<lparr>sc_context = c\<lparr>ax_node_name := an_name (last ns)\<rparr>, sc_offline = an_offline (last ns)\<rparr>)))))"

text \<open>A store that cannot list silences or windows mutes nothing.\<close>

definition silenced_by :: "noise_env \<Rightarrow> alert_scope \<Rightarrow> gotime \<Rightarrow> mute_hit option" where
  "silenced_by env sc now =
     find_mute (ne_zones env) (case ne_silences env of Some rows \<Rightarrow> list_active_silences rows now | None \<Rightarrow> [])
       (case ne_windows env of Some w \<Rightarrow> w | None \<Rightarrow> []) (sc_context sc) now"

definition quiet_now :: "noise_env \<Rightarrow> al_rule \<Rightarrow> gotime \<Rightarrow> bool" where
  "quiet_now env r now \<longleftrightarrow>
     (case ne_quiet env of
        None \<Rightarrow> False
      | Some hours \<Rightarrow>
          ar_channel r \<noteq> [] \<and> severity_or_default (ar_severity r) \<noteq> ''critical'' \<and>
          (case hours (ar_channel r) of None \<Rightarrow> False | Some q \<Rightarrow> quiet_active (ne_zones env) q now))"

definition target_key :: "al_rule \<Rightarrow> string" where
  "target_key r = (if ar_channel r \<noteq> [] then ''channel:'' @ ar_channel r else ''url:'' @ ar_url r)"

definition group_key :: "al_rule \<Rightarrow> string" where
  "group_key r = target_key r @ ''|'' @ ar_resource r"

definition event_name_of :: "al_event \<Rightarrow> event_name" where
  "event_name_of ev = (if ae_resolved ev then Resolved else Fired)"

text \<open>\<open>ResolveAllowed\<close>: no second resolved row, and for certificates only after a delivered firing.\<close>

fun last_lifecycle :: "al_rule \<Rightarrow> al_history list \<Rightarrow> al_history option" where
  "last_lifecycle r [] = None"
| "last_lifecycle r (h # hs) =
     (case last_lifecycle r hs of
        Some l \<Rightarrow> if ah_rule h = ar_id r \<and> ah_resource h = ar_resource r \<and> ah_event h \<in> {Fired, Resolved} \<and> ah_at h > ah_at l
                   then Some h else Some l
      | None \<Rightarrow> if ah_rule h = ar_id r \<and> ah_resource h = ar_resource r \<and> ah_event h \<in> {Fired, Resolved} then Some h else None)"

definition resolve_allowed :: "al_rule \<Rightarrow> al_history list \<Rightarrow> bool" where
  "resolve_allowed r hs =
     (case last_lifecycle r hs of
        None \<Rightarrow> ar_kind r \<noteq> ''cert_expiry''
      | Some h \<Rightarrow> ah_event h \<noteq> Resolved \<and> (ar_kind r \<noteq> ''cert_expiry'' \<or> ah_outcome h = Sent))"

definition al_record :: "noise_env \<Rightarrow> al_rule \<Rightarrow> event_name \<Rightarrow> al_outcome \<Rightarrow> gotime \<Rightarrow> noise \<Rightarrow> noise" where
  "al_record env r name out now z =
     (if ne_history_err env \<or> name = Resolved \<and> \<not> resolve_allowed r (nz_history z) then z
      else z\<lparr>nz_history := nz_history z @
               [\<lparr>ah_rule = ar_id r, ah_resource = ar_resource r, ah_event = name, ah_outcome = out, ah_at = now\<rparr>]\<rparr>)"

definition hold_if_firing :: "al_event \<Rightarrow> al_outcome \<Rightarrow> noise \<Rightarrow> noise" where
  "hold_if_firing ev out z =
     (if ae_resolved ev then z
      else z\<lparr>nz_suppressed := AList.update (ar_id (ae_rule ev)) \<lparr>su_event = ev, su_outcome = out\<rparr> (nz_suppressed z)\<rparr>)"

definition al_sent :: "al_rule list \<Rightarrow> al_event \<Rightarrow> gotime \<Rightarrow> noise \<Rightarrow> noise" where
  "al_sent rs ev now z =
     z\<lparr>nz_sent := nz_sent z @ [\<lparr>as_rules = rs, as_event = ev, as_target = target_key (ae_rule ev), as_at = now\<rparr>]\<rparr>"

definition send_now :: "noise_env \<Rightarrow> al_event \<Rightarrow> event_name \<Rightarrow> gotime \<Rightarrow> noise \<Rightarrow> noise" where
  "send_now env ev name now z =
     (let r = ae_rule ev
      in case rate_ok (target_key r) (nc_rate_limit (ne_cfg env)) (nc_rate_window (ne_cfg env)) now (nz_sends z) of
           (ok, sends) \<Rightarrow>
             (let z = z\<lparr>nz_sends := sends\<rparr>
              in if \<not> ok then al_record env r name Rate_limited now z
                 else
                   (let z = al_sent [r] ev now z
                    in case ne_send env ev of
                         Some e \<Rightarrow> al_record env r name (Failed e) now z
                       | None \<Rightarrow> al_record env r name Sent now z)))"

definition al_deliver :: "noise_env \<Rightarrow> alert_scope \<Rightarrow> al_event \<Rightarrow> event_name \<Rightarrow> gotime \<Rightarrow> noise \<Rightarrow> noise" where
  "al_deliver env sc ev name now z =
     (let r = ae_rule ev
      in if silenced_by env sc now \<noteq> None then al_record env r name Silenced now (hold_if_firing ev Silenced z)
         else if name = Fired \<and> quiet_now env r now then al_record env r name Quiet now (hold_if_firing ev Quiet z)
         else if sc_offline sc \<and> \<not> ae_resolved ev \<and> name = Fired
           then al_record env r name Inhibited now (hold_if_firing ev Inhibited z)
         else if nc_group_window (ne_cfg env) > 0 \<and> name = Fired
           then z\<lparr>nz_groups := alert_group_add (group_key r) ev now (nz_groups z)\<rparr>
         else send_now env ev name now z)"

definition al_route :: "noise_env \<Rightarrow> al_event \<Rightarrow> gotime \<Rightarrow> noise \<Rightarrow> noise" where
  "al_route env ev now z =
     (let r = ae_rule ev; k = ar_id r
      in if ae_resolved ev \<and> ar_kind r = ''cert_expiry'' \<and> \<not> ne_history_err env \<and> \<not> resolve_allowed r (nz_history z) then z
         else
           (let sc = al_describe env r;
                threshold = (if ar_flap_threshold r = 0 then nc_flap_threshold (ne_cfg env) else ar_flap_threshold r);
                window = (if ar_flap_window r = 0 then nc_flap_window (ne_cfg env) else ar_flap_window r)
            in case flap_observe ev threshold window now (nz_flaps z) of
                 ((flapping, entered), f) \<Rightarrow>
                   (let fires = fire_count f k; hold = map_of (nz_suppressed z) k;
                        z = z\<lparr>nz_flaps := f,
                              nz_suppressed := (if ae_resolved ev then AList.delete k (nz_suppressed z) else nz_suppressed z)\<rparr>;
                        (buffered, gs) = (if ae_resolved ev then group_remove k (nz_groups z) else (False, nz_groups z));
                        z = z\<lparr>nz_groups := gs\<rparr>
                    in case (if ae_resolved ev then hold else None) of
                         Some s \<Rightarrow> al_record env r Resolved (su_outcome s) now z
                       | None \<Rightarrow>
                           if ae_resolved ev \<and> buffered then al_record env r Resolved Grouped now z
                           else if entered
                             then al_deliver env sc (ev\<lparr>ae_headline := Flapping fires window\<rparr>) Flapping_begun now z
                           else if flapping then al_record env r (event_name_of ev) Held_flapping now z
                           else al_deliver env sc ev (event_name_of ev) now z)))"

text \<open>\<open>Recheck\<close> releases a held alert once nothing holds it back.\<close>

definition al_recheck :: "noise_env \<Rightarrow> al_rule \<Rightarrow> gotime \<Rightarrow> noise \<Rightarrow> noise" where
  "al_recheck env r now z =
     (case map_of (nz_suppressed z) (ar_id r) of
        None \<Rightarrow> z
      | Some hold \<Rightarrow>
          (let sc = al_describe env r
           in if silenced_by env sc now \<noteq> None then z
              else if sc_offline sc \<and> su_outcome hold = Inhibited then z
              else if quiet_now env r now then z
              else
                (let z = z\<lparr>nz_suppressed := AList.delete (ar_id r) (nz_suppressed z)\<rparr>;
                     ev = (su_event hold)\<lparr>ae_rule := r\<rparr>
                 in if nc_group_window (ne_cfg env) > 0
                    then z\<lparr>nz_groups := alert_group_add (group_key r) ev now (nz_groups z)\<rparr>
                    else send_now env ev Fired now z)))"

text \<open>A group that is due: members muted since are held, the others go out in one message.\<close>

fun drop_muted :: "noise_env \<Rightarrow> al_event list \<Rightarrow> gotime \<Rightarrow> noise \<Rightarrow> al_event list \<times> noise" where
  "drop_muted env [] now z = ([], z)"
| "drop_muted env (e # es) now z =
     (if silenced_by env (al_describe env (ae_rule e)) now = None
      then (case drop_muted env es now z of (live, z) \<Rightarrow> (e # live, z))
      else drop_muted env es now (al_record env (ae_rule e) Fired Silenced now (hold_if_firing e Silenced z)))"

definition flush_group :: "noise_env \<Rightarrow> gotime \<Rightarrow> al_event list \<Rightarrow> noise \<Rightarrow> noise" where
  "flush_group env now evs z =
     (case drop_muted env evs now z of
        (live, z) \<Rightarrow>
          if live = [] then z
          else
            (let combined = combine_group live
             in case rate_ok (target_key (ae_rule combined)) (nc_rate_limit (ne_cfg env)) (nc_rate_window (ne_cfg env)) now (nz_sends z) of
                  (ok, sends) \<Rightarrow>
                    (let z = z\<lparr>nz_sends := sends\<rparr>;
                         z = (if ok then al_sent (map ae_rule live) combined now z else z);
                         out = (if \<not> ok then Rate_limited
                                else (case ne_send env combined of
                                        Some e \<Rightarrow> Failed e
                                      | None \<Rightarrow> if length live > 1 then Grouped else Sent))
                     in fold (\<lambda>e. al_record env (ae_rule e) Fired out now) live z)))"

definition al_sweep :: "noise_env \<Rightarrow> gotime \<Rightarrow> noise \<Rightarrow> noise" where
  "al_sweep env now z =
     (let (due, gs) = group_due (nc_group_window (ne_cfg env)) now (nz_groups z);
          (ended, f) = flap_sweep now (nz_flaps z);
          prune = ne_retention env > 0 \<and> now - nz_last_prune z \<ge> hour;
          held = map (\<lambda>(_, s). ae_rule (su_event s)) (nz_suppressed z);
          z = z\<lparr>nz_groups := gs, nz_flaps := f, nz_last_prune := (if prune then now else nz_last_prune z)\<rparr>;
          z = fold (flush_group env now) due z;
          z = fold (\<lambda>r. al_recheck env r now) held z;
          z = fold (\<lambda>ev. al_deliver env (al_describe env (ae_rule ev)) (ev\<lparr>ae_headline := Stable (ae_resolved ev)\<rparr>) Flap_ended now)
                ended z
      in if prune \<and> \<not> ne_history_err env then z\<lparr>nz_history := filter (\<lambda>h. ah_at h \<ge> now - ne_retention env) (nz_history z)\<rparr> else z)"

definition al_flush_all :: "noise_env \<Rightarrow> gotime \<Rightarrow> noise \<Rightarrow> noise" where
  "al_flush_all env now z =
     (case group_due 0 now (nz_groups z) of (due, gs) \<Rightarrow> fold (flush_group env now) due (z\<lparr>nz_groups := gs\<rparr>))"

definition record_skipped :: "noise_env \<Rightarrow> al_rule \<Rightarrow> bool \<Rightarrow> gotime \<Rightarrow> noise \<Rightarrow> noise" where
  "record_skipped env r resolved now z = al_record env r (if resolved then Resolved else Fired) Skipped now z"

section \<open>What every operation keeps\<close>

definition unmuted :: "noise_env \<Rightarrow> gotime \<Rightarrow> al_rule \<Rightarrow> bool" where
  "unmuted env now r \<longleftrightarrow> silenced_by env (al_describe env r) now = None"

text \<open>One attempt to send: the rate limit, and the message when it allows one.\<close>

definition attempt :: "noise_env \<Rightarrow> gotime \<Rightarrow> al_rule list \<Rightarrow> al_event \<Rightarrow> noise \<Rightarrow> noise" where
  "attempt env now rs ev z =
     (case rate_ok (target_key (ae_rule ev)) (nc_rate_limit (ne_cfg env)) (nc_rate_window (ne_cfg env)) now (nz_sends z) of
        (ok, sends) \<Rightarrow> if ok then al_sent rs ev now (z\<lparr>nz_sends := sends\<rparr>) else z\<lparr>nz_sends := sends\<rparr>)"

lemma record_same [simp]:
  "nz_sent (al_record env r name out now z) = nz_sent z" "nz_sends (al_record env r name out now z) = nz_sends z"
  "nz_suppressed (al_record env r name out now z) = nz_suppressed z" "nz_groups (al_record env r name out now z) = nz_groups z"
  by (simp_all add: al_record_def)

lemma hold_same [simp]:
  "nz_sent (hold_if_firing ev out z) = nz_sent z" "nz_sends (hold_if_firing ev out z) = nz_sends z"
  by (simp_all add: hold_if_firing_def)

lemma records_same [simp]:
  "nz_sent (fold (\<lambda>e. al_record env (f e) name out now) es z) = nz_sent z"
  "nz_sends (fold (\<lambda>e. al_record env (f e) name out now) es z) = nz_sends z"
  by (induction es arbitrary: z) simp_all

datatype noise_op =
    No_route al_event
  | No_recheck al_rule
  | No_sweep
  | No_flush
  | No_streak al_rule al_rule
  | No_skipped al_rule bool

fun noise_step :: "noise_env \<Rightarrow> gotime \<Rightarrow> noise_op \<Rightarrow> noise \<Rightarrow> noise" where
  "noise_step env now (No_route ev) z = al_route env ev now z"
| "noise_step env now (No_recheck r) z = al_recheck env r now z"
| "noise_step env now No_sweep z = al_sweep env now z"
| "noise_step env now No_flush z = al_flush_all env now z"
| "noise_step env now (No_streak prev next') z = snd (apply_streak env prev next' now z)"
| "noise_step env now (No_skipped r res) z = record_skipped env r res now z"

lemma pair_keeps: "(\<And>a b. P (s a b)) \<Longrightarrow> P (case v of (a, b) \<Rightarrow> s a b)"
  by (cases v) simp

lemma if_keeps: "P a \<Longrightarrow> P b \<Longrightarrow> P (if c then a else b)"
  by simp

lemma option_keeps: "P n \<Longrightarrow> (\<And>x. P (s x)) \<Longrightarrow> P (case v of None \<Rightarrow> n | Some x \<Rightarrow> s x)"
  by (simp split: option.split)

text \<open>
  The operations of the router change what was sent only by attempts for rules that nothing mutes; a
  property that those keep is kept by all of them.
\<close>

locale noise_kept =
  fixes env :: noise_env and now :: gotime and P :: "noise \<Rightarrow> bool"
  assumes same: "nz_sent z' = nz_sent z \<Longrightarrow> nz_sends z' = nz_sends z \<Longrightarrow> P z' \<longleftrightarrow> P z"
    and tried: "P z \<Longrightarrow> rs \<noteq> [] \<Longrightarrow> (\<And>r. r \<in> set rs \<Longrightarrow> unmuted env now r) \<Longrightarrow> P (attempt env now rs ev z)"
begin

lemma kept_record [simp]: "P (al_record env' r name out t z) \<longleftrightarrow> P z"
  by (rule same) simp_all

lemma kept_hold [simp]: "P (hold_if_firing ev out z) \<longleftrightarrow> P z"
  by (rule same) simp_all

lemma kept_fields [simp]:
  "P (z\<lparr>nz_groups := gs\<rparr>) \<longleftrightarrow> P z" "P (z\<lparr>nz_flaps := f\<rparr>) \<longleftrightarrow> P z" "P (z\<lparr>nz_suppressed := s\<rparr>) \<longleftrightarrow> P z"
  "P (z\<lparr>nz_last_prune := t\<rparr>) \<longleftrightarrow> P z" "P (z\<lparr>nz_history := h\<rparr>) \<longleftrightarrow> P z" "P (z\<lparr>nz_streaks := c\<rparr>) \<longleftrightarrow> P z"
  by (rule same; simp)+

lemma kept_send_now: "P z \<Longrightarrow> unmuted env now (ae_rule ev) \<Longrightarrow> P (send_now env ev name now z)"
proof -
  assume "P z" "unmuted env now (ae_rule ev)"
  then have "P (attempt env now [ae_rule ev] ev z)" by (intro tried) simp_all
  then show ?thesis by (auto simp: attempt_def send_now_def Let_def split: prod.splits option.splits if_splits)
qed

lemma kept_deliver: "P z \<Longrightarrow> sc = al_describe env (ae_rule ev) \<Longrightarrow> P (al_deliver env sc ev name now z)"
  by (auto simp: al_deliver_def Let_def unmuted_def intro!: kept_send_now)

lemma kept_route:
  assumes "P z"
  shows "P (al_route env ev now z)"
proof -
  let ?r = "ae_rule ev"
  obtain flapping entered f where f:
    "flap_observe ev (if ar_flap_threshold ?r = 0 then nc_flap_threshold (ne_cfg env) else ar_flap_threshold ?r)
       (if ar_flap_window ?r = 0 then nc_flap_window (ne_cfg env) else ar_flap_window ?r) now (nz_flaps z) =
     ((flapping, entered), f)" by (metis prod.exhaust)
  show ?thesis
    unfolding al_route_def Let_def f prod.case
    by (intro if_keeps [where P = P] option_keeps [where P = P] pair_keeps [where P = P] assms) (simp_all add: assms kept_deliver)
qed

lemma kept_recheck: "P z \<Longrightarrow> P (al_recheck env r now z)"
  by (auto simp: al_recheck_def Let_def unmuted_def split: option.split intro!: kept_send_now)

lemma drop_muted_kept:
  "drop_muted env es now z = (live, z') \<Longrightarrow> P z \<Longrightarrow> P z' \<and> (\<forall>e\<in>set live. unmuted env now (ae_rule e))"
  by (induction es arbitrary: z live z') (auto simp: unmuted_def split: if_splits prod.splits)

lemma kept_flush: "P z \<Longrightarrow> P (flush_group env now evs z)"
proof -
  assume P: "P z"
  obtain live z1 where d: "drop_muted env evs now z = (live, z1)" by fastforce
  from drop_muted_kept [OF d P] have z1: "P z1" and live: "\<forall>e\<in>set live. unmuted env now (ae_rule e)" by blast+
  show ?thesis
  proof (cases "live = []")
    case True
    with d z1 show ?thesis by (simp add: flush_group_def)
  next
    case False
    with z1 live have "P (attempt env now (map ae_rule live) (combine_group live) z1)" by (intro tried) auto
    moreover have "P (flush_group env now evs z) \<longleftrightarrow> P (attempt env now (map ae_rule live) (combine_group live) z1)"
      by (rule same) (simp_all add: flush_group_def d False attempt_def Let_def split: prod.split)
    ultimately show ?thesis by simp
  qed
qed

lemma kept_fold: "(\<And>x z. P z \<Longrightarrow> P (f x z)) \<Longrightarrow> P z \<Longrightarrow> P (fold f xs z)"
  by (induction xs arbitrary: z) simp_all

lemma kept_sweep: "P z \<Longrightarrow> P (al_sweep env now z)"
  by (auto simp: al_sweep_def Let_def split: prod.split intro!: kept_fold kept_flush kept_recheck kept_deliver)

lemma kept_flush_all: "P z \<Longrightarrow> P (al_flush_all env now z)"
  by (auto simp: al_flush_all_def split: prod.split intro!: kept_fold kept_flush)

lemma kept_step: "P z \<Longrightarrow> P (noise_step env now op z)"
  by (cases op)
    (auto simp: apply_streak_def record_skipped_def split: prod.split
      intro: kept_route kept_recheck kept_sweep kept_flush_all)

end

section \<open>Nothing muted goes out\<close>

definition sent_since :: "noise_env \<Rightarrow> gotime \<Rightarrow> al_send list \<Rightarrow> noise \<Rightarrow> bool" where
  "sent_since env now before z \<longleftrightarrow>
     (\<exists>new. nz_sent z = before @ new \<and> (\<forall>s\<in>set new. as_at s = now \<and> (\<forall>r\<in>set (as_rules s). unmuted env now r)))"

lemma attempt_sent:
  "nz_sent (attempt env now rs ev z) = nz_sent z \<or>
   nz_sent (attempt env now rs ev z) =
     nz_sent z @ [\<lparr>as_rules = rs, as_event = ev, as_target = target_key (ae_rule ev), as_at = now\<rparr>]"
  by (simp add: attempt_def al_sent_def split: prod.split)

lemma sent_since_attempt:
  assumes "sent_since env now before z" "\<And>r. r \<in> set rs \<Longrightarrow> unmuted env now r"
  shows "sent_since env now before (attempt env now rs ev z)"
  using attempt_sent [of env now rs ev z]
proof
  assume "nz_sent (attempt env now rs ev z) = nz_sent z"
  with assms(1) show ?thesis by (simp add: sent_since_def)
next
  let ?s = "\<lparr>as_rules = rs, as_event = ev, as_target = target_key (ae_rule ev), as_at = now\<rparr>"
  assume sent: "nz_sent (attempt env now rs ev z) = nz_sent z @ [?s]"
  from assms(1) obtain new where "nz_sent z = before @ new"
    "\<forall>s\<in>set new. as_at s = now \<and> (\<forall>r\<in>set (as_rules s). unmuted env now r)" unfolding sent_since_def by blast
  with sent assms(2) have "nz_sent (attempt env now rs ev z) = before @ (new @ [?s])"
    "\<forall>s\<in>set (new @ [?s]). as_at s = now \<and> (\<forall>r\<in>set (as_rules s). unmuted env now r)" by auto
  then show ?thesis unfolding sent_since_def by blast
qed

interpretation muting: noise_kept env now "sent_since env now before" for env now before
proof
  show "sent_since env now before z' \<longleftrightarrow> sent_since env now before z"
    if "nz_sent z' = nz_sent z" "nz_sends z' = nz_sends z" for z z' using that by (simp add: sent_since_def)
  show "sent_since env now before (attempt env now rs ev z)"
    if "sent_since env now before z" "rs \<noteq> []" "\<And>r. r \<in> set rs \<Longrightarrow> unmuted env now r" for z rs ev
    using that by (intro sent_since_attempt)
qed

lemma step_sent: "sent_since env now (nz_sent z) (noise_step env now op z)"
  by (rule muting.kept_step) (simp add: sent_since_def)

section \<open>The rate limit\<close>

definition sends_to :: "string \<Rightarrow> noise \<Rightarrow> gotime list" where
  "sends_to k z = map as_at (filter (\<lambda>s. as_target s = k) (nz_sent z))"

definition in_window :: "gotime \<Rightarrow> duration \<Rightarrow> gotime list \<Rightarrow> nat" where
  "in_window t w ts = length (filter (\<lambda>x. t - w \<le> x \<and> x \<le> t) ts)"

text \<open>
  What the limiter keeps of a target is the end of the sends to it, from some time that is out of the
  window on.
\<close>

definition rate_inv :: "int \<Rightarrow> duration \<Rightarrow> gotime \<Rightarrow> noise \<Rightarrow> bool" where
  "rate_inv limit w now z \<longleftrightarrow> (limit > 0 \<and> w > 0 \<longrightarrow>
     (\<forall>k. sorted (sends_to k z) \<and> (\<forall>t\<in>set (sends_to k z). t \<le> now) \<and>
          (\<exists>c. c \<le> now - w \<and> times_of (nz_sends z) k = trim_before (sends_to k z) c) \<and>
          (\<forall>t. int (in_window t w (sends_to k z)) \<le> limit)))"

lemma trim_trim: "c \<le> d \<Longrightarrow> trim_before (trim_before ts c) d = trim_before ts d"
  unfolding trim_before_def by (induction ts) auto

lemma trim_filter: "sorted ts \<Longrightarrow> trim_before ts c = filter (\<lambda>t. c \<le> t) ts"
  unfolding trim_before_def by (induction ts) (auto simp: not_less intro!: filter_True [symmetric])

lemma trim_snoc: "c \<le> t \<Longrightarrow> trim_before (ts @ [t]) c = trim_before ts c @ [t]"
  unfolding trim_before_def by (induction ts) auto

lemma times_of_update: "times_of (AList.update k ts m) k' = (if k' = k then ts else times_of m k')"
  by (simp add: times_of_def update_conv')

lemma window_snoc:
  assumes "sorted ts" "\<forall>x\<in>set ts. x \<le> now" "\<And>t. int (in_window t w ts) \<le> limit"
    "int (length (trim_before ts (now - w))) < limit" "w > 0"
  shows "int (in_window t w (ts @ [now])) \<le> limit"
proof (cases "t < now")
  case True
  then show ?thesis using assms(3) [of t] by (simp add: in_window_def)
next
  case False
  have "filter (\<lambda>x. t - w \<le> x \<and> x \<le> t) ts = filter (\<lambda>x. t - w \<le> x \<and> x \<le> t) (filter (\<lambda>x. now - w \<le> x) ts)"
    using False unfolding filter_filter by (intro filter_cong) auto
  then have "in_window t w ts \<le> length (filter (\<lambda>x. now - w \<le> x) ts)"
    unfolding in_window_def by (metis length_filter_le)
  then have "in_window t w ts \<le> length (trim_before ts (now - w))" using assms(1) by (simp add: trim_filter)
  moreover have "in_window t w (ts @ [now]) \<le> in_window t w ts + 1" by (simp add: in_window_def)
  ultimately show ?thesis using assms(4) by linarith
qed

lemma rate_later: "rate_inv limit w now z \<Longrightarrow> now \<le> later \<Longrightarrow> rate_inv limit w later z"
  unfolding rate_inv_def by (meson diff_mono order_refl order_trans)

lemma rate_attempt:
  fixes env :: noise_env
  defines "limit \<equiv> nc_rate_limit (ne_cfg env)" and "w \<equiv> nc_rate_window (ne_cfg env)"
  assumes inv: "rate_inv limit w now z"
  shows "rate_inv limit w now (attempt env now rs ev z)"
proof (cases "limit > 0 \<and> w > 0")
  case False
  then show ?thesis by (auto simp: rate_inv_def)
next
  case True
  let ?k = "target_key (ae_rule ev)"
  let ?ts = "trim_before (sends_to ?k z) (now - w)"
  note at = inv [unfolded rate_inv_def, rule_format, OF True]
  have trimmed: "trim_before (times_of (nz_sends z) ?k) (now - w) = ?ts"
    using at [of ?k] by (metis trim_trim)
  show ?thesis
  proof (cases "int (length ?ts) \<ge> limit")
    case full: True
    have z': "attempt env now rs ev z = z\<lparr>nz_sends := AList.update ?k ?ts (nz_sends z)\<rparr>"
      using True full trimmed by (auto simp: attempt_def rate_ok_def limit_def w_def Let_def)
    show ?thesis unfolding rate_inv_def
    proof (intro impI allI)
      fix k
      show "sorted (sends_to k (attempt env now rs ev z)) \<and>
          (\<forall>t\<in>set (sends_to k (attempt env now rs ev z)). t \<le> now) \<and>
          (\<exists>c\<le>now - w. times_of (nz_sends (attempt env now rs ev z)) k = trim_before (sends_to k (attempt env now rs ev z)) c) \<and>
          (\<forall>t. int (in_window t w (sends_to k (attempt env now rs ev z))) \<le> limit)"
        using at [of k] unfolding z' by (cases "k = ?k") (auto simp: sends_to_def times_of_update)
    qed
  next
    case free: False
    have z': "attempt env now rs ev z = al_sent rs ev now (z\<lparr>nz_sends := AList.update ?k (?ts @ [now]) (nz_sends z)\<rparr>)"
      using True free trimmed by (auto simp: attempt_def rate_ok_def limit_def w_def Let_def)
    have to: "sends_to k (attempt env now rs ev z) = (if k = ?k then sends_to k z @ [now] else sends_to k z)" for k
      by (simp add: z' sends_to_def al_sent_def)
    have kept: "times_of (nz_sends (attempt env now rs ev z)) k = (if k = ?k then ?ts @ [now] else times_of (nz_sends z) k)" for k
      by (simp add: z' al_sent_def times_of_update)
    show ?thesis unfolding rate_inv_def
    proof (intro impI allI)
      fix k
      show "sorted (sends_to k (attempt env now rs ev z)) \<and>
          (\<forall>t\<in>set (sends_to k (attempt env now rs ev z)). t \<le> now) \<and>
          (\<exists>c\<le>now - w. times_of (nz_sends (attempt env now rs ev z)) k = trim_before (sends_to k (attempt env now rs ev z)) c) \<and>
          (\<forall>t. int (in_window t w (sends_to k (attempt env now rs ev z))) \<le> limit)"
      proof (cases "k = ?k")
        case False
        with at [of k] show ?thesis by (simp add: to kept)
      next
        case k: True
        have "int (in_window t w (sends_to ?k z @ [now])) \<le> limit" for t
          using at [of ?k] free True by (intro window_snoc) auto
        moreover have "trim_before (sends_to ?k z @ [now]) (now - w) = ?ts @ [now]" using True by (simp add: trim_snoc)
        ultimately show ?thesis using at [of ?k] unfolding k to kept by (auto simp: sorted_append intro: exI [of _ "now - w"])
      qed
    qed
  qed
qed

interpretation rate: noise_kept env now "rate_inv (nc_rate_limit (ne_cfg env)) (nc_rate_window (ne_cfg env)) now" for env now
proof
  show "rate_inv (nc_rate_limit (ne_cfg env)) (nc_rate_window (ne_cfg env)) now z' \<longleftrightarrow>
      rate_inv (nc_rate_limit (ne_cfg env)) (nc_rate_window (ne_cfg env)) now z"
    if "nz_sent z' = nz_sent z" "nz_sends z' = nz_sends z" for z z' using that by (simp add: rate_inv_def sends_to_def)
qed (rule rate_attempt)

text \<open>Runs of the controller: any operations, on a clock that does not go back, under one rate limit.\<close>

definition noise_start :: "gotime \<Rightarrow> noise" where
  "noise_start t =
     \<lparr>nz_streaks = [], nz_flaps = \<lparr>fl_fires = [], fl_flapping = []\<rparr>, nz_sends = [], nz_groups = [], nz_suppressed = [],
      nz_last_prune = t, nz_history = [], nz_sent = []\<rparr>"

inductive noise_reach :: "int \<Rightarrow> duration \<Rightarrow> gotime \<Rightarrow> noise \<Rightarrow> bool" for limit w where
  reach_start: "noise_reach limit w now (noise_start t)"
| reach_step: "noise_reach limit w now z \<Longrightarrow> now \<le> later \<Longrightarrow> nc_rate_limit (ne_cfg env) = limit \<Longrightarrow>
    nc_rate_window (ne_cfg env) = w \<Longrightarrow> noise_reach limit w later (noise_step env later op z)"

lemma reach_rate: "noise_reach limit w now z \<Longrightarrow> rate_inv limit w now z"
proof (induction rule: noise_reach.induct)
  case (reach_start now t)
  show ?case by (auto simp: rate_inv_def noise_start_def sends_to_def times_of_def trim_before_def in_window_def
      intro: exI [of _ "now - w"])
next
  case (reach_step now z later env op)
  from rate.kept_step [of env later z op] rate_later [OF reach_step.IH reach_step.hyps(2)] reach_step.hyps(3,4)
  show ?case by simp
qed

section \<open>Streaks\<close>

definition condition_holds :: "al_rule \<Rightarrow> bool" where
  "condition_holds r \<longleftrightarrow> ar_firing r \<or> ar_pending r \<noteq> None"

definition streak_ticks ::
    "int \<Rightarrow> (al_rule \<times> al_rule \<times> gotime) list \<Rightarrow> (string, int) gomap \<Rightarrow> (string, int) gomap" where
  "streak_ticks need ticks counts = fold (\<lambda>(prev, next', now) c. snd (streak_apply c prev next' need now)) ticks counts"

definition streak_of :: "(string, int) gomap \<Rightarrow> string \<Rightarrow> int" where
  "streak_of counts k = (case map_of counts k of Some n \<Rightarrow> n | None \<Rightarrow> 0)"

text \<open>The last ticks in a row on which the condition held.\<close>

definition trailing :: "(al_rule \<times> al_rule \<times> gotime) list \<Rightarrow> int" where
  "trailing ticks = int (length (takeWhile (\<lambda>(_, next', _). condition_holds next') (rev ticks)))"

lemma streak_apply_count:
  "\<not> ar_firing prev \<Longrightarrow> streak_of (snd (streak_apply counts prev next' need now)) (ar_id next') =
    (if condition_holds next' then streak_of counts (ar_id next') + 1 else 0)"
  by (auto simp: streak_apply_def streak_of_def condition_holds_def Let_def update_conv' delete_conv')

lemma streak_apply_fires:
  "\<not> ar_firing prev \<Longrightarrow> ar_firing (fst (streak_apply counts prev next' need now)) \<longleftrightarrow>
    ar_firing next' \<and> (need \<le> 1 \<or> streak_of counts (ar_id next') + 1 \<ge> need)"
  by (auto simp: streak_apply_def streak_of_def Let_def)

lemma streak_ticks_count:
  assumes "\<And>prev next' now. (prev, next', now) \<in> set ticks \<Longrightarrow> ar_id next' = k \<and> \<not> ar_firing prev"
    and "streak_of counts k = 0"
  shows "streak_of (streak_ticks need ticks counts) k = trailing ticks"
  using assms(1)
proof (induction ticks rule: rev_induct)
  case Nil
  then show ?case by (simp add: streak_ticks_def trailing_def assms(2))
next
  case (snoc x ticks)
  obtain prev next' now where x: "x = (prev, next', now)" by (cases x) auto
  from snoc.prems [of prev next' now] x have k: "ar_id next' = k" "\<not> ar_firing prev" by auto
  have "streak_of (streak_ticks need ticks counts) k = trailing ticks"
    using snoc.prems by (intro snoc.IH) auto
  then show ?case
    using streak_apply_count [OF k(2), of "streak_ticks need ticks counts" next' need now] k(1)
    by (simp add: x streak_ticks_def trailing_def)
qed

section \<open>Held alerts\<close>

lemma hold_suppressed:
  "map_of (nz_suppressed (hold_if_firing ev out z)) k =
    (if \<not> ae_resolved ev \<and> k = ar_id (ae_rule ev) then Some \<lparr>su_event = ev, su_outcome = out\<rparr> else map_of (nz_suppressed z) k)"
  by (simp add: hold_if_firing_def update_conv')

lemma silenced_is_held:
  assumes "silenced_by env sc now \<noteq> None" "\<not> ae_resolved ev"
  shows "map_of (nz_suppressed (al_deliver env sc ev name now z)) (ar_id (ae_rule ev)) = Some \<lparr>su_event = ev, su_outcome = Silenced\<rparr>"
    "nz_sent (al_deliver env sc ev name now z) = nz_sent z"
  using assms by (simp_all add: al_deliver_def Let_def hold_suppressed)

lemma recheck_sends:
  assumes "map_of (nz_suppressed z) (ar_id r) = Some hold" "unmuted env now r" "\<not> quiet_now env r now"
    "\<not> (sc_offline (al_describe env r) \<and> su_outcome hold = Inhibited)" "nc_group_window (ne_cfg env) \<le> 0"
    "fst (rate_ok (target_key r) (nc_rate_limit (ne_cfg env)) (nc_rate_window (ne_cfg env)) now (nz_sends z))"
  shows "nz_sent (al_recheck env r now z) =
      nz_sent z @ [\<lparr>as_rules = [r], as_event = (su_event hold)\<lparr>ae_rule := r\<rparr>, as_target = target_key r, as_at = now\<rparr>]"
    "map_of (nz_suppressed (al_recheck env r now z)) (ar_id r) = None"
proof -
  obtain sends where ok: "rate_ok (target_key r) (nc_rate_limit (ne_cfg env)) (nc_rate_window (ne_cfg env)) now (nz_sends z) = (True, sends)"
    using assms(6) by (metis prod.collapse)
  show "nz_sent (al_recheck env r now z) =
      nz_sent z @ [\<lparr>as_rules = [r], as_event = (su_event hold)\<lparr>ae_rule := r\<rparr>, as_target = target_key r, as_at = now\<rparr>]"
    "map_of (nz_suppressed (al_recheck env r now z)) (ar_id r) = None"
    using assms by (simp_all add: al_recheck_def send_now_def ok unmuted_def al_sent_def Let_def delete_conv' split: option.split)
qed

text \<open>A resolved event of a held alert sends nothing: the firing never went out.\<close>

lemma resolved_while_held:
  assumes "ae_resolved ev" "map_of (nz_suppressed z) (ar_id (ae_rule ev)) = Some hold"
    "ar_kind (ae_rule ev) \<noteq> ''cert_expiry''"
  shows "nz_sent (al_route env ev now z) = nz_sent z"
    "map_of (nz_suppressed (al_route env ev now z)) (ar_id (ae_rule ev)) = None"
  using assms by (simp_all add: al_route_def Let_def delete_conv' split: prod.split)

section \<open>Properties\<close>

definition silences_hit :: "noise_env \<Rightarrow> silence list \<Rightarrow> al_rule \<Rightarrow> gotime \<Rightarrow> bool" where
  "silences_hit env rows r now \<longleftrightarrow>
     (\<exists>s\<in>set rows. sl_starts s \<le> now \<and> now < effective_end s \<and> matcher_matches (sl_matchers s) (sc_context (al_describe env r)))"

definition windows_hit :: "noise_env \<Rightarrow> mwindow list \<Rightarrow> al_rule \<Rightarrow> gotime \<Rightarrow> bool" where
  "windows_hit env windows r now \<longleftrightarrow>
     (\<exists>w\<in>set windows. mw_enabled w \<and> mw_covers w (sc_context (al_describe env r)) \<and>
        (\<exists>st. state_at (ne_zones env) w now = Inr st \<and> ws_active st))"

lemma unmuted_iff:
  assumes "ne_silences env = Some rows" "length rows \<le> 1000" "ne_windows env = Some windows"
  shows "unmuted env now r \<longleftrightarrow> \<not> silences_hit env rows r now \<and> \<not> windows_hit env windows r now"
proof -
  have "silenced_by env (al_describe env r) now \<noteq> None \<longleftrightarrow> silences_hit env rows r now \<or> windows_hit env windows r now"
    unfolding silenced_by_def muted_iff silences_hit_def windows_hit_def
    by (auto simp: assms active_silences [OF assms(2)] status_at_def not_less)
  then show ?thesis unfolding unmuted_def by blast
qed


definition demo_rule :: "string \<Rightarrow> al_rule" where
  "demo_rule app =
     \<lparr>ar_id = ''rule-'' @ app, ar_name = app, ar_kind = ''threshold'', ar_resource = ''service:'' @ app, ar_metric = ''cpu'',
      ar_channel = ''ops'', ar_url = [], ar_severity = ''warning'', ar_labels = [], ar_consecutive = 0, ar_flap_threshold = 0,
      ar_flap_window = 0, ar_pending = None, ar_firing = True, ar_firing_since = None\<rparr>"

definition demo_event :: "string \<Rightarrow> al_event" where
  "demo_event app = \<lparr>ae_rule = demo_rule app, ae_resolved = False, ae_headline = Plain\<rparr>"

definition demo_silence :: silence where
  "demo_silence =
     \<lparr>sl_id = ''sil_1'',
      sl_matchers = \<lparr>sm_rules = [], sm_kinds = [], sm_apps = [''WEB''], sm_nodes = [], sm_labels = [], sm_severities = [],
                     sm_metrics = []\<rparr>,
      sl_starts = 0, sl_ends = 100, sl_expired = None\<rparr>"

definition demo_env :: "noise_env" where
  "demo_env =
     \<lparr>ne_cfg = \<lparr>nc_consecutive = 0, nc_flap_threshold = 5, nc_flap_window = 1800, nc_group_window = 0, nc_rate_limit = 2,
                nc_rate_window = 10\<rparr>,
      ne_zones = (\<lambda>_. None), ne_silences = Some [demo_silence], ne_windows = Some [], ne_placement = False,
      ne_service_node = (\<lambda>_. None), ne_nodes = None, ne_quiet = None, ne_send = (\<lambda>_. None), ne_history_err = False,
      ne_retention = 0\<rparr>"

lemma demo_sent:
  "nz_sent (noise_step demo_env 50 (No_route (demo_event ''web'')) (noise_start 0)) = []"
  "nz_sent (noise_step demo_env 50 (No_route (demo_event ''api'')) (noise_start 0)) =
    [\<lparr>as_rules = [demo_rule ''api''], as_event = demo_event ''api'', as_target = ''channel:ops'', as_at = 50\<rparr>]"
  by code_simp+


text \<open>
  C15: under a positive limit and window, however the operations of the controller are interleaved, no
  target is sent more messages than the limit within a window of time that ends at any moment.
\<close>

theorem sends_rate_bounded:
  assumes "noise_reach limit w now z" "limit > 0" "w > 0"
  shows "int (length (filter (\<lambda>s. as_target s = k \<and> t - w \<le> as_at s \<and> as_at s \<le> t) (nz_sent z))) \<le> limit"
proof -
  have "int (in_window t w (sends_to k z)) \<le> limit"
    using reach_rate [OF assms(1)] assms(2,3) by (simp add: rate_inv_def)
  then show ?thesis by (simp add: in_window_def sends_to_def filter_map o_def conj_commute conj_left_commute)
qed

lemma demo_reach: "noise_reach 2 10 50 (noise_step demo_env 50 (No_route (demo_event ''api'')) (noise_start 0))"
  by (rule reach_step [OF reach_start, of 0]) (simp_all add: demo_env_def)

lemma sends_rate_bounded_witness:
  "int (length (filter (\<lambda>s. as_target s = ''channel:ops'' \<and> 55 - 10 \<le> as_at s \<and> as_at s \<le> 55)
     (nz_sent (noise_step demo_env 50 (No_route (demo_event ''api'')) (noise_start 0))))) \<le> 2"
  by (rule sends_rate_bounded [OF demo_reach]) simp_all



text \<open>
  C40: a rule that is not firing starts to fire exactly when its evaluation fires and the condition has
  held on the required number of ticks in a row, this one included.
\<close>

theorem fires_after_streak:
  assumes "\<And>p n t. (p, n, t) \<in> set ticks \<Longrightarrow> ar_id n = ar_id next' \<and> \<not> ar_firing p"
    and "\<not> ar_firing prev" "streak_of counts (ar_id next') = 0"
  shows "ar_firing (fst (streak_apply (streak_ticks need ticks counts) prev next' need now)) \<longleftrightarrow>
    ar_firing next' \<and> (need \<le> 1 \<or> trailing (ticks @ [(prev, next', now)]) \<ge> need)"
proof -
  have "streak_of (streak_ticks need ticks counts) (ar_id next') = trailing ticks"
    using assms(1,3) by (rule streak_ticks_count)
  moreover have "trailing (ticks @ [(prev, next', now)]) = (if condition_holds next' then trailing ticks + 1 else 0)"
    by (simp add: trailing_def)
  ultimately show ?thesis
    using streak_apply_fires [OF assms(2)] by (auto simp: condition_holds_def)
qed

lemma fires_after_streak_witness:
  "\<not> ar_firing (fst (streak_apply [] (demo_rule ''web'' \<lparr>ar_firing := False\<rparr>) (demo_rule ''web'') 2 0)) \<and>
   ar_firing (fst (streak_apply (streak_ticks 2 [(demo_rule ''web'' \<lparr>ar_firing := False\<rparr>, demo_rule ''web'', 0)] [])
     (demo_rule ''web'' \<lparr>ar_firing := False\<rparr>) (demo_rule ''web'') 2 1))"
  using fires_after_streak [of "[]" "demo_rule ''web''" "demo_rule ''web'' \<lparr>ar_firing := False\<rparr>" "[]" 2 0]
    fires_after_streak [of "[(demo_rule ''web'' \<lparr>ar_firing := False\<rparr>, demo_rule ''web'', 0)]" "demo_rule ''web''"
      "demo_rule ''web'' \<lparr>ar_firing := False\<rparr>" "[]" 2 1]
  by (simp add: streak_of_def streak_ticks_def trailing_def condition_holds_def demo_rule_def)

end
